(* ===== verification/Prelude.thy ===== *)
theory Prelude
  imports Main "HOL-Library.Word" "HOL-Library.Monad_Syntax"
begin

text \<open>
  Shared vocabulary of the development: the machine integers of \<^verbatim>\<open>include/types.h\<close>, the
  alignment macros, little-endian fields, byte objects that fault when an access leaves them,
  and the lemma collections the component theories extend.

  A computation that the C standard leaves undefined (a wild or NULL access, a page fault taken
  by the kernel itself) is the value \<^term>\<open>None\<close>; every other behaviour is a value under
  \<^term>\<open>Some\<close>, error returns included.  The do-notation is the library's, on \<^typ>\<open>'a option\<close>.
\<close>

unbundle bit_operations_syntax

named_theorems frame_simps \<open>fields that an operation leaves alone\<close>
named_theorems word_nat \<open>rules that move word arithmetic to the naturals\<close>
named_theorems queue_simps \<open>pointer fields and sizes after queue operations\<close>

type_synonym u8 = "8 word"
type_synonym u16 = "16 word"
type_synonym u32 = "32 word"
type_synonym u64 = "64 word"

section \<open>Constants and macros of types.h\<close>

abbreviation (input) PAGE_SIZE :: u32 where "PAGE_SIZE \<equiv> 0x1000"

definition align_up :: "'a::len word \<Rightarrow> 'a word \<Rightarrow> 'a word" where
  "align_up x a = (x + (a - 1)) AND NOT (a - 1)"

definition align_down :: "'a::len word \<Rightarrow> 'a word \<Rightarrow> 'a word" where
  "align_down x a = x AND NOT (a - 1)"

text \<open>Aligning to a power of two is rounding on the naturals.\<close>

lemma align_down_unat:
  "unat (align_down x (2 ^ k :: 'a::len word)) = unat x - unat x mod 2 ^ k"
proof -
  have split: "push_bit k (drop_bit k x) + take_bit k x = x"
    by (rule bits_ident)
  have "x AND NOT (mask k) = push_bit k (drop_bit k x)"
    by (rule bit_word_eqI) (auto simp: bit_simps)
  also have "\<dots> = x - take_bit k x"
    using split by (simp add: eq_diff_eq)
  finally have eq: "x AND NOT (mask k) = x - take_bit k x" .
  have take: "unat (take_bit k x) = unat x mod 2 ^ k"
    by (simp add: unsigned_take_bit_eq flip: take_bit_eq_mod)
  then have "take_bit k x \<le> x"
    by (simp add: word_le_nat_alt)
  then show ?thesis
    using take by (simp add: align_down_def eq unat_sub flip: mask_eq_exp_minus_1)
qed

lemma unat_add_nowrap [word_nat]:
  "unat a + unat b < 2 ^ LENGTH('a) \<Longrightarrow> unat (a + b :: 'a::len word) = unat a + unat b"
  by (simp add: unat_word_ariths)

lemma unat_mult_nowrap [word_nat]:
  "unat a * unat b < 2 ^ LENGTH('a) \<Longrightarrow> unat (a * b :: 'a::len word) = unat a * unat b"
  by (simp add: unat_word_ariths)

lemma unat_diff_nowrap [word_nat]:
  "unat b \<le> unat a \<Longrightarrow> unat (a - b :: 'a::len word) = unat a - unat b"
  by (rule unat_sub) (simp add: word_le_nat_alt)

lemma unat_of_nat_small [word_nat]:
  "n < 2 ^ LENGTH('a) \<Longrightarrow> unat (of_nat n :: 'a::len word) = n"
  by (simp add: unat_of_nat)

lemma of_nat_inj_small:
  "\<lbrakk> m < 2 ^ LENGTH('a); n < 2 ^ LENGTH('a) \<rbrakk>
    \<Longrightarrow> (of_nat m :: 'a::len word) = of_nat n \<longleftrightarrow> m = n"
  by (metis unat_of_nat_small)

lemma unat_lt: "unat (x :: 'a::len word) < 2 ^ LENGTH('a)"
  by simp

lemma unat_ucast_small [word_nat]:
  "unat x < 2 ^ LENGTH('b) \<Longrightarrow> unat (ucast (x :: 'a::len word) :: 'b::len word) = unat x"
  by (simp add: unsigned_ucast_eq take_bit_nat_eq_self)

lemma unat_ucast_u64 [simp]: "unat (ucast (x :: u32) :: u64) = unat x"
proof -
  have "unat x < 2 ^ 64" using unat_lt [of x] by simp
  then show ?thesis by (simp add: unat_ucast_small)
qed

lemma unat_exp: "k < LENGTH('a) \<Longrightarrow> unat (2 ^ k :: 'a::len word) = 2 ^ k"
  using unat_of_nat_small [of "2 ^ k", where 'a = 'a] by simp

lemma align_up_unat:
  assumes "unat x + (2 ^ k - 1) < 2 ^ LENGTH('a)" and "k < LENGTH('a)"
  shows "unat (align_up x (2 ^ k :: 'a::len word)) = (unat x + (2 ^ k - 1)) div 2 ^ k * 2 ^ k"
proof -
  have one: "unat (2 ^ k - 1 :: 'a word) = 2 ^ k - 1"
    using assms(2) by (simp add: unat_diff_nowrap unat_exp)
  have "align_up x (2 ^ k) = align_down (x + (2 ^ k - 1)) (2 ^ k)"
    by (simp add: align_up_def align_down_def)
  then have "unat (align_up x (2 ^ k)) =
      unat (x + (2 ^ k - 1)) - unat (x + (2 ^ k - 1)) mod 2 ^ k"
    by (simp only: align_down_unat)
  also have "unat (x + (2 ^ k - 1)) = unat x + (2 ^ k - 1)"
    using assms one by (subst unat_add_nowrap) auto
  finally show ?thesis
    by (simp add: minus_mod_eq_div_mult)
qed

section \<open>Byte objects\<close>

text \<open>
  An object of the C program (an array, a structure seen as bytes) is the list of its bytes.
  \<open>obj_read\<close> and \<open>blit\<close> are the byte copies \<^verbatim>\<open>memcpy\<close> makes between two distinct objects;
  they fault when the copy leaves either object.
\<close>

definition obj_read :: "'b list \<Rightarrow> nat \<Rightarrow> nat \<Rightarrow> 'b list option" where
  "obj_read xs off n = (if off + n \<le> length xs then Some (take n (drop off xs)) else None)"

definition blit :: "'b list \<Rightarrow> nat \<Rightarrow> 'b list \<Rightarrow> 'b list option" where
  "blit xs off ys =
     (if off + length ys \<le> length xs
      then Some (take off xs @ ys @ drop (off + length ys) xs) else None)"

definition obj_set :: "'b list \<Rightarrow> nat \<Rightarrow> 'b \<Rightarrow> 'b list option" where
  "obj_set xs i b = (if i < length xs then Some (xs[i := b]) else None)"

definition obj_get :: "'b list \<Rightarrow> nat \<Rightarrow> 'b option" where
  "obj_get xs i = (if i < length xs then Some (xs ! i) else None)"

lemma blit_length: "blit xs off ys = Some zs \<Longrightarrow> length zs = length xs"
  by (auto simp: blit_def split: if_splits)

lemma blit_nth:
  assumes "blit xs off ys = Some zs" and "i < length xs"
  shows "zs ! i = (if off \<le> i \<and> i < off + length ys then ys ! (i - off) else xs ! i)"
  using assms by (auto simp: blit_def nth_append split: if_splits)

lemma take_drop_nth_eq:
  "\<lbrakk> length xs = length ys; off + n \<le> length xs;
     \<And>i. \<lbrakk> off \<le> i; i < off + n \<rbrakk> \<Longrightarrow> xs ! i = ys ! i \<rbrakk>
    \<Longrightarrow> take n (drop off xs) = take n (drop off ys)"
  by (rule nth_equalityI) auto

lemma blit_read_same:
  "blit xs off ys = Some zs \<Longrightarrow> take (length ys) (drop off zs) = ys"
  by (auto simp: blit_def split: if_splits)

lemma blit_read_other:
  assumes "blit xs off ys = Some zs" and "i + n \<le> off \<or> off + length ys \<le> i"
    and "i + n \<le> length xs"
  shows "take n (drop i zs) = take n (drop i xs)"
proof (rule take_drop_nth_eq)
  show len: "length zs = length xs"
    using assms(1) by (rule blit_length)
  show "i + n \<le> length zs"
    using assms(3) len by simp
  fix j assume "i \<le> j" "j < i + n"
  then show "zs ! j = xs ! j"
    using assms blit_nth [OF assms(1), of j] by auto
qed

text \<open>A counted loop: the body for each index in turn, stopping at a fault.\<close>

fun for_each :: "('i \<Rightarrow> 's \<Rightarrow> 's option) \<Rightarrow> 'i list \<Rightarrow> 's \<Rightarrow> 's option" where
  "for_each f [] s = Some s"
| "for_each f (i # is) s = do { s' \<leftarrow> f i s; for_each f is s' }"

lemma for_each_append:
  "for_each f (xs @ ys) s = do { s' \<leftarrow> for_each f xs s; for_each f ys s' }"
  by (induction f xs s rule: for_each.induct) (auto split: Option.bind_splits)

lemma for_each_snoc: "for_each f (xs @ [x]) s = do { s' \<leftarrow> for_each f xs s; f x s' }"
  by (auto simp: for_each_append split: Option.bind_splits)

section \<open>Little-endian fields\<close>

text \<open>A 32-bit field of a packed structure is four bytes, least significant first.\<close>

definition bytes_of_u32 :: "u32 \<Rightarrow> u8 list" where
  "bytes_of_u32 w = [ucast w, ucast (drop_bit 8 w), ucast (drop_bit 16 w), ucast (drop_bit 24 w)]"

definition u32_of_bytes :: "u8 \<Rightarrow> u8 \<Rightarrow> u8 \<Rightarrow> u8 \<Rightarrow> u32" where
  "u32_of_bytes b0 b1 b2 b3 =
     ucast b0 OR push_bit 8 (ucast b1) OR push_bit 16 (ucast b2) OR push_bit 24 (ucast b3)"

lemma bytes_of_u32_length [simp]: "length (bytes_of_u32 w) = 4"
  by (simp add: bytes_of_u32_def)

lemma bytes_of_u32_nth [simp]:
  "bytes_of_u32 w ! 0 = ucast w" "bytes_of_u32 w ! Suc 0 = ucast (drop_bit 8 w)"
  "bytes_of_u32 w ! 2 = ucast (drop_bit 16 w)" "bytes_of_u32 w ! 3 = ucast (drop_bit 24 w)"
  by (simp_all add: bytes_of_u32_def numeral_2_eq_2 numeral_3_eq_3)

lemma u32_of_bytes_inverse [simp]:
  "u32_of_bytes (ucast w) (ucast (drop_bit 8 w)) (ucast (drop_bit 16 w)) (ucast (drop_bit 24 w)) = w"
proof (rule bit_word_eqI)
  fix n :: nat
  assume "n < LENGTH(32)"
  then consider "n < 8" | "8 \<le> n" "n < 16" | "16 \<le> n" "n < 24" | "24 \<le> n" "n < 32"
    by fastforce
  then show "bit (u32_of_bytes (ucast w) (ucast (drop_bit 8 w)) (ucast (drop_bit 16 w))
      (ucast (drop_bit 24 w))) n = bit w n"
    by cases (auto simp: u32_of_bytes_def bit_simps)
qed

end
