(* ===== verification/Queue.thy ===== *)
theory Queue
  imports Prelude
begin

text \<open>
  \<^verbatim>\<open>lib/src/queue.c\<close> and \<^verbatim>\<open>include/queue.h\<close>: intrusive doubly linked queues with a sentinel.
  Nodes and queues live in an explicit store, so that a node that sits in one queue while it is
  pushed to another is the same node.  Pointers are options, \<^term>\<open>None\<close> is \<^verbatim>\<open>NULL\<close>; an
  operation that dereferences \<^verbatim>\<open>NULL\<close> is \<^term>\<open>None\<close> as a whole.  The second half relates the
  store to one abstract list per queue and shows that every operation refines its list version.
\<close>

section \<open>Data\<close>

record ('n, 'q) queue_node =
  nd_prev :: "'n option"
  nd_next :: "'n option"
  nd_q :: "'q option"

text \<open>The sentinel's \<^verbatim>\<open>prev\<close> is the tail of the queue, its \<^verbatim>\<open>next\<close> the head.\<close>

record 'n queue =
  q_prev :: "'n option"
  q_next :: "'n option"
  q_size :: u32

record ('n, 'q) qstore =
  qnode :: "'n \<Rightarrow> ('n, 'q) queue_node"
  qhead :: "'q \<Rightarrow> 'n queue"

definition upd_node ::
  "'n \<Rightarrow> (('n, 'q) queue_node \<Rightarrow> ('n, 'q) queue_node) \<Rightarrow> ('n, 'q) qstore \<Rightarrow> ('n, 'q) qstore" where
  "upd_node n f s = s\<lparr>qnode := (qnode s)(n := f (qnode s n))\<rparr>"

definition upd_queue ::
  "'q \<Rightarrow> ('n queue \<Rightarrow> 'n queue) \<Rightarrow> ('n, 'q) qstore \<Rightarrow> ('n, 'q) qstore" where
  "upd_queue q f s = s\<lparr>qhead := (qhead s)(q := f (qhead s q))\<rparr>"

lemma upd_sel [queue_simps]:
  "qnode (upd_node n f s) = (qnode s)(n := f (qnode s n))"
  "qhead (upd_node n f s) = qhead s"
  "qnode (upd_queue q g s) = qnode s"
  "qhead (upd_queue q g s) = (qhead s)(q := g (qhead s q))"
  by (simp_all add: upd_node_def upd_queue_def)

section \<open>Operations\<close>

definition queue_init :: "'q option \<Rightarrow> ('n, 'q) qstore \<Rightarrow> ('n, 'q) qstore" where
  "queue_init q s =
     (case q of None \<Rightarrow> s
      | Some q \<Rightarrow> upd_queue q (\<lambda>h. h\<lparr>q_prev := None, q_next := None, q_size := 0\<rparr>) s)"

text \<open>
  The guard reads \<^verbatim>\<open>node->q\<close> before it tests \<^verbatim>\<open>node\<close>, so a \<^verbatim>\<open>NULL\<close> node faults.
\<close>

definition queue_remove :: "'n option \<Rightarrow> ('n, 'q) qstore \<Rightarrow> ('n, 'q) qstore option" where
  "queue_remove node s =
     (case node of None \<Rightarrow> None
      | Some n \<Rightarrow>
        (case nd_q (qnode s n) of None \<Rightarrow> Some s
         | Some q \<Rightarrow>
           let s1 = (case nd_prev (qnode s n) of
                       Some p \<Rightarrow> upd_node p (\<lambda>m. m\<lparr>nd_next := nd_next (qnode s n)\<rparr>) s
                     | None \<Rightarrow> upd_queue q (\<lambda>h. h\<lparr>q_next := nd_next (qnode s n)\<rparr>) s);
               s2 = (case nd_next (qnode s1 n) of
                       Some x \<Rightarrow> upd_node x (\<lambda>m. m\<lparr>nd_prev := nd_prev (qnode s1 n)\<rparr>) s1
                     | None \<Rightarrow> upd_queue q (\<lambda>h. h\<lparr>q_prev := nd_prev (qnode s1 n)\<rparr>) s1);
               s3 = upd_node n (\<lambda>m. m\<lparr>nd_prev := None, nd_next := None\<rparr>) s2;
               s4 = upd_queue q (\<lambda>h. h\<lparr>q_size := q_size h - 1\<rparr>) s3
           in Some (upd_node n (\<lambda>m. m\<lparr>nd_q := None\<rparr>) s4)))"

definition queue_push :: "'q option \<Rightarrow> 'n option \<Rightarrow> ('n, 'q) qstore \<Rightarrow> ('n, 'q) qstore option" where
  "queue_push q node s =
     (case (q, node) of
        (Some q, Some n) \<Rightarrow> do {
          s1 \<leftarrow> queue_remove (Some n) s;
          let s2 = upd_node n (\<lambda>m. m\<lparr>nd_prev := q_prev (qhead s1 q), nd_next := None\<rparr>) s1;
          let s3 = (case q_prev (qhead s2 q) of
                      Some t \<Rightarrow> upd_node t (\<lambda>m. m\<lparr>nd_next := Some n\<rparr>) s2
                    | None \<Rightarrow> upd_queue q (\<lambda>h. h\<lparr>q_next := Some n\<rparr>) s2);
          let s4 = upd_node n (\<lambda>m. m\<lparr>nd_q := Some q\<rparr>) s3;
          Some (upd_queue q (\<lambda>h. h\<lparr>q_prev := Some n, q_size := q_size h + 1\<rparr>) s4) }
      | _ \<Rightarrow> Some s)"

definition queue_pop :: "'q option \<Rightarrow> ('n, 'q) qstore \<Rightarrow> 'n option \<times> ('n, 'q) qstore" where
  "queue_pop q s =
     (case q of None \<Rightarrow> (None, s)
      | Some q \<Rightarrow>
        (case q_next (qhead s q) of None \<Rightarrow> (None, s)
         | Some n \<Rightarrow>
           let s1 = upd_node n (\<lambda>m. m\<lparr>nd_q := None\<rparr>) s;
               s2 = upd_queue q (\<lambda>h. h\<lparr>q_next := nd_next (qnode s1 n)\<rparr>) s1;
               s3 = (case nd_next (qnode s2 n) of
                       Some x \<Rightarrow> upd_node x (\<lambda>m. m\<lparr>nd_prev := None\<rparr>) s2
                     | None \<Rightarrow> upd_queue q (\<lambda>h. h\<lparr>q_prev := None\<rparr>) s2)
           in (Some n, upd_queue q (\<lambda>h. h\<lparr>q_size := q_size h - 1\<rparr>) s3)))"

definition queue_empty :: "'q option \<Rightarrow> ('n, 'q) qstore \<Rightarrow> bool" where
  "queue_empty q s = (case q of None \<Rightarrow> True | Some q \<Rightarrow> q_next (qhead s q) = None)"

definition queue_size :: "'q option \<Rightarrow> ('n, 'q) qstore \<Rightarrow> u32" where
  "queue_size q s = (case q of None \<Rightarrow> 0 | Some q \<Rightarrow> q_size (qhead s q))"

text \<open>The loop of \<open>queue_get\<close>: \<open>k\<close> steps along \<^verbatim>\<open>next\<close>, stopping at \<^verbatim>\<open>NULL\<close>.\<close>

fun queue_walk :: "nat \<Rightarrow> 'n option \<Rightarrow> ('n, 'q) qstore \<Rightarrow> 'n option" where
  "queue_walk 0 node s = node"
| "queue_walk (Suc k) node s =
     (case node of None \<Rightarrow> None | Some n \<Rightarrow> queue_walk k (nd_next (qnode s n)) s)"

definition queue_get :: "'q option \<Rightarrow> u32 \<Rightarrow> ('n, 'q) qstore \<Rightarrow> 'n option" where
  "queue_get q index s =
     (case q of None \<Rightarrow> None
      | Some q' \<Rightarrow>
        if index \<ge> queue_size q s then None
        else queue_walk (unat index) (q_next (qhead s q')) s)"

section \<open>The abstraction: one list per queue\<close>

definition first_or :: "'n list \<Rightarrow> 'n option \<Rightarrow> 'n option" where
  "first_or xs e = (case xs of [] \<Rightarrow> e | x # _ \<Rightarrow> Some x)"

definition last_or :: "'n list \<Rightarrow> 'n option \<Rightarrow> 'n option" where
  "last_or xs p = (if xs = [] then p else Some (last xs))"

lemma first_or_simps [simp]:
  "first_or [] e = e" "first_or (x # xs) e = Some x"
  "first_or (xs @ ys) e = first_or xs (first_or ys e)"
  by (auto simp: first_or_def split: list.splits)

lemma last_or_simps [simp]:
  "last_or [] p = p" "last_or (xs @ [x]) p = Some x"
  "last_or (x # xs) p = last_or xs (Some x)"
  "last_or (xs @ ys) p = last_or ys (last_or xs p)"
  by (auto simp: last_or_def)

text \<open>
  \<open>dll N p xs e\<close>: the nodes \<open>xs\<close> are linked in this order, the first one's \<^verbatim>\<open>prev\<close> is \<open>p\<close>
  and the last one's \<^verbatim>\<open>next\<close> is \<open>e\<close>.
\<close>

fun dll :: "('n \<Rightarrow> ('n, 'q) queue_node) \<Rightarrow> 'n option \<Rightarrow> 'n list \<Rightarrow> 'n option \<Rightarrow> bool" where
  "dll N p [] e \<longleftrightarrow> True"
| "dll N p (x # xs) e \<longleftrightarrow> nd_prev (N x) = p \<and> nd_next (N x) = first_or xs e \<and> dll N (Some x) xs e"

lemma dll_append:
  "dll N p (xs @ ys) e \<longleftrightarrow> dll N p xs (first_or ys e) \<and> dll N (last_or xs p) ys e"
  by (induction xs arbitrary: p) auto

lemma dll_cong:
  assumes "\<And>x. x \<in> set xs \<Longrightarrow> nd_prev (N' x) = nd_prev (N x) \<and> nd_next (N' x) = nd_next (N x)"
  shows "dll N' p xs e = dll N p xs e"
  using assms by (induction xs arbitrary: p) auto

lemma dll_new_end:
  assumes "dll N p xs e" and "distinct xs"
    and "\<And>x. x \<in> set xs \<Longrightarrow> nd_prev (N' x) = nd_prev (N x)
          \<and> nd_next (N' x) = (if x = last xs then e' else nd_next (N x))"
  shows "dll N' p xs e'"
  using assms
proof (induction xs arbitrary: p)
  case Nil
  then show ?case by simp
next
  case (Cons x xs)
  have "dll N' (Some x) xs e'"
    using Cons.prems by (intro Cons.IH) (auto split: if_splits)
  then show ?case
    using Cons.prems by (cases xs) auto
qed

lemma dll_new_start:
  assumes "dll N p xs e" and "distinct xs"
    and "\<And>x. x \<in> set xs \<Longrightarrow> nd_next (N' x) = nd_next (N x)
          \<and> nd_prev (N' x) = (if x = hd xs then p' else nd_prev (N x))"
  shows "dll N' p' xs e"
proof (cases xs)
  case (Cons x ys)
  have "dll N' (Some x) ys e = dll N (Some x) ys e"
    using assms(2,3) Cons by (intro dll_cong) auto
  then show ?thesis
    using assms Cons by auto
qed simp

definition queue_ok :: "('n, 'q) qstore \<Rightarrow> 'q \<Rightarrow> 'n list \<Rightarrow> bool" where
  "queue_ok s q xs \<longleftrightarrow>
     q_next (qhead s q) = first_or xs None \<and> q_prev (qhead s q) = last_or xs None \<and>
     q_size (qhead s q) = of_nat (length xs) \<and> dll (qnode s) None xs None"

text \<open>
  \<open>queues_ok s Q\<close>: every queue \<open>q\<close> holds exactly the nodes \<open>Q q\<close>, without repetition, and a
  node's \<^verbatim>\<open>q\<close> field names the one queue it is in.
\<close>

definition queues_ok :: "('n, 'q) qstore \<Rightarrow> ('q \<Rightarrow> 'n list) \<Rightarrow> bool" where
  "queues_ok s Q \<longleftrightarrow>
     (\<forall>q. queue_ok s q (Q q) \<and> distinct (Q q)) \<and>
     (\<forall>n q. nd_q (qnode s n) = Some q \<longleftrightarrow> n \<in> set (Q q))"

lemma queues_okD:
  assumes "queues_ok s Q"
  shows "queue_ok s q (Q q)" "distinct (Q q)"
    "n \<in> set (Q q) \<Longrightarrow> nd_q (qnode s n) = Some q"
    "nd_q (qnode s n) = Some q \<Longrightarrow> n \<in> set (Q q)"
    "\<lbrakk> n \<in> set (Q q); n \<in> set (Q q') \<rbrakk> \<Longrightarrow> q = q'"
  using assms by (auto simp: queues_ok_def) (metis option.inject)

lemma queue_ok_frame:
  assumes "queue_ok s q xs" and "qhead s' q = qhead s q"
    and "\<And>x. x \<in> set xs \<Longrightarrow> nd_prev (qnode s' x) = nd_prev (qnode s x)
          \<and> nd_next (qnode s' x) = nd_next (qnode s x)"
  shows "queue_ok s' q xs"
  using assms dll_cong [of xs "qnode s'" "qnode s" None None] by (simp add: queue_ok_def)

lemma member_after_leave:
  assumes ok: "queues_ok s Q" and n: "n \<in> set (Q q)"
    and same: "\<And>m. m \<noteq> n \<Longrightarrow> nd_q (qnode s' m) = nd_q (qnode s m)"
    and left: "nd_q (qnode s' n) = None" "set xs = set (Q q) - {n}"
  shows "nd_q (qnode s' m) = Some r \<longleftrightarrow> m \<in> set ((Q(q := xs)) r)"
proof (cases "m = n")
  case True
  have "n \<notin> set (Q r)" if "r \<noteq> q" using queues_okD(5) [OF ok n] that by blast
  with True left show ?thesis by auto
next
  case False
  then have "nd_q (qnode s' m) = nd_q (qnode s m)" by (rule same)
  then have "nd_q (qnode s' m) = Some r \<longleftrightarrow> m \<in> set (Q r)"
    using queues_okD(3,4) [OF ok, of m r] by metis
  with False left(2) show ?thesis by simp
qed

section \<open>queue_remove\<close>

lemma queue_remove_unqueued:
  "nd_q (qnode s n) = None \<Longrightarrow> queue_remove (Some n) s = Some s"
  by (simp add: queue_remove_def)

lemma queue_remove_effect:
  assumes "nd_q (qnode s n) = Some q" and "nd_prev (qnode s n) = P" and "nd_next (qnode s n) = X"
    and "P \<noteq> Some n" and "X \<noteq> Some n"
  obtains s' where "queue_remove (Some n) s = Some s'"
    "\<And>m. qnode s' m = (if m = n then \<lparr>nd_prev = None, nd_next = None, nd_q = None\<rparr>
       else (qnode s m)\<lparr>nd_next := (if P = Some m then X else nd_next (qnode s m)),
                        nd_prev := (if X = Some m then P else nd_prev (qnode s m))\<rparr>)"
    "\<And>r. qhead s' r = (if r \<noteq> q then qhead s r else
       \<lparr>q_prev = (if X = None then P else q_prev (qhead s q)),
        q_next = (if P = None then X else q_next (qhead s q)),
        q_size = q_size (qhead s q) - 1\<rparr>)"
  using assms
  by (cases P; cases X) (fastforce simp: queue_remove_def queue_simps Let_def)+

lemma queue_remove_split:
  assumes ok: "queues_ok s Q" and Qq: "Q q = as @ n # bs"
  shows "nd_q (qnode s n) = Some q" "nd_prev (qnode s n) = last_or as None"
    "nd_next (qnode s n) = first_or bs None" "n \<notin> set as" "n \<notin> set bs"
    "distinct as" "distinct bs" "set as \<inter> set bs = {}"
    "dll (qnode s) None as (Some n)" "dll (qnode s) (Some n) bs None"
    "q_next (qhead s q) = first_or (as @ n # bs) None"
    "q_prev (qhead s q) = last_or (as @ n # bs) None"
    "q_size (qhead s q) = of_nat (length (as @ n # bs))"
  using queues_okD(1,2) [OF ok, of q] queues_okD(3) [OF ok, of n q] Qq
  by (auto simp: queue_ok_def dll_append)

lemma last_or_eq: "last_or xs None = Some x \<longleftrightarrow> xs \<noteq> [] \<and> x = last xs"
  by (auto simp: last_or_def)

lemma first_or_eq: "first_or xs None = Some x \<longleftrightarrow> xs \<noteq> [] \<and> x = hd xs"
  by (cases xs) auto

lemma last_or_None: "last_or xs None = None \<longleftrightarrow> xs = []"
  by (simp add: last_or_def)

lemma first_or_None: "first_or xs None = None \<longleftrightarrow> xs = []"
  by (cases xs) auto

lemma queue_remove_in:
  assumes ok: "queues_ok s Q" and Qq: "Q q = as @ n # bs"
  obtains s' where "queue_remove (Some n) s = Some s'" "queues_ok s' (Q(q := as @ bs))"
    "nd_q (qnode s' n) = None"
proof -
  note sp = queue_remove_split [OF ok Qq]
  have "last_or as None \<noteq> Some n" "first_or bs None \<noteq> Some n"
    using sp(4,5) by (auto simp: last_or_eq first_or_eq)
  from queue_remove_effect [OF sp(1-3) this] obtain s' where
    res: "queue_remove (Some n) s = Some s'" and
    nodes: "\<And>m. qnode s' m = (if m = n then \<lparr>nd_prev = None, nd_next = None, nd_q = None\<rparr>
       else (qnode s m)\<lparr>
         nd_next := (if last_or as None = Some m then first_or bs None else nd_next (qnode s m)),
         nd_prev := (if first_or bs None = Some m then last_or as None else nd_prev (qnode s m))\<rparr>)"
    and heads: "\<And>r. qhead s' r = (if r \<noteq> q then qhead s r else
       \<lparr>q_prev = (if first_or bs None = None then last_or as None else q_prev (qhead s q)),
        q_next = (if last_or as None = None then first_or bs None else q_next (qhead s q)),
        q_size = q_size (qhead s q) - 1\<rparr>)"
    by metis
  have apart: "x \<in> set bs \<Longrightarrow> last_or as None \<noteq> Some x" "x \<in> set as \<Longrightarrow> first_or bs None \<noteq> Some x" for x
    using sp(8) unfolding last_or_eq first_or_eq by (metis disjoint_iff last_in_set list.set_sel(1))+
  have "dll (qnode s') None as (first_or bs None)"
    using sp(4,6) apart(2) by (intro dll_new_end [OF sp(9)]) (auto simp: nodes last_or_eq)
  moreover have "dll (qnode s') (last_or as None) bs None"
    using sp(5,7) apart(1) by (intro dll_new_start [OF sp(10)]) (auto simp: nodes first_or_eq)
  ultimately have this_q: "queue_ok s' q (as @ bs)"
    using sp(11-13)
    by (cases as rule: rev_cases; cases bs) (auto simp: queue_ok_def dll_append heads)
  have other: "queue_ok s' r (Q r)" if "r \<noteq> q" for r
  proof (rule queue_ok_frame [OF queues_okD(1) [OF ok]])
    show "qhead s' r = qhead s r" using that by (simp add: heads)
    fix x assume "x \<in> set (Q r)"
    then have "x \<notin> set (Q q)" using queues_okD(5) [OF ok] that by blast
    then show "nd_prev (qnode s' x) = nd_prev (qnode s x) \<and> nd_next (qnode s' x) = nd_next (qnode s x)"
      using Qq by (auto simp: nodes last_or_eq first_or_eq)
  qed
  have member: "nd_q (qnode s' m) = Some r \<longleftrightarrow> m \<in> set ((Q(q := as @ bs)) r)" for m r
    using sp(4,5) Qq by (intro member_after_leave [OF ok, of n]) (auto simp: nodes)
  have "queues_ok s' (Q(q := as @ bs))"
    unfolding queues_ok_def using this_q other member sp queues_okD(2) [OF ok] by auto
  then show thesis using res nodes by (auto intro: that)
qed

lemma remove1_middle: "n \<notin> set as \<Longrightarrow> remove1 n (as @ n # bs) = as @ bs"
  by (simp add: remove1_append)

text \<open>The refinement of \<open>queue_remove\<close>, whichever queue the node is in and also when it is in none.\<close>

lemma queue_remove_refines:
  assumes ok: "queues_ok s Q"
  obtains s' where "queue_remove (Some n) s = Some s'"
    "queues_ok s' (\<lambda>r. removeAll n (Q r))" "nd_q (qnode s' n) = None"
proof (cases "nd_q (qnode s n)")
  case None
  then have "\<And>r. n \<notin> set (Q r)" using queues_okD(3) [OF ok] by fastforce
  then have "(\<lambda>r. removeAll n (Q r)) = Q" by auto
  with ok None show thesis using that [OF queue_remove_unqueued] by simp
next
  case (Some q)
  then have "n \<in> set (Q q)" by (rule queues_okD(4) [OF ok])
  then obtain as bs where Qq: "Q q = as @ n # bs" by (meson split_list)
  note sp = queue_remove_split [OF ok Qq]
  have "n \<notin> set (Q r)" if "r \<noteq> q" for r
    using queues_okD(5) [OF ok, of n q r] Qq that by auto
  then have "(\<lambda>r. removeAll n (Q r)) = Q(q := as @ bs)"
    using Qq sp(4,5) by (intro ext) simp
  with queue_remove_in [OF ok Qq] show thesis using that by metis
qed

section \<open>queue_push\<close>

lemma queue_push_new:
  assumes ok: "queues_ok s Q" and free: "nd_q (qnode s n) = None"
  obtains s' where "queue_push (Some q) (Some n) s = Some s'" "queues_ok s' (Q(q := Q q @ [n]))"
proof -
  have fresh: "n \<notin> set (Q r)" for r using free queues_okD(3) [OF ok] by fastforce
  define t where "t = last_or (Q q) None"
  have qok: "q_next (qhead s q) = first_or (Q q) None" "q_prev (qhead s q) = t"
    "q_size (qhead s q) = of_nat (length (Q q))" "dll (qnode s) None (Q q) None" "distinct (Q q)"
    using queues_okD(1,2) [OF ok, of q] by (auto simp: queue_ok_def t_def)
  have tn: "t \<noteq> Some n" using fresh [of q] last_in_set [of "Q q"] by (auto simp: t_def last_or_eq)
  obtain s' where res: "queue_push (Some q) (Some n) s = Some s'"
    and nodes: "\<And>m. qnode s' m = (if m = n then \<lparr>nd_prev = t, nd_next = None, nd_q = Some q\<rparr>
       else (qnode s m)\<lparr>nd_next := (if t = Some m then Some n else nd_next (qnode s m))\<rparr>)"
    and heads: "\<And>r. qhead s' r = (if r \<noteq> q then qhead s r else
       \<lparr>q_prev = Some n, q_next = (if t = None then Some n else q_next (qhead s q)),
        q_size = q_size (qhead s q) + 1\<rparr>)"
    using tn qok(2) free
    by (cases t) (fastforce simp: queue_push_def queue_remove_unqueued queue_simps Let_def)+
  have "dll (qnode s') None (Q q) (Some n)"
    using fresh by (intro dll_new_end [OF qok(4,5)]) (auto simp: nodes t_def last_or_eq)
  then have this_q: "queue_ok s' q (Q q @ [n])"
    using qok
    by (auto simp: queue_ok_def dll_append heads nodes t_def last_or_None first_or_def split: list.splits)
  have other: "queue_ok s' r (Q r)" if "r \<noteq> q" for r
  proof (rule queue_ok_frame [OF queues_okD(1) [OF ok]])
    show "qhead s' r = qhead s r" using that by (simp add: heads)
    fix x assume x: "x \<in> set (Q r)"
    then have "x \<notin> set (Q q)" using queues_okD(5) [OF ok] that by blast
    then show "nd_prev (qnode s' x) = nd_prev (qnode s x) \<and> nd_next (qnode s' x) = nd_next (qnode s x)"
      using x fresh by (auto simp: nodes t_def last_or_eq)
  qed
  have member: "nd_q (qnode s' m) = Some r \<longleftrightarrow> m \<in> set ((Q(q := Q q @ [n])) r)" for m r
    using fresh queues_okD(3,4) [OF ok, of m r] by (auto simp: nodes)
  have "queues_ok s' (Q(q := Q q @ [n]))"
    unfolding queues_ok_def using this_q other member fresh queues_okD(2) [OF ok] by auto
  then show thesis using res that by blast
qed

lemma queue_push_after_remove:
  assumes "queue_remove (Some n) s = Some s1" and "nd_q (qnode s1 n) = None"
  shows "queue_push (Some q) (Some n) s = queue_push (Some q) (Some n) s1"
  using assms by (simp add: queue_push_def queue_remove_unqueued)

lemma queue_push_refines:
  assumes ok: "queues_ok s Q"
  obtains s' where "queue_push (Some q) (Some n) s = Some s'"
    "queues_ok s' ((\<lambda>r. removeAll n (Q r))(q := removeAll n (Q q) @ [n]))"
proof -
  obtain s1 where s1: "queue_remove (Some n) s = Some s1"
    "queues_ok s1 (\<lambda>r. removeAll n (Q r))" "nd_q (qnode s1 n) = None"
    using queue_remove_refines [OF ok] by metis
  from queue_push_new [OF s1(2,3), of q] show thesis
    using that queue_push_after_remove [OF s1(1,3)] by metis
qed

section \<open>queue_pop, queue_empty, queue_get\<close>

lemma queue_empty_iff:
  assumes ok: "queues_ok s Q"
  shows "queue_empty (Some q) s \<longleftrightarrow> Q q = []"
  using queues_okD(1) [OF ok, of q] by (simp add: queue_empty_def queue_ok_def first_or_None)

lemma queue_pop_empty:
  assumes "queues_ok s Q" and "Q q = []"
  shows "queue_pop (Some q) s = (None, s)"
  using queues_okD(1) [OF assms(1), of q] assms(2) by (simp add: queue_pop_def queue_ok_def)

lemma queue_pop_refines:
  assumes ok: "queues_ok s Q" and Qq: "Q q = n # xs"
  obtains s' where "queue_pop (Some q) s = (Some n, s')" "queues_ok s' (Q(q := xs))"
proof -
  have sp: "nd_q (qnode s n) = Some q" "nd_next (qnode s n) = first_or xs None"
    "q_next (qhead s q) = Some n" "q_prev (qhead s q) = last_or (n # xs) None"
    "q_size (qhead s q) = of_nat (length (n # xs))" "dll (qnode s) (Some n) xs None"
    "distinct xs" "n \<notin> set xs"
    using queues_okD(1,2) [OF ok, of q] queues_okD(3) [OF ok, of n q] Qq
    by (auto simp: queue_ok_def)
  define X where "X = first_or xs None"
  have Xn: "X \<noteq> Some n" using sp(8) by (auto simp: X_def first_or_eq)
  obtain s' where res: "queue_pop (Some q) s = (Some n, s')"
    and nodes: "\<And>m. qnode s' m = (if m = n then (qnode s n)\<lparr>nd_q := None\<rparr>
       else (qnode s m)\<lparr>nd_prev := (if X = Some m then None else nd_prev (qnode s m))\<rparr>)"
    and heads: "\<And>r. qhead s' r = (if r \<noteq> q then qhead s r else
       \<lparr>q_prev = (if X = None then None else q_prev (qhead s q)), q_next = X,
        q_size = q_size (qhead s q) - 1\<rparr>)"
    using Xn sp(2,3) unfolding X_def [symmetric]
    by (cases X) (fastforce simp: queue_pop_def queue_simps Let_def)+
  have "dll (qnode s') None xs None"
    using sp by (intro dll_new_start [OF sp(6)]) (auto simp: nodes X_def first_or_eq)
  then have this_q: "queue_ok s' q xs"
    using sp(4,5) by (cases xs) (auto simp: queue_ok_def heads X_def)
  have other: "queue_ok s' r (Q r)" if "r \<noteq> q" for r
  proof (rule queue_ok_frame [OF queues_okD(1) [OF ok]])
    show "qhead s' r = qhead s r" using that by (simp add: heads)
    fix x assume "x \<in> set (Q r)"
    then have "x \<notin> set (Q q)" using queues_okD(5) [OF ok] that by blast
    then show "nd_prev (qnode s' x) = nd_prev (qnode s x) \<and> nd_next (qnode s' x) = nd_next (qnode s x)"
      using Qq by (auto simp: nodes X_def first_or_eq)
  qed
  have member: "nd_q (qnode s' m) = Some r \<longleftrightarrow> m \<in> set ((Q(q := xs)) r)" for m r
    using sp(8) Qq by (intro member_after_leave [OF ok, of n]) (auto simp: nodes)
  have "queues_ok s' (Q(q := xs))"
    unfolding queues_ok_def using this_q other member sp(7) queues_okD(2) [OF ok] by auto
  then show thesis using res that by blast
qed

lemma queue_walk_nth:
  assumes "dll (qnode s) p xs None" and "k < length xs"
  shows "queue_walk k (first_or xs None) s = Some (xs ! k)"
  using assms
proof (induction xs arbitrary: p k)
  case (Cons x xs)
  then show ?case by (cases k) auto
qed simp

lemma queue_get_nth:
  assumes ok: "queues_ok s Q" and len: "length (Q q) < 2 ^ 32"
  shows "queue_get (Some q) i s = (if unat i < length (Q q) then Some (Q q ! unat i) else None)"
proof -
  have q: "q_next (qhead s q) = first_or (Q q) None" "dll (qnode s) None (Q q) None"
    "q_size (qhead s q) = of_nat (length (Q q))"
    using queues_okD(1) [OF ok, of q] by (auto simp: queue_ok_def)
  have "unat (q_size (qhead s q)) = length (Q q)"
    using len q(3) by (simp add: unat_of_nat_small)
  then show ?thesis
    using q queue_walk_nth [OF q(2)]
    by (auto simp: queue_get_def queue_size_def word_le_nat_alt)
qed

section \<open>The interface the scheduler relies on\<close>

text \<open>
  What \<^verbatim>\<open>queue.h\<close> promises a client: every operation acts on one list per queue, and pushing
  a node takes it out of the queue it was in.
\<close>

fun push_all :: "('n \<Rightarrow> 's \<Rightarrow> 's option) \<Rightarrow> 'n list \<Rightarrow> 's \<Rightarrow> 's option" where
  "push_all push [] s = Some s"
| "push_all push (n # ns) s = do { s' \<leftarrow> push n s; push_all push ns s' }"

fun pop_n :: "('s \<Rightarrow> 'n option \<times> 's) \<Rightarrow> nat \<Rightarrow> 's \<Rightarrow> 'n list \<times> 's" where
  "pop_n pop 0 s = ([], s)"
| "pop_n pop (Suc k) s =
     (case pop s of (None, s') \<Rightarrow> ([], s')
      | (Some n, s') \<Rightarrow> (case pop_n pop k s' of (ns, s'') \<Rightarrow> (n # ns, s'')))"

locale node_queues =
  fixes ok :: "'s \<Rightarrow> ('q \<Rightarrow> 'n list) \<Rightarrow> bool"
    and push :: "'q \<Rightarrow> 'n \<Rightarrow> 's \<Rightarrow> 's option"
    and pop :: "'q \<Rightarrow> 's \<Rightarrow> 'n option \<times> 's"
    and remove :: "'n \<Rightarrow> 's \<Rightarrow> 's option"
    and is_empty :: "'q \<Rightarrow> 's \<Rightarrow> bool"
  assumes push_law: "ok s Q \<Longrightarrow> \<exists>s'. push q n s = Some s' \<and>
      ok s' ((\<lambda>r. removeAll n (Q r))(q := removeAll n (Q q) @ [n]))"
    and pop_law: "ok s Q \<Longrightarrow> Q q = n # xs \<Longrightarrow> \<exists>s'. pop q s = (Some n, s') \<and> ok s' (Q(q := xs))"
    and pop_empty_law: "ok s Q \<Longrightarrow> Q q = [] \<Longrightarrow> pop q s = (None, s)"
    and remove_law: "ok s Q \<Longrightarrow> \<exists>s'. remove n s = Some s' \<and> ok s' (\<lambda>r. removeAll n (Q r))"
    and empty_law: "ok s Q \<Longrightarrow> is_empty q s \<longleftrightarrow> Q q = []"
    and once_law: "ok s Q \<Longrightarrow> n \<in> set (Q q) \<Longrightarrow> n \<in> set (Q r) \<Longrightarrow> q = r"
    and distinct_law: "ok s Q \<Longrightarrow> distinct (Q q)"
begin

lemma push_new:
  assumes "ok s Q" and "\<And>r. n \<notin> set (Q r)"
  shows "\<exists>s'. push q n s = Some s' \<and> ok s' (Q(q := Q q @ [n]))"
proof -
  have "(\<lambda>r. removeAll n (Q r))(q := removeAll n (Q q) @ [n]) = Q(q := Q q @ [n])"
    using assms(2) by auto
  with push_law [OF assms(1), of q n] show ?thesis by simp
qed

lemma rotate:
  assumes "ok s Q" and "Q q = n # xs"
  shows "\<exists>s1 s2. pop q s = (Some n, s1) \<and> push q n s1 = Some s2 \<and> ok s2 (Q(q := xs @ [n]))"
proof -
  from pop_law [OF assms] obtain s1 where s1: "pop q s = (Some n, s1)" "ok s1 (Q(q := xs))"
    by auto
  have "n \<notin> set ((Q(q := xs)) r)" for r
    using distinct_law [OF assms(1), of q] once_law [OF assms(1), of n q r] assms(2) by auto
  from push_new [OF s1(2) this, of q] s1 show ?thesis
    by (auto simp del: fun_upd_apply simp: fun_upd_same)
qed

lemma push_all_appends:
  assumes "ok s Q" and "distinct ns" and "\<And>r. set ns \<inter> set (Q r) = {}"
  shows "\<exists>s'. push_all (push q) ns s = Some s' \<and> ok s' (Q(q := Q q @ ns))"
  using assms
proof (induction ns arbitrary: s Q)
  case (Cons n ns)
  then have "\<And>r. n \<notin> set (Q r)" by auto
  from push_new [OF Cons.prems(1) this, of q] obtain s1
    where s1: "push q n s = Some s1" "ok s1 (Q(q := Q q @ [n]))" by auto
  have "set ns \<inter> set ((Q(q := Q q @ [n])) r) = {}" for r
    using Cons.prems(2,3) by auto
  from Cons.IH [OF s1(2) _ this] Cons.prems(2) s1(1) show ?case
    by (auto simp del: fun_upd_apply simp: fun_upd_same)
qed auto

lemma pop_n_front:
  assumes "ok s Q" and "Q q = ns @ ms"
  shows "\<exists>s'. pop_n (pop q) (length ns) s = (ns, s') \<and> ok s' (Q(q := ms))"
  using assms
proof (induction ns arbitrary: s Q)
  case Nil
  then have "Q(q := ms) = Q" by auto
  with Nil show ?case by auto
next
  case (Cons n ns)
  from pop_law [OF Cons.prems(1), of q n "ns @ ms"] Cons.prems(2) obtain s1
    where s1: "pop q s = (Some n, s1)" "ok s1 (Q(q := ns @ ms))" by auto
  from Cons.IH [OF s1(2)] s1(1) show ?case
    by (auto simp del: fun_upd_apply simp: fun_upd_same)
qed

end

interpretation kq: node_queues queues_ok "\<lambda>q n. queue_push (Some q) (Some n)"
  "\<lambda>q. queue_pop (Some q)" "\<lambda>n. queue_remove (Some n)" "\<lambda>q. queue_empty (Some q)"
proof unfold_locales
  fix s :: "('a, 'b) qstore" and Q :: "'b \<Rightarrow> 'a list" and q n
  assume ok: "queues_ok s Q"
  show "\<exists>s'. queue_push (Some q) (Some n) s = Some s' \<and>
      queues_ok s' ((\<lambda>r. removeAll n (Q r))(q := removeAll n (Q q) @ [n]))"
    using queue_push_refines [OF ok, of q n] by metis
  show "\<exists>s'. queue_remove (Some n) s = Some s' \<and> queues_ok s' (\<lambda>r. removeAll n (Q r))"
    using queue_remove_refines [OF ok, of n] by metis
qed (auto simp: queue_pop_empty queue_empty_iff dest: queues_okD elim: queue_pop_refines)

section \<open>Properties\<close>

text \<open>
  C21. \<open>queue_push\<close> refines appending to a list: for any store whose queues hold the lists \<open>Q\<close>,
  pushing \<open>n\<close> onto \<open>q\<close> succeeds, takes \<open>n\<close> out of whatever queue held it (\<open>q\<close> itself
  included) and puts it at the end of \<open>q\<close>; sizes, links and owner fields of all queues agree
  with the new lists.
\<close>

theorem queue_push_moves_to_tail:
  assumes "queues_ok s Q"
  shows "\<exists>s'. queue_push (Some q) (Some n) s = Some s' \<and>
           queues_ok s' ((\<lambda>r. removeAll n (Q r))(q := removeAll n (Q q) @ [n]))"
  using assms by (rule kq.push_law)

definition two_queues :: "(nat, bool) qstore" where
  "two_queues =
     \<lparr>qnode = (\<lambda>n. if n = 1 then \<lparr>nd_prev = None, nd_next = Some 2, nd_q = Some True\<rparr>
                   else if n = 2 then \<lparr>nd_prev = Some 1, nd_next = None, nd_q = Some True\<rparr>
                   else \<lparr>nd_prev = None, nd_next = None, nd_q = None\<rparr>),
      qhead = (\<lambda>q. if q then \<lparr>q_prev = Some 2, q_next = Some 1, q_size = 2\<rparr>
                   else \<lparr>q_prev = None, q_next = None, q_size = 0\<rparr>)\<rparr>"

lemma two_queues_ok: "queues_ok two_queues (\<lambda>q. if q then [1, 2] else [])"
  by (auto simp: queues_ok_def queue_ok_def two_queues_def)

theorem queue_push_moves_to_tail_witness:
  "\<exists>s'. queue_push (Some False) (Some 1) two_queues = Some s' \<and>
     queues_ok s' (\<lambda>q. if q then [2] else [1])"
proof -
  have "(\<lambda>r. removeAll 1 (if r then [1, 2] else []))(False := removeAll 1 (if False then [1, 2] else []) @ [1])
      = (\<lambda>q. if q then [2] else [1 :: nat])"
    by auto
  then show ?thesis
    using queue_push_moves_to_tail [OF two_queues_ok, of False 1] by simp
qed

text \<open>
  The queues are first in, first out: pushing distinct fresh nodes one after the other and
  popping as many gives them back in the order they were pushed, after what the queue held
  before, and leaves every queue as it was.
\<close>

theorem queue_fifo:
  assumes "queues_ok s Q" and "distinct ns" and "\<And>r. set ns \<inter> set (Q r) = {}"
  shows "\<exists>s1 s2. push_all (\<lambda>n. queue_push (Some q) (Some n)) ns s = Some s1 \<and>
           pop_n (queue_pop (Some q)) (length (Q q @ ns)) s1 = (Q q @ ns, s2) \<and> queues_ok s2 (Q(q := []))"
proof -
  obtain s1 where s1: "push_all (\<lambda>n. queue_push (Some q) (Some n)) ns s = Some s1" "queues_ok s1 (Q(q := Q q @ ns))"
    using kq.push_all_appends [OF assms, of q] by auto
  from kq.pop_n_front [OF s1(2), of q "Q q @ ns" "[]"] s1(1) show ?thesis by auto
qed

theorem queue_fifo_witness:
  "\<exists>s1 s2. push_all (\<lambda>n. queue_push (Some True) (Some n)) [7, 5] two_queues = Some s1 \<and>
     pop_n (queue_pop (Some True)) 4 s1 = ([1, 2, 7, 5], s2) \<and>
     queues_ok s2 ((\<lambda>q. if q then [1, 2] else [])(True := []))"
proof -
  have len: "length ((\<lambda>q. if q then [1, 2] else []) True @ [7, 5 :: nat]) = 4" by simp
  show ?thesis
    using queue_fifo [OF two_queues_ok, of "[7, 5]" True, unfolded len] by simp
qed

end
