(* ===== verification/Cstring.thy ===== *)
theory Cstring
  imports Prelude
begin

text \<open>
  The memory and string routines of \<^verbatim>\<open>lib/src/string.c\<close> over a flat 32-bit byte memory, so that
  overlapping regions and wrapping addresses behave as in the code.  Address 0 is \<^verbatim>\<open>NULL\<close>.
  The loops that look for a terminator need not end; they are partial functions whose value
  \<^term>\<open>None\<close> means that the loop runs for ever.
\<close>

type_synonym mem = "u32 \<Rightarrow> u8"

section \<open>memcpy, memset, memcmp\<close>

text \<open>The loop of \<open>memcpy\<close> at index \<open>i\<close> with \<open>k\<close> bytes left, lowest address first.\<close>

fun memcpy_loop :: "mem \<Rightarrow> u32 \<Rightarrow> u32 \<Rightarrow> u32 \<Rightarrow> nat \<Rightarrow> mem" where
  "memcpy_loop m to from i 0 = m"
| "memcpy_loop m to from i (Suc k) =
     memcpy_loop (m(to + i := m (from + i))) to from (i + 1) k"

definition memcpy :: "mem \<Rightarrow> u32 \<Rightarrow> u32 \<Rightarrow> u32 \<Rightarrow> mem" where
  "memcpy m dst src n = (if dst = 0 \<or> src = 0 then m else memcpy_loop m dst src 0 (unat n))"

fun memset_loop :: "mem \<Rightarrow> u32 \<Rightarrow> u8 \<Rightarrow> u32 \<Rightarrow> nat \<Rightarrow> mem" where
  "memset_loop m p b i 0 = m"
| "memset_loop m p b i (Suc k) = memset_loop (m(p + i := b)) p b (i + 1) k"

definition memset :: "mem \<Rightarrow> u32 \<Rightarrow> int \<Rightarrow> u32 \<Rightarrow> mem" where
  "memset m dst c n = (if dst = 0 then m else memset_loop m dst (word_of_int c) 0 (unat n))"

fun memcmp_loop :: "mem \<Rightarrow> u32 \<Rightarrow> u32 \<Rightarrow> nat \<Rightarrow> int" where
  "memcmp_loop m a b 0 = 0"
| "memcmp_loop m a b (Suc n) =
     (if m a \<noteq> m b then uint (m a) - uint (m b) else memcmp_loop m (a + 1) (b + 1) n)"

definition memcmp :: "mem \<Rightarrow> u32 \<Rightarrow> u32 \<Rightarrow> u32 \<Rightarrow> int" where
  "memcmp m s1 s2 n = memcmp_loop m s1 s2 (unat n)"

section \<open>strlen, strcmp, strncmp\<close>

partial_function (option) strlen_from :: "mem \<Rightarrow> u32 \<Rightarrow> u32 \<Rightarrow> u32 option" where
  "strlen_from m str len =
     (if m (str + len) \<noteq> 0 then strlen_from m str (len + 1) else Some len)"

definition strlen :: "mem \<Rightarrow> u32 \<Rightarrow> u32 option" where
  "strlen m str = strlen_from m str 0"

partial_function (option) strcmp :: "mem \<Rightarrow> u32 \<Rightarrow> u32 \<Rightarrow> int option" where
  "strcmp m s1 s2 =
     (if m s1 \<noteq> 0 \<and> m s1 = m s2 then strcmp m (s1 + 1) (s2 + 1)
      else Some (uint (m s1) - uint (m s2)))"

fun strncmp_loop :: "mem \<Rightarrow> u32 \<Rightarrow> u32 \<Rightarrow> nat \<Rightarrow> int" where
  "strncmp_loop m s1 s2 0 = 0"
| "strncmp_loop m s1 s2 (Suc n) =
     (if m s1 \<noteq> 0 \<and> m s1 = m s2 then strncmp_loop m (s1 + 1) (s2 + 1) n
      else uint (m s1) - uint (m s2))"

definition strncmp :: "mem \<Rightarrow> u32 \<Rightarrow> u32 \<Rightarrow> u32 \<Rightarrow> int" where
  "strncmp m s1 s2 n = strncmp_loop m s1 s2 (unat n)"

section \<open>Regions of memory\<close>

definition region :: "u32 \<Rightarrow> nat \<Rightarrow> u32 set" where
  "region p n = (\<lambda>i. p + of_nat i) ` {..<n}"

definition bytes_at :: "mem \<Rightarrow> u32 \<Rightarrow> nat \<Rightarrow> u8 list" where
  "bytes_at m p n = map (\<lambda>i. m (p + of_nat i)) [0..<n]"

lemma bytes_at_length [simp]: "length (bytes_at m p n) = n"
  by (simp add: bytes_at_def)

lemma bytes_at_0 [simp]: "bytes_at m p 0 = []"
  by (simp add: bytes_at_def)

lemma bytes_at_nth [simp]: "i < n \<Longrightarrow> bytes_at m p n ! i = m (p + of_nat i)"
  by (simp add: bytes_at_def)

lemma bytes_at_eq_iff:
  "bytes_at m p n = bytes_at m' q n \<longleftrightarrow> (\<forall>i<n. m (p + of_nat i) = m' (q + of_nat i))"
  by (auto simp: list_eq_iff_nth_eq)

lemma region_0 [simp]: "region p 0 = {}"
  by (simp add: region_def)

lemma region_Suc: "region p (Suc n) = insert p (region (p + 1) n)"
proof -
  have "(\<lambda>i. p + of_nat i) ` Suc ` {..<n} = (\<lambda>i. (p + 1) + of_nat i) ` {..<n}"
    by (simp add: image_image algebra_simps)
  then show ?thesis by (simp add: region_def lessThan_Suc_eq_insert_0)
qed

lemma region_iff: "x \<in> region p n \<longleftrightarrow> (\<exists>i<n. x = p + of_nat i)"
  by (auto simp: region_def)

section \<open>What the loops compute\<close>

lemma memcpy_loop_eq:
  assumes "region (to + i) k \<inter> region (from + i) k = {}" and "k \<le> 2 ^ 32"
  shows "memcpy_loop m to from i k x =
    (if x \<in> region (to + i) k then m (from + (x - to)) else m x)"
  using assms
proof (induction k arbitrary: m i)
  case 0
  then show ?case by simp
next
  case (Suc k)
  define m1 where "m1 = m(to + i := m (from + i))"
  have sub: "region (to + (i + 1)) k \<inter> region (from + (i + 1)) k = {}"
    using Suc.prems by (auto simp: region_Suc add.assoc)
  have IH: "memcpy_loop m1 to from (i + 1) k x =
      (if x \<in> region (to + (i + 1)) k then m1 (from + (x - to)) else m1 x)"
    using Suc.IH [OF sub] Suc.prems(2) by simp
  have src: "from + (x - to) \<noteq> to + i" if "x \<in> region (to + (i + 1)) k"
  proof -
    from that obtain j where "j < k" "x = to + (i + 1) + of_nat j"
      by (auto simp: region_iff)
    then have "from + (x - to) \<in> region (from + i) (Suc k)"
      by (auto simp: region_iff algebra_simps intro!: exI [of _ "Suc j"])
    moreover have "to + i \<in> region (to + i) (Suc k)" by (simp add: region_Suc)
    ultimately show ?thesis using Suc.prems(1) by (metis disjoint_iff)
  qed
  have notin: "to + i \<notin> region (to + (i + 1)) k"
  proof
    assume "to + i \<in> region (to + (i + 1)) k"
    then obtain j where j: "j < k" "to + i = to + (i + 1) + of_nat j" by (auto simp: region_iff)
    then have "(of_nat (Suc j) :: u32) = 0"
      by (simp add: add.assoc)
    with unat_of_nat_small [of "Suc j", where 'a = 32] j(1) Suc.prems(2) show False
      by simp
  qed
  show ?case
    using IH src notin
    by (auto simp: m1_def region_Suc add.assoc algebra_simps)
qed

lemma memset_loop_eq:
  "memset_loop m p b i k x = (if x \<in> region (p + i) k then b else m x)"
proof (induction k arbitrary: m i)
  case (Suc k)
  show ?case by (simp add: Suc.IH region_Suc add.assoc)
qed simp

lemma memcmp_loop_0_iff:
  "memcmp_loop m a b n = 0 \<longleftrightarrow> (\<forall>i<n. m (a + of_nat i) = m (b + of_nat i))"
proof (induction m a b n rule: memcmp_loop.induct)
  case (2 m a b n)
  have "(\<forall>i<Suc n. m (a + of_nat i) = m (b + of_nat i)) \<longleftrightarrow>
      m a = m b \<and> (\<forall>i<n. m (a + 1 + of_nat i) = m (b + 1 + of_nat i))"
    by (auto simp: less_Suc_eq_0_disj add.assoc all_conj_distrib)
  with 2 show ?case by (simp flip: word_uint_eq_iff)
qed simp

lemma memcmp_loop_first_difference:
  assumes "k < n" and "m (a + of_nat k) \<noteq> m (b + of_nat k)"
    and "\<And>i. i < k \<Longrightarrow> m (a + of_nat i) = m (b + of_nat i)"
  shows "memcmp_loop m a b n = uint (m (a + of_nat k)) - uint (m (b + of_nat k))"
  using assms
proof (induction k arbitrary: a b n)
  case 0
  then show ?case by (cases n) auto
next
  case (Suc k)
  then obtain n' where n: "n = Suc n'" by (cases n) auto
  have "m a = m b" using Suc.prems(3) [of 0] by simp
  moreover have "memcmp_loop m (a + 1) (b + 1) n' =
      uint (m (a + 1 + of_nat k)) - uint (m (b + 1 + of_nat k))"
    using Suc.prems n Suc.prems(3) [of "Suc _"]
    by (intro Suc.IH) (auto simp: algebra_simps)
  ultimately show ?case by (simp add: n algebra_simps)
qed

text \<open>A C string at \<open>p\<close> is \<open>n\<close> nonzero bytes followed by a zero byte.\<close>

definition cstr_len :: "mem \<Rightarrow> u32 \<Rightarrow> nat \<Rightarrow> bool" where
  "cstr_len m p n \<longleftrightarrow> m (p + of_nat n) = 0 \<and> (\<forall>i<n. m (p + of_nat i) \<noteq> 0)"

lemma strlen_from_finds:
  assumes "m (p + of_nat n) = 0" and "i \<le> n" and "\<And>j. i \<le> j \<Longrightarrow> j < n \<Longrightarrow> m (p + of_nat j) \<noteq> 0"
  shows "strlen_from m p (of_nat i) = Some (of_nat n)"
  using assms(2,3)
proof (induction "n - i" arbitrary: i)
  case 0
  then show ?case using assms(1) by (simp add: strlen_from.simps [of m p "of_nat i"])
next
  case (Suc d)
  then have "strlen_from m p (of_nat (Suc i)) = Some (of_nat n)"
    by (intro Suc.hyps(1)) auto
  moreover have "m (p + of_nat i) \<noteq> 0" using Suc by simp
  ultimately show ?case
    by (simp add: strlen_from.simps [of m p "of_nat i"] add.commute)
qed

lemma strlen_cstr: "cstr_len m p n \<Longrightarrow> strlen m p = Some (of_nat n)"
  using strlen_from_finds [of m p n 0] by (simp add: strlen_def cstr_len_def)

lemma cstr_len_exists:
  assumes "m x = 0"
  obtains n where "cstr_len m p n" "n < 2 ^ 32"
proof -
  define P where "P n \<longleftrightarrow> m (p + of_nat n) = 0" for n :: nat
  have "P (unat (x - p))" using assms by (simp add: P_def)
  then have "P (LEAST n. P n)" "(LEAST n. P n) \<le> unat (x - p)"
    by (auto intro: LeastI Least_le)
  moreover have "\<not> P i" if "i < (LEAST n. P n)" for i
    using that by (rule not_less_Least)
  moreover have "unat (x - p) < 2 ^ 32" using unat_lt [of "x - p"] by simp
  ultimately show thesis
    using that [of "LEAST n. P n"] by (auto simp: cstr_len_def P_def)
qed

lemma strlen_from_zero:
  assumes "strlen_from m p len = Some r"
  shows "m (p + r) = 0"
proof (rule strlen_from.raw_induct [where P = "\<lambda>m p len r. m (p + r) = 0", OF _ assms])
  fix f and m :: mem and p len r
  assume "\<And>m p len r. f m p len = Some r \<Longrightarrow> m (p + r) = 0"
    and "(if m (p + len) \<noteq> 0 then f m p (len + 1) else Some len) = Some r"
  then show "m (p + r) = (0 :: u8)" by (auto split: if_splits)
qed

lemma cstr_len_unique:
  "\<lbrakk> cstr_len m p n; cstr_len m p k \<rbrakk> \<Longrightarrow> n = k"
  unfolding cstr_len_def by (metis linorder_neqE_nat)

lemma strcmp_compares:
  assumes "cstr_len m a n" and "cstr_len m b k"
  shows "\<exists>r. strcmp m a b = Some r \<and> (r = 0 \<longleftrightarrow> bytes_at m a n = bytes_at m b k)"
  using assms
proof (induction n arbitrary: a b k)
  case 0
  then have "m a = 0" by (simp add: cstr_len_def)
  then have "strcmp m a b = Some (uint (m a) - uint (m b))"
    by (simp add: strcmp.simps [of m a b])
  moreover have "m b = 0 \<longleftrightarrow> k = 0"
    using 0(2) by (cases k) (auto simp: cstr_len_def dest: spec [of _ 0])
  ultimately show ?case
    using \<open>m a = 0\<close> by (auto simp: bytes_at_def uint_0_iff)
next
  case (Suc n)
  have a: "m a \<noteq> 0" "cstr_len m (a + 1) n"
    using Suc.prems(1) by (auto simp: cstr_len_def add.assoc dest: spec [of _ 0] spec [of _ "Suc _"])
  have bytes: "bytes_at m p (Suc j) = m p # bytes_at m (p + 1) j" for p j
    by (simp add: bytes_at_def upt_conv_Cons map_Suc_upt [symmetric] add.assoc del: upt_Suc)
  show ?case
  proof (cases "m a = m b")
    case True
    with a have "m b \<noteq> 0" by simp
    then obtain k' where k: "k = Suc k'" using Suc.prems(2) by (cases k) (auto simp: cstr_len_def)
    have "cstr_len m (b + 1) k'"
      using Suc.prems(2) k by (auto simp: cstr_len_def add.assoc dest: spec [of _ "Suc _"])
    with Suc.IH [OF a(2)] True a(1) show ?thesis
      by (simp add: strcmp.simps [of m a b] bytes k)
  next
    case False
    then have "strcmp m a b = Some (uint (m a) - uint (m b))"
      by (simp add: strcmp.simps [of m a b])
    moreover have "bytes_at m a (Suc n) \<noteq> bytes_at m b k"
      using False by (cases k) (auto simp: bytes)
    ultimately show ?thesis
      using False by (simp flip: word_uint_eq_iff)
  qed
qed

section \<open>Properties\<close>

text \<open>
  \<open>memcpy\<close> between two non-NULL regions that do not overlap copies exactly \<open>n\<close> bytes: the
  destination then reads as the source did, and no byte outside the destination changes.
\<close>

theorem memcpy_copies:
  assumes "dst \<noteq> 0" and "src \<noteq> 0"
    and "region dst (unat n) \<inter> region src (unat n) = {}"
  shows "bytes_at (memcpy m dst src n) dst (unat n) = bytes_at m src (unat n) \<and>
         (\<forall>x. x \<notin> region dst (unat n) \<longrightarrow> memcpy m dst src n x = m x)"
proof -
  have small: "unat n \<le> 2 ^ 32" using unat_lt [of n] by simp
  have eq: "memcpy m dst src n y =
      (if y \<in> region dst (unat n) then m (src + (y - dst)) else m y)" for y
    using memcpy_loop_eq [of dst 0 "unat n" src m y] assms small by (simp add: memcpy_def)
  then show ?thesis by (auto simp: bytes_at_eq_iff region_iff)
qed

theorem memcpy_copies_witness:
  "bytes_at (memcpy (\<lambda>a. ucast a) 100 200 3) 100 3 = [200, 201, 202]
   \<and> memcpy (\<lambda>a. ucast a) 100 200 3 103 = 103"
proof -
  have len: "unat (3 :: u32) = 3" by simp
  have "region 100 (unat (3 :: u32)) \<inter> region 200 (unat (3 :: u32)) = {}"
    unfolding len by (simp add: numeral_3_eq_3 region_Suc)
  note copies = memcpy_copies [OF _ _ this, of "\<lambda>a. ucast a", unfolded len]
  have "(103 :: u32) \<notin> region 100 3"
    by (simp add: numeral_3_eq_3 region_Suc)
  with copies show ?thesis
    by (simp add: bytes_at_def upt_rec)
qed

text \<open>
  C28. \<open>strlen\<close> returns exactly when the memory holds a zero byte, and then it returns the
  distance to the first one after \<open>str\<close>: the bytes before it are nonzero.
\<close>

theorem strlen_first_zero:
  "(strlen m str \<noteq> None \<longleftrightarrow> (\<exists>x. m x = 0)) \<and>
   (\<forall>n. strlen m str = Some n \<longleftrightarrow> cstr_len m str (unat n))"
proof (intro conjI allI)
  show "strlen m str \<noteq> None \<longleftrightarrow> (\<exists>x. m x = 0)"
    using strlen_from_zero [of m str 0] cstr_len_exists [of m _ str] strlen_cstr [of m str]
    by (metis not_None_eq strlen_def)
  fix n
  show "strlen m str = Some n \<longleftrightarrow> cstr_len m str (unat n)"
  proof
    assume "strlen m str = Some n"
    then have "m (str + n) = 0" using strlen_from_zero [of m str 0 n] by (simp add: strlen_def)
    then obtain k where k: "cstr_len m str k" "k < 2 ^ 32" by (rule cstr_len_exists)
    then have "n = of_nat k" using strlen_cstr \<open>strlen m str = Some n\<close> by fastforce
    with k show "cstr_len m str (unat n)" by (simp add: unat_of_nat_small)
  qed (use strlen_cstr [of m str "unat n"] in simp)
qed

text \<open>
  On two C strings \<open>strcmp\<close> returns, and it returns 0 exactly when their contents are equal.
\<close>

theorem strcmp_zero_iff_equal:
  assumes "cstr_len m a n" and "cstr_len m b k"
  shows "\<exists>r. strcmp m a b = Some r \<and> (r = 0 \<longleftrightarrow> bytes_at m a n = bytes_at m b k)"
  using assms by (rule strcmp_compares)

theorem strcmp_zero_iff_equal_witness:
  "\<exists>r. strcmp (\<lambda>a. if a = 12 \<or> a = 22 then 0 else 65) 10 20 = Some r \<and> r = 0"
proof -
  let ?m = "(\<lambda>a. if a = 12 \<or> a = 22 then 0 else 65) :: mem"
  have "cstr_len ?m 10 2" "cstr_len ?m 20 2"
    by (auto simp: cstr_len_def less_2_cases_iff)
  from strcmp_zero_iff_equal [OF this] show ?thesis
    by (simp add: bytes_at_def upt_rec)
qed

end
