(* ===== verification/Ring_Buffer.thy ===== *)
theory Ring_Buffer
  imports Prelude
begin

text \<open>
  \<^verbatim>\<open>lib/src/ring_buffer.c\<close>: a ring of fixed-size slots over storage the caller provides.  The
  storage is a byte object; \<^verbatim>\<open>memcpy\<close> to and from a slot faults when it leaves it.  The control
  block pointer \<open>r\<close> and the element pointers are options, \<^term>\<open>None\<close> is \<^verbatim>\<open>NULL\<close>.
\<close>

section \<open>Data and operations\<close>

record ring_buffer =
  rb_buf :: "u8 list"
  rb_elem_size :: u32
  rb_capacity :: u32
  rb_head :: u32
  rb_tail :: u32
  rb_count :: u32

definition ring_buffer_init ::
  "ring_buffer option \<Rightarrow> u8 list option \<Rightarrow> u32 \<Rightarrow> u32 \<Rightarrow> ring_buffer option" where
  "ring_buffer_init r storage elem_size capacity =
     (case (r, storage) of
        (Some r, Some st) \<Rightarrow>
          Some (r\<lparr>rb_capacity := capacity, rb_elem_size := elem_size, rb_head := 0, rb_tail := 0,
                  rb_count := 0, rb_buf := st\<rparr>)
      | _ \<Rightarrow> r)"

definition ring_buffer_full :: "ring_buffer option \<Rightarrow> bool" where
  "ring_buffer_full r = (case r of None \<Rightarrow> True | Some r \<Rightarrow> rb_count r \<ge> rb_capacity r)"

definition ring_buffer_empty :: "ring_buffer option \<Rightarrow> bool" where
  "ring_buffer_empty r = (case r of None \<Rightarrow> True | Some r \<Rightarrow> rb_count r = 0)"

text \<open>
  The result of \<open>push\<close> is the returned \<^verbatim>\<open>int\<close> and the control block; the division by a
  capacity of 0 would fault, as \<^verbatim>\<open>%\<close> does.
\<close>

definition ring_buffer_push ::
  "ring_buffer option \<Rightarrow> u8 list option \<Rightarrow> (int \<times> ring_buffer option) option" where
  "ring_buffer_push r elem =
     (case (r, elem) of
        (Some rb, Some e) \<Rightarrow>
          if ring_buffer_full r then Some (1, r)
          else do {
            bytes \<leftarrow> obj_read e 0 (unat (rb_elem_size rb));
            buf' \<leftarrow> blit (rb_buf rb) (unat (rb_tail rb * rb_elem_size rb)) bytes;
            if rb_capacity rb = 0 then None
            else Some (0, Some (rb\<lparr>rb_buf := buf',
                                    rb_tail := (rb_tail rb + 1) mod rb_capacity rb,
                                    rb_count := rb_count rb + 1\<rparr>)) }
      | _ \<Rightarrow> Some (1, r))"

definition ring_buffer_peek ::
  "ring_buffer option \<Rightarrow> u8 list option \<Rightarrow> (int \<times> u8 list option) option" where
  "ring_buffer_peek r out =
     (case (r, out) of
        (Some rb, Some out') \<Rightarrow>
          if ring_buffer_empty r then Some (1, out)
          else do {
            bytes \<leftarrow> obj_read (rb_buf rb) (unat (rb_head rb * rb_elem_size rb))
                       (unat (rb_elem_size rb));
            out'' \<leftarrow> blit out' 0 bytes;
            Some (0, Some out'') }
      | _ \<Rightarrow> Some (1, out))"

definition ring_buffer_pop ::
  "ring_buffer option \<Rightarrow> u8 list option \<Rightarrow> (int \<times> u8 list option \<times> ring_buffer option) option" where
  "ring_buffer_pop r out = do {
     (ret, out') \<leftarrow> ring_buffer_peek r out;
     if ret \<noteq> 0 then Some (1, out', r)
     else (case r of None \<Rightarrow> None
           | Some rb \<Rightarrow>
               if rb_capacity rb = 0 then None
               else Some (0, out', Some (rb\<lparr>rb_head := (rb_head rb + 1) mod rb_capacity rb,
                                            rb_count := rb_count rb - 1\<rparr>))) }"

section \<open>The abstraction: a bounded list of elements\<close>

definition rb_slot :: "ring_buffer \<Rightarrow> nat \<Rightarrow> u8 list" where
  "rb_slot rb i = take (unat (rb_elem_size rb)) (drop (i * unat (rb_elem_size rb)) (rb_buf rb))"

definition rb_index :: "ring_buffer \<Rightarrow> nat \<Rightarrow> nat" where
  "rb_index rb k = (unat (rb_head rb) + k) mod unat (rb_capacity rb)"

definition rb_list :: "ring_buffer \<Rightarrow> u8 list list" where
  "rb_list rb = map (\<lambda>k. rb_slot rb (rb_index rb k)) [0..<unat (rb_count rb)]"

definition rb_inv :: "ring_buffer \<Rightarrow> bool" where
  "rb_inv rb \<longleftrightarrow>
     0 < rb_capacity rb \<and> unat (rb_capacity rb) * unat (rb_elem_size rb) < 2 ^ 32 \<and>
     unat (rb_capacity rb) < 2 ^ 31 \<and>
     length (rb_buf rb) = unat (rb_capacity rb) * unat (rb_elem_size rb) \<and>
     rb_head rb < rb_capacity rb \<and> rb_count rb \<le> rb_capacity rb \<and>
     unat (rb_tail rb) = (unat (rb_head rb) + unat (rb_count rb)) mod unat (rb_capacity rb)"

lemma rb_invD:
  assumes "rb_inv rb"
  shows "0 < unat (rb_capacity rb)" "rb_capacity rb \<noteq> 0"
    "unat (rb_tail rb) < unat (rb_capacity rb)" "unat (rb_head rb) < unat (rb_capacity rb)"
    "unat (rb_count rb) \<le> unat (rb_capacity rb)"
    "length (rb_buf rb) = unat (rb_capacity rb) * unat (rb_elem_size rb)"
    "unat (rb_capacity rb) * unat (rb_elem_size rb) < 2 ^ 32"
    "unat (rb_capacity rb) < 2 ^ 31"
    "unat (rb_tail rb) = rb_index rb (unat (rb_count rb))"
  using assms by (auto simp: rb_inv_def rb_index_def word_less_nat_alt word_le_nat_alt)

lemma rb_list_length [simp]: "length (rb_list rb) = unat (rb_count rb)"
  by (simp add: rb_list_def)

lemma slot_in_object:
  assumes "i < unat (rb_capacity rb)"
  shows "i * unat (rb_elem_size rb) + unat (rb_elem_size rb)
           \<le> unat (rb_capacity rb) * unat (rb_elem_size rb)"
proof -
  have "Suc i * unat (rb_elem_size rb) \<le> unat (rb_capacity rb) * unat (rb_elem_size rb)"
    using assms by (intro mult_right_mono) auto
  then show ?thesis by simp
qed

lemma slot_offset:
  assumes "rb_inv rb" and "unat i < unat (rb_capacity rb)"
  shows "unat (i * rb_elem_size rb) = unat i * unat (rb_elem_size rb)"
  using slot_in_object [of "unat i" rb] rb_invD(7) [OF assms(1)] assms(2)
  by (intro unat_mult_nowrap) simp

lemma slots_apart:
  assumes "i \<noteq> j"
  shows "i * n + n \<le> j * n \<or> j * n + n \<le> (i * n :: nat)"
proof (cases "i < j")
  case True
  then have "Suc i * n \<le> j * n" by (intro mult_right_mono) auto
  then show ?thesis by simp
next
  case False
  then have "Suc j * n \<le> i * n" using assms by (intro mult_right_mono) auto
  then show ?thesis by simp
qed

lemma rb_index_inj:
  assumes "j < unat (rb_capacity rb)" and "k < unat (rb_capacity rb)" and "j \<noteq> k"
  shows "rb_index rb j \<noteq> rb_index rb k"
proof -
  have aux: "(h + a) mod c \<noteq> (h + b) mod c" if "a < b" "b < c" for a b c h :: nat
  proof
    assume "(h + a) mod c = (h + b) mod c"
    then have "(h + b) mod c = (h + a) mod c" by (rule sym)
    then have "c dvd (h + b) - (h + a)"
      using that by (subst mod_eq_dvd_iff_nat [symmetric]) auto
    then show False using that by (auto dest: dvd_imp_le)
  qed
  show ?thesis
    unfolding rb_index_def using aux [of j k] aux [of k j] assms by (metis linorder_neqE_nat)
qed

lemma step_index:
  assumes "rb_inv rb" and "unat i < unat (rb_capacity rb)"
  shows "unat ((i + 1) mod rb_capacity rb) = Suc (unat i) mod unat (rb_capacity rb)"
proof -
  have "unat (i + 1) = Suc (unat i)"
    using assms(2) rb_invD(8) [OF assms(1)] by (subst unat_add_nowrap) auto
  then show ?thesis by (simp add: unat_mod_distrib)
qed

section \<open>Refinement\<close>

lemma ring_buffer_init_ok:
  assumes "0 < capacity" and "unat capacity < 2 ^ 31"
    and "unat capacity * unat elem_size < 2 ^ 32"
    and "length st = unat capacity * unat elem_size"
  obtains rb where "ring_buffer_init (Some r) (Some st) elem_size capacity = Some rb"
    "rb_inv rb" "rb_list rb = []" "rb_capacity rb = capacity" "rb_elem_size rb = elem_size"
  using assms by (auto simp: ring_buffer_init_def rb_inv_def rb_list_def)

lemma ring_buffer_empty_iff: "ring_buffer_empty (Some rb) \<longleftrightarrow> rb_list rb = []"
  by (auto simp: ring_buffer_empty_def rb_list_def unat_0_iff)

lemma ring_buffer_full_iff:
  "rb_inv rb \<Longrightarrow> ring_buffer_full (Some rb) \<longleftrightarrow> length (rb_list rb) = unat (rb_capacity rb)"
  by (auto simp: ring_buffer_full_def rb_inv_def word_le_nat_alt)

lemma ring_buffer_push_full:
  "rb_inv rb \<Longrightarrow> length (rb_list rb) = unat (rb_capacity rb)
    \<Longrightarrow> ring_buffer_push (Some rb) (Some e) = Some (1, Some rb)"
  using ring_buffer_full_iff [of rb] by (simp add: ring_buffer_push_def)

lemma ring_buffer_push_appends:
  assumes inv: "rb_inv rb" and room: "length (rb_list rb) < unat (rb_capacity rb)"
    and len: "length e = unat (rb_elem_size rb)"
  obtains rb' where "ring_buffer_push (Some rb) (Some e) = Some (0, Some rb')" "rb_inv rb'"
    "rb_list rb' = rb_list rb @ [e]" "rb_capacity rb' = rb_capacity rb"
    "rb_elem_size rb' = rb_elem_size rb"
proof -
  note D = rb_invD [OF inv]
  let ?n = "unat (rb_elem_size rb)" and ?t = "unat (rb_tail rb)" and ?c = "unat (rb_count rb)"
  have off: "unat (rb_tail rb * rb_elem_size rb) = ?t * ?n"
    using slot_offset [OF inv D(3)] .
  obtain buf' where buf': "blit (rb_buf rb) (?t * ?n) e = Some buf'"
    using slot_in_object [OF D(3)] D(6) len by (auto simp: blit_def)
  define rb' where "rb' = rb\<lparr>rb_buf := buf', rb_tail := (rb_tail rb + 1) mod rb_capacity rb,
                             rb_count := rb_count rb + 1\<rparr>"
  have not_full: "\<not> ring_buffer_full (Some rb)"
    using room ring_buffer_full_iff [OF inv] by simp
  then have res: "ring_buffer_push (Some rb) (Some e) = Some (0, Some rb')"
    using len off buf' D(2) by (simp add: ring_buffer_push_def obj_read_def rb'_def)
  have c1: "unat (rb_count rb + 1) = Suc ?c"
    using room D(8) by (subst unat_add_nowrap) auto
  have inv': "rb_inv rb'"
    using inv room c1 step_index [OF inv D(3)] blit_length [OF buf']
    by (auto simp: rb'_def rb_inv_def word_le_nat_alt mod_Suc_eq)
  have slot: "rb_slot rb' (rb_index rb' k) = (if k = ?c then e else rb_slot rb (rb_index rb k))"
    if "k \<le> ?c" for k
  proof (cases "k = ?c")
    case True
    have "rb_index rb' k = ?t" using True D(9) by (simp add: rb'_def rb_index_def)
    then show ?thesis
      using True blit_read_same [OF buf'] len by (simp add: rb_slot_def rb'_def)
  next
    case False
    have same: "rb_index rb' k = rb_index rb k" by (simp add: rb'_def rb_index_def)
    have "rb_index rb k \<noteq> ?t"
      using False that room D(9) rb_index_inj [of k rb ?c] by simp
    then have "rb_index rb k * ?n + ?n \<le> ?t * ?n \<or> ?t * ?n + length e \<le> rb_index rb k * ?n"
      using slots_apart [of "rb_index rb k" ?t ?n] len by simp
    moreover have "rb_index rb k * ?n + ?n \<le> length (rb_buf rb)"
      using slot_in_object [of "rb_index rb k" rb] D(1,6) by (simp add: rb_index_def)
    ultimately have "take ?n (drop (rb_index rb k * ?n) buf') = take ?n (drop (rb_index rb k * ?n) (rb_buf rb))"
      by (rule blit_read_other [OF buf'])
    with False same show ?thesis by (simp add: rb_slot_def rb'_def)
  qed
  have "rb_list rb' = map (\<lambda>k. rb_slot rb' (rb_index rb' k)) [0..<Suc ?c]"
    using c1 by (simp add: rb_list_def rb'_def)
  also have "\<dots> = rb_list rb @ [e]"
    using slot by (simp add: rb_list_def)
  finally show thesis using that [OF res inv'] by (simp add: rb'_def)
qed

lemma ring_buffer_peek_empty:
  "rb_list rb = [] \<Longrightarrow> ring_buffer_peek (Some rb) (Some out) = Some (1, Some out)"
  using ring_buffer_empty_iff [of rb] by (simp add: ring_buffer_peek_def)

lemma ring_buffer_peek_front:
  assumes inv: "rb_inv rb" and ne: "rb_list rb \<noteq> []" and len: "length out = unat (rb_elem_size rb)"
  shows "ring_buffer_peek (Some rb) (Some out) = Some (0, Some (hd (rb_list rb)))"
proof -
  note D = rb_invD [OF inv]
  have off: "unat (rb_head rb * rb_elem_size rb) = unat (rb_head rb) * unat (rb_elem_size rb)"
    using slot_offset [OF inv D(4)] .
  have "rb_index rb 0 = unat (rb_head rb)" using D(4) by (simp add: rb_index_def)
  moreover have "0 < unat (rb_count rb)" using ne by (auto simp: rb_list_def)
  ultimately have "hd (rb_list rb) = rb_slot rb (unat (rb_head rb))"
    by (simp add: rb_list_def upt_rec)
  moreover have "length (rb_slot rb (unat (rb_head rb))) = length out"
    using slot_in_object [OF D(4)] D(6) len by (simp add: rb_slot_def)
  ultimately show ?thesis
    using ne off slot_in_object [OF D(4)] D(6) len ring_buffer_empty_iff [of rb]
    by (simp add: ring_buffer_peek_def obj_read_def blit_def rb_slot_def)
qed

lemma ring_buffer_pop_front:
  assumes inv: "rb_inv rb" and front: "rb_list rb = e # es"
    and len: "length out = unat (rb_elem_size rb)"
  obtains rb' where "ring_buffer_pop (Some rb) (Some out) = Some (0, Some e, Some rb')" "rb_inv rb'"
    "rb_list rb' = es" "rb_capacity rb' = rb_capacity rb" "rb_elem_size rb' = rb_elem_size rb"
proof -
  note D = rb_invD [OF inv]
  define rb' where "rb' = rb\<lparr>rb_head := (rb_head rb + 1) mod rb_capacity rb,
                             rb_count := rb_count rb - 1\<rparr>"
  have res: "ring_buffer_pop (Some rb) (Some out) = Some (0, Some e, Some rb')"
    using ring_buffer_peek_front [OF inv _ len] front D(2)
    by (simp add: ring_buffer_pop_def rb'_def)
  have "unat (rb_count rb) = Suc (length es)"
    using rb_list_length [of rb] front by simp
  then have c1: "unat (rb_count rb - 1) = length es"
    by (subst unat_diff_nowrap) auto
  have h1: "unat ((rb_head rb + 1) mod rb_capacity rb) = Suc (unat (rb_head rb)) mod unat (rb_capacity rb)"
    using step_index [OF inv D(4)] .
  have "rb_head rb' < rb_capacity rb"
    using D(1) h1 by (simp add: rb'_def word_less_nat_alt)
  then have inv': "rb_inv rb'"
    using inv c1 h1 \<open>unat (rb_count rb) = Suc (length es)\<close>
    by (auto simp: rb'_def rb_inv_def word_le_nat_alt mod_add_left_eq mod_Suc_eq)
  have idx: "rb_index rb' k = rb_index rb (Suc k)" for k
    using h1 by (simp add: rb_index_def rb'_def mod_add_left_eq mod_Suc_eq)
  have "rb_list rb' = map (\<lambda>k. rb_slot rb (rb_index rb (Suc k))) [0..<length es]"
    using c1 idx by (simp add: rb_list_def rb'_def rb_slot_def)
  also have "\<dots> = tl (rb_list rb)"
    using \<open>unat (rb_count rb) = Suc (length es)\<close>
    by (simp add: rb_list_def upt_conv_Cons map_Suc_upt [symmetric] del: upt_Suc)
  finally show thesis using that [OF res inv'] front by (simp add: rb'_def)
qed

section \<open>The interface a mailbox relies on\<close>

text \<open>
  A bounded first-in first-out buffer as its clients see it: \<open>put\<close> and \<open>fetch\<close> return the
  status the C functions return, 0 for success and 1 for full or empty, and \<open>fetch\<close> takes the
  object the element is copied into.
\<close>

datatype 'e fifo_op = Put 'e | Get 'e

locale bounded_fifo =
  fixes inv :: "'s \<Rightarrow> bool" and items :: "'s \<Rightarrow> 'e list" and valid :: "'e \<Rightarrow> bool"
    and cap :: nat
    and put :: "'e \<Rightarrow> 's \<Rightarrow> (int \<times> 's) option"
    and fetch :: "'e \<Rightarrow> 's \<Rightarrow> (int \<times> 'e \<times> 's) option"
  assumes put_room: "\<lbrakk> inv s; valid e; length (items s) < cap \<rbrakk>
      \<Longrightarrow> \<exists>s'. put e s = Some (0, s') \<and> inv s' \<and> items s' = items s @ [e]"
    and put_full: "\<lbrakk> inv s; length (items s) = cap \<rbrakk> \<Longrightarrow> put e s = Some (1, s)"
    and fetch_front: "\<lbrakk> inv s; valid out; items s = e # es \<rbrakk>
      \<Longrightarrow> \<exists>s'. fetch out s = Some (0, e, s') \<and> inv s' \<and> items s' = es"
    and fetch_empty: "\<lbrakk> inv s; items s = [] \<rbrakk> \<Longrightarrow> fetch out s = Some (1, out, s)"
    and bounded: "inv s \<Longrightarrow> length (items s) \<le> cap"
begin

lemma put_total:
  assumes "inv s" and "valid e"
  shows "\<exists>s'. put e s = Some (if length (items s) < cap then 0 else 1, s') \<and> inv s' \<and>
           items s' = (if length (items s) < cap then items s @ [e] else items s)"
  using put_room [OF assms] put_full [OF assms(1), of e] bounded [OF assms(1)] assms(1)
  by (cases "length (items s) < cap") auto

lemma fetch_total:
  assumes "inv s" and "valid out"
  shows "\<exists>s'. fetch out s = (case items s of [] \<Rightarrow> Some (1, out, s') | e # _ \<Rightarrow> Some (0, e, s')) \<and>
           inv s' \<and> items s' = tl (items s)"
  using fetch_front [OF assms] fetch_empty [OF assms(1), of out] assms(1)
  by (cases "items s") auto

end

text \<open>A run of a client: the elements it fetched, oldest first, and the final buffer.\<close>

fun fifo_run :: "('e \<Rightarrow> 's \<Rightarrow> (int \<times> 's) option) \<Rightarrow> ('e \<Rightarrow> 's \<Rightarrow> (int \<times> 'e \<times> 's) option) \<Rightarrow>
    'e fifo_op list \<Rightarrow> 's \<Rightarrow> ('e list \<times> 's) option" where
  "fifo_run put fetch [] s = Some ([], s)"
| "fifo_run put fetch (Put e # ops) s = do { (_, s') \<leftarrow> put e s; fifo_run put fetch ops s' }"
| "fifo_run put fetch (Get out # ops) s = do {
     (ret, e, s') \<leftarrow> fetch out s;
     (es, s'') \<leftarrow> fifo_run put fetch ops s';
     Some (if ret = 0 then e # es else es, s'') }"

text \<open>The same run on a list of at most \<open>cap\<close> elements.\<close>

fun list_run :: "nat \<Rightarrow> 'e fifo_op list \<Rightarrow> 'e list \<Rightarrow> 'e list \<times> 'e list" where
  "list_run cap [] xs = ([], xs)"
| "list_run cap (Put e # ops) xs = list_run cap ops (if length xs < cap then xs @ [e] else xs)"
| "list_run cap (Get out # ops) xs =
     (case xs of [] \<Rightarrow> list_run cap ops []
      | x # xs' \<Rightarrow> (case list_run cap ops xs' of (es, zs) \<Rightarrow> (x # es, zs)))"

fun op_elem :: "'e fifo_op \<Rightarrow> 'e" where
  "op_elem (Put e) = e"
| "op_elem (Get e) = e"

context bounded_fifo
begin

lemma run_refines:
  assumes "inv s" and "\<forall>op \<in> set ops. valid (op_elem op)"
  shows "\<exists>s'. fifo_run put fetch ops s = Some (fst (list_run cap ops (items s)), s') \<and>
           inv s' \<and> items s' = snd (list_run cap ops (items s))"
  using assms
proof (induction ops arbitrary: s)
  case (Cons op ops)
  show ?case
  proof (cases op)
    case (Put e)
    with Cons.prems put_total [of s e] obtain ret s1 where
      s1: "put e s = Some (ret, s1)" "inv s1"
        "items s1 = (if length (items s) < cap then items s @ [e] else items s)"
      by auto
    with Cons.IH [OF s1(2)] Cons.prems(2) Put show ?thesis by auto
  next
    case (Get out)
    with Cons.prems fetch_total [of s out] obtain s1 where
      s1: "fetch out s = (case items s of [] \<Rightarrow> Some (1, out, s1) | e # _ \<Rightarrow> Some (0, e, s1))"
        "inv s1" "items s1 = tl (items s)"
      by auto
    from Cons.IH [OF s1(2)] Cons.prems(2) obtain s2 where
      "fifo_run put fetch ops s1 = Some (fst (list_run cap ops (items s1)), s2)"
      "inv s2" "items s2 = snd (list_run cap ops (items s1))"
      by auto
    with s1 Get show ?thesis by (cases "items s") (auto split: prod.splits)
  qed
qed auto

end

definition ring_put :: "u8 list \<Rightarrow> ring_buffer \<Rightarrow> (int \<times> ring_buffer) option" where
  "ring_put e rb = do {
     (ret, r) \<leftarrow> ring_buffer_push (Some rb) (Some e);
     rb' \<leftarrow> r;
     Some (ret, rb') }"

definition ring_fetch :: "u8 list \<Rightarrow> ring_buffer \<Rightarrow> (int \<times> u8 list \<times> ring_buffer) option" where
  "ring_fetch out rb = do {
     (ret, out', r) \<leftarrow> ring_buffer_pop (Some rb) (Some out);
     e \<leftarrow> out';
     rb' \<leftarrow> r;
     Some (ret, e, rb') }"

definition rb_sized :: "u32 \<Rightarrow> u32 \<Rightarrow> ring_buffer \<Rightarrow> bool" where
  "rb_sized n c rb \<longleftrightarrow> rb_inv rb \<and> rb_elem_size rb = n \<and> rb_capacity rb = c"

lemma ring_put_room:
  assumes "rb_sized n c rb" and "length e = unat n" and "length (rb_list rb) < unat c"
  shows "\<exists>rb'. ring_put e rb = Some (0, rb') \<and> rb_sized n c rb' \<and> rb_list rb' = rb_list rb @ [e]"
proof -
  from ring_buffer_push_appends [of rb e] assms obtain rb'
    where "ring_buffer_push (Some rb) (Some e) = Some (0, Some rb')" "rb_inv rb'"
      "rb_list rb' = rb_list rb @ [e]" "rb_capacity rb' = c" "rb_elem_size rb' = n"
    by (auto simp: rb_sized_def)
  then show ?thesis by (simp add: ring_put_def rb_sized_def)
qed

lemma ring_fetch_front:
  assumes "rb_sized n c rb" and "length out = unat n" and "rb_list rb = e # es"
  shows "\<exists>rb'. ring_fetch out rb = Some (0, e, rb') \<and> rb_sized n c rb' \<and> rb_list rb' = es"
proof -
  from ring_buffer_pop_front [of rb e es out] assms obtain rb'
    where "ring_buffer_pop (Some rb) (Some out) = Some (0, Some e, Some rb')" "rb_inv rb'"
      "rb_list rb' = es" "rb_capacity rb' = c" "rb_elem_size rb' = n"
    by (auto simp: rb_sized_def)
  then show ?thesis by (simp add: ring_fetch_def rb_sized_def)
qed

interpretation ring: bounded_fifo "rb_sized n c" rb_list "\<lambda>e. length e = unat n" "unat c"
  ring_put ring_fetch for n c
proof unfold_locales
  fix rb e
  assume rb: "rb_sized n c rb"
  then show "length (rb_list rb) \<le> unat c"
    using rb_invD(5) [of rb] by (auto simp: rb_sized_def)
  show "ring_put e rb = Some (1, rb)" if "length (rb_list rb) = unat c"
    using rb that ring_buffer_push_full [of rb e] by (simp add: ring_put_def rb_sized_def)
  show "ring_fetch e rb = Some (1, e, rb)" if "rb_list rb = []"
    using rb that ring_buffer_peek_empty [of rb e]
    by (simp add: ring_fetch_def ring_buffer_pop_def)
qed (auto intro: ring_put_room ring_fetch_front)

section \<open>Properties\<close>

text \<open>
  C22. A ring buffer with a valid control block refines a bounded list: whatever sequence of pushes
  and pops a client makes with elements of the right size, no access leaves the storage, every pop
  returns what popping the front of the list would, and a push is dropped exactly when the list
  holds \<open>capacity\<close> elements.
\<close>

theorem ring_buffer_refines_bounded_list:
  assumes "rb_sized n c rb" and "\<forall>op \<in> set ops. length (op_elem op) = unat n"
  shows "\<exists>rb'. fifo_run ring_put ring_fetch ops rb = Some (fst (list_run (unat c) ops (rb_list rb)), rb') \<and>
           rb_sized n c rb' \<and> rb_list rb' = snd (list_run (unat c) ops (rb_list rb))"
  using assms by (rule ring.run_refines)

definition tiny_ring :: ring_buffer where
  "tiny_ring = \<lparr>rb_buf = [9, 9, 9, 9], rb_elem_size = 2, rb_capacity = 2, rb_head = 0,
                rb_tail = 0, rb_count = 0\<rparr>"

theorem ring_buffer_refines_bounded_list_witness:
  "\<exists>rb'. fifo_run ring_put ring_fetch
           [Put [1, 2], Put [3, 4], Put [5, 6], Get [0, 0], Put [7, 8], Get [0, 0]] tiny_ring
         = Some ([[1, 2], [3, 4]], rb') \<and> rb_list rb' = [[7, 8]]"
proof -
  have "rb_sized 2 2 tiny_ring" "rb_list tiny_ring = []"
    by (simp_all add: rb_sized_def rb_inv_def tiny_ring_def rb_list_def)
  with ring_buffer_refines_bounded_list [of 2 2 tiny_ring
      "[Put [1, 2], Put [3, 4], Put [5, 6], Get [0, 0], Put [7, 8], Get [0, 0]]"]
  show ?thesis by auto
qed

end
