(* ===== verification/Itoa.thy ===== *)
theory Itoa
  imports Prelude
begin

text \<open>
  \<open>itoa\<close> of \<^verbatim>\<open>lib/src/string.c\<close>.  The output buffer and the local \<^verbatim>\<open>buffer[66]\<close> are objects:
  a write past their end is undefined behaviour and makes the result \<^term>\<open>None\<close>.  Text is a list
  of \<^typ>\<open>char\<close>, one per C \<^verbatim>\<open>char\<close>.
\<close>

section \<open>The function\<close>

definition CHARS :: string where "CHARS = ''0123456789ABCDEF''"
definition chars :: string where "chars = ''0123456789abcdef''"

abbreviation NUL :: char where "NUL \<equiv> CHR 0x00"

text \<open>
  \<^verbatim>\<open>while (num > 0) { buffer[index++] = chs[num % base]; num /= base; }\<close>: every round writes one
  more cell of the buffer, so the loop ends or leaves it.
\<close>

function itoa_loop :: "string \<Rightarrow> u64 \<Rightarrow> u64 \<Rightarrow> string \<Rightarrow> nat \<Rightarrow> (string \<times> nat) option" where
  "itoa_loop chs base num buffer index =
     (if num = 0 then Some (buffer, index)
      else if index < length buffer \<and> unat (num mod base) < length chs then
        itoa_loop chs base (num div base) (buffer[index := chs ! unat (num mod base)]) (Suc index)
      else None)"
  by pat_completeness auto
termination
  by (relation "measure (\<lambda>(chs, base, num, buffer, index). length buffer - index)") auto

declare itoa_loop.simps [simp del]

text \<open>\<^verbatim>\<open>for (i = 0; i < padding; i++) out[pos++] = '0';\<close>\<close>

fun itoa_pad :: "string \<Rightarrow> nat \<Rightarrow> nat \<Rightarrow> (string \<times> nat) option" where
  "itoa_pad out pos 0 = Some (out, pos)"
| "itoa_pad out pos (Suc k) = do { out' \<leftarrow> obj_set out pos (CHR ''0''); itoa_pad out' (Suc pos) k }"

text \<open>\<^verbatim>\<open>for (i = start; i >= 0; i--) out[pos++] = buffer[i];\<close> with \<open>start + 1\<close> cells to copy.\<close>

fun itoa_copy :: "string \<Rightarrow> nat \<Rightarrow> string \<Rightarrow> nat \<Rightarrow> (string \<times> nat) option" where
  "itoa_copy out pos buffer 0 = Some (out, pos)"
| "itoa_copy out pos buffer (Suc i) = do {
     c \<leftarrow> obj_get buffer i;
     out' \<leftarrow> obj_set out pos c;
     itoa_copy out' (Suc pos) buffer i }"

definition itoa ::
  "string \<Rightarrow> u64 \<Rightarrow> u64 \<Rightarrow> bool \<Rightarrow> bool \<Rightarrow> u32 \<Rightarrow> (string \<times> int) option" where
  "itoa out base num signal upper zero_pad =
     (if base < 2 \<or> base > 16 then Some (out, 0)
      else do {
        let chs = (if upper then CHARS else chars);
        let buffer0 = replicate 66 NUL;
        (buffer1, index1) \<leftarrow>
          (if num = 0 then Some (buffer0[0 := CHR ''0''], 1) else itoa_loop chs base num buffer0 0);
        (buffer, index) \<leftarrow>
          (if signal then do { b \<leftarrow> obj_set buffer1 index1 (CHR ''-''); Some (b, Suc index1) }
           else Some (buffer1, index1));
        let len = (of_nat index :: u32);
        let padding = (if zero_pad > len then zero_pad - len else 0);
        (out1, pos1) \<leftarrow>
          (if signal then do { o' \<leftarrow> obj_set out 0 (CHR ''-''); Some (o', 1) } else Some (out, 0));
        (out2, pos2) \<leftarrow> itoa_pad out1 pos1 (unat padding);
        (out3, pos3) \<leftarrow> itoa_copy out2 pos2 buffer (if signal then index - 1 else index);
        out4 \<leftarrow> obj_set out3 pos3 NUL;
        Some (out4, int pos3) })"

section \<open>Digits\<close>

text \<open>The digits of \<open>n\<close> in base \<open>b\<close>, least significant first, none for 0.\<close>

fun rev_digits :: "nat \<Rightarrow> nat \<Rightarrow> nat list" where
  "rev_digits b n = (if n = 0 \<or> b < 2 then [] else n mod b # rev_digits b (n div b))"

declare rev_digits.simps [simp del]

lemma rev_digits_0 [simp]: "rev_digits b 0 = []"
  by (simp add: rev_digits.simps)

definition digits :: "nat \<Rightarrow> nat \<Rightarrow> nat list" where
  "digits b n = (if n = 0 then [0] else rev (rev_digits b n))"

definition value_of :: "nat \<Rightarrow> nat list \<Rightarrow> nat" where
  "value_of b ds = foldl (\<lambda>a d. a * b + d) 0 ds"

lemma value_of_snoc [simp]: "value_of b [] = 0" "value_of b (ds @ [d]) = value_of b ds * b + d"
  by (simp_all add: value_of_def)

lemma value_of_zeros [simp]: "value_of b (replicate k 0 @ ds) = value_of b ds"
proof -
  have "foldl (\<lambda>a d. a * b + d) 0 (replicate k 0) = 0" by (induction k) auto
  then show ?thesis by (simp add: value_of_def)
qed

lemma value_of_rev_digits: "2 \<le> b \<Longrightarrow> value_of b (rev (rev_digits b n)) = n"
proof (induction b n rule: rev_digits.induct)
  case (1 b n)
  then show ?case by (cases "n = 0") (simp_all add: rev_digits.simps [of b n])
qed

lemma value_of_digits: "2 \<le> b \<Longrightarrow> value_of b (digits b n) = n"
  using value_of_rev_digits [of b n] by (simp add: digits_def value_of_def)

lemma rev_digits_less: "2 \<le> b \<Longrightarrow> d \<in> set (rev_digits b n) \<Longrightarrow> d < b"
proof (induction b n rule: rev_digits.induct)
  case (1 b n)
  then show ?case by (cases "n = 0") (auto simp: rev_digits.simps [of b n])
qed

lemma digits_less: "2 \<le> b \<Longrightarrow> d \<in> set (digits b n) \<Longrightarrow> d < b"
  using rev_digits_less by (auto simp: digits_def split: if_splits)

lemma rev_digits_length: "2 \<le> b \<Longrightarrow> n < 2 ^ k \<Longrightarrow> length (rev_digits b n) \<le> k"
proof (induction b n arbitrary: k rule: rev_digits.induct)
  case (1 b n)
  show ?case
  proof (cases "n = 0")
    case False
    then obtain j where k: "k = Suc j" using "1.prems" by (cases k) auto
    have "n div b \<le> n div 2" using "1.prems"(1) by (simp add: div_le_mono2)
    also have "\<dots> < 2 ^ j" using "1.prems"(2) k by auto
    finally have "length (rev_digits b (n div b)) \<le> j"
      using False "1.prems"(1) by (intro "1.IH") auto
    with False "1.prems"(1) k show ?thesis by (simp add: rev_digits.simps [of b n])
  qed (simp add: rev_digits.simps [of b n])
qed

lemma digits_length: "2 \<le> b \<Longrightarrow> n < 2 ^ 64 \<Longrightarrow> length (digits b n) \<le> 64"
  using rev_digits_length [of b n 64] by (simp add: digits_def)

section \<open>What itoa writes\<close>

definition digit_char :: "bool \<Rightarrow> nat \<Rightarrow> char" where
  "digit_char upper d = (if upper then CHARS else chars) ! d"

text \<open>
  The text of a number: the sign, then zeros up to \<open>zero_pad\<close> characters in all, then the digits.
\<close>

definition itoa_text :: "u64 \<Rightarrow> u64 \<Rightarrow> bool \<Rightarrow> bool \<Rightarrow> u32 \<Rightarrow> string" where
  "itoa_text base num signal upper zero_pad =
     (let ds = map (digit_char upper) (digits (unat base) (unat num));
          sign = (if signal then [CHR ''-''] else [])
      in sign @ replicate (unat zero_pad - (length sign + length ds)) (CHR ''0'') @ ds)"

lemma itoa_loop_writes:
  assumes "2 \<le> unat base" and "unat base \<le> length chs"
    and "index + length (rev_digits (unat base) (unat num)) \<le> length buffer"
  shows "itoa_loop chs base num buffer index =
    Some (take index buffer @ map ((!) chs) (rev_digits (unat base) (unat num)) @
            drop (index + length (rev_digits (unat base) (unat num))) buffer,
          index + length (rev_digits (unat base) (unat num)))"
  using assms
proof (induction chs base num buffer index rule: itoa_loop.induct)
  case (1 chs base num buffer index)
  show ?case
  proof (cases "num = 0")
    case True
    then show ?thesis
      using "1.prems" by (simp add: itoa_loop.simps rev_digits.simps)
  next
    case False
    define ds where "ds = rev_digits (unat base) (unat num div unat base)"
    have nz: "unat num \<noteq> 0" using False by (simp add: unat_0_iff)
    have all: "rev_digits (unat base) (unat num) = unat num mod unat base # ds"
      using nz "1.prems"(1) by (simp add: rev_digits.simps [of _ "unat num"] ds_def)
    have idx: "index < length buffer" and d: "unat num mod unat base < length chs"
      using "1.prems" all by (auto intro: less_le_trans [OF mod_less_divisor])
    then have cond: "index < length buffer \<and> unat (num mod base) < length chs"
      by (simp add: unat_mod_distrib)
    have IH: "itoa_loop chs base (num div base) (buffer[index := chs ! unat (num mod base)]) (Suc index)
       = Some (take (Suc index) (buffer[index := chs ! unat (num mod base)]) @ map ((!) chs) ds @
                drop (Suc index + length ds) (buffer[index := chs ! unat (num mod base)]),
               Suc index + length ds)"
      using "1.IH" [OF False cond "1.prems"(1,2)] "1.prems"(3) all
      by (simp add: ds_def unat_div_distrib)
    show ?thesis
      using IH False cond idx
      by (simp add: itoa_loop.simps [of chs base num] all unat_mod_distrib take_Suc_conv_app_nth
          list_update_append)
  qed
qed

lemma obj_set_overwrite:
  "obj_set (xs @ y # ys) (length xs) c = Some (xs @ c # ys)"
  by (simp add: obj_set_def)

text \<open>
  Writing characters one after the other succeeds exactly while they fit: \<open>write_at t out\<close> is
  \<open>out\<close> with \<open>t\<close> laid over its start.
\<close>

definition over :: "'b list \<Rightarrow> 'b list \<Rightarrow> 'b list" where
  "over t xs = t @ drop (length t) xs"

lemma over_Nil [simp]: "over [] xs = xs"
  by (simp add: over_def)

lemma over_length: "length t \<le> length xs \<Longrightarrow> length (over t xs) = length xs"
  by (simp add: over_def)

lemma obj_set_over:
  "obj_set (over t xs) (length t) c =
     (if length t < length xs then Some (over (t @ [c]) xs) else None)"
  by (simp add: obj_set_def over_def Cons_nth_drop_Suc [symmetric])

lemma itoa_pad_over:
  "length t \<le> length xs \<Longrightarrow> itoa_pad (over t xs) (length t) k =
     (if length t + k \<le> length xs
      then Some (over (t @ replicate k (CHR ''0'')) xs, length t + k) else None)"
proof (induction k arbitrary: t)
  case (Suc k)
  show ?case
  proof (cases "length t < length xs")
    case True
    with Suc.IH [of "t @ [CHR ''0'']"] show ?thesis
      by (auto simp: obj_set_over replicate_app_Cons_same)
  qed (simp add: obj_set_over)
qed simp

lemma itoa_copy_over:
  "\<lbrakk> length t \<le> length xs; k \<le> length buf \<rbrakk> \<Longrightarrow> itoa_copy (over t xs) (length t) buf k =
     (if length t + k \<le> length xs
      then Some (over (t @ rev (take k buf)) xs, length t + k) else None)"
proof (induction k arbitrary: t)
  case (Suc k)
  show ?case
  proof (cases "length t < length xs")
    case True
    with Suc.IH [of "t @ [buf ! k]"] Suc.prems(2) show ?thesis
      by (auto simp: obj_set_over obj_get_def take_Suc_conv_app_nth)
  next
    case False
    then have "obj_set (over t xs) (length t) (buf ! k) = None" by (simp add: obj_set_over)
    with False Suc.prems(2) show ?thesis by (simp add: obj_get_def)
  qed
qed simp

lemma digits_chars_length: "2 \<le> base \<Longrightarrow> length (digits (unat base) (unat (num :: u64))) \<le> 64"
  if "base \<le> (16 :: u64)"
proof -
  assume "2 \<le> base"
  then have "2 \<le> unat base" by (simp add: word_le_nat_alt)
  moreover have "unat num < 2 ^ 64" using unat_lt [of num] by simp
  ultimately show ?thesis by (rule digits_length)
qed

lemma itoa_buffer:
  assumes "2 \<le> base" and "base \<le> 16"
  shows "\<exists>junk. (if num = 0 then Some ((replicate 66 NUL)[0 := CHR ''0''], 1)
      else itoa_loop (if upper then CHARS else chars) base num (replicate 66 NUL) 0)
    = Some (rev (map (digit_char upper) (digits (unat base) (unat num))) @ junk,
            length (digits (unat base) (unat num)))
    \<and> length junk = 66 - length (digits (unat base) (unat num))"
proof (cases "num = 0")
  case True
  have "(replicate 66 NUL)[0 := CHR ''0''] = CHR ''0'' # replicate 65 NUL"
    by (simp add: numeral_eq_Suc)
  with True show ?thesis by (auto simp: digits_def digit_char_def CHARS_def chars_def)
next
  case False
  then have nz: "unat num \<noteq> 0" by (simp add: unat_0_iff)
  have b: "2 \<le> unat base" "unat base \<le> 16" using assms by (simp_all add: word_le_nat_alt)
  have len: "length (if upper then CHARS else chars) = 16" by (simp add: CHARS_def chars_def)
  have le: "length (rev_digits (unat base) (unat num)) \<le> 64"
    using digits_chars_length [OF assms(2,1), of num] nz by (simp add: digits_def)
  then have "0 + length (rev_digits (unat base) (unat num)) \<le> length (replicate 66 NUL)" by simp
  from itoa_loop_writes [OF b(1) _ this, of "if upper then CHARS else chars"] b(2) len nz False le
  show ?thesis by (auto simp: digits_def digit_char_def rev_map)
qed

lemma itoa_tail:
  assumes "length t \<le> length xs" and "n \<le> length buf"
  shows "(do { (out2, pos2) \<leftarrow> itoa_pad (over t xs) (length t) k;
               (out3, pos3) \<leftarrow> itoa_copy out2 pos2 buf n;
               out4 \<leftarrow> obj_set out3 pos3 NUL;
               Some (out4, int pos3) }) =
    (if length t + k + n < length xs
     then Some (over (t @ replicate k (CHR ''0'') @ rev (take n buf) @ [NUL]) xs,
                int (length t + k + n))
     else None)"
proof (cases "length t + k \<le> length xs")
  case True
  let ?u = "t @ replicate k (CHR ''0'')"
  have copy: "itoa_copy (over ?u xs) (length ?u) buf n =
      (if length ?u + n \<le> length xs
       then Some (over (?u @ rev (take n buf)) xs, length ?u + n) else None)"
    using True assms(2) by (intro itoa_copy_over) auto
  show ?thesis
    using True itoa_pad_over [OF assms(1), of k] copy
      obj_set_over [of "?u @ rev (take n buf)" xs NUL] assms(2)
    by (cases "length t + k + n \<le> length xs") (auto simp: add.assoc)
qed (use itoa_pad_over [OF assms(1), of k] in auto)

lemma itoa_result:
  assumes "2 \<le> base" and "base \<le> 16"
  shows "itoa out base num signal upper zero_pad =
    (if length (itoa_text base num signal upper zero_pad) < length out
     then Some (over (itoa_text base num signal upper zero_pad @ [NUL]) out,
                int (length (itoa_text base num signal upper zero_pad)))
     else None)"
proof -
  define ds where "ds = map (digit_char upper) (digits (unat base) (unat num))"
  obtain junk where buf: "(if num = 0 then Some ((replicate 66 NUL)[0 := CHR ''0''], 1)
      else itoa_loop (if upper then CHARS else chars) base num (replicate 66 NUL) 0)
      = Some (rev ds @ junk, length ds)" and junk: "length junk = 66 - length ds"
    using itoa_buffer [OF assms, of num upper] by (auto simp: ds_def)
  have ds64: "length ds \<le> 64" using digits_chars_length [OF assms(2,1)] by (simp add: ds_def)
  have pad: "unat (if zero_pad > of_nat k then zero_pad - of_nat k else 0) = unat zero_pad - k"
    if "k \<le> 65" for k
    using that by (auto simp: unat_of_nat_small unat_diff_nowrap word_less_nat_alt)
  have base: "\<not> (base < 2 \<or> base > 16)" using assms by auto
  show ?thesis
  proof (cases signal)
    case False
    let ?k = "unat zero_pad - length ds"
    have tx: "itoa_text base num signal upper zero_pad = replicate ?k (CHR ''0'') @ ds"
      using False by (simp add: itoa_text_def ds_def Let_def)
    show ?thesis
      using False base buf pad [of "length ds"] ds64
        itoa_tail [of "[]" out "length ds" "rev ds @ junk" ?k]
      unfolding tx by (simp add: itoa_def Let_def)
  next
    case True
    let ?k = "unat zero_pad - Suc (length ds)"
    have tx: "itoa_text base num signal upper zero_pad = CHR ''-'' # replicate ?k (CHR ''0'') @ ds"
      using True by (simp add: itoa_text_def ds_def Let_def)
    have sign: "obj_set (rev ds @ junk) (length ds) (CHR ''-'') = Some (rev ds @ CHR ''-'' # tl junk)"
      using ds64 junk by (cases junk) (auto simp: obj_set_def list_update_append)
    have first: "obj_set out 0 (CHR ''-'') = (if out = [] then None else Some (over ''-'' out))"
      using obj_set_over [of "[]" out "CHR ''-''"] by simp
    show ?thesis
    proof (cases "out = []")
      case True
      then show ?thesis
        using \<open>signal\<close> base buf sign first unfolding tx by (simp add: itoa_def Let_def)
    next
      case False
      then have "length ''-'' \<le> length out" by (cases out) auto
      from itoa_tail [OF this, of "length ds" "rev ds @ CHR ''-'' # tl junk" ?k] show ?thesis
        using False \<open>signal\<close> base buf pad [of "Suc (length ds)"] ds64 sign first
        unfolding tx by (simp add: itoa_def Let_def)
    qed
  qed
qed

lemma itoa_text_length:
  "length (itoa_text base num signal upper zero_pad) =
     max (unat zero_pad) ((if signal then 1 else 0) + length (digits (unat base) (unat num)))"
  by (auto simp: itoa_text_def Let_def)

section \<open>Reading the text back\<close>

definition digit_value :: "char \<Rightarrow> nat" where
  "digit_value c =
     (let n = of_char c in if n \<le> 57 then n - 48 else if n \<le> 70 then n - 55 else n - 87)"

definition text_value :: "nat \<Rightarrow> string \<Rightarrow> nat" where
  "text_value b cs = value_of b (map digit_value cs)"

lemma digit_value_char: "d < 16 \<Longrightarrow> digit_value (digit_char upper d) = d"
proof -
  assume "d < 16"
  then have "d \<in> set [0..<16]" by simp
  moreover have "\<forall>d \<in> set [0..<16]. digit_value (digit_char upper d) = d"
    by (cases upper) (simp_all add: digit_value_def digit_char_def CHARS_def chars_def Let_def upt_rec)
  ultimately show ?thesis by blast
qed

lemma text_value_itoa:
  assumes "2 \<le> base" and "base \<le> 16"
  shows "text_value (unat base) (itoa_text base num False upper zero_pad) = unat num"
proof -
  have b: "2 \<le> unat base" "unat base \<le> 16" using assms by (simp_all add: word_le_nat_alt)
  have "map digit_value (map (digit_char upper) (digits (unat base) (unat num)))
      = digits (unat base) (unat num)"
    using less_le_trans [OF digits_less [OF b(1)] b(2)]
    by (auto intro!: map_idI digit_value_char simp: comp_def)
  moreover have "digit_value (CHR ''0'') = 0" by (simp add: digit_value_def)
  ultimately show ?thesis
    by (simp add: itoa_text_def text_value_def Let_def value_of_digits [OF b(1)])
qed

section \<open>Properties\<close>

text \<open>
  C26. The text \<open>itoa\<close> writes reads back as the number: for every base from 2 to 16 and every
  64-bit value, in upper or lower case and with any zero padding that fits the output object, the
  characters before the terminator, read in that base, are \<open>num\<close>, and the returned length is
  that of the digits or of the padding, whichever is larger.
\<close>

theorem itoa_reads_back:
  assumes "2 \<le> base" and "base \<le> 16" and "max 64 (unat zero_pad) < length out"
  shows "\<exists>out' r. itoa out base num False upper zero_pad = Some (out', int r) \<and>
           length out' = length out \<and> text_value (unat base) (take r out') = unat num \<and>
           out' ! r = NUL \<and> r = max (unat zero_pad) (length (digits (unat base) (unat num)))"
proof -
  let ?t = "itoa_text base num False upper zero_pad"
  have len: "length ?t = max (unat zero_pad) (length (digits (unat base) (unat num)))"
    by (simp add: itoa_text_length)
  also have "\<dots> < length out"
    using assms(3) digits_chars_length [OF assms(2,1), of num] by auto
  finally have fits: "length ?t < length out" .
  then have "itoa out base num False upper zero_pad = Some (over (?t @ [NUL]) out, int (length ?t))"
    by (simp add: itoa_result [OF assms(1,2)])
  moreover have "text_value (unat base) (take (length ?t) (over (?t @ [NUL]) out)) = unat num"
    by (simp add: over_def text_value_itoa [OF assms(1,2)])
  ultimately show ?thesis
    using fits len by (auto simp: over_length over_def nth_append)
qed

theorem itoa_reads_back_witness:
  "\<exists>out' r. itoa (replicate 70 NUL) 16 48879 False True 6 = Some (out', int r) \<and>
     text_value 16 (take r out') = 48879"
  using itoa_reads_back [of 16 6 "replicate 70 NUL" 48879 True] by auto

text \<open>
  The 66-byte buffer the header asks for is enough exactly while the zero padding is below 66:
  with more padding every call writes past the buffer, whatever the number.
\<close>

theorem itoa_66_bytes_enough_iff:
  assumes "2 \<le> base" and "base \<le> 16" and "length out = 66"
  shows "itoa out base num signal upper zero_pad \<noteq> None \<longleftrightarrow> unat zero_pad \<le> 65"
proof -
  have "(if signal then 1 else 0) + length (digits (unat base) (unat num)) \<le> 65"
    using digits_chars_length [OF assms(2,1), of num] by auto
  then have "length (itoa_text base num signal upper zero_pad) < 66 \<longleftrightarrow> unat zero_pad \<le> 65"
    by (auto simp: itoa_text_length)
  then show ?thesis by (simp add: itoa_result [OF assms(1,2)] assms(3))
qed

theorem itoa_66_bytes_enough_iff_witness:
  "itoa (replicate 66 NUL) 10 7 False False 65 \<noteq> None \<and>
   itoa (replicate 66 NUL) 10 7 False False 66 = None"
  using itoa_66_bytes_enough_iff [of 10 "replicate 66 NUL" 7 False False 65]
    itoa_66_bytes_enough_iff [of 10 "replicate 66 NUL" 7 False False 66]
  by (simp del: not_None_eq)

end
