(* ===== verification/Vsnprintf.thy ===== *)
theory Vsnprintf
  imports Cstring Itoa
begin

text \<open>
  \<^verbatim>\<open>lib/src/vsnprintf.c\<close>.  The output is an object of characters (or \<^verbatim>\<open>NULL\<close>), the format is the
  content of a C string, and the \<^verbatim>\<open>va_list\<close> is the i386 argument area: one 32-bit slot per
  argument, two (low word first) for a \<^verbatim>\<open>long long\<close>.  Reading past the last slot is undefined.
  \<^verbatim>\<open>%s\<close> reads the flat memory of theory \<^theory_text>\<open>Cstring\<close>.
\<close>

section \<open>The formatter\<close>

datatype format_size = SIZE_NORMAL | SIZE_H | SIZE_HH | SIZE_L | SIZE_LL

record string_formatter =
  sf_out :: "string option"
  sf_index :: u32
  sf_limit :: u32

text \<open>\<open>f\<close> is always the address of a local of \<open>vsnprintf\<close>, so its \<^verbatim>\<open>NULL\<close> test never fires.\<close>

definition put_char :: "string_formatter \<Rightarrow> char \<Rightarrow> string_formatter option" where
  "put_char f c = do {
     f' \<leftarrow> (case sf_out f of
              Some out' \<Rightarrow>
                if sf_limit f > 0 \<and> sf_index f < sf_limit f - 1
                then do { out'' \<leftarrow> obj_set out' (unat (sf_index f)) c; Some (f\<lparr>sf_out := Some out''\<rparr>) }
                else Some f
            | None \<Rightarrow> Some f);
     Some (f'\<lparr>sf_index := sf_index f' + 1\<rparr>) }"

fun put_chars :: "string_formatter \<Rightarrow> string \<Rightarrow> string_formatter option" where
  "put_chars f [] = Some f"
| "put_chars f (c # cs) = do { f' \<leftarrow> put_char f c; put_chars f' cs }"

definition put_string :: "string_formatter \<Rightarrow> string \<Rightarrow> nat \<Rightarrow> string_formatter option" where
  "put_string f str n = do { cs \<leftarrow> obj_read str 0 n; put_chars f cs }"

definition put_number ::
  "string_formatter \<Rightarrow> u64 \<Rightarrow> u64 \<Rightarrow> bool \<Rightarrow> bool \<Rightarrow> u32 \<Rightarrow> string_formatter option" where
  "put_number f base num signal upper zero_pad = do {
     (buffer, len) \<leftarrow> itoa (replicate 66 NUL) base num signal upper zero_pad;
     if len > 0 then put_string f buffer (nat len) else Some f }"

text \<open>\<^verbatim>\<open>while (*str) put_char(&f, *str++);\<close>\<close>

definition char_of_byte :: "u8 \<Rightarrow> char" where
  "char_of_byte b = char_of (unat b)"

partial_function (option) put_cstr ::
  "mem \<Rightarrow> u32 \<Rightarrow> string_formatter \<Rightarrow> string_formatter option" where
  "put_cstr m str f =
     (if m str \<noteq> 0
      then Option.bind (put_char f (char_of_byte (m str))) (\<lambda>f'. put_cstr m (str + 1) f')
      else Some f)"

section \<open>Parsing a conversion\<close>

definition is_digit :: "char \<Rightarrow> bool" where
  "is_digit c \<longleftrightarrow> 48 \<le> (of_char c :: nat) \<and> (of_char c :: nat) \<le> 57"

text \<open>The width, saturating at \<^verbatim>\<open>UINT32_MAX\<close>.\<close>

fun parse_width :: "u32 \<Rightarrow> string \<Rightarrow> u32 \<times> string" where
  "parse_width width [] = (width, [])"
| "parse_width width (c # cs) =
     (if is_digit c then
        let digit = (of_nat (of_char c - 48) :: u32)
        in parse_width (if width \<le> (0xFFFFFFFF - digit) div 10 then width * 10 + digit
                        else 0xFFFFFFFF) cs
      else (width, c # cs))"

definition parse_size :: "string \<Rightarrow> format_size \<times> string" where
  "parse_size cs =
     (case cs of
        CHR ''h'' # cs1 \<Rightarrow> (case cs1 of CHR ''h'' # cs2 \<Rightarrow> (SIZE_HH, cs2) | _ \<Rightarrow> (SIZE_H, cs1))
      | CHR ''l'' # cs1 \<Rightarrow> (case cs1 of CHR ''l'' # cs2 \<Rightarrow> (SIZE_LL, cs2) | _ \<Rightarrow> (SIZE_L, cs1))
      | _ \<Rightarrow> (SIZE_NORMAL, cs))"

definition va_arg32 :: "u32 list \<Rightarrow> (u32 \<times> u32 list) option" where
  "va_arg32 args = (case args of a # rest \<Rightarrow> Some (a, rest) | [] \<Rightarrow> None)"

definition va_arg64 :: "u32 list \<Rightarrow> (u64 \<times> u32 list) option" where
  "va_arg64 args =
     (case args of lo # hi # rest \<Rightarrow> Some (push_bit 32 (ucast hi) OR ucast lo, rest) | _ \<Rightarrow> None)"

text \<open>What the \<^verbatim>\<open>switch\<close> decides: text to print, or a number with its attributes.\<close>

datatype conv =
    Literal string
  | CString u32
  | Number (n_base: u64) (n_num: u64) (n_signal: bool) (n_upper: bool) (n_prefix: bool)

definition signed_arg :: "format_size \<Rightarrow> u32 list \<Rightarrow> (u64 \<times> u32 list) option" where
  "signed_arg fsize args =
     (case fsize of
        SIZE_HH \<Rightarrow> map_option (\<lambda>(a, r). (scast (ucast a :: u8), r)) (va_arg32 args)
      | SIZE_H \<Rightarrow> map_option (\<lambda>(a, r). (scast (ucast a :: u16), r)) (va_arg32 args)
      | SIZE_L \<Rightarrow> map_option (\<lambda>(a, r). (scast a, r)) (va_arg32 args)
      | SIZE_LL \<Rightarrow> va_arg64 args
      | SIZE_NORMAL \<Rightarrow> map_option (\<lambda>(a, r). (scast a, r)) (va_arg32 args))"

definition unsigned_arg :: "format_size \<Rightarrow> u32 list \<Rightarrow> (u64 \<times> u32 list) option" where
  "unsigned_arg fsize args =
     (case fsize of
        SIZE_HH \<Rightarrow> map_option (\<lambda>(a, r). (ucast (ucast a :: u8), r)) (va_arg32 args)
      | SIZE_H \<Rightarrow> map_option (\<lambda>(a, r). (ucast (ucast a :: u16), r)) (va_arg32 args)
      | SIZE_L \<Rightarrow> map_option (\<lambda>(a, r). (ucast a, r)) (va_arg32 args)
      | SIZE_LL \<Rightarrow> va_arg64 args
      | SIZE_NORMAL \<Rightarrow> map_option (\<lambda>(a, r). (ucast a, r)) (va_arg32 args))"

definition decode_conv :: "char \<Rightarrow> format_size \<Rightarrow> u32 list \<Rightarrow> (conv \<times> u32 list) option" where
  "decode_conv c fsize args =
     (if c = CHR ''%'' then Some (Literal ''%'', args)
      else if c = CHR ''c'' then do {
        (a, r) \<leftarrow> va_arg32 args; Some (Literal [char_of_byte (ucast a)], r) }
      else if c = CHR ''s'' then do {
        (p, r) \<leftarrow> va_arg32 args; Some (if p = 0 then Literal ''(null)'' else CString p, r) }
      else if c = CHR ''p'' then do {
        (p, r) \<leftarrow> va_arg32 args; Some (Number 16 (ucast p) False False True, r) }
      else if c = CHR ''d'' \<or> c = CHR ''i'' then do {
        (value, r) \<leftarrow> signed_arg fsize args;
        Some (if sint value < 0 then Number 10 (- (value + 1) + 1) True False False
              else Number 10 value False False False, r) }
      else if c = CHR ''u'' \<or> c = CHR ''x'' \<or> c = CHR ''X'' \<or> c = CHR ''o'' then do {
        (num, r) \<leftarrow> unsigned_arg fsize args;
        Some (Number (if c = CHR ''x'' \<or> c = CHR ''X'' then 16 else if c = CHR ''o'' then 8 else 10)
                num False (c = CHR ''X'') False, r) }
      else Some (Literal [CHR ''%'', c], args))"

definition digit_width :: "bool \<Rightarrow> u32 \<Rightarrow> bool \<Rightarrow> bool \<Rightarrow> u32" where
  "digit_width zero_flag width signal prefix =
     (if zero_flag \<and> width > 0 then
        let extra = (if signal then 1 else 0) + (if prefix then 2 else 0)
        in if width > extra then width - extra else 0
      else 0)"

fun put_conv :: "mem \<Rightarrow> bool \<Rightarrow> u32 \<Rightarrow> conv \<Rightarrow> string_formatter \<Rightarrow> string_formatter option" where
  "put_conv m zero_flag width (Literal cs) f = put_chars f cs"
| "put_conv m zero_flag width (CString p) f = put_cstr m p f"
| "put_conv m zero_flag width (Number base num signal upper prefix) f = do {
     f' \<leftarrow> (if prefix then put_chars f ''0x'' else Some f);
     put_number f' base num signal upper (digit_width zero_flag width signal prefix) }"

section \<open>vsnprintf\<close>

lemma parse_width_length: "length (snd (parse_width w cs)) \<le> length cs"
  by (induction w cs rule: parse_width.induct) (auto simp: Let_def)

lemma parse_size_length: "length (snd (parse_size cs)) \<le> length cs"
  by (auto simp: parse_size_def split: list.splits char.splits bool.splits)

text \<open>The directive after a \<^verbatim>\<open>%\<close>: zero flag, width, size and what is left to read.\<close>

definition parse_directive :: "string \<Rightarrow> bool \<times> u32 \<times> format_size \<times> string" where
  "parse_directive cs =
     (let zero_flag = (case cs of c # _ \<Rightarrow> c = CHR ''0'' | [] \<Rightarrow> False);
          cs1 = (if zero_flag then tl cs else cs);
          (width, cs2) = parse_width 0 cs1;
          (fsize, cs3) = parse_size cs2
      in (zero_flag, width, fsize, cs3))"

lemma parse_directive_length:
  "parse_directive cs = (z, w, sz, cs') \<Longrightarrow> length cs' \<le> length cs"
  using parse_width_length [of 0 cs] parse_width_length [of 0 "tl cs"]
    parse_size_length [of "snd (parse_width 0 cs)"] parse_size_length [of "snd (parse_width 0 (tl cs))"]
  by (auto simp: parse_directive_def Let_def split: prod.splits if_splits)

function vsn_loop ::
  "mem \<Rightarrow> string \<Rightarrow> u32 list \<Rightarrow> string_formatter \<Rightarrow> string_formatter option" where
  "vsn_loop m [] args f = Some f"
| "vsn_loop m (c # cs) args f =
     (if c \<noteq> CHR ''%'' then do { f' \<leftarrow> put_char f c; vsn_loop m cs args f' }
      else if cs = [] then Some f
      else case parse_directive cs of (zero_flag, width, fsize, cs1) \<Rightarrow>
        (case cs1 of [] \<Rightarrow> Some f
         | k # cs2 \<Rightarrow> do {
             (conv, args') \<leftarrow> decode_conv k fsize args;
             f' \<leftarrow> put_conv m zero_flag width conv f;
             vsn_loop m cs2 args' f' }))"
  by pat_completeness auto
termination
  by (relation "measure (\<lambda>(m, fmt, args, f). length fmt)")
    (auto dest!: sym [of _ "parse_directive _"] parse_directive_length)

definition vsnprintf ::
  "mem \<Rightarrow> string option \<Rightarrow> u32 \<Rightarrow> string option \<Rightarrow> u32 list \<Rightarrow> (string option \<times> int) option" where
  "vsnprintf m s n format arg =
     (case format of None \<Rightarrow> Some (s, -1)
      | Some fmt \<Rightarrow>
        if s = None \<and> n \<noteq> 0 then Some (s, -1)
        else do {
          f \<leftarrow> vsn_loop m fmt arg \<lparr>sf_out = s, sf_index = 0, sf_limit = n\<rparr>;
          s' \<leftarrow> (case sf_out f of
                   Some out' \<Rightarrow>
                     if n > 0 then
                       map_option Some
                         (obj_set out' (unat (if sf_index f < n then sf_index f else n - 1)) NUL)
                     else Some (Some out')
                 | None \<Rightarrow> Some None);
          Some (s', sint (sf_index f)) })"

section \<open>The text of a format, without any buffer\<close>

fun conv_text :: "mem \<Rightarrow> bool \<Rightarrow> u32 \<Rightarrow> conv \<Rightarrow> string option" where
  "conv_text m zero_flag width (Literal cs) = Some cs"
| "conv_text m zero_flag width (CString p) =
     map_option (\<lambda>n. map char_of_byte (bytes_at m p (unat n))) (strlen m p)"
| "conv_text m zero_flag width (Number base num signal upper prefix) =
     (let t = itoa_text base num signal upper (digit_width zero_flag width signal prefix)
      in if 2 \<le> base \<and> base \<le> 16 \<and> length t < 66 then Some ((if prefix then ''0x'' else []) @ t)
         else None)"

text \<open>
  \<open>render\<close> is what the call prints when the buffer is large enough; \<^term>\<open>None\<close> when an argument
  is missing, a \<^verbatim>\<open>%s\<close> string has no end, or a number does not fit the 66-byte local buffer.
\<close>

function render :: "mem \<Rightarrow> string \<Rightarrow> u32 list \<Rightarrow> string option" where
  "render m [] args = Some []"
| "render m (c # cs) args =
     (if c \<noteq> CHR ''%'' then map_option ((#) c) (render m cs args)
      else if cs = [] then Some []
      else case parse_directive cs of (zero_flag, width, fsize, cs1) \<Rightarrow>
        (case cs1 of [] \<Rightarrow> Some []
         | k # cs2 \<Rightarrow> do {
             (conv, args') \<leftarrow> decode_conv k fsize args;
             t \<leftarrow> conv_text m zero_flag width conv;
             u \<leftarrow> render m cs2 args';
             Some (t @ u) }))"
  by pat_completeness auto
termination
  by (relation "measure (\<lambda>(m, fmt, args). length fmt)")
    (auto dest!: sym [of _ "parse_directive _"] parse_directive_length)

declare vsn_loop.simps(2) [simp del] render.simps(2) [simp del]

text \<open>
  The formatter after printing \<open>t\<close> into \<open>out\<close> with limit \<open>n\<close>: the first \<open>n - 1\<close> characters are
  stored, all are counted.
\<close>

definition sf_after :: "string option \<Rightarrow> u32 \<Rightarrow> string \<Rightarrow> string_formatter" where
  "sf_after out n t =
     \<lparr>sf_out = map_option (over (take (unat n - 1) t)) out, sf_index = of_nat (length t),
      sf_limit = n\<rparr>"

definition fits :: "string option \<Rightarrow> u32 \<Rightarrow> bool" where
  "fits out n \<longleftrightarrow> (case out of None \<Rightarrow> True | Some o' \<Rightarrow> unat n \<le> length o')"

lemma put_char_after:
  assumes "fits out n" and "Suc (length t) < 2 ^ 32"
  shows "put_char (sf_after out n t) c = Some (sf_after out n (t @ [c]))"
proof (cases out)
  case (Some o')
  have len: "unat (of_nat (length t) :: u32) = length t"
    using assms(2) by (simp add: unat_of_nat_small)
  have guard: "0 < n \<and> of_nat (length t) < n - 1 \<longleftrightarrow> length t < unat n - 1"
  proof (cases "n = 0")
    case False
    then have "unat (n - 1) = unat n - 1" using unat_gt_0 [of n] by (subst unat_diff_nowrap) auto
    then show ?thesis using False len by (simp add: word_less_nat_alt unat_gt_0)
  qed simp
  show ?thesis
  proof (cases "length t < unat n - 1")
    case True
    with guard assms(1) Some len obj_set_over [of t o' c] show ?thesis
      by (simp add: put_char_def sf_after_def fits_def add.commute)
  next
    case False
    then have "\<not> (0 < n \<and> of_nat (length t) < n - 1)" using guard by blast
    with False Some show ?thesis by (auto simp: put_char_def sf_after_def add.commute)
  qed
qed (simp add: put_char_def sf_after_def add.commute)

lemma put_chars_after:
  "\<lbrakk> fits out n; length (t @ cs) < 2 ^ 32 \<rbrakk>
    \<Longrightarrow> put_chars (sf_after out n t) cs = Some (sf_after out n (t @ cs))"
  by (induction cs arbitrary: t) (auto simp: put_char_after)

lemma put_cstr_after:
  assumes "fits out n" and "cstr_len m p k" and "length t + k < 2 ^ 32"
  shows "put_cstr m p (sf_after out n t) =
    Some (sf_after out n (t @ map char_of_byte (bytes_at m p k)))"
  using assms
proof (induction k arbitrary: p t)
  case 0
  then show ?case by (simp add: put_cstr.simps [of m p] cstr_len_def)
next
  case (Suc k)
  have p: "m p \<noteq> 0" "cstr_len m (p + 1) k"
    using Suc.prems(2) by (auto simp: cstr_len_def add.assoc dest: spec [of _ 0] spec [of _ "Suc _"])
  have "bytes_at m p (Suc k) = m p # bytes_at m (p + 1) k"
    by (simp add: bytes_at_def upt_conv_Cons map_Suc_upt [symmetric] add.assoc del: upt_Suc)
  with p Suc.IH [OF Suc.prems(1) p(2), of "t @ [char_of_byte (m p)]"] Suc.prems show ?case
    by (simp add: put_cstr.simps [of m p] put_char_after)
qed

lemma put_conv_after:
  assumes "fits out n" and "conv_text m z w conv = Some u" and "length (t @ u) < 2 ^ 32"
  shows "put_conv m z w conv (sf_after out n t) = Some (sf_after out n (t @ u))"
proof (cases conv)
  case (Literal cs)
  with assms show ?thesis by (simp add: put_chars_after)
next
  case (CString p)
  with assms(2) obtain k where k: "strlen m p = Some k" "u = map char_of_byte (bytes_at m p (unat k))"
    by auto
  then have "cstr_len m p (unat k)" using strlen_first_zero [of m p] by blast
  with CString k assms show ?thesis by (simp add: put_cstr_after)
next
  case (Number base num signal upper prefix)
  define v where "v = itoa_text base num signal upper (digit_width z w signal prefix)"
  define pre where "pre = (if prefix then ''0x'' else [])"
  from assms(2) Number have v: "2 \<le> base" "base \<le> 16" "length v < 66" "u = pre @ v"
    by (auto simp: v_def pre_def Let_def split: if_splits)
  have "(if prefix then put_chars (sf_after out n t) ''0x'' else Some (sf_after out n t))
      = Some (sf_after out n (t @ pre))"
    using put_chars_after [OF assms(1), of t "''0x''"] assms(3) v(4) by (auto simp: pre_def)
  moreover have "put_number (sf_after out n (t @ pre)) base num signal upper (digit_width z w signal prefix)
      = Some (sf_after out n (t @ u))"
    using itoa_result [OF v(1,2), of "replicate 66 NUL" num signal upper "digit_width z w signal prefix"]
      put_chars_after [OF assms(1), of "t @ pre" v] v assms(3)
    by (simp add: put_number_def put_string_def obj_read_def v_def [symmetric] over_def)
  ultimately show ?thesis using Number by simp
qed

lemma vsn_loop_renders:
  assumes "fits out n" and "render m fmt args = Some u" and "length (t @ u) < 2 ^ 32"
  shows "vsn_loop m fmt args (sf_after out n t) = Some (sf_after out n (t @ u))"
  using assms
proof (induction m fmt args arbitrary: t u rule: render.induct)
  case (1 m args)
  then show ?case by simp
next
  case (2 m c cs args)
  show ?case
  proof (cases "c = CHR ''%'' \<and> cs \<noteq> []")
    case False
    with "2.IH"(1) [of "tl u" "t @ [c]"] "2.prems" show ?thesis
      by (auto simp: vsn_loop.simps(2) render.simps(2) put_char_after)
  next
    case True
    then have pct: "\<not> c \<noteq> CHR ''%''" "cs \<noteq> []" by auto
    obtain z w sz cs1 where d: "parse_directive cs = (z, w, sz, cs1)" by (metis prod_cases4)
    show ?thesis
    proof (cases cs1)
      case Nil
      with True d "2.prems" show ?thesis by (simp add: vsn_loop.simps(2) render.simps(2))
    next
      case (Cons k cs2)
      with True d "2.prems"(2) obtain conv args' v u' where
        v: "decode_conv k sz args = Some (conv, args')" "conv_text m z w conv = Some v"
          "render m cs2 args' = Some u'" "u = v @ u'"
        by (auto simp: render.simps(2) bind_eq_Some_conv)
      have "vsn_loop m cs2 args' (sf_after out n (t @ v)) = Some (sf_after out n ((t @ v) @ u'))"
        using "2.IH"(2) [OF pct d [symmetric] refl refl Cons v(1) refl v(2) "2.prems"(1) v(3)]
          "2.prems"(3) v(4) by simp
      with True d Cons v put_conv_after [OF "2.prems"(1) v(2), of t] "2.prems"(3) show ?thesis
        by (simp add: vsn_loop.simps(2))
    qed
  qed
qed

lemma sf_after_start: "\<lparr>sf_out = out, sf_index = 0, sf_limit = n\<rparr> = sf_after out n []"
  by (cases out) (simp_all add: sf_after_def)

lemma take_over:
  assumes "length t < length xs"
  shows "(over t xs)[length t := c] = t @ c # drop (Suc (length t)) xs"
  using assms by (simp add: over_def list_update_append Cons_nth_drop_Suc [symmetric])

lemma vsnprintf_result:
  assumes "render m fmt args = Some t" and "length t < 2 ^ 31" and "0 < n" and "unat n \<le> length out"
  shows "vsnprintf m (Some out) n (Some fmt) args =
    Some (Some (take (unat n - 1) t @ NUL # drop (Suc (min (length t) (unat n - 1))) out), int (length t))"
proof -
  define k where "k = min (length t) (unat n - 1)"
  have loop: "vsn_loop m fmt args (sf_after (Some out) n []) = Some (sf_after (Some out) n t)"
    using vsn_loop_renders [of "Some out" n m fmt args t "[]"] assms by (simp add: fits_def)
  have len: "unat (of_nat (length t) :: u32) = length t"
    using assms(2) by (simp add: unat_of_nat_small)
  have npos: "0 < unat n" using assms(3) by (simp add: unat_gt_0 word_neq_0_conv)
  have "unat (n - 1) = unat n - 1" using npos by (subst unat_diff_nowrap) auto
  then have pos: "unat (if of_nat (length t) < n then of_nat (length t) else n - 1) = k"
    using len npos by (auto simp: k_def word_less_nat_alt)
  have tk: "length (take (unat n - 1) t) = k" by (simp add: k_def)
  have kl: "k < length out" using npos assms(4) by (simp add: k_def)
  have ret: "sint (of_nat (length t) :: u32) = int (length t)"
    using assms(2) by (simp add: signed_of_nat signed_take_bit_int_eq_self)
  have "obj_set (over (take (unat n - 1) t) out) k NUL
      = Some (take (unat n - 1) t @ NUL # drop (Suc k) out)"
    using take_over [of "take (unat n - 1) t" out NUL] kl tk
    by (simp add: obj_set_def over_length)
  then show ?thesis
    using assms(3) loop pos ret unfolding k_def
    by (cases "of_nat (length t) < n") (simp_all add: vsnprintf_def sf_after_def)
qed

section \<open>Properties\<close>

text \<open>
  C25. \<open>vsnprintf\<close> into a buffer of \<open>n > 0\<close> bytes is safe and truncates as the C function
  promises: when the directives render to \<open>t\<close>, it stores the first \<open>n - 1\<close> characters of \<open>t\<close> and a
  terminator, touches nothing after it, and returns the length of the whole of \<open>t\<close>.
\<close>

theorem vsnprintf_truncates:
  assumes "render m fmt args = Some t" and "length t < 2 ^ 31" and "0 < n" and "unat n \<le> length out"
  shows "vsnprintf m (Some out) n (Some fmt) args =
    Some (Some (take (unat n - 1) t @ NUL # drop (Suc (min (length t) (unat n - 1))) out), int (length t))"
  using assms by (rule vsnprintf_result)

lemmas format_eval =
  render.simps(2) vsn_loop.simps(2) parse_directive_def parse_size_def is_digit_def
  decode_conv_def va_arg32_def signed_arg_def unsigned_arg_def digit_width_def itoa_text_def
  digits_def rev_digits.simps digit_char_def CHARS_def chars_def

theorem vsnprintf_truncates_witness:
  "vsnprintf (\<lambda>_. 0) (Some ''........'') 5 (Some ''x=%u%%'') [1234] = Some (Some (''x=12'' @ [NUL] @ ''...''), 7)"
proof -
  have "render (\<lambda>_. 0) ''x=%u%%'' [1234] = Some ''x=1234%''"
    by (simp add: format_eval)
  from vsnprintf_truncates [OF this, of 5 "''........''"] show ?thesis by simp
qed

text \<open>
  With the zero flag a negative number comes out one character short of its width: the sign is
  taken off the width by \<open>vsnprintf\<close> and counted again by \<open>itoa\<close>.  A width \<open>w\<close> larger than the
  sign and the digits gives \<open>w - 1\<close> characters, where the same unsigned number gives \<open>w\<close>.
\<close>

theorem zero_padded_negative_is_short:
  assumes "conv_text m True w (Number 10 num signal upper False) = Some t"
    and "(if signal then 1 else 0) + length (digits 10 (unat num)) < unat w"
  shows "length t = (if signal then unat w - 1 else unat w)"
proof -
  have "unat (digit_width True w signal False) = (if signal then unat w - 1 else unat w)"
  proof (cases signal)
    case True
    then have "1 < w" "0 < w" "unat (w - 1) = unat w - 1"
      using assms(2) by (auto simp: word_less_nat_alt unat_diff_nowrap)
    with True show ?thesis by (auto simp: digit_width_def)
  qed (use assms(2) in \<open>auto simp: digit_width_def word_less_nat_alt\<close>)
  then show ?thesis
    using assms by (auto simp: itoa_text_length Let_def split: if_splits)
qed

theorem zero_padded_negative_is_short_witness:
  "\<exists>t. conv_text (\<lambda>_. 0) True 5 (Number 10 42 True False False) = Some t \<and> length t = 4 \<and>
       conv_text (\<lambda>_. 0) True 5 (Number 10 42 False False False) = Some ''00042''"
proof -
  have neg: "conv_text (\<lambda>_. 0) True 5 (Number 10 42 True False False) = Some ''-042''"
    and pos: "conv_text (\<lambda>_. 0) True 5 (Number 10 42 False False False) = Some ''00042''"
    by (simp_all add: format_eval numeral_3_eq_3)
  have "length (digits 10 42) = 2" by (simp add: format_eval)
  with zero_padded_negative_is_short [OF neg] neg pos show ?thesis by simp
qed

text \<open>
  A zero-padded number wider than 65 overruns the 66-byte stack buffer of \<open>put_number\<close>: printing
  an unsigned number with the zero flag is defined exactly when the width is below 66, in whatever
  state the formatter is, provided the output object is as large as its limit.
\<close>

theorem wide_zero_padding_overruns:
  assumes "fits out n" and "length t < 2 ^ 31" and "2 \<le> base" and "base \<le> 16"
  shows "put_conv m True w (Number base num False upper False) (sf_after out n t) \<noteq> None
    \<longleftrightarrow> unat w \<le> 65"
proof -
  have dw: "digit_width True w False False = w"
    by (auto simp: digit_width_def word_gt_0)
  have fit: "length (itoa_text base num False upper w) < 66 \<longleftrightarrow> unat w \<le> 65"
    using digits_chars_length [OF assms(4,3), of num] by (auto simp: itoa_text_length)
  show ?thesis
  proof (cases "unat w \<le> 65")
    case True
    then have "conv_text m True w (Number base num False upper False)
        = Some (itoa_text base num False upper w)"
      using fit assms(3,4) dw by simp
    from put_conv_after [OF assms(1) this, of t] True fit assms(2) show ?thesis by simp
  next
    case False
    then show ?thesis
      using itoa_result [OF assms(3,4), of "replicate 66 NUL" num False upper w] fit dw
      by (simp add: put_number_def)
  qed
qed

theorem wide_zero_padding_overruns_witness:
  "put_conv (\<lambda>_. 0) True 66 (Number 10 7 False False False)
     (sf_after (Some (replicate 256 NUL)) 256 []) = None"
  using wide_zero_padding_overruns [of "Some (replicate 256 NUL)" 256 "[]" 10 "\<lambda>_. 0" 66 7 False]
  by (simp add: fits_def)

end
