(* ===== verification/Initrd.thy ===== *)
theory Initrd
  imports Cstring
begin

text \<open>
  \<^verbatim>\<open>lib/src/initrd.c\<close>: reading the initial ramdisk.  Pointers are addresses of the flat memory of
  theory \<^theory_text>\<open>Cstring\<close>, 0 is \<^verbatim>\<open>NULL\<close>; a pointer to an \<^verbatim>\<open>initrd_t\<close> is the record or \<^term>\<open>None\<close>.
  The archive layout the reader is proved against is the one \<^verbatim>\<open>initrd/make-initrd\<close> writes.
\<close>

section \<open>Reading the archive\<close>

definition read32 :: "mem \<Rightarrow> u32 \<Rightarrow> u32" where
  "read32 m p = u32_of_bytes (m p) (m (p + 1)) (m (p + 2)) (m (p + 3))"

text \<open>Field offsets of the packed structures \<^verbatim>\<open>initrd_header_t\<close> (16 bytes) and \<^verbatim>\<open>initrd_entry_t\<close> (20).\<close>

definition header_magic :: "mem \<Rightarrow> u32 \<Rightarrow> u32" where "header_magic m h = read32 m h"
definition header_entry_count :: "mem \<Rightarrow> u32 \<Rightarrow> u32" where "header_entry_count m h = read32 m (h + 8)"
definition header_data_offset :: "mem \<Rightarrow> u32 \<Rightarrow> u32" where "header_data_offset m h = read32 m (h + 12)"

definition entry_name_size :: "mem \<Rightarrow> u32 \<Rightarrow> u32" where "entry_name_size m e = read32 m (e + 8)"
definition entry_offset :: "mem \<Rightarrow> u32 \<Rightarrow> u32" where "entry_offset m e = read32 m (e + 12)"
definition entry_size :: "mem \<Rightarrow> u32 \<Rightarrow> u32" where "entry_size m e = read32 m (e + 16)"

record initrd =
  ird_base :: u32
  ird_header :: u32
  ird_entries :: u32
  ird_data :: u32

definition initrd_create :: "mem \<Rightarrow> initrd option \<Rightarrow> u32 \<Rightarrow> initrd option" where
  "initrd_create m out data =
     (case out of None \<Rightarrow> None
      | Some i \<Rightarrow>
        if data = 0 then Some i
        else Some \<lparr>ird_base = data, ird_header = data, ird_entries = data + 16,
                   ird_data = data + header_data_offset m data\<rparr>)"

text \<open>\<^term>\<open>True\<close> when the archive is invalid.\<close>

definition initrd_check :: "mem \<Rightarrow> initrd option \<Rightarrow> bool" where
  "initrd_check m ird =
     (case ird of None \<Rightarrow> True
      | Some i \<Rightarrow> if ird_header i = 0 \<or> ird_entries i = 0 then True
                  else header_magic m (ird_header i) \<noteq> 0x47554D4D)"

fun skip_entries :: "mem \<Rightarrow> u32 \<Rightarrow> nat \<Rightarrow> u32" where
  "skip_entries m entry 0 = entry"
| "skip_entries m entry (Suc n) = skip_entries m (entry + entry_name_size m entry + 20) n"

definition initrd_get_entry :: "mem \<Rightarrow> initrd option \<Rightarrow> u32 \<Rightarrow> u32" where
  "initrd_get_entry m ird n =
     (if initrd_check m ird then 0
      else case ird of None \<Rightarrow> 0
        | Some i \<Rightarrow> if n \<ge> header_entry_count m (ird_header i) then 0
                    else skip_entries m (ird_entries i) (unat n))"

text \<open>The search loop from index \<open>i\<close> with \<open>k\<close> entries to go.\<close>

fun find_loop :: "mem \<Rightarrow> initrd option \<Rightarrow> u32 \<Rightarrow> u32 \<Rightarrow> u32 \<Rightarrow> nat \<Rightarrow> u32" where
  "find_loop m ird path len i 0 = 0"
| "find_loop m ird path len i (Suc k) =
     (let entry = initrd_get_entry m ird i
      in if entry = 0 then find_loop m ird path len (i + 1) k
         else if entry_name_size m entry \<noteq> len + 1 then find_loop m ird path len (i + 1) k
         else if memcmp m (entry + 20) path len = 0 then entry
         else find_loop m ird path len (i + 1) k)"

text \<open>\<^term>\<open>None\<close> when the path has no terminator and \<open>strlen\<close> does not return.\<close>

definition initrd_find_entry :: "mem \<Rightarrow> initrd option \<Rightarrow> u32 \<Rightarrow> u32 option" where
  "initrd_find_entry m ird path =
     (if initrd_check m ird \<or> path = 0 then Some 0
      else do {
        len \<leftarrow> strlen m path;
        if len = 0 then Some 0
        else case ird of None \<Rightarrow> Some 0
          | Some i \<Rightarrow> Some (find_loop m ird path len 0 (unat (header_entry_count m (ird_header i)))) })"

definition initrd_get_len :: "mem \<Rightarrow> u32 \<Rightarrow> u32" where
  "initrd_get_len m entry = (if entry = 0 then 0 else entry_size m entry)"

definition initrd_get_data :: "mem \<Rightarrow> initrd option \<Rightarrow> u32 \<Rightarrow> u32" where
  "initrd_get_data m ird entry =
     (if initrd_check m ird \<or> entry = 0 then 0
      else case ird of None \<Rightarrow> 0 | Some i \<Rightarrow> ird_base i + entry_offset m entry)"

section \<open>The archive format\<close>

record archive_file =
  f_name :: "u8 list"
  f_type :: u32
  f_permissions :: u32
  f_contents :: "u8 list"

text \<open>Directories (any type but 2) have neither contents nor an offset.\<close>

definition entry_bytes :: "nat \<Rightarrow> archive_file \<Rightarrow> u8 list" where
  "entry_bytes off f =
     bytes_of_u32 (f_type f) @ bytes_of_u32 (f_permissions f) @
     bytes_of_u32 (of_nat (length (f_name f) + 1)) @
     bytes_of_u32 (if f_type f = 2 then of_nat off else 0) @
     bytes_of_u32 (of_nat (length (f_contents f))) @ f_name f @ [0]"

fun table :: "nat \<Rightarrow> archive_file list \<Rightarrow> u8 list" where
  "table off [] = []"
| "table off (f # fs) = entry_bytes off f @ table (off + length (f_contents f)) fs"

definition table_size :: "archive_file list \<Rightarrow> nat" where
  "table_size fs = (\<Sum>f\<leftarrow>fs. 21 + length (f_name f))"

definition contents_size :: "archive_file list \<Rightarrow> nat" where
  "contents_size fs = (\<Sum>f\<leftarrow>fs. length (f_contents f))"

definition archive :: "archive_file list \<Rightarrow> u8 list" where
  "archive fs =
     bytes_of_u32 0x47554D4D @ bytes_of_u32 1 @ bytes_of_u32 (of_nat (length fs)) @
     bytes_of_u32 (of_nat (16 + table_size fs)) @ table (16 + table_size fs) fs @
     concat (map f_contents fs)"

definition file_ok :: "archive_file \<Rightarrow> bool" where
  "file_ok f \<longleftrightarrow> f_name f \<noteq> [] \<and> 0 \<notin> set (f_name f) \<and> (f_type f \<noteq> 2 \<longrightarrow> f_contents f = [])"

text \<open>Memory that holds a byte sequence at an address.\<close>

definition holds :: "mem \<Rightarrow> u32 \<Rightarrow> u8 list \<Rightarrow> bool" where
  "holds m a bs \<longleftrightarrow> bytes_at m a (length bs) = bs"

lemma bytes_at_add: "bytes_at m a (i + j) = bytes_at m a i @ bytes_at m (a + of_nat i) j"
proof (induction j)
  case (Suc j)
  then show ?case by (simp add: bytes_at_def add.assoc)
qed (simp add: bytes_at_def)

lemma holds_Nil [simp]: "holds m a []"
  by (simp add: holds_def)

lemma holds_append: "holds m a (xs @ ys) \<longleftrightarrow> holds m a xs \<and> holds m (a + of_nat (length xs)) ys"
  by (simp add: holds_def bytes_at_add)

lemma holds_read32: "holds m a (bytes_of_u32 w) \<Longrightarrow> read32 m a = w"
proof -
  assume "holds m a (bytes_of_u32 w)"
  then have "map (\<lambda>i. m (a + of_nat i)) [0, 1, 2, 3] = bytes_of_u32 w"
    by (simp add: holds_def bytes_at_def upt_rec numeral_eq_Suc)
  then show ?thesis by (simp add: read32_def bytes_of_u32_def)
qed

lemma holds_strlen:
  assumes "holds m p (name @ [0])" and "0 \<notin> set name"
  shows "strlen m p = Some (of_nat (length name))"
proof -
  have "bytes_at m p (length name) = name" "bytes_at m (p + of_nat (length name)) 1 = [0]"
    using assms(1) by (simp_all add: holds_append) (simp_all add: holds_def)
  then have "cstr_len m p (length name)"
    using assms(2) by (auto simp: cstr_len_def list_eq_iff_nth_eq in_set_conv_nth)
  then show ?thesis by (rule strlen_cstr)
qed

section \<open>Walking the table\<close>

lemma entry_bytes_length [simp]: "length (entry_bytes off f) = 21 + length (f_name f)"
  by (simp add: entry_bytes_def)

lemma table_length [simp]: "length (table off fs) = table_size fs"
  by (induction off fs rule: table.induct) (simp_all add: table_size_def)

lemma archive_length: "length (archive fs) = 16 + table_size fs + contents_size fs"
  by (simp add: archive_def length_concat contents_size_def comp_def)

text \<open>The offset recorded for an entry that comes after the entries \<open>before\<close>.\<close>

definition recorded_offset :: "nat \<Rightarrow> archive_file list \<Rightarrow> archive_file \<Rightarrow> u32" where
  "recorded_offset off before f = (if f_type f = 2 then of_nat (off + contents_size before) else 0)"

lemma entry_holds:
  assumes "holds m e (entry_bytes off f)"
  shows "entry_name_size m e = of_nat (length (f_name f) + 1)"
    and "entry_offset m e = (if f_type f = 2 then of_nat off else 0)"
    and "entry_size m e = of_nat (length (f_contents f))"
    and "holds m (e + 20) (f_name f)" and "holds m (e + 20) (f_name f @ [0])"
  using assms
  by (auto simp: entry_bytes_def holds_append entry_name_size_def entry_offset_def entry_size_def add.assoc
      dest!: holds_read32)

lemma walk_table:
  assumes "holds m a (table off fs)" and "i < length fs"
  shows "skip_entries m a i = a + of_nat (table_size (take i fs)) \<and>
    holds m (a + of_nat (table_size (take i fs))) (entry_bytes (off + contents_size (take i fs)) (fs ! i))"
  using assms
proof (induction fs arbitrary: a off i)
  case (Cons f fs)
  then have f: "holds m a (entry_bytes off f)"
    "holds m (a + of_nat (21 + length (f_name f))) (table (off + length (f_contents f)) fs)"
    by (simp_all add: holds_append)
  show ?case
  proof (cases i)
    case 0
    then show ?thesis using f(1) by (simp add: table_size_def contents_size_def)
  next
    case (Suc k)
    have len: "a + entry_name_size m a + 20 = a + of_nat (21 + length (f_name f))"
      using entry_holds(1) [OF f(1)] by simp
    have "k < length fs" using Suc Cons.prems(2) by simp
    from Cons.IH [OF f(2) this] show ?thesis
      unfolding Suc
      by (simp add: len [simplified] table_size_def contents_size_def algebra_simps)
  qed
qed simp

lemma holds_concat:
  assumes "holds m a (concat (map f_contents fs))" and "i < length fs"
  shows "holds m (a + of_nat (contents_size (take i fs))) (f_contents (fs ! i))"
  using assms
proof (induction fs arbitrary: a i)
  case (Cons f fs)
  show ?case
  proof (cases i)
    case 0
    then show ?thesis using Cons.prems by (simp add: holds_append contents_size_def)
  next
    case (Suc k)
    have "holds m (a + of_nat (length (f_contents f)) + of_nat (contents_size (take k fs))) (f_contents (fs ! k))"
      using Cons.prems Suc by (intro Cons.IH) (auto simp: holds_append)
    then show ?thesis unfolding Suc by (simp add: contents_size_def algebra_simps)
  qed
qed simp

text \<open>An archive at \<open>base\<close> that does not run past the end of memory.\<close>

definition loaded :: "mem \<Rightarrow> u32 \<Rightarrow> archive_file list \<Rightarrow> bool" where
  "loaded m base fs \<longleftrightarrow>
     holds m base (archive fs) \<and> base \<noteq> 0 \<and> unat base + length (archive fs) < 2 ^ 32 \<and> (\<forall>f \<in> set fs. file_ok f)"

definition entry_addr :: "u32 \<Rightarrow> archive_file list \<Rightarrow> nat \<Rightarrow> u32" where
  "entry_addr base fs i = base + of_nat (16 + table_size (take i fs))"

lemma table_size_take: "table_size (take i fs) \<le> table_size fs"
  by (metis append_take_drop_id le_add1 map_append sum_list_append table_size_def)

lemma length_le_table: "length fs \<le> table_size fs"
  by (induction fs) (auto simp: table_size_def)

lemma member_le_table: "f \<in> set fs \<Longrightarrow> 21 + length (f_name f) \<le> table_size fs"
  by (induction fs) (auto simp: table_size_def)

lemma member_le_contents: "f \<in> set fs \<Longrightarrow> length (f_contents f) \<le> contents_size fs"
  by (induction fs) (auto simp: contents_size_def)

lemma loaded_entry:
  assumes ld: "loaded m base fs" and i: "i < length fs"
  shows "skip_entries m (base + 16) i = entry_addr base fs i"
    and "entry_name_size m (entry_addr base fs i) = of_nat (length (f_name (fs ! i)) + 1)"
    and "holds m (entry_addr base fs i + 20) (f_name (fs ! i))"
    and "entry_size m (entry_addr base fs i) = of_nat (length (f_contents (fs ! i)))"
    and "entry_offset m (entry_addr base fs i) =
      recorded_offset (16 + table_size fs) (take i fs) (fs ! i)"
    and "entry_addr base fs i \<noteq> 0"
    and "unat (entry_addr base fs i) = unat base + 16 + table_size (take i fs)"
    and "holds m (entry_addr base fs i + 20) (f_name (fs ! i) @ [0])"
proof -
  have tb: "holds m (base + 16) (table (16 + table_size fs) fs)"
    using ld by (simp add: loaded_def archive_def holds_append add.assoc)
  have "holds m (entry_addr base fs i)
      (entry_bytes (16 + table_size fs + contents_size (take i fs)) (fs ! i))" (is "?h")
    and "skip_entries m (base + 16) i = entry_addr base fs i" (is "?s")
    using walk_table [OF tb i] by (simp_all add: entry_addr_def algebra_simps)
  from this show "?s" by blast
  from entry_holds [OF \<open>?h\<close>] show
    "entry_name_size m (entry_addr base fs i) = of_nat (length (f_name (fs ! i)) + 1)"
    "holds m (entry_addr base fs i + 20) (f_name (fs ! i))"
    "entry_size m (entry_addr base fs i) = of_nat (length (f_contents (fs ! i)))"
    "entry_offset m (entry_addr base fs i) =
      recorded_offset (16 + table_size fs) (take i fs) (fs ! i)"
    "holds m (entry_addr base fs i + 20) (f_name (fs ! i) @ [0])"
    by (simp_all add: recorded_offset_def)
  have "unat base + (16 + table_size (take i fs)) < 2 ^ 32"
    using ld table_size_take [of i fs] by (simp add: loaded_def archive_length)
  then show u: "unat (entry_addr base fs i) = unat base + 16 + table_size (take i fs)"
    by (simp add: entry_addr_def unat_add_nowrap unat_of_nat_small)
  then show "entry_addr base fs i \<noteq> 0" by (metis add_is_0 unat_0 zero_neq_numeral)
qed

lemma loaded_header:
  assumes "loaded m base fs" and "initrd_create m (Some out) base = Some ird"
  shows "\<not> initrd_check m (Some ird)" "ird_header ird = base" "ird_entries ird = base + 16"
    "ird_base ird = base" "unat (header_entry_count m base) = length fs"
proof -
  have h: "read32 m base = 0x47554D4D" "read32 m (base + 8) = of_nat (length fs)"
    using assms(1) by (auto simp: loaded_def archive_def holds_append add.assoc dest!: holds_read32)
  have b: "base \<noteq> 0" "unat base + 16 < 2 ^ 32"
    using assms(1) by (auto simp: loaded_def archive_length)
  then have "unat (base + 16) = unat base + 16" by (subst unat_add_nowrap) auto
  then have nz: "base + 16 \<noteq> 0" by (metis add_is_0 unat_0 zero_neq_numeral)
  show "\<not> initrd_check m (Some ird)" "ird_header ird = base" "ird_entries ird = base + 16"
    "ird_base ird = base"
    using assms(2) b(1) nz h(1) by (auto simp: initrd_create_def initrd_check_def header_magic_def)
  have "length fs < 2 ^ 32"
    using assms(1) length_le_table [of fs] by (simp add: loaded_def archive_length)
  then show "unat (header_entry_count m base) = length fs"
    by (simp add: header_entry_count_def h(2) unat_of_nat_small)
qed

lemma loaded_get_entry:
  assumes ld: "loaded m base fs" and cr: "initrd_create m (Some out) base = Some ird" and i: "i < length fs"
  shows "initrd_get_entry m (Some ird) (of_nat i) = entry_addr base fs i"
proof -
  have "length fs < 2 ^ 32"
    using ld length_le_table [of fs] by (simp add: loaded_def archive_length)
  then have "unat (of_nat i :: u32) = i" using i by (simp add: unat_of_nat_small)
  then show ?thesis
    using loaded_header [OF ld cr] i loaded_entry(1) [OF ld i]
    by (simp add: initrd_get_entry_def word_le_nat_alt)
qed

text \<open>The search finds the first entry of the name.\<close>

definition first_named :: "archive_file list \<Rightarrow> u8 list \<Rightarrow> nat \<Rightarrow> bool" where
  "first_named fs name i \<longleftrightarrow> i < length fs \<and> f_name (fs ! i) = name \<and> (\<forall>j < i. f_name (fs ! j) \<noteq> name)"

lemma memcmp_name:
  assumes path: "holds m path (name @ [0])" and len: "length name < 2 ^ 32 - 1"
    and e: "holds m e nm" "length nm = length name"
  shows "memcmp m e path (of_nat (length name)) = 0 \<longleftrightarrow> nm = name"
proof -
  have n: "unat (of_nat (length name) :: u32) = length name"
    using len by (simp add: unat_of_nat_small)
  have "memcmp m e path (of_nat (length name)) = 0 \<longleftrightarrow>
      bytes_at m e (length name) = bytes_at m path (length name)"
    unfolding memcmp_def bytes_at_eq_iff memcmp_loop_0_iff n ..
  moreover have "holds m path name"
    using path by (simp only: holds_append)
  ultimately show ?thesis
    using e unfolding holds_def by simp
qed

lemma name_matches:
  assumes ld: "loaded m base fs" and i: "i < length fs"
    and path: "holds m path (name @ [0])" and len: "length name < 2 ^ 32 - 1"
  shows "entry_name_size m (entry_addr base fs i) = of_nat (length name) + 1 \<and>
      memcmp m (entry_addr base fs i + 20) path (of_nat (length name)) = 0
    \<longleftrightarrow> f_name (fs ! i) = name"
proof -
  let ?nm = "f_name (fs ! i)"
  have "fs ! i \<in> set fs" using i by simp
  then have small: "length ?nm + 1 < 2 ^ 32"
    using ld member_le_table [of "fs ! i" fs] by (simp add: loaded_def archive_length)
  have "(of_nat (length ?nm + 1) :: u32) = of_nat (length name + 1) \<longleftrightarrow> length ?nm + 1 = length name + 1"
    using len small by (intro of_nat_inj_small) simp_all
  then have eq: "entry_name_size m (entry_addr base fs i) = of_nat (length name) + 1 \<longleftrightarrow>
      length ?nm = length name"
    unfolding loaded_entry(2) [OF ld i] by (simp add: add.commute)
  show ?thesis
  proof (cases "length ?nm = length name")
    case True
    from memcmp_name [OF path len loaded_entry(3) [OF ld i] this] show ?thesis
      using True eq by blast
  next
    case False
    then have "?nm \<noteq> name" by blast
    with False eq show ?thesis by blast
  qed
qed

lemma find_loop_result:
  assumes ld: "loaded m base fs" and cr: "initrd_create m (Some out) base = Some ird"
    and path: "holds m path (name @ [0])" and len: "length name < 2 ^ 32 - 1"
    and "i + k = length fs" and "\<forall>j < i. f_name (fs ! j) \<noteq> name"
  shows "(\<exists>j. first_named fs name j \<and>
        find_loop m (Some ird) path (of_nat (length name)) (of_nat i) k = entry_addr base fs j)
    \<or> name \<notin> f_name ` set fs \<and> find_loop m (Some ird) path (of_nat (length name)) (of_nat i) k = 0"
  using assms(5,6)
proof (induction k arbitrary: i)
  case 0
  then have "name \<notin> f_name ` set fs" by (auto simp: in_set_conv_nth)
  then show ?case by simp
next
  case (Suc k)
  then have i: "i < length fs" by simp
  note entry = loaded_get_entry [OF ld cr i]
  note nz = loaded_entry(6) [OF ld i] and m = name_matches [OF ld i path len]
  show ?case
  proof (cases "f_name (fs ! i) = name")
    case True
    then have "first_named fs name i" using Suc.prems i by (simp add: first_named_def)
    moreover have "find_loop m (Some ird) path (of_nat (length name)) (of_nat i) (Suc k) = entry_addr base fs i"
      using m True nz by (simp add: entry Let_def)
    ultimately show ?thesis by blast
  next
    case False
    then have "\<forall>j < Suc i. f_name (fs ! j) \<noteq> name" using Suc.prems by (auto simp: less_Suc_eq)
    moreover have "find_loop m (Some ird) path (of_nat (length name)) (of_nat i) (Suc k) =
        find_loop m (Some ird) path (of_nat (length name)) (of_nat (Suc i)) k"
      using m False nz by (auto simp: entry Let_def add.commute)
    ultimately show ?thesis using Suc.IH [of "Suc i"] Suc.prems(1) by simp
  qed
qed

lemma initrd_find_entry_loop:
  assumes ld: "loaded m base fs" and cr: "initrd_create m (Some out) base = Some ird"
    and path: "path \<noteq> 0" "holds m path (name @ [0])" "0 \<notin> set name" "name \<noteq> []"
    and len: "length name < 2 ^ 32 - 1"
  shows "initrd_find_entry m (Some ird) path =
    Some (find_loop m (Some ird) path (of_nat (length name)) (of_nat 0) (length fs))"
proof -
  have "strlen m path = Some (of_nat (length name))" by (rule holds_strlen [OF path(2,3)])
  moreover have "(of_nat (length name) :: u32) \<noteq> 0"
    using len path(4) unat_of_nat_small [where 'a = 32, of "length name"] by auto
  ultimately show ?thesis
    using loaded_header [OF ld cr] path(1) by (simp add: initrd_find_entry_def)
qed

lemma packed_contents:
  assumes ld: "loaded m base fs" and cr: "initrd_create m (Some out) base = Some ird" and j: "j < length fs"
  shows "unat (initrd_get_len m (entry_addr base fs j)) = length (f_contents (fs ! j))"
    and "bytes_at m (initrd_get_data m (Some ird) (entry_addr base fs j)) (length (f_contents (fs ! j))) =
      f_contents (fs ! j)"
    and "initrd_get_data m (Some ird) (entry_addr base fs j) =
      base + recorded_offset (16 + table_size fs) (take j fs) (fs ! j)"
proof -
  have mem: "fs ! j \<in> set fs" using j by simp
  note le = loaded_entry [OF ld j]
  have "length (f_contents (fs ! j)) < 2 ^ 32"
    using member_le_contents [OF mem] ld by (simp add: loaded_def archive_length)
  then show "unat (initrd_get_len m (entry_addr base fs j)) = length (f_contents (fs ! j))"
    using le(4,6) by (simp add: initrd_get_len_def unat_of_nat_small)
  show d: "initrd_get_data m (Some ird) (entry_addr base fs j) =
      base + recorded_offset (16 + table_size fs) (take j fs) (fs ! j)"
    using le(5,6) loaded_header [OF ld cr] by (simp add: initrd_get_data_def)
  show "bytes_at m (initrd_get_data m (Some ird) (entry_addr base fs j)) (length (f_contents (fs ! j))) =
      f_contents (fs ! j)"
  proof (cases "f_type (fs ! j) = 2")
    case True
    have "holds m (base + of_nat (16 + table_size fs)) (concat (map f_contents fs))"
      using ld by (simp add: loaded_def archive_def holds_append add.assoc)
    from holds_concat [OF this j] show ?thesis
      using True unfolding d by (simp add: recorded_offset_def holds_def algebra_simps)
  next
    case False
    then show ?thesis using ld mem by (auto simp: loaded_def file_ok_def bytes_at_def)
  qed
qed

section \<open>Properties\<close>

text \<open>C33. On an archive written in the format of \<^verbatim>\<open>make-initrd\<close>, \<open>initrd_find_entry\<close> returns the first
  entry whose name is the path (0 when there is none), and for a regular entry \<open>initrd_get_len\<close> and
  \<open>initrd_get_data\<close> give exactly the contents that were packed.\<close>

theorem initrd_finds_packed_file:
  assumes "loaded m base fs" and "initrd_create m (Some out) base = Some ird"
    and "path \<noteq> 0" and "holds m path (name @ [0])" and "0 \<notin> set name" and "name \<noteq> []"
    and "length name < 2 ^ 32 - 1"
  shows "if name \<notin> f_name ` set fs then initrd_find_entry m (Some ird) path = Some 0
    else \<exists>i e. first_named fs name i \<and> initrd_find_entry m (Some ird) path = Some e \<and> e \<noteq> 0 \<and>
           unat (initrd_get_len m e) = length (f_contents (fs ! i)) \<and>
           bytes_at m (initrd_get_data m (Some ird) e) (unat (initrd_get_len m e)) = f_contents (fs ! i)"
proof -
  note find = initrd_find_entry_loop [OF assms]
  consider (found) j where "first_named fs name j"
      "initrd_find_entry m (Some ird) path = Some (entry_addr base fs j)"
    | (none) "name \<notin> f_name ` set fs" "initrd_find_entry m (Some ird) path = Some 0"
    using find_loop_result [OF assms(1,2,4,7), of 0 "length fs"] unfolding find by auto
  then show ?thesis
  proof cases
    case found
    then have j: "j < length fs" "name \<in> f_name ` set fs" by (auto simp: first_named_def)
    then show ?thesis using found loaded_entry(6) [OF assms(1) j(1)] packed_contents [OF assms(1,2) j(1)] by auto
  qed simp
qed

text \<open>A directory and a file, loaded at 0x1000, with the path of the file at 0x2000.\<close>

definition demo_files :: "archive_file list" where
  "demo_files = [\<lparr>f_name = [47, 97], f_type = 1, f_permissions = 493, f_contents = []\<rparr>,
     \<lparr>f_name = [47, 98], f_type = 2, f_permissions = 420, f_contents = [7, 8, 9]\<rparr>]"

definition demo_mem :: mem where
  "demo_mem a = (if a = 0x2000 then 47 else if a = 0x2001 then 98
     else if 0x1000 \<le> a \<and> unat (a - 0x1000) < length (archive demo_files)
     then archive demo_files ! unat (a - 0x1000) else 0)"

lemma demo_loaded: "loaded demo_mem 0x1000 demo_files"
proof -
  have "holds demo_mem 0x1000 (archive demo_files)" by code_simp
  moreover have "length (archive demo_files) = 65" by code_simp
  ultimately show ?thesis by (simp add: loaded_def demo_files_def file_ok_def)
qed

theorem initrd_finds_packed_file_witness:
  "\<exists>i e. initrd_find_entry demo_mem (Some i) 0x2000 = Some e \<and> e \<noteq> 0 \<and>
     bytes_at demo_mem (initrd_get_data demo_mem (Some i) e) (unat (initrd_get_len demo_mem e)) = [7, 8, 9]"
proof -
  let ?ird = "\<lparr>ird_base = 0x1000, ird_header = 0x1000, ird_entries = 0x1010,
    ird_data = 0x1000 + header_data_offset demo_mem 0x1000\<rparr>"
  have cr: "initrd_create demo_mem (Some undefined) 0x1000 = Some ?ird" by (simp add: initrd_create_def)
  have "holds demo_mem 0x2000 ([47, 98] @ [0])" by code_simp
  from initrd_finds_packed_file [OF demo_loaded cr _ this] obtain i e where
    "first_named demo_files [47, 98] i" "initrd_find_entry demo_mem (Some ?ird) 0x2000 = Some e" "e \<noteq> 0"
    "bytes_at demo_mem (initrd_get_data demo_mem (Some ?ird) e) (unat (initrd_get_len demo_mem e))
       = f_contents (demo_files ! i)"
    by (auto simp: demo_files_def)
  moreover have "i = 1"
    using calculation(1) by (auto simp: first_named_def demo_files_def less_Suc_eq)
  ultimately show ?thesis by (auto simp: demo_files_def)
qed

end
