(* ===== verification/Spinlock.thy ===== *)
theory Spinlock
  imports Prelude
begin

text \<open>
  \<^verbatim>\<open>lib/src/spinlock.c\<close> as a step relation: any number of CPUs, each at one point of \<open>spinlock\<close> or
  of its critical section, interleaved at the grain of the memory accesses of the code (the atomic
  exchange, one read of the inner loop, the releasing store).  Callers are taken to unlock only a
  lock they hold; the last property shows what happens when one does not.
\<close>

section \<open>The steps of one CPU\<close>

datatype spin_pc =
    Outside   \<comment> \<open>not inside \<open>spinlock\<close> and not holding the lock\<close>
  | Trying    \<comment> \<open>about to execute the atomic test-and-set\<close>
  | Spinning  \<comment> \<open>in the inner loop, about to read \<^verbatim>\<open>l->locked\<close>\<close>
  | Holding   \<comment> \<open>returned from \<open>spinlock\<close>\<close>

record 'c spin_state =
  locked :: u32
  pc :: "'c \<Rightarrow> spin_pc"

text \<open>\<^verbatim>\<open>__sync_lock_test_and_set(&l->locked, 1)\<close>: the old value and the new content.\<close>

definition test_and_set :: "u32 \<Rightarrow> u32 \<times> u32" where
  "test_and_set l = (l, 1)"

text \<open>One step of CPU \<open>c\<close> inside \<open>spinlock\<close>; a CPU outside or holding has none.\<close>

definition spinlock_step :: "'c \<Rightarrow> 'c spin_state \<Rightarrow> 'c spin_state option" where
  "spinlock_step c s =
     (case pc s c of
        Trying \<Rightarrow>
          let (old, l') = test_and_set (locked s)
          in Some (s\<lparr>locked := l', pc := (pc s)(c := if old \<noteq> 0 then Spinning else Holding)\<rparr>)
      | Spinning \<Rightarrow>
          if locked s \<noteq> 0 then Some s
          else Some (s\<lparr>pc := (pc s)(c := Trying)\<rparr>)
      | _ \<Rightarrow> None)"

definition spinunlock :: "'c \<Rightarrow> 'c spin_state \<Rightarrow> 'c spin_state" where
  "spinunlock c s = s\<lparr>locked := 0, pc := (pc s)(c := Outside)\<rparr>"

inductive lock_step :: "'c spin_state \<Rightarrow> 'c spin_state \<Rightarrow> bool" where
  enter: "pc s c = Outside \<Longrightarrow> lock_step s (s\<lparr>pc := (pc s)(c := Trying)\<rparr>)"
| spin: "spinlock_step c s = Some s' \<Longrightarrow> lock_step s s'"
| leave: "pc s c = Holding \<Longrightarrow> lock_step s (spinunlock c s)"

inductive_cases lock_stepE: "lock_step s s'"

inductive lock_reach :: "'c spin_state \<Rightarrow> bool" where
  start: "lock_reach \<lparr>locked = 0, pc = (\<lambda>_. Outside)\<rparr>"
| step: "lock_reach s \<Longrightarrow> lock_step s s' \<Longrightarrow> lock_reach s'"

section \<open>The invariant\<close>

text \<open>The lock word is set exactly while one CPU holds the lock.\<close>

definition spin_inv :: "'c spin_state \<Rightarrow> bool" where
  "spin_inv s \<longleftrightarrow>
     (if locked s = 0 then \<forall>c. pc s c \<noteq> Holding else \<exists>!c. pc s c = Holding)"

lemma spin_inv_enter:
  "\<lbrakk> spin_inv s; pc s c = Outside \<rbrakk> \<Longrightarrow> spin_inv (s\<lparr>pc := (pc s)(c := Trying)\<rparr>)"
  by (auto simp: spin_inv_def split: if_splits) (metis spin_pc.distinct(5))

lemma spin_inv_spin: "\<lbrakk> spin_inv s; spinlock_step c s = Some s' \<rbrakk> \<Longrightarrow> spin_inv s'"
  by (auto simp: spin_inv_def spinlock_step_def test_and_set_def Let_def
      split: if_splits spin_pc.splits) (metis spin_pc.distinct)

lemma spin_inv_leave: "\<lbrakk> spin_inv s; pc s c = Holding \<rbrakk> \<Longrightarrow> spin_inv (spinunlock c s)"
  by (auto simp: spin_inv_def spinunlock_def split: if_splits)

lemma spin_inv_step: "lock_step s s' \<Longrightarrow> spin_inv s \<Longrightarrow> spin_inv s'"
  by (erule lock_stepE) (auto intro: spin_inv_enter spin_inv_spin spin_inv_leave)

lemma spin_inv_reach: "lock_reach s \<Longrightarrow> spin_inv s"
proof (induction rule: lock_reach.induct)
  case start
  then show ?case by (simp add: spin_inv_def)
qed (rule spin_inv_step)

section \<open>Properties\<close>

text \<open>C34. Mutual exclusion: in every reachable interleaving at most one CPU holds the lock, and the lock
  word is nonzero exactly while one does.\<close>

theorem spinlock_mutual_exclusion:
  assumes "lock_reach s"
  shows "(pc s c = Holding \<and> pc s d = Holding \<longrightarrow> c = d) \<and> (locked s \<noteq> 0 \<longleftrightarrow> (\<exists>e. pc s e = Holding))"
  using spin_inv_reach [OF assms] by (auto simp: spin_inv_def split: if_splits)

definition both_trying :: "bool spin_state" where
  "both_trying = \<lparr>locked = 0, pc = (\<lambda>_. Trying)\<rparr>"

lemma both_trying_reach: "lock_reach both_trying"
proof -
  have "lock_reach (\<lparr>locked = 0, pc = (\<lambda>_. Outside)(True := Trying)\<rparr>)"
    using lock_reach.step [OF lock_reach.start lock_step.enter [of _ True]] by simp
  from lock_reach.step [OF this lock_step.enter [of _ False]]
  have "lock_reach (\<lparr>locked = 0, pc = (\<lambda>_. Outside)(True := Trying, False := Trying)\<rparr>)" by simp
  moreover have "(\<lambda>_. Outside)(True := Trying, False := Trying) = (\<lambda>_. Trying)"
    by (rule ext) (auto simp: fun_upd_def)
  ultimately show ?thesis by (simp add: both_trying_def)
qed

theorem spinlock_mutual_exclusion_witness:
  "\<exists>s1 s2. spinlock_step True both_trying = Some s1 \<and> spinlock_step False s1 = Some s2 \<and>
     pc s2 True = Holding \<and> pc s2 False = Spinning \<and> locked s2 \<noteq> 0"
proof -
  obtain s1 s2 where s: "spinlock_step True both_trying = Some s1" "spinlock_step False s1 = Some s2"
    "pc s2 True = Holding" "pc s2 False = Spinning"
    by (simp add: both_trying_def spinlock_step_def test_and_set_def)
  have "lock_reach s2"
    using both_trying_reach s(1,2) by (meson lock_reach.step lock_step.spin)
  from spinlock_mutual_exclusion [OF this] s show ?thesis by blast
qed

text \<open>No deadlock: in a reachable state where nobody holds the lock, a CPU inside \<open>spinlock\<close> gets
  it within two of its own steps.\<close>

theorem spinlock_acquires_when_free:
  assumes "lock_reach s" and "\<forall>d. pc s d \<noteq> Holding" and "pc s c = Trying \<or> pc s c = Spinning"
  shows "\<exists>s1 s2. spinlock_step c s = Some s1 \<and> (s2 = s1 \<or> spinlock_step c s1 = Some s2) \<and>
    pc s2 c = Holding \<and> lock_reach s2"
proof -
  have free: "locked s = 0"
    using spin_inv_reach [OF assms(1)] assms(2) by (auto simp: spin_inv_def split: if_splits)
  from assms(3) show ?thesis
  proof
    assume "pc s c = Trying"
    then have "spinlock_step c s = Some (s\<lparr>locked := 1, pc := (pc s)(c := Holding)\<rparr>)"
      using free by (simp add: spinlock_step_def test_and_set_def)
    moreover from this have "lock_reach (s\<lparr>locked := 1, pc := (pc s)(c := Holding)\<rparr>)"
      using assms(1) by (meson lock_reach.step lock_step.spin)
    ultimately show ?thesis by (intro exI conjI) (assumption, rule disjI1, simp_all)
  next
    assume "pc s c = Spinning"
    then have a: "spinlock_step c s = Some (s\<lparr>pc := (pc s)(c := Trying)\<rparr>)"
      using free by (simp add: spinlock_step_def)
    let ?s2 = "s\<lparr>locked := 1, pc := (pc s)(c := Holding)\<rparr>"
    have b: "spinlock_step c (s\<lparr>pc := (pc s)(c := Trying)\<rparr>) = Some ?s2"
      using free by (simp add: spinlock_step_def test_and_set_def)
    from a b assms(1) have "lock_reach ?s2" by (meson lock_reach.step lock_step.spin)
    with a b show ?thesis by (intro exI [of _ "s\<lparr>pc := (pc s)(c := Trying)\<rparr>"] exI [of _ ?s2]) simp
  qed
qed

theorem spinlock_acquires_when_free_witness:
  "\<exists>s1 s2. spinlock_step True both_trying = Some s1 \<and> (s2 = s1 \<or> spinlock_step True s1 = Some s2) \<and>
     pc s2 True = Holding \<and> lock_reach s2"
  by (rule spinlock_acquires_when_free [OF both_trying_reach]) (simp_all add: both_trying_def)

text \<open>\<open>spinunlock\<close> does not look at who holds the lock: a CPU that unlocks a lock another one holds
  lets a third one in beside the holder.\<close>

theorem spinunlock_by_other_breaks_exclusion:
  assumes "pc s c = Holding" and "c \<noteq> d" and "e \<noteq> c" and "e \<noteq> d" and "pc s e = Trying"
  shows "\<exists>s'. spinlock_step e (spinunlock d s) = Some s' \<and> pc s' c = Holding \<and> pc s' e = Holding"
  using assms by (simp add: spinlock_step_def spinunlock_def test_and_set_def)

theorem spinunlock_by_other_breaks_exclusion_witness:
  "\<exists>s'. spinlock_step (2 :: nat) (spinunlock 1 \<lparr>locked = 1, pc = (\<lambda>c. if c = 0 then Holding else Trying)\<rparr>)
      = Some s' \<and> pc s' 0 = Holding \<and> pc s' 2 = Holding"
  by (rule spinunlock_by_other_breaks_exclusion) simp_all

end
