(* ===== verification/Bitmap.thy ===== *)
theory Bitmap
  imports Prelude
begin

text \<open>
  \<^verbatim>\<open>include/bitmap.h\<close>: bit maps over a byte object.  \<^term>\<open>None\<close> as a bitmap is \<^verbatim>\<open>NULL\<close>; an index
  outside the object is an access outside it and makes the operation fault.
\<close>

section \<open>Operations\<close>

definition bit_mask :: "u64 \<Rightarrow> u8" where
  "bit_mask k = push_bit (unat (k mod 8)) 1"

definition bitmap_set_bit :: "u8 list option \<Rightarrow> u64 \<Rightarrow> u8 list option option" where
  "bitmap_set_bit bmp k =
     (case bmp of None \<Rightarrow> Some None
      | Some b \<Rightarrow> do {
          x \<leftarrow> obj_get b (unat (k div 8));
          b' \<leftarrow> obj_set b (unat (k div 8)) (x OR bit_mask k);
          Some (Some b') })"

definition bitmap_test_bit :: "u8 list option \<Rightarrow> u64 \<Rightarrow> bool option" where
  "bitmap_test_bit bmp k =
     (case bmp of None \<Rightarrow> Some False
      | Some b \<Rightarrow> do { x \<leftarrow> obj_get b (unat (k div 8)); Some (x AND bit_mask k \<noteq> 0) })"

definition bitmap_clear_bit :: "u8 list option \<Rightarrow> u64 \<Rightarrow> u8 list option option" where
  "bitmap_clear_bit bmp k =
     (case bmp of None \<Rightarrow> Some None
      | Some b \<Rightarrow> do {
          x \<leftarrow> obj_get b (unat (k div 8));
          b' \<leftarrow> obj_set b (unat (k div 8)) (x AND NOT (bit_mask k));
          Some (Some b') })"

text \<open>
  The inner loop of the search, with \<open>k\<close> bits of the byte left; a value under \<^term>\<open>Some\<close> is a
  \<^verbatim>\<open>return\<close> from inside the loop.
\<close>

fun find_in_byte :: "u8 \<Rightarrow> u64 \<Rightarrow> u64 \<Rightarrow> u64 \<Rightarrow> nat \<Rightarrow> u64 option" where
  "find_in_byte x i bits j 0 = None"
| "find_in_byte x i bits j (Suc k) =
     (let index = i * 8 + j
      in if index \<ge> bits then Some 0
         else if x AND push_bit (unat j) 1 = 0 then Some index
         else find_in_byte x i bits (j + 1) k)"

fun find_free_loop :: "u8 list \<Rightarrow> u64 \<Rightarrow> u64 \<Rightarrow> nat \<Rightarrow> u64 option" where
  "find_free_loop b bits i 0 = Some 0"
| "find_free_loop b bits i (Suc k) = do {
     x \<leftarrow> obj_get b (unat i);
     if x = 0xFF then find_free_loop b bits (i + 1) k
     else (case find_in_byte x i bits 0 8 of
             Some r \<Rightarrow> Some r
           | None \<Rightarrow> find_free_loop b bits (i + 1) k) }"

definition bitmap_find_free_bit :: "u8 list option \<Rightarrow> u64 \<Rightarrow> u64 option" where
  "bitmap_find_free_bit bmp bits =
     (case bmp of None \<Rightarrow> Some 0
      | Some b \<Rightarrow>
        if bits = 0 then Some 0
        else find_free_loop b bits 0 (unat (align_up bits 8 div 8)))"

section \<open>The bits of a bitmap\<close>

definition bit_at :: "u8 list \<Rightarrow> nat \<Rightarrow> bool" where
  "bit_at b n = bit (b ! (n div 8)) (n mod 8)"

lemma bit_mask_bit: "bit (bit_mask k) j \<longleftrightarrow> j = unat k mod 8"
proof -
  have "unat (k mod 8) = unat k mod 8" by (simp add: unat_mod_distrib)
  then show ?thesis
    unfolding bit_mask_def by (auto simp: bit_exp_iff)
qed

lemma unat_div8: "unat (k div 8 :: u64) = unat k div 8"
  by (simp add: unat_div_distrib)

lemma mask_test: "x AND push_bit j 1 = (0 :: u8) \<longleftrightarrow> \<not> bit x j" if "j < 8"
  using that by (auto simp: bit_eq_iff [of _ 0] bit_and_iff bit_exp_iff)

lemma bitmap_set_bit_ok:
  assumes "unat k < 8 * length b"
  obtains b' where "bitmap_set_bit (Some b) k = Some (Some b')" "length b' = length b"
    "\<And>n. n < 8 * length b \<Longrightarrow> bit_at b' n \<longleftrightarrow> n = unat k \<or> bit_at b n"
proof -
  let ?i = "unat k div 8"
  have i: "?i < length b" using assms by auto
  define b' where "b' = b[?i := (b ! ?i) OR bit_mask k]"
  have "bit_at b' n \<longleftrightarrow> n = unat k \<or> bit_at b n" if "n < 8 * length b" for n
  proof (cases "n div 8 = ?i")
    case True
    then have "n = unat k \<longleftrightarrow> n mod 8 = unat k mod 8" by (metis div_mult_mod_eq)
    with True i show ?thesis by (auto simp: bit_at_def b'_def bit_or_iff bit_mask_bit)
  next
    case False
    then show ?thesis using i by (auto simp: bit_at_def b'_def)
  qed
  moreover have "bitmap_set_bit (Some b) k = Some (Some b')"
    using i by (simp add: bitmap_set_bit_def obj_get_def obj_set_def unat_div8 b'_def)
  ultimately show thesis using that by (simp add: b'_def)
qed

lemma bitmap_clear_bit_ok:
  assumes "unat k < 8 * length b"
  obtains b' where "bitmap_clear_bit (Some b) k = Some (Some b')" "length b' = length b"
    "\<And>n. n < 8 * length b \<Longrightarrow> bit_at b' n \<longleftrightarrow> n \<noteq> unat k \<and> bit_at b n"
proof -
  let ?i = "unat k div 8"
  have i: "?i < length b" using assms by auto
  define b' where "b' = b[?i := (b ! ?i) AND NOT (bit_mask k)]"
  have "bit_at b' n \<longleftrightarrow> n \<noteq> unat k \<and> bit_at b n" if "n < 8 * length b" for n
  proof (cases "n div 8 = ?i")
    case True
    then have "n = unat k \<longleftrightarrow> n mod 8 = unat k mod 8" by (metis div_mult_mod_eq)
    with True i show ?thesis
      by (auto simp: bit_at_def b'_def bit_and_iff bit_not_iff bit_mask_bit)
  next
    case False
    then show ?thesis using i by (auto simp: bit_at_def b'_def)
  qed
  moreover have "bitmap_clear_bit (Some b) k = Some (Some b')"
    using i by (simp add: bitmap_clear_bit_def obj_get_def obj_set_def unat_div8 b'_def)
  ultimately show thesis using that by (simp add: b'_def)
qed

lemma bitmap_access_outside:
  assumes "8 * length b \<le> unat k"
  shows "bitmap_set_bit (Some b) k = None" "bitmap_clear_bit (Some b) k = None"
    "bitmap_test_bit (Some b) k = None"
proof -
  have "\<not> unat k div 8 < length b" using assms by linarith
  then show "bitmap_set_bit (Some b) k = None" "bitmap_clear_bit (Some b) k = None"
    "bitmap_test_bit (Some b) k = None"
    by (simp_all add: bitmap_set_bit_def bitmap_clear_bit_def bitmap_test_bit_def obj_get_def unat_div8)
qed

lemma bitmap_test_bit_ok:
  assumes "unat k < 8 * length b"
  shows "bitmap_test_bit (Some b) k = Some (bit_at b (unat k))"
proof -
  have "x AND bit_mask k \<noteq> 0 \<longleftrightarrow> bit x (unat k mod 8)" for x :: u8
    by (auto simp: bit_eq_iff [of _ 0] bit_and_iff bit_mask_bit)
  then show ?thesis
    using assms by (auto simp: bitmap_test_bit_def obj_get_def unat_div8 bit_at_def)
qed

section \<open>The search\<close>

text \<open>
  \<open>first_clear b bits r\<close>: \<open>r\<close> is the least clear index below \<open>bits\<close>, or 0 when there is none.
\<close>

definition first_clear :: "u8 list \<Rightarrow> nat \<Rightarrow> nat \<Rightarrow> bool" where
  "first_clear b bits r \<longleftrightarrow>
     (r < bits \<and> \<not> bit_at b r \<and> (\<forall>n<r. bit_at b n)) \<or> (r = 0 \<and> (\<forall>n<bits. bit_at b n))"

lemma find_in_byte_spec:
  assumes "j + k = 8" and "8 * i + 8 < 2 ^ 64" and "\<And>l. l < j \<Longrightarrow> bit x l"
  shows "(\<exists>l. j \<le> l \<and> l < 8 \<and> \<not> bit x l \<and> (\<forall>h<l. bit x h) \<and> 8 * i + l < unat bits \<and>
             find_in_byte x (of_nat i) bits (of_nat j) k = Some (of_nat (8 * i + l))) \<or>
         (find_in_byte x (of_nat i) bits (of_nat j) k = Some 0 \<and>
             (\<forall>l<8. 8 * i + l < unat bits \<longrightarrow> bit x l) \<and> unat bits < 8 * i + 8) \<or>
         (find_in_byte x (of_nat i) bits (of_nat j) k = None \<and> (\<forall>l<8. bit x l))"
  using assms
proof (induction k arbitrary: j)
  case 0
  then show ?case by auto
next
  case (Suc k)
  have idx: "unat (of_nat i * 8 + of_nat j :: u64) = 8 * i + j"
    using Suc.prems(1,2) by (subst unat_of_nat_small [where 'a = 64, symmetric]) (auto simp: mult.commute)
  have j: "unat (of_nat j :: u64) = j" using Suc.prems(1) by (simp add: unat_of_nat_small)
  consider "unat bits \<le> 8 * i + j" | "8 * i + j < unat bits" "\<not> bit x j" | "8 * i + j < unat bits" "bit x j"
    by linarith
  then show ?case
  proof cases
    case 1
    then have "find_in_byte x (of_nat i) bits (of_nat j) (Suc k) = Some 0"
      using idx by (simp add: word_le_nat_alt)
    moreover have "bit x l" if "8 * i + l < unat bits" for l
      using 1 that Suc.prems(3) by simp
    ultimately show ?thesis using 1 Suc.prems(1) by auto
  next
    case 2
    have "find_in_byte x (of_nat i) bits (of_nat j) (Suc k) = Some (of_nat (8 * i + j))"
      using 2 idx j mask_test [of j x] Suc.prems(1) by (simp add: word_le_nat_alt mult.commute)
    then show ?thesis using 2 Suc.prems by auto
  next
    case 3
    have "find_in_byte x (of_nat i) bits (of_nat j) (Suc k)
        = find_in_byte x (of_nat i) bits (of_nat (Suc j)) k"
      using 3 idx j mask_test [of j x] Suc.prems(1) by (simp add: word_le_nat_alt add.commute)
    moreover have "bit x l" if "l < Suc j" for l
      using 3(2) Suc.prems(3) that by (auto simp: less_Suc_eq)
    ultimately show ?thesis
      using Suc.IH [of "Suc j"] Suc.prems(1,2) by fastforce
  qed
qed

lemma bit_at_byte: "l < 8 \<Longrightarrow> bit_at b (8 * i + l) = bit (b ! i) l"
  by (simp add: bit_at_def)

lemma below_byte:
  fixes i :: nat
  assumes "\<And>n. n < 8 * i \<Longrightarrow> P n" and "\<And>l. l < 8 \<Longrightarrow> P (8 * i + l)"
  shows "n < 8 * Suc i \<Longrightarrow> P n"
proof (cases "n < 8 * i")
  case False
  assume "n < 8 * Suc i"
  with False have "n - 8 * i < 8" and "n = 8 * i + (n - 8 * i)" by auto
  with assms(2) show "P n" by metis
qed (rule assms(1))

lemma find_free_loop_spec:
  assumes "i + k \<le> length b" and "8 * (i + k) < 2 ^ 64" and "unat bits \<le> 8 * (i + k)"
    and "\<And>n. n < 8 * i \<Longrightarrow> bit_at b n"
  shows "\<exists>r. find_free_loop b bits (of_nat i) k = Some r \<and> first_clear b (unat bits) (unat r)"
  using assms
proof (induction k arbitrary: i)
  case 0
  then show ?case by (auto simp: first_clear_def)
next
  case (Suc k)
  have i: "unat (of_nat i :: u64) = i" using Suc.prems(2) by (simp add: unat_of_nat_small)
  have get: "obj_get b i = Some (b ! i)" using Suc.prems(1) by (simp add: obj_get_def)
  have step: "\<exists>r. find_free_loop b bits (of_nat (Suc i)) k = Some r \<and> first_clear b (unat bits) (unat r)"
    if full: "\<forall>l<8. bit (b ! i) l"
  proof (rule Suc.IH)
    fix n assume "n < 8 * Suc i"
    then show "bit_at b n"
      by (rule below_byte [rotated 2]) (use Suc.prems(4) full in \<open>auto simp: bit_at_byte\<close>)
  qed (use Suc.prems in auto)
  show ?case
  proof (cases "b ! i = 0xFF")
    case True
    have "\<forall>l<8. bit (0xFF :: u8) l"
    proof -
      have "(0xFF :: u8) = - 1" by simp
      then show ?thesis by (simp only: bit_minus_1_iff possible_bit_word) simp
    qed
    with True step get i show ?thesis by (simp add: add.commute)
  next
    case False
    have "8 * i + 8 < 2 ^ 64" using Suc.prems(2) by simp
    from find_in_byte_spec [of 0 8 i "b ! i" bits, OF _ this] consider
      (found) l where "l < 8" "\<not> bit (b ! i) l" "\<forall>h<l. bit (b ! i) h" "8 * i + l < unat bits"
        "find_in_byte (b ! i) (of_nat i) bits 0 8 = Some (of_nat (8 * i + l))"
      | (ended) "find_in_byte (b ! i) (of_nat i) bits 0 8 = Some 0"
        "\<forall>l<8. 8 * i + l < unat bits \<longrightarrow> bit (b ! i) l" "unat bits < 8 * i + 8"
      | (full) "find_in_byte (b ! i) (of_nat i) bits 0 8 = None" "\<forall>l<8. bit (b ! i) l"
      by auto
    then show ?thesis
    proof cases
      case found
      have r: "unat (of_nat (8 * i + l) :: u64) = 8 * i + l"
        using Suc.prems(2) found(1) by (intro unat_of_nat_small) simp
      have "bit_at b n" if "n < 8 * i + l" for n
      proof (cases "n < 8 * i")
        case False
        then have "n - 8 * i < l" "n = 8 * i + (n - 8 * i)" using that by auto
        then show ?thesis using found(1,3) bit_at_byte [of "n - 8 * i" b i] by simp
      qed (rule Suc.prems(4))
      then have "first_clear b (unat bits) (8 * i + l)"
        using found by (auto simp: first_clear_def bit_at_byte)
      with False found(5) r get i show ?thesis by simp
    next
      case ended
      have "bit_at b n" if "n < unat bits" for n
      proof (cases "n < 8 * i")
        case False
        then have "n - 8 * i < 8" "n = 8 * i + (n - 8 * i)" using that ended(3) by auto
        then show ?thesis using ended(2) that bit_at_byte [of "n - 8 * i" b i] by simp
      qed (rule Suc.prems(4))
      then have "first_clear b (unat bits) 0" by (simp add: first_clear_def)
      with False ended(1) get i show ?thesis by simp
    next
      case full
      with False step get i show ?thesis by (simp add: add.commute)
    qed
  qed
qed

lemma bitmap_find_free_bit_ok:
  assumes "unat bits \<le> 8 * length b" and "unat bits + 7 < 2 ^ 64"
  obtains r where "bitmap_find_free_bit (Some b) bits = Some r" "first_clear b (unat bits) (unat r)"
proof (cases "bits = 0")
  case True
  then show thesis using that [of 0] by (simp add: bitmap_find_free_bit_def first_clear_def)
next
  case False
  have "unat (align_up bits 8) = (unat bits + 7) div 8 * 8"
    using align_up_unat [of bits 3] assms(2) by simp
  then have bytes: "unat (align_up bits 8 div 8) = (unat bits + 7) div 8"
    by (simp add: unat_div_distrib)
  have "\<exists>r. find_free_loop b bits (of_nat 0) ((unat bits + 7) div 8) = Some r
      \<and> first_clear b (unat bits) (unat r)"
    using assms by (intro find_free_loop_spec) auto
  with False bytes that show thesis by (auto simp: bitmap_find_free_bit_def)
qed

end
