(* ===== verification/Pmm.thy ===== *)
theory Pmm
  imports Bitmap
begin

text \<open>
  \<^verbatim>\<open>kernel/src/arch/i686/pmm.c\<close>: the physical page allocator over a bitmap that starts at the end
  of the kernel image, and its initialisation from the E820 map (\<^verbatim>\<open>e820.h\<close>).  The bitmap is the
  object of \<^verbatim>\<open>bitmap_bytes\<close> bytes that \<open>pmm_init\<close> fills; console messages are not modelled.
\<close>

section \<open>State and operations\<close>

record pmm_state =
  bitmap :: "u8 list option"
  bitmap_bits :: u32
  bitmap_bytes :: u32
  phys_top :: u32
  usable_mem :: u32

record e820_entry =
  e_base :: u64
  e_length :: u64
  e_type :: u32
  e_acpi_extended :: u32

definition pmm_alloc_page :: "'z pmm_state_scheme \<Rightarrow> (u32 \<times> 'z pmm_state_scheme) option" where
  "pmm_alloc_page s =
     (if bitmap s = None \<or> bitmap_bits s = 0 then Some (0, s)
      else do {
        r \<leftarrow> bitmap_find_free_bit (bitmap s) (ucast (bitmap_bits s));
        let page = (ucast r :: u32);
        if page = 0 then Some (0, s)
        else do {
          bmp \<leftarrow> bitmap_set_bit (bitmap s) (ucast page);
          Some (page * PAGE_SIZE, s\<lparr>bitmap := bmp\<rparr>) } })"

definition pmm_free_page :: "u32 \<Rightarrow> 'z pmm_state_scheme \<Rightarrow> 'z pmm_state_scheme option" where
  "pmm_free_page page s =
     (if bitmap s = None \<or> bitmap_bits s = 0 then Some s
      else do {
        bmp \<leftarrow> bitmap_clear_bit (bitmap s) (ucast (page div PAGE_SIZE));
        Some (s\<lparr>bitmap := bmp\<rparr>) })"

section \<open>pmm\_init\<close>

text \<open>The end of an entry, cut at 4 GB: \<^verbatim>\<open>MIN(entry.base + entry.length, 0xFFFFFFFF)\<close>.\<close>

definition entry_end :: "e820_entry \<Rightarrow> u32" where
  "entry_end e = ucast (min (e_base e + e_length e) 0xFFFFFFFF)"

definition scan_entry :: "e820_entry \<Rightarrow> u32 \<times> u32 \<Rightarrow> u32 \<times> u32" where
  "scan_entry e = (\<lambda>(ptop, usable).
     if e_base e \<ge> 0xFFFFFFFF then (ptop, usable)
     else (max ptop (entry_end e),
           if e_type e = 1 then ucast (ucast usable + (ucast (entry_end e) - e_base e)) else usable))"

text \<open>\<^verbatim>\<open>for (page = p; ...; page++)\<close> over \<open>k\<close> pages, clearing or setting each.\<close>

fun clear_pages :: "u8 list option \<Rightarrow> u32 \<Rightarrow> nat \<Rightarrow> u8 list option option" where
  "clear_pages bmp page 0 = Some bmp"
| "clear_pages bmp page (Suc k) = do {
     bmp' \<leftarrow> bitmap_clear_bit bmp (ucast page);
     clear_pages bmp' (page + 1) k }"

fun set_pages :: "u8 list option \<Rightarrow> u32 \<Rightarrow> nat \<Rightarrow> u8 list option option" where
  "set_pages bmp page 0 = Some bmp"
| "set_pages bmp page (Suc k) = do {
     bmp' \<leftarrow> bitmap_set_bit bmp (ucast page);
     set_pages bmp' (page + 1) k }"

definition start_page :: "e820_entry \<Rightarrow> u32" where
  "start_page e = ucast (align_up (e_base e) 0x1000 div 0x1000)"

definition end_page :: "e820_entry \<Rightarrow> u32" where
  "end_page e = align_down (entry_end e) 0x1000 div 0x1000"

definition release_entry :: "e820_entry \<Rightarrow> u8 list option \<Rightarrow> u8 list option option" where
  "release_entry e bmp =
     (if e_type e \<noteq> 1 \<or> e_base e \<ge> 0xFFFFFFFF then Some bmp
      else clear_pages bmp (start_page e) (unat (end_page e) - unat (start_page e)))"

fun release_entries :: "e820_entry list \<Rightarrow> u8 list option \<Rightarrow> u8 list option option" where
  "release_entries [] bmp = Some bmp"
| "release_entries (e # es) bmp = do { bmp' \<leftarrow> release_entry e bmp; release_entries es bmp' }"

text \<open>
  \<open>kstart\<close> and \<open>kend\<close> are the addresses of the linker symbols \<^verbatim>\<open>__kernel_start\<close> and
  \<^verbatim>\<open>__kernel_end\<close>; the bitmap lies at \<open>kend\<close>.
\<close>

definition pmm_init ::
  "e820_entry list \<Rightarrow> u32 \<Rightarrow> u32 \<Rightarrow> 'z pmm_state_scheme \<Rightarrow> 'z pmm_state_scheme option" where
  "pmm_init entries kstart kend s = do {
     let (ptop, usable) = fold scan_entry entries (phys_top s, usable_mem s);
     let bits = ptop div PAGE_SIZE;
     let bytes = align_up bits 8 div 8;
     let bmp0 = Some (replicate (unat bytes) 0xFF);
     bmp1 \<leftarrow> release_entries entries bmp0;
     let kernel_start_phys = kstart - 0xC0000000;
     let kernel_end_phys = (kend + bytes) - 0xC0000000;
     let kernel_start_page = align_down kernel_start_phys PAGE_SIZE div PAGE_SIZE;
     let kernel_end_page = align_up kernel_end_phys PAGE_SIZE div PAGE_SIZE;
     bmp2 \<leftarrow> set_pages bmp1 kernel_start_page (unat (min kernel_end_page bits) - unat kernel_start_page);
     bmp3 \<leftarrow> set_pages bmp2 0 16;
     Some (s\<lparr>bitmap := bmp3, bitmap_bits := bits, bitmap_bytes := bytes, phys_top := ptop,
             usable_mem := usable\<rparr>) }"

section \<open>Free pages\<close>

text \<open>Pages are named by their number; the allocator's addresses are page numbers times 4096.\<close>

definition page_free :: "'z pmm_state_scheme \<Rightarrow> nat \<Rightarrow> bool" where
  "page_free s p \<longleftrightarrow>
     (case bitmap s of None \<Rightarrow> False | Some b \<Rightarrow> p < unat (bitmap_bits s) \<and> \<not> bit_at b p)"

definition free_pages :: "'z pmm_state_scheme \<Rightarrow> nat set" where
  "free_pages s = {p. page_free s p}"

text \<open>
  The invariant of a running allocator: the bitmap covers its bits, page numbers fit the 4 GB
  address space, and page 0, whose address the code uses for failure, is never free.
\<close>

definition pmm_inv :: "'z pmm_state_scheme \<Rightarrow> bool" where
  "pmm_inv s \<longleftrightarrow>
     (case bitmap s of None \<Rightarrow> False
      | Some b \<Rightarrow> unat (bitmap_bits s) \<le> 8 * length b \<and> 0 < bitmap_bits s \<and>
                  unat (bitmap_bits s) \<le> 2 ^ 20 \<and> bit_at b 0)"

definition page_addr :: "nat \<Rightarrow> u32" where
  "page_addr p = of_nat p * PAGE_SIZE"

lemma page_addr_unat: "p < 2 ^ 20 \<Longrightarrow> unat (page_addr p) = p * 4096"
proof -
  assume p: "p < 2 ^ 20"
  then have "unat (of_nat p :: u32) = p" by (simp add: unat_of_nat_small)
  with p show ?thesis unfolding page_addr_def by (subst unat_mult_nowrap) auto
qed

lemma page_addr_div: "p < 2 ^ 20 \<Longrightarrow> unat (page_addr p div PAGE_SIZE) = p"
  by (simp add: unat_div_distrib page_addr_unat)

lemma page_addr_inj: "\<lbrakk> p < 2 ^ 20; q < 2 ^ 20; page_addr p = page_addr q \<rbrakk> \<Longrightarrow> p = q"
  using page_addr_unat by (metis mult_right_cancel zero_neq_numeral)

lemma page_addr_0_iff: "p < 2 ^ 20 \<Longrightarrow> page_addr p = 0 \<longleftrightarrow> p = 0"
  using page_addr_unat [of p] by (auto simp: page_addr_def unat_0_iff [symmetric])

lemma pmm_invD:
  assumes "pmm_inv s"
  obtains b where "bitmap s = Some b" "unat (bitmap_bits s) \<le> 8 * length b" "bitmap_bits s \<noteq> 0"
    "unat (bitmap_bits s) \<le> 2 ^ 20" "bit_at b 0"
  using assms by (auto simp: pmm_inv_def split: option.splits)

lemma page_free_less: "pmm_inv s \<Longrightarrow> page_free s p \<Longrightarrow> p < 2 ^ 20 \<and> p \<noteq> 0"
  by (auto simp: pmm_inv_def page_free_def split: option.splits intro: Nat.gr0I)

lemma free_pages_range: "pmm_inv s \<Longrightarrow> p \<in> free_pages s \<Longrightarrow> 0 < p \<and> p < 2 ^ 20"
  using page_free_less by (auto simp: free_pages_def)

lemma finite_free_pages: "finite (free_pages s)"
proof (rule finite_subset)
  show "free_pages s \<subseteq> {..<unat (bitmap_bits s)}"
    by (auto simp: free_pages_def page_free_def split: option.splits)
qed simp

lemma first_clear_page:
  assumes "pmm_inv s" and "bitmap s = Some b" and "first_clear b (unat (bitmap_bits s)) r"
  shows "if free_pages s = {} then r = 0 else r \<in> free_pages s \<and> (\<forall>q \<in> free_pages s. r \<le> q)"
  using assms
  by (auto simp: first_clear_def free_pages_def page_free_def pmm_inv_def not_less
      intro: leI dest: le_less_trans)

lemma pmm_alloc_page_none:
  assumes inv: "pmm_inv s" and none: "free_pages s = {}"
  shows "pmm_alloc_page s = Some (0, s)"
proof -
  obtain b where b: "bitmap s = Some b" "unat (bitmap_bits s) \<le> 8 * length b" "bitmap_bits s \<noteq> 0"
    "unat (bitmap_bits s) \<le> 2 ^ 20"
    using inv by (rule pmm_invD) blast
  have bits: "unat (ucast (bitmap_bits s) :: u64) = unat (bitmap_bits s)"
    by simp
  obtain r where r: "bitmap_find_free_bit (Some b) (ucast (bitmap_bits s)) = Some r"
    "first_clear b (unat (bitmap_bits s)) (unat r)"
    using b bitmap_find_free_bit_ok [of "ucast (bitmap_bits s)" b] by (auto simp: bits)
  from first_clear_page [OF inv b(1) r(2)] none have "r = 0" by (simp add: unat_0_iff)
  with r(1) b show ?thesis by (simp add: pmm_alloc_page_def)
qed

lemma pmm_alloc_page_some:
  assumes inv: "pmm_inv s" and some: "free_pages s \<noteq> {}"
  obtains p b where "pmm_alloc_page s = Some (page_addr p, s\<lparr>bitmap := Some b\<rparr>)"
    "p \<in> free_pages s" "\<forall>q \<in> free_pages s. p \<le> q"
    "pmm_inv (s\<lparr>bitmap := Some b\<rparr>)" "free_pages (s\<lparr>bitmap := Some b\<rparr>) = free_pages s - {p}"
proof -
  obtain b where b: "bitmap s = Some b" "unat (bitmap_bits s) \<le> 8 * length b" "bitmap_bits s \<noteq> 0"
    "unat (bitmap_bits s) \<le> 2 ^ 20" "bit_at b 0"
    using inv by (rule pmm_invD) blast
  have bits: "unat (ucast (bitmap_bits s) :: u64) = unat (bitmap_bits s)"
    by simp
  obtain r where r: "bitmap_find_free_bit (Some b) (ucast (bitmap_bits s)) = Some r"
    "first_clear b (unat (bitmap_bits s)) (unat r)"
    using b bitmap_find_free_bit_ok [of "ucast (bitmap_bits s)" b] by (auto simp: bits)
  define p where "p = unat r"
  from first_clear_page [OF inv b(1) r(2)] some
  have p: "p \<in> free_pages s" "\<forall>q \<in> free_pages s. p \<le> q" by (simp_all add: p_def)
  then have range: "0 < p" "p < 2 ^ 20" using free_pages_range [OF inv] by auto
  have page: "(ucast r :: u32) = of_nat p" "unat (ucast r :: u32) = p"
    using range(2) by (simp_all add: p_def unat_ucast_small word_unat_eq_iff unat_of_nat_small)
  then have nz: "(ucast r :: u32) \<noteq> 0" using range(1) by auto
  have again: "unat (ucast (ucast r :: u32) :: u64) = p"
    using page(2) by simp
  have lt: "p < 8 * length b" using p(1) b(1,2) by (auto simp: free_pages_def page_free_def)
  then have first: "0 < 8 * length b" by linarith
  obtain b' where b': "bitmap_set_bit (Some b) (ucast (ucast r :: u32)) = Some (Some b')"
    "length b' = length b" "\<And>n. n < 8 * length b \<Longrightarrow> bit_at b' n \<longleftrightarrow> n = p \<or> bit_at b n"
    using bitmap_set_bit_ok [of "ucast (ucast r :: u32)" b, unfolded again, OF lt] by blast
  have "pmm_alloc_page s = Some (page_addr p, s\<lparr>bitmap := Some b'\<rparr>)"
    using b r(1) nz b'(1) page(1) by (simp add: pmm_alloc_page_def page_addr_def)
  moreover have "pmm_inv (s\<lparr>bitmap := Some b'\<rparr>)"
    using inv b b'(2) b'(3) [OF first] by (auto simp: pmm_inv_def)
  moreover have "free_pages (s\<lparr>bitmap := Some b'\<rparr>) = free_pages s - {p}"
    using b b'(2,3) by (auto simp: free_pages_def page_free_def)
  ultimately show thesis using that p by blast
qed

lemma pmm_free_page_ok:
  assumes inv: "pmm_inv s" and page: "unat addr div 4096 < unat (bitmap_bits s)" "unat addr div 4096 \<noteq> 0"
  obtains b where "pmm_free_page addr s = Some (s\<lparr>bitmap := Some b\<rparr>)" "pmm_inv (s\<lparr>bitmap := Some b\<rparr>)"
    "free_pages (s\<lparr>bitmap := Some b\<rparr>) = insert (unat addr div 4096) (free_pages s)"
proof -
  obtain b where b: "bitmap s = Some b" "unat (bitmap_bits s) \<le> 8 * length b" "bitmap_bits s \<noteq> 0"
    "unat (bitmap_bits s) \<le> 2 ^ 20" "bit_at b 0"
    using inv by (rule pmm_invD) blast
  have idx: "unat (ucast (addr div PAGE_SIZE) :: u64) = unat addr div 4096"
    by (simp add: unat_div_distrib)
  have lt: "unat addr div 4096 < 8 * length b" using page(1) b(2) by linarith
  then have first: "0 < 8 * length b" by linarith
  obtain b' where b': "bitmap_clear_bit (Some b) (ucast (addr div PAGE_SIZE)) = Some (Some b')"
    "length b' = length b"
    "\<And>n. n < 8 * length b \<Longrightarrow> bit_at b' n \<longleftrightarrow> n \<noteq> unat addr div 4096 \<and> bit_at b n"
    using bitmap_clear_bit_ok [of "ucast (addr div PAGE_SIZE)" b, unfolded idx, OF lt] by blast
  have "pmm_free_page addr s = Some (s\<lparr>bitmap := Some b'\<rparr>)"
    using b b'(1) by (simp add: pmm_free_page_def)
  moreover have "pmm_inv (s\<lparr>bitmap := Some b'\<rparr>)"
    using inv b b'(2) b'(3) [OF first] page(2) by (auto simp: pmm_inv_def)
  moreover have "free_pages (s\<lparr>bitmap := Some b'\<rparr>) = insert (unat addr div 4096) (free_pages s)"
    using b b'(2,3) page(1) by (auto simp: free_pages_def page_free_def)
  ultimately show thesis using that by blast
qed

section \<open>What pmm\_init leaves free\<close>

lemma clear_pages_ok:
  assumes "unat page + k \<le> 8 * length b" and "8 * length b < 2 ^ 32"
  shows "\<exists>b'. clear_pages (Some b) page k = Some (Some b') \<and> length b' = length b \<and>
    (\<forall>n < 8 * length b. bit_at b' n \<longleftrightarrow> bit_at b n \<and> \<not> (unat page \<le> n \<and> n < unat page + k))"
  using assms
proof (induction k arbitrary: b page)
  case (Suc k)
  have lt: "unat (ucast page :: u64) < 8 * length b" using Suc.prems by simp
  obtain b1 where b1: "bitmap_clear_bit (Some b) (ucast page) = Some (Some b1)" "length b1 = length b"
    "\<And>n. n < 8 * length b \<Longrightarrow> bit_at b1 n \<longleftrightarrow> n \<noteq> unat page \<and> bit_at b n"
    using bitmap_clear_bit_ok [OF lt] by auto
  have p1: "unat (page + 1) = Suc (unat page)"
    using Suc.prems by (subst unat_add_nowrap) auto
  from Suc.IH [of "page + 1" b1] Suc.prems p1 b1(2) obtain b2 where
    b2: "clear_pages (Some b1) (page + 1) k = Some (Some b2)" "length b2 = length b"
    "\<And>n. n < 8 * length b \<Longrightarrow>
       bit_at b2 n \<longleftrightarrow> bit_at b1 n \<and> \<not> (Suc (unat page) \<le> n \<and> n < Suc (unat page) + k)"
    by auto
  have "bit_at b2 n \<longleftrightarrow> bit_at b n \<and> \<not> (unat page \<le> n \<and> n < unat page + Suc k)"
    if "n < 8 * length b" for n
    using b1(3) [OF that] b2(3) [OF that] by auto
  with b1(1) b2(1,2) show ?case by auto
qed auto

lemma set_pages_ok:
  assumes "unat page + k \<le> 8 * length b \<or> k = 0" and "8 * length b < 2 ^ 32"
  shows "\<exists>b'. set_pages (Some b) page k = Some (Some b') \<and> length b' = length b \<and>
    (\<forall>n < 8 * length b. bit_at b' n \<longleftrightarrow> bit_at b n \<or> (unat page \<le> n \<and> n < unat page + k))"
  using assms
proof (induction k arbitrary: b page)
  case (Suc k)
  have lt: "unat (ucast page :: u64) < 8 * length b" using Suc.prems by simp
  obtain b1 where b1: "bitmap_set_bit (Some b) (ucast page) = Some (Some b1)" "length b1 = length b"
    "\<And>n. n < 8 * length b \<Longrightarrow> bit_at b1 n \<longleftrightarrow> n = unat page \<or> bit_at b n"
    using bitmap_set_bit_ok [OF lt] by auto
  have p1: "unat (page + 1) = Suc (unat page)"
    using Suc.prems by (subst unat_add_nowrap) auto
  from Suc.IH [of "page + 1" b1] Suc.prems p1 b1(2) obtain b2 where
    b2: "set_pages (Some b1) (page + 1) k = Some (Some b2)" "length b2 = length b"
    "\<And>n. n < 8 * length b \<Longrightarrow>
       bit_at b2 n \<longleftrightarrow> bit_at b1 n \<or> (Suc (unat page) \<le> n \<and> n < Suc (unat page) + k)"
    by auto
  have "bit_at b2 n \<longleftrightarrow> bit_at b n \<or> (unat page \<le> n \<and> n < unat page + Suc k)"
    if "n < 8 * length b" for n
    using b1(3) [OF that] b2(3) [OF that] by auto
  with b1(1) b2(1,2) show ?case by auto
qed auto

text \<open>An entry offers a page when it is usable memory and covers the whole page below 4 GB.\<close>

definition offers :: "e820_entry \<Rightarrow> nat \<Rightarrow> bool" where
  "offers e p \<longleftrightarrow> e_type e = 1 \<and> unat (e_base e) \<le> 4096 * p \<and>
     4096 * (p + 1) \<le> min (unat (e_base e + e_length e)) 0xFFFFFFFF"

lemma entry_end_unat: "unat (entry_end e) = min (unat (e_base e + e_length e)) 0xFFFFFFFF"
proof -
  have "unat (min (e_base e + e_length e) 0xFFFFFFFF) = min (unat (e_base e + e_length e)) 0xFFFFFFFF"
    by (simp add: min_def word_le_nat_alt)
  then show ?thesis by (simp add: entry_end_def unat_ucast_small)
qed

lemma end_page_unat: "unat (end_page e) = min (unat (e_base e + e_length e)) 0xFFFFFFFF div 4096"
proof -
  have "unat (align_down (entry_end e) (2 ^ 12)) = unat (entry_end e) - unat (entry_end e) mod 2 ^ 12"
    by (rule align_down_unat)
  then show ?thesis
    by (simp add: end_page_def unat_div_distrib entry_end_unat minus_mod_eq_mult_div)
qed

lemma start_page_unat:
  assumes "e_base e < 0xFFFFFFFF"
  shows "unat (start_page e) = (unat (e_base e) + 4095) div 4096"
proof -
  have b: "unat (e_base e) < 0xFFFFFFFF" using assms by (simp add: word_less_nat_alt)
  then have "unat (align_up (e_base e) (2 ^ 12)) = (unat (e_base e) + (2 ^ 12 - 1)) div 2 ^ 12 * 2 ^ 12"
    by (intro align_up_unat) auto
  then have "unat (align_up (e_base e) 0x1000 div 0x1000) = (unat (e_base e) + 4095) div 4096"
    by (simp add: unat_div_distrib)
  then show ?thesis using b by (simp add: start_page_def unat_ucast_small)
qed

lemma offers_iff:
  "e_type e = 1 \<and> e_base e < 0xFFFFFFFF \<and> unat (start_page e) \<le> p \<and> p < unat (end_page e)
    \<longleftrightarrow> offers e p"
proof (cases "e_base e < 0xFFFFFFFF")
  case True
  have "(unat (e_base e) + 4095) div 4096 \<le> p \<longleftrightarrow> unat (e_base e) \<le> 4096 * p" by linarith
  moreover have "p < E div 4096 \<longleftrightarrow> 4096 * (p + 1) \<le> E" for E :: nat
    by (simp add: Suc_le_eq [symmetric] less_eq_div_iff_mult_less_eq mult.commute)
  ultimately show ?thesis
    using True by (simp add: offers_def start_page_unat end_page_unat)
next
  case False
  then have "0xFFFFFFFF \<le> unat (e_base e)" by (simp add: word_less_nat_alt)
  with False show ?thesis by (auto simp: offers_def)
qed

lemma scan_entries:
  assumes "fold scan_entry es (t, u) = (ptop, v)"
  shows "t \<le> ptop \<and> (\<forall>e \<in> set es. e_base e < 0xFFFFFFFF \<longrightarrow> entry_end e \<le> ptop)"
  using assms
proof (induction es arbitrary: t u)
  case (Cons e es)
  obtain t1 u1 where s: "scan_entry e (t, u) = (t1, u1)" by force
  then have "t \<le> t1 \<and> (e_base e < 0xFFFFFFFF \<longrightarrow> entry_end e \<le> t1)"
    by (auto simp: scan_entry_def split: if_splits)
  with Cons.IH [of t1 u1] Cons.prems s show ?case by (auto intro: order_trans)
qed simp

lemma release_entry_ok:
  assumes "8 * length b < 2 ^ 32"
    and "e_base e < 0xFFFFFFFF \<Longrightarrow> unat (end_page e) \<le> 8 * length b"
  shows "\<exists>b'. release_entry e (Some b) = Some (Some b') \<and> length b' = length b \<and>
    (\<forall>n < 8 * length b. bit_at b' n \<longleftrightarrow> bit_at b n \<and> \<not> offers e n)"
proof (cases "e_type e = 1 \<and> e_base e < 0xFFFFFFFF")
  case True
  then have eb: "e_type e = 1" "e_base e < 0xFFFFFFFF" by auto
  let ?k = "unat (end_page e) - unat (start_page e)"
  show ?thesis
  proof (cases "?k = 0")
    case True
    then have "\<not> offers e n" for n using offers_iff [of e n] by auto
    with eb True show ?thesis by (simp add: release_entry_def not_le)
  next
    case False
    with assms(2) [OF eb(2)] have "unat (start_page e) + ?k \<le> 8 * length b" by simp
    moreover have "\<not> 0xFFFFFFFF \<le> e_base e" using eb(2) by simp
    ultimately show ?thesis
      using clear_pages_ok [OF _ assms(1), of "start_page e" ?k] eb False
      by (simp add: release_entry_def offers_iff [symmetric])
  qed
next
  case False
  then have "\<not> offers e n" for n using offers_iff [of e n] by auto
  moreover have "release_entry e (Some b) = Some (Some b)"
    using False by (auto simp: release_entry_def not_less)
  ultimately show ?thesis by simp
qed

lemma release_entries_ok:
  assumes "8 * length b < 2 ^ 32"
    and "\<forall>e \<in> set es. e_base e < 0xFFFFFFFF \<longrightarrow> unat (end_page e) \<le> 8 * length b"
  shows "\<exists>b'. release_entries es (Some b) = Some (Some b') \<and> length b' = length b \<and>
    (\<forall>n < 8 * length b. bit_at b' n \<longleftrightarrow> bit_at b n \<and> \<not> (\<exists>e \<in> set es. offers e n))"
  using assms
proof (induction es arbitrary: b)
  case (Cons e es)
  from release_entry_ok [OF Cons.prems(1), of e] Cons.prems(2) obtain b1 where
    b1: "release_entry e (Some b) = Some (Some b1)" "length b1 = length b"
      "\<forall>n < 8 * length b. bit_at b1 n \<longleftrightarrow> bit_at b n \<and> \<not> offers e n" by auto
  from Cons.IH [of b1] Cons.prems b1(2) obtain b2 where
    b2: "release_entries es (Some b1) = Some (Some b2)" "length b2 = length b"
      "\<forall>n < 8 * length b. bit_at b2 n \<longleftrightarrow> bit_at b1 n \<and> \<not> (\<exists>e \<in> set es. offers e n)" by auto
  from b1 b2 show ?case by auto
qed auto

lemma replicate_all_set: "n < 8 * k \<Longrightarrow> bit_at (replicate k 0xFF) n"
proof -
  assume "n < 8 * k"
  then have "n div 8 < k" by auto
  moreover have "bit (0xFF :: u8) (n mod 8)"
  proof -
    have "(0xFF :: u8) = - 1" by simp
    then show ?thesis by (simp only: bit_minus_1_iff possible_bit_word) simp
  qed
  ultimately show ?thesis by (simp add: bit_at_def)
qed

text \<open>The page range \<open>pmm_init\<close> reserves for the kernel image and the bitmap behind it.\<close>

definition kernel_page :: "u32 \<Rightarrow> u32 \<Rightarrow> nat \<Rightarrow> nat \<Rightarrow> bool" where
  "kernel_page kstart kend bytes p \<longleftrightarrow>
     (unat kstart - 0xC0000000) div 4096 \<le> p \<and>
     p < (unat kend + bytes - 0xC0000000 + 4095) div 4096"

lemma pmm_init_result:
  assumes scan: "fold scan_entry entries (phys_top s, usable_mem s) = (ptop, usable)"
    and ram: "0x10000 \<le> unat ptop"
    and k: "0xC0000000 \<le> unat kstart" "0xC0000000 \<le> unat kend" "unat kend < 0xF0000000"
  obtains s' where "pmm_init entries kstart kend s = Some s'" "pmm_inv s'"
    "unat (bitmap_bits s') = unat ptop div 4096"
    "\<And>p. page_free s' p \<longleftrightarrow> p < unat ptop div 4096 \<and> 16 \<le> p \<and> (\<exists>e \<in> set entries. offers e p) \<and>
       \<not> kernel_page kstart kend ((unat ptop div 4096 + 7) div 8) p"
proof -
  define bits where "bits = ptop div 0x1000"
  define bytes where "bytes = align_up bits 8 div 8"
  have t: "unat ptop < 2 ^ 32" using unat_lt [of ptop] by simp
  have bits: "unat bits = unat ptop div 4096" by (simp add: bits_def unat_div_distrib)
  then have bits20: "16 \<le> unat bits" "unat bits < 2 ^ 20" using t ram by auto
  have "unat (align_up bits 8) = (unat bits + 7) div 8 * 8"
    using align_up_unat [of bits 3] bits20(2) by simp
  then have bytes: "unat bytes = (unat bits + 7) div 8" by (simp add: bytes_def unat_div_distrib)
  then have bytes17: "unat bits \<le> 8 * unat bytes" "8 * unat bytes < 2 ^ 21" using bits20 by auto
  let ?b0 = "replicate (unat bytes) (0xFF :: u8)"
  have "\<forall>e \<in> set entries. e_base e < 0xFFFFFFFF \<longrightarrow> unat (end_page e) \<le> 8 * length ?b0"
  proof (intro ballI impI)
    fix e assume "e \<in> set entries" "e_base e < 0xFFFFFFFF"
    then have "unat (entry_end e) \<le> unat ptop"
      using scan_entries [OF scan] by (simp add: word_le_nat_alt)
    then have "unat (end_page e) \<le> unat bits"
      unfolding end_page_unat bits entry_end_unat [symmetric] by (rule div_le_mono)
    with bytes17(1) show "unat (end_page e) \<le> 8 * length ?b0" by simp
  qed
  with release_entries_ok [of ?b0 entries] bytes17 obtain b1 where
    b1: "release_entries entries (Some ?b0) = Some (Some b1)" "length b1 = unat bytes"
      "\<forall>n < 8 * unat bytes. bit_at b1 n \<longleftrightarrow> \<not> (\<exists>e \<in> set entries. offers e n)"
    using replicate_all_set by auto
  define ks where "ks = align_down (kstart - 0xC0000000) 0x1000 div 0x1000"
  define ke where "ke = align_up (kend + bytes - 0xC0000000) 0x1000 div 0x1000"
  have "unat (kstart - 0xC0000000) = unat kstart - 0xC0000000"
    using k(1) by (subst unat_diff_nowrap) auto
  then have ks: "unat ks = (unat kstart - 0xC0000000) div 4096"
    using align_down_unat [of "kstart - 0xC0000000" 12]
    by (simp add: ks_def unat_div_distrib minus_mod_eq_mult_div)
  have ends: "unat (kend + bytes) = unat kend + unat bytes"
    using k(3) bytes17 by (subst unat_add_nowrap) auto
  then have "unat (kend + bytes - 0xC0000000) = unat kend + unat bytes - 0xC0000000"
    using k(2) by (subst unat_diff_nowrap) auto
  then have ke: "unat ke = (unat kend + unat bytes - 0xC0000000 + 4095) div 4096"
    using align_up_unat [of "kend + bytes - 0xC0000000" 12] k(3) bytes17
    by (simp add: ke_def unat_div_distrib)
  let ?k = "unat (min ke bits) - unat ks"
  have mn: "unat (min ke bits) = min (unat ke) (unat bits)" by (simp add: min_def word_le_nat_alt)
  then have "unat ks + ?k \<le> 8 * length b1 \<or> ?k = 0" using bytes17 b1(2) by auto
  from set_pages_ok [OF this] b1(2) bytes17 obtain b2 where
    b2: "set_pages (Some b1) ks ?k = Some (Some b2)" "length b2 = unat bytes"
      "\<forall>n < 8 * unat bytes. bit_at b2 n \<longleftrightarrow> bit_at b1 n \<or> (unat ks \<le> n \<and> n < unat ks + ?k)"
    by auto
  have "unat (0 :: u32) + 16 \<le> 8 * length b2 \<or> 16 = (0 :: nat)" using b2(2) bytes17 bits20 by auto
  from set_pages_ok [OF this] b2(2) bytes17 obtain b3 where
    b3: "set_pages (Some b2) 0 16 = Some (Some b3)" "length b3 = unat bytes"
      "\<forall>n < 8 * unat bytes. bit_at b3 n \<longleftrightarrow> bit_at b2 n \<or> n < 16"
    by auto
  define s' where "s' = s\<lparr>bitmap := Some b3, bitmap_bits := bits, bitmap_bytes := bytes,
    phys_top := ptop, usable_mem := usable\<rparr>"
  have "pmm_init entries kstart kend s = Some s'"
    using b1(1) b2(1) b3(1) scan
    by (simp add: pmm_init_def s'_def Let_def flip: bits_def bytes_def ks_def ke_def)
  moreover have "bits \<noteq> 0" using bits20 by auto
  then have "pmm_inv s'"
    using b3(2,3) bytes17 bits20 by (auto simp: s'_def pmm_inv_def word_gt_0)
  moreover have "page_free s' p \<longleftrightarrow> p < unat ptop div 4096 \<and> 16 \<le> p \<and> (\<exists>e \<in> set entries. offers e p) \<and>
       \<not> kernel_page kstart kend ((unat ptop div 4096 + 7) div 8) p" for p
  proof (cases "p < unat bits")
    case True
    then have "p < 8 * unat bytes" using bytes17 by simp
    then have "bit_at b3 p \<longleftrightarrow> \<not> (\<exists>e \<in> set entries. offers e p) \<or> (unat ks \<le> p \<and> p < unat ks + ?k) \<or> p < 16"
      using b1(3) b2(3) b3(3) by simp
    moreover have "unat ks \<le> p \<and> p < unat ks + ?k \<longleftrightarrow> kernel_page kstart kend (unat bytes) p"
    proof -
      have "a \<le> p \<and> p < a + (min c (unat bits) - a) \<longleftrightarrow> a \<le> p \<and> p < c" for a c :: nat
        using True by (simp add: min_def) linarith
      then show ?thesis unfolding mn kernel_page_def ks [symmetric] ke [symmetric] by blast
    qed
    ultimately show ?thesis
      using True by (auto simp: s'_def page_free_def bits bytes)
  qed (simp add: s'_def page_free_def bits)
  ultimately show thesis using that bits by (simp add: s'_def)
qed

section \<open>The contract of a page allocator\<close>

text \<open>\<open>n\<close> allocations in a row, and a list of frees in a row.\<close>

fun alloc_n :: "('s \<Rightarrow> (u32 \<times> 's) option) \<Rightarrow> nat \<Rightarrow> 's \<Rightarrow> (u32 list \<times> 's) option" where
  "alloc_n alloc 0 s = Some ([], s)"
| "alloc_n alloc (Suc n) s = do {
     (a, s1) \<leftarrow> alloc s;
     (rest, s2) \<leftarrow> alloc_n alloc n s1;
     Some (a # rest, s2) }"

fun release_all :: "(u32 \<Rightarrow> 's \<Rightarrow> 's option) \<Rightarrow> u32 list \<Rightarrow> 's \<Rightarrow> 's option" where
  "release_all release [] s = Some s"
| "release_all release (a # rest) s = do { s1 \<leftarrow> release a s; release_all release rest s1 }"

locale page_allocator =
  fixes inv :: "'s \<Rightarrow> bool"
    and avail :: "'s \<Rightarrow> nat set"
    and managed :: "'s \<Rightarrow> nat set"
    and alloc :: "'s \<Rightarrow> (u32 \<times> 's) option"
    and release :: "u32 \<Rightarrow> 's \<Rightarrow> 's option"
  assumes avail_managed: "inv s \<Longrightarrow> avail s \<subseteq> managed s"
    and managed_range: "\<lbrakk> inv s; p \<in> managed s \<rbrakk> \<Longrightarrow> 0 < p \<and> p < 2 ^ 20"
    and avail_finite: "finite (avail s)"
    and alloc_none: "\<lbrakk> inv s; avail s = {} \<rbrakk> \<Longrightarrow> alloc s = Some (0, s)"
    and alloc_some: "\<lbrakk> inv s; avail s \<noteq> {} \<rbrakk> \<Longrightarrow>
      \<exists>s'. alloc s = Some (page_addr (Min (avail s)), s') \<and> inv s' \<and>
           avail s' = avail s - {Min (avail s)} \<and> managed s' = managed s"
    and release_page: "\<lbrakk> inv s; p \<in> managed s \<rbrakk> \<Longrightarrow>
      \<exists>s'. release (page_addr p) s = Some s' \<and> inv s' \<and>
           avail s' = insert p (avail s) \<and> managed s' = managed s"
begin

text \<open>\<open>n\<close> allocations take \<open>n\<close> different pages out of the free set, in ascending order.\<close>

lemma alloc_n_distinct:
  assumes "inv s" and "n \<le> card (avail s)"
  shows "\<exists>ps s'. alloc_n alloc n s = Some (map page_addr ps, s') \<and> inv s' \<and> length ps = n \<and>
    distinct ps \<and> sorted ps \<and> set ps \<subseteq> avail s \<and> avail s' = avail s - set ps \<and> managed s' = managed s"
  using assms
proof (induction n arbitrary: s)
  case (Suc n)
  then have ne: "avail s \<noteq> {}" by auto
  let ?m = "Min (avail s)"
  have m: "?m \<in> avail s" "\<forall>q \<in> avail s. ?m \<le> q" using avail_finite ne by auto
  obtain s1 where s1: "alloc s = Some (page_addr ?m, s1)" "inv s1" "avail s1 = avail s - {?m}"
    "managed s1 = managed s"
    using alloc_some [OF Suc.prems(1) ne] by blast
  have "n \<le> card (avail s1)" using Suc.prems(2) s1(3) m(1) avail_finite by (simp add: card_Diff_singleton)
  from Suc.IH [OF s1(2) this] obtain ps s2 where
    s2: "alloc_n alloc n s1 = Some (map page_addr ps, s2)" "inv s2" "length ps = n" "distinct ps"
      "sorted ps" "set ps \<subseteq> avail s1" "avail s2 = avail s1 - set ps" "managed s2 = managed s1"
    by blast
  have "alloc_n alloc (Suc n) s = Some (map page_addr (?m # ps), s2)" using s1(1) s2(1) by simp
  moreover have "distinct (?m # ps)" "set (?m # ps) \<subseteq> avail s" "avail s2 = avail s - set (?m # ps)"
    using s2 s1(3) m(1) by auto
  moreover have "sorted (?m # ps)" using m(2) s2(5,6) s1(3) by auto
  ultimately show ?case using s2 s1(4) by (metis length_Cons)
qed simp

lemma release_all_returns:
  assumes "inv s" and "set ps \<subseteq> managed s"
  shows "\<exists>s'. release_all release (map page_addr ps) s = Some s' \<and> inv s' \<and>
    avail s' = avail s \<union> set ps \<and> managed s' = managed s"
  using assms
proof (induction ps arbitrary: s)
  case (Cons p ps)
  obtain s1 where s1: "release (page_addr p) s = Some s1" "inv s1" "avail s1 = insert p (avail s)"
    "managed s1 = managed s"
    using release_page [OF Cons.prems(1), of p] Cons.prems(2) by auto
  from Cons.IH [OF s1(2)] Cons.prems(2) s1(4) obtain s2 where
    s2: "release_all release (map page_addr ps) s1 = Some s2" "inv s2" "avail s2 = avail s1 \<union> set ps"
      "managed s2 = managed s1"
    by auto
  with s1 show ?case by auto
qed simp

lemma alloc_release_roundtrip:
  assumes "inv s" and "n \<le> card (avail s)"
  shows "\<exists>ps s1 s2. alloc_n alloc n s = Some (map page_addr ps, s1) \<and> length ps = n \<and> distinct ps \<and>
    set ps \<subseteq> avail s \<and> avail s1 = avail s - set ps \<and>
    release_all release (map page_addr ps) s1 = Some s2 \<and> avail s2 = avail s \<and> inv s2"
proof -
  obtain ps s1 where a: "alloc_n alloc n s = Some (map page_addr ps, s1)" "inv s1" "length ps = n"
    "distinct ps" "set ps \<subseteq> avail s" "avail s1 = avail s - set ps" "managed s1 = managed s"
    using alloc_n_distinct [OF assms] by blast
  have "set ps \<subseteq> managed s1" using a(5,7) avail_managed [OF assms(1)] by auto
  from release_all_returns [OF a(2) this] a show ?thesis by fastforce
qed

end

definition managed_pages :: "'z pmm_state_scheme \<Rightarrow> nat set" where
  "managed_pages s = {p. p < unat (bitmap_bits s) \<and> p \<noteq> 0}"

lemma managed_range: "pmm_inv s \<Longrightarrow> p \<in> managed_pages s \<Longrightarrow> 0 < p \<and> p < 2 ^ 20"
  by (auto simp: managed_pages_def pmm_inv_def split: option.splits)

lemma pmm_alloc_page_min:
  assumes "pmm_inv s" and "free_pages s \<noteq> {}"
  shows "\<exists>s'. pmm_alloc_page s = Some (page_addr (Min (free_pages s)), s') \<and> pmm_inv s' \<and>
    free_pages s' = free_pages s - {Min (free_pages s)} \<and> managed_pages s' = managed_pages s"
proof -
  obtain p b where p: "pmm_alloc_page s = Some (page_addr p, s\<lparr>bitmap := Some b\<rparr>)"
    "p \<in> free_pages s" "\<forall>q \<in> free_pages s. p \<le> q"
    "pmm_inv (s\<lparr>bitmap := Some b\<rparr>)" "free_pages (s\<lparr>bitmap := Some b\<rparr>) = free_pages s - {p}"
    using pmm_alloc_page_some [OF assms] by blast
  have "Min (free_pages s) = p"
    by (rule Min_eqI) (use p finite_free_pages in auto)
  with p show ?thesis by (auto simp: managed_pages_def)
qed

lemma pmm_free_page_managed:
  assumes "pmm_inv s" and "p \<in> managed_pages s"
  shows "\<exists>s'. pmm_free_page (page_addr p) s = Some s' \<and> pmm_inv s' \<and>
    free_pages s' = insert p (free_pages s) \<and> managed_pages s' = managed_pages s"
proof -
  have p: "unat (page_addr p) div 4096 = p"
    using managed_range [OF assms] by (simp add: page_addr_unat)
  have "unat (page_addr p) div 4096 < unat (bitmap_bits s)" "unat (page_addr p) div 4096 \<noteq> 0"
    using assms(2) unfolding p by (auto simp: managed_pages_def)
  from pmm_free_page_ok [OF assms(1) this, unfolded p] obtain b where
    "pmm_free_page (page_addr p) s = Some (s\<lparr>bitmap := Some b\<rparr>)" "pmm_inv (s\<lparr>bitmap := Some b\<rparr>)"
    "free_pages (s\<lparr>bitmap := Some b\<rparr>) = insert p (free_pages s)" by blast
  then show ?thesis by (auto simp: managed_pages_def)
qed

interpretation pmm: page_allocator pmm_inv free_pages managed_pages pmm_alloc_page pmm_free_page
proof (unfold_locales, goal_cases)
  case (1 s)
  then show ?case using free_pages_range
    by (auto simp: managed_pages_def free_pages_def page_free_def split: option.splits)
next
  case (2 s p)
  then show ?case by (rule managed_range)
next
  case (3 s)
  show ?case by (rule finite_free_pages)
next
  case (4 s)
  then show ?case by (rule pmm_alloc_page_none)
next
  case (5 s)
  then show ?case by (rule pmm_alloc_page_min)
next
  case (6 s p)
  then show ?case by (rule pmm_free_page_managed)
qed

section \<open>Properties\<close>

text \<open>A small allocator: 16 pages, pages 0 and 1 used.\<close>

definition small_pmm :: pmm_state where
  "small_pmm = \<lparr>bitmap = Some [3, 0], bitmap_bits = 16, bitmap_bytes = 2, phys_top = 0x10000,
     usable_mem = 0xE000\<rparr>"

lemma small_pmm_inv: "pmm_inv small_pmm"
  by (simp add: pmm_inv_def small_pmm_def bit_at_def bit_1_iff)

lemma small_pmm_free: "free_pages small_pmm = {2 ..< 16}"
proof -
  have "free_pages small_pmm = set (filter (\<lambda>p. \<not> bit_at [3, 0] p) [0 ..< 16])"
    by (auto simp: free_pages_def page_free_def small_pmm_def)
  also have "filter (\<lambda>p. \<not> bit_at [3, 0] p) [0 ..< 16] = [2 ..< 16]"
    by code_simp
  finally show ?thesis by (simp only: atLeastLessThan_upt)
qed

text \<open>\<open>pmm_alloc_page\<close> hands out the lowest free page and takes it out of the free set; when no
  page is free it returns 0 and changes nothing.\<close>

theorem pmm_alloc_lowest_page:
  assumes "pmm_inv s"
  shows "if free_pages s = {} then pmm_alloc_page s = Some (0, s)
    else \<exists>s'. pmm_alloc_page s = Some (page_addr (Min (free_pages s)), s') \<and> pmm_inv s' \<and>
           free_pages s' = free_pages s - {Min (free_pages s)} \<and> page_addr (Min (free_pages s)) \<noteq> 0"
proof (cases "free_pages s = {}")
  case False
  then have "Min (free_pages s) \<in> free_pages s" by (intro Min_in finite_free_pages)
  from free_pages_range [OF assms this] have "page_addr (Min (free_pages s)) \<noteq> 0"
    by (simp add: page_addr_0_iff del: Min_eq_iff)
  with pmm.alloc_some [OF assms False] False show ?thesis
    by (simp only: if_False) blast
next
  case True
  with pmm.alloc_none [OF assms True] show ?thesis by simp
qed

theorem pmm_alloc_lowest_page_witness:
  "\<exists>s'. pmm_alloc_page small_pmm = Some (0x2000, s') \<and> free_pages s' = {3 ..< 16}"
proof -
  have "Min {2 ..< 16 :: nat} = 2" by (rule Min_eqI) auto
  moreover have "{2 ..< 16} - {2} = {3 ..< 16 :: nat}" by auto
  moreover have "page_addr 2 = 0x2000" by (simp add: page_addr_def)
  moreover have "{2 ..< 16 :: nat} \<noteq> {}" by simp
  ultimately show ?thesis
    using pmm_alloc_lowest_page [OF small_pmm_inv] unfolding small_pmm_free by auto
qed

text \<open>C23. As long as enough pages are free, any number of allocations succeeds, hands out different
  pages that were free, and freeing them in the order of allocation restores the free set.\<close>

theorem pmm_pages_are_exclusive:
  assumes "pmm_inv s" and "n \<le> card (free_pages s)"
  shows "\<exists>ps s1 s2. alloc_n pmm_alloc_page n s = Some (map page_addr ps, s1) \<and> length ps = n \<and>
    distinct ps \<and> set ps \<subseteq> free_pages s \<and> free_pages s1 = free_pages s - set ps \<and>
    release_all pmm_free_page (map page_addr ps) s1 = Some s2 \<and> free_pages s2 = free_pages s \<and>
    pmm_inv s2"
  using assms by (rule pmm.alloc_release_roundtrip)

theorem pmm_pages_are_exclusive_witness:
  "\<exists>ps s1. alloc_n pmm_alloc_page 14 small_pmm = Some (map page_addr ps, s1) \<and> free_pages s1 = {}"
proof -
  have n: "14 \<le> card (free_pages small_pmm)" by (simp add: small_pmm_free)
  obtain ps s1 where p: "alloc_n pmm_alloc_page 14 small_pmm = Some (map page_addr ps, s1)"
    "length ps = 14" "distinct ps" "set ps \<subseteq> {2 ..< 16}" "free_pages s1 = {2 ..< 16} - set ps"
    using pmm_pages_are_exclusive [OF small_pmm_inv n] unfolding small_pmm_free by blast
  have "set ps = {2 ..< 16}"
    by (rule card_subset_eq) (use p distinct_card [of ps] in auto)
  with p show ?thesis by auto
qed

text \<open>C24. After \<open>pmm_init\<close> the free pages are exactly those that lie wholly inside a usable E820
  entry below the top of memory, are not among the first sixteen, and do not hold the kernel
  image or the bitmap behind it.  Nothing else is reserved: neither other E820 types that overlap
  a usable entry nor the initial ramdisk.\<close>

theorem pmm_init_free_pages:
  assumes "fold scan_entry entries (phys_top s, usable_mem s) = (ptop, usable)"
    and "0x10000 \<le> unat ptop"
    and "0xC0000000 \<le> unat kstart" "0xC0000000 \<le> unat kend" "unat kend < 0xF0000000"
  shows "\<exists>s'. pmm_init entries kstart kend s = Some s' \<and> pmm_inv s' \<and>
    free_pages s' = {p. p < unat ptop div 4096 \<and> 16 \<le> p \<and> (\<exists>e \<in> set entries. offers e p) \<and>
       \<not> kernel_page kstart kend ((unat ptop div 4096 + 7) div 8) p}"
proof (rule pmm_init_result [OF assms])
  fix s'
  assume s': "pmm_init entries kstart kend s = Some s'" "pmm_inv s'"
    "\<And>p. page_free s' p \<longleftrightarrow> p < unat ptop div 4096 \<and> 16 \<le> p \<and> (\<exists>e \<in> set entries. offers e p) \<and>
       \<not> kernel_page kstart kend ((unat ptop div 4096 + 7) div 8) p"
  show ?thesis
    by (rule exI [of _ s']) (simp only: s' free_pages_def simp_thms)
qed

definition pc_entries :: "e820_entry list" where
  "pc_entries = [\<lparr>e_base = 0, e_length = 0x9FC00, e_type = 1, e_acpi_extended = 1\<rparr>,
     \<lparr>e_base = 0x9FC00, e_length = 0x400, e_type = 2, e_acpi_extended = 1\<rparr>, \<lparr>e_base = 0x100000, e_length = 0x300000, e_type = 1, e_acpi_extended = 1\<rparr>]"

definition no_pmm :: pmm_state where
  "no_pmm = \<lparr>bitmap = None, bitmap_bits = 0, bitmap_bytes = 0, phys_top = 0, usable_mem = 0\<rparr>"

theorem pmm_init_free_pages_witness:
  "\<exists>s'. pmm_init pc_entries 0xC0100000 0xC0120000 no_pmm = Some s' \<and>
     0x50 \<in> free_pages s' \<and> 0x100 \<notin> free_pages s' \<and> 0x3FF \<in> free_pages s'"
proof -
  have f: "fold scan_entry pc_entries (phys_top no_pmm, usable_mem no_pmm) = (0x400000, 0x39FC00)"
    by code_simp
  have "\<exists>s'. pmm_init pc_entries 0xC0100000 0xC0120000 no_pmm = Some s' \<and> pmm_inv s' \<and>
    free_pages s' = {p. p < unat (0x400000 :: u32) div 4096 \<and> 16 \<le> p \<and> (\<exists>e \<in> set pc_entries. offers e p) \<and>
       \<not> kernel_page 0xC0100000 0xC0120000 ((unat (0x400000 :: u32) div 4096 + 7) div 8) p}"
    by (rule pmm_init_free_pages [OF f]) simp_all
  then show ?thesis
    by (auto simp: pc_entries_def offers_def kernel_page_def)
qed

text \<open>\<open>pmm_free_page\<close> does not check its argument against the bitmap: an address past the managed
  memory makes it write outside the bitmap.\<close>

theorem pmm_free_page_unchecked:
  assumes "pmm_inv s" and "bitmap s = Some b" and "8 * length b \<le> unat addr div 4096"
  shows "pmm_free_page addr s = None"
proof -
  have "unat (ucast (addr div PAGE_SIZE) :: u64) = unat addr div 4096"
    by (simp add: unat_div_distrib)
  then show ?thesis
    using assms bitmap_access_outside [of b "ucast (addr div PAGE_SIZE)"]
    by (auto simp: pmm_free_page_def pmm_inv_def)
qed

theorem pmm_free_page_unchecked_witness: "pmm_free_page 0xFEC00000 small_pmm = None"
  by (rule pmm_free_page_unchecked [OF small_pmm_inv, of "[3, 0]"]) (simp_all add: small_pmm_def)

end
