(* ===== verification/Descriptors.thy ===== *)
theory Descriptors
  imports Prelude
begin

text \<open>
  The descriptor tables of the i686 port: \<^verbatim>\<open>gdt.c\<close>, \<^verbatim>\<open>tss.c\<close> and \<^verbatim>\<open>idt.c\<close>.  Tables are lists of the
  packed entries.  The instructions that load a table (\<^verbatim>\<open>lgdt\<close>, \<^verbatim>\<open>lidt\<close>, \<^verbatim>\<open>ltr\<close>) are assembly and
  appear as the register contents they are given.  A handler is any value; the tables store it.
\<close>

section \<open>gdt.c\<close>

record gdtr =
  gdtr_size :: u16
  gdtr_offset :: u32

record gdt_entry =
  g_limit_low :: u16
  g_base_low :: u16
  g_base_mid :: u8
  g_access :: u8
  g_flags_and_limit_high :: u8
  g_base_high :: u8

definition gdt_entry_of :: "u32 \<Rightarrow> u32 \<Rightarrow> u8 \<Rightarrow> u8 \<Rightarrow> gdt_entry" where
  "gdt_entry_of base limit access flags =
     \<lparr>g_limit_low = ucast (limit AND 0xFFFF),
      g_base_low = ucast (base AND 0xFFFF),
      g_base_mid = ucast (drop_bit 16 base AND 0xFF),
      g_access = access,
      g_flags_and_limit_high =
        ucast ((push_bit 4 (ucast flags :: u32) AND 0xF0) OR (drop_bit 16 limit AND 0x0F)),
      g_base_high = ucast (drop_bit 24 base AND 0xFF)\<rparr>"

definition gdt_set_entry :: "u16 \<Rightarrow> u32 \<Rightarrow> u32 \<Rightarrow> u8 \<Rightarrow> u8 \<Rightarrow> gdt_entry list \<Rightarrow> gdt_entry list" where
  "gdt_set_entry index base limit access flags gdt =
     (if index \<ge> 8 then gdt else gdt[unat index := gdt_entry_of base limit access flags])"

text \<open>\<open>gdt_addr\<close> is the address of the table; the pair is the \<^verbatim>\<open>gdtr\<close> handed to \<^verbatim>\<open>gdt_flush\<close> and the table.\<close>

definition gdt_init :: "u32 \<Rightarrow> gdt_entry list \<Rightarrow> gdtr \<times> gdt_entry list" where
  "gdt_init gdt_addr gdt =
     (let g0 = fold (\<lambda>i. gdt_set_entry (of_nat i) 0 0 0 0) [0..<8] gdt;
          g1 = gdt_set_entry 1 0 0xFFFFF 0x9A 0xC g0;
          g2 = gdt_set_entry 2 0 0xFFFFF 0x92 0xC g1;
          g3 = gdt_set_entry 3 0 0xFFFFF 0xFA 0xC g2;
          g4 = gdt_set_entry 4 0 0xFFFFF 0xF2 0xC g3
      in (\<lparr>gdtr_size = 8 * 8 - 1, gdtr_offset = gdt_addr\<rparr>, g4))"

text \<open>How the processor reads an entry.\<close>

definition seg_base :: "gdt_entry \<Rightarrow> u32" where
  "seg_base e = ucast (g_base_low e) OR push_bit 16 (ucast (g_base_mid e)) OR push_bit 24 (ucast (g_base_high e))"

definition seg_limit :: "gdt_entry \<Rightarrow> u32" where
  "seg_limit e = ucast (g_limit_low e) OR push_bit 16 (ucast (g_flags_and_limit_high e) AND 0xF)"

definition seg_flags :: "gdt_entry \<Rightarrow> u8" where
  "seg_flags e = drop_bit 4 (g_flags_and_limit_high e)"

definition seg_dpl :: "gdt_entry \<Rightarrow> u8" where
  "seg_dpl e = drop_bit 5 (g_access e) AND 3"

lemma mask_FFFF: "(0xFFFF :: 'a::len word) = mask 16" by (simp add: mask_eq_exp_minus_1)
lemma mask_FF: "(0xFF :: 'a::len word) = mask 8" by (simp add: mask_eq_exp_minus_1)
lemma mask_F: "(0xF :: 'a::len word) = mask 4" by (simp add: mask_eq_exp_minus_1)
lemma mask_F0: "(0xF0 :: 'a::len word) = push_bit 4 (mask 4)" by (simp add: mask_eq_exp_minus_1)
lemma mask_FFFFF: "(0xFFFFF :: 'a::len word) = mask 20" by (simp add: mask_eq_exp_minus_1)
lemma mask_3: "(3 :: 'a::len word) = mask 2" by (simp add: mask_eq_exp_minus_1)

lemmas bit_masks = mask_FFFFF mask_FFFF mask_FF mask_F0 mask_F mask_3

lemma seg_base_of: "seg_base (gdt_entry_of base limit access flags) = base"
proof (rule bit_word_eqI)
  fix n :: nat assume "n < LENGTH(32)"
  then consider "n < 16" | "16 \<le> n" "n < 24" | "24 \<le> n" "n < 32" by fastforce
  then show "bit (seg_base (gdt_entry_of base limit access flags)) n = bit base n"
    by cases (auto simp: seg_base_def gdt_entry_of_def bit_masks bit_simps)
qed

lemma seg_limit_of: "seg_limit (gdt_entry_of base limit access flags) = limit AND 0xFFFFF"
proof (rule bit_word_eqI)
  fix n :: nat assume "n < LENGTH(32)"
  then consider "n < 16" | "16 \<le> n" "n < 20" | "20 \<le> n" "n < 32" by fastforce
  then show "bit (seg_limit (gdt_entry_of base limit access flags)) n = bit (limit AND 0xFFFFF) n"
    by cases (auto simp: seg_limit_def gdt_entry_of_def bit_masks bit_simps)
qed

lemma seg_flags_of: "seg_flags (gdt_entry_of base limit access flags) = flags AND 0xF"
  by (rule bit_word_eqI) (auto simp: seg_flags_def gdt_entry_of_def bit_masks bit_simps)

lemma seg_access_of: "g_access (gdt_entry_of base limit access flags) = access"
  by (simp add: gdt_entry_of_def)

lemma gdt_set_entry_length [simp]: "length (gdt_set_entry i b l a f gdt) = length gdt"
  by (simp add: gdt_set_entry_def)

section \<open>tss.c\<close>

record tss_entry =
  tss_prev :: u32
  tss_esp0 :: u32
  tss_ss0 :: u32
  tss_esp1 :: u32
  tss_ss1 :: u32
  tss_esp2 :: u32
  tss_ss2 :: u32
  tss_cr3 :: u32
  tss_eip :: u32
  tss_eflags :: u32
  tss_eax :: u32
  tss_ecx :: u32
  tss_edx :: u32
  tss_ebx :: u32
  tss_esp :: u32
  tss_ebp :: u32
  tss_esi :: u32
  tss_edi :: u32
  tss_es :: u32
  tss_cs :: u32
  tss_ss :: u32
  tss_ds :: u32
  tss_fs :: u32
  tss_gs :: u32
  tss_ldt :: u32
  tss_trap :: u16
  tss_iomap_base :: u16

definition tss_zero :: tss_entry where
  "tss_zero = \<lparr>tss_prev = 0, tss_esp0 = 0, tss_ss0 = 0, tss_esp1 = 0, tss_ss1 = 0, tss_esp2 = 0,
     tss_ss2 = 0, tss_cr3 = 0, tss_eip = 0, tss_eflags = 0, tss_eax = 0, tss_ecx = 0, tss_edx = 0,
     tss_ebx = 0, tss_esp = 0, tss_ebp = 0, tss_esi = 0, tss_edi = 0, tss_es = 0, tss_cs = 0,
     tss_ss = 0, tss_ds = 0, tss_fs = 0, tss_gs = 0, tss_ldt = 0, tss_trap = 0, tss_iomap_base = 0\<rparr>"

text \<open>The new TSS, the new GDT and the selector handed to \<^verbatim>\<open>tss_flush\<close>; \<^verbatim>\<open>sizeof(tss)\<close> is 104.\<close>

definition tss_init :: "u32 \<Rightarrow> gdt_entry list \<Rightarrow> tss_entry \<times> gdt_entry list \<times> u32" where
  "tss_init tss_addr gdt =
     (tss_zero\<lparr>tss_ss0 := 0x10, tss_iomap_base := 104\<rparr>,
      gdt_set_entry 5 tss_addr (104 - 1) 0x89 0 gdt, 0x28)"

definition tss_set_sp0 :: "u32 \<Rightarrow> u32 \<Rightarrow> tss_entry \<Rightarrow> tss_entry" where
  "tss_set_sp0 sp0 ss0 tss = tss\<lparr>tss_esp0 := sp0, tss_ss0 := ss0\<rparr>"

section \<open>idt.c\<close>

record idtr =
  idtr_size :: u16
  idtr_offset :: u32

record idt_entry =
  i_offset_low :: u16
  i_selector :: u16
  i_reserved :: u8
  i_attributes :: u8
  i_offset_high :: u16

record interrupt_context =
  c_gs :: u32
  c_fs :: u32
  c_es :: u32
  c_ds :: u32
  c_esi :: u32
  c_edi :: u32
  c_ebp :: u32
  c_edx :: u32
  c_ecx :: u32
  c_ebx :: u32
  c_eax :: u32
  c_int_num :: u32
  c_error_code :: u32
  c_eip :: u32
  c_cs :: u32
  c_eflags :: u32
  c_esp :: u32
  c_ss :: u32

record 'h idt_state =
  idt :: "idt_entry list"
  handlers :: "'h option list"
  eflags :: u32

definition idt_set_entry :: "u16 \<Rightarrow> u32 \<Rightarrow> u16 \<Rightarrow> u8 \<Rightarrow> 'h idt_state \<Rightarrow> 'h idt_state" where
  "idt_set_entry index offset selector attr s =
     (if index \<ge> 256 then s
      else s\<lparr>idt := (idt s)[unat index :=
        \<lparr>i_offset_low = ucast (offset AND 0xFFFF), i_selector = selector, i_reserved = 0,
         i_attributes = attr, i_offset_high = ucast (drop_bit 16 offset AND 0xFFFF)\<rparr>]\<rparr>)"

text \<open>The handler \<^verbatim>\<open>interrupt_handler\<close> calls for a context, if any.\<close>

definition interrupt_handler :: "interrupt_context \<Rightarrow> 'h idt_state \<Rightarrow> 'h option" where
  "interrupt_handler ctx s =
     (if c_int_num ctx \<ge> 256 then None else handlers s ! unat (c_int_num ctx))"

definition idt_set_handler :: "u16 \<Rightarrow> 'h option \<Rightarrow> 'h idt_state \<Rightarrow> 'h idt_state" where
  "idt_set_handler index handler s =
     (if index \<ge> 256 then s else s\<lparr>handlers := (handlers s)[unat index := handler]\<rparr>)"

text \<open>Bit 9 of \<^verbatim>\<open>EFLAGS\<close> is the interrupt flag that \<^verbatim>\<open>cli\<close> clears.\<close>

definition idt_set_dpl :: "u16 \<Rightarrow> u8 \<Rightarrow> 'h idt_state \<Rightarrow> 'h idt_state" where
  "idt_set_dpl index dpl s =
     (if index \<ge> 256 then s
      else
        let flags = eflags s;
            s1 = s\<lparr>eflags := eflags s AND NOT 0x200\<rparr>;
            dpl' = dpl AND 3;
            attributes = i_attributes (idt s1 ! unat index) AND NOT 0x60;
            s2 = s1\<lparr>idt := (idt s1)[unat index :=
                   (idt s1 ! unat index)\<lparr>i_attributes := attributes OR push_bit 5 dpl'\<rparr>]\<rparr>
        in s2\<lparr>eflags := flags\<rparr>)"

definition idt_init :: "u32 \<Rightarrow> u32 list \<Rightarrow> 'h idt_state \<Rightarrow> idtr \<times> 'h idt_state" where
  "idt_init idt_addr isr_table s =
     (let s1 = fold (\<lambda>i. idt_set_entry (of_nat i) (isr_table ! i) 0x08 0x8E) [0..<256] s;
          s2 = idt_set_entry 3 (isr_table ! 3) 0x08 0x8F s1;
          s3 = idt_set_entry 4 (isr_table ! 4) 0x08 0x8F s2
      in (\<lparr>idtr_size = 256 * 8 - 1, idtr_offset = idt_addr\<rparr>, s3))"

text \<open>How the processor reads a gate.\<close>

definition gate_offset :: "idt_entry \<Rightarrow> u32" where
  "gate_offset e = ucast (i_offset_low e) OR push_bit 16 (ucast (i_offset_high e))"

definition gate_dpl :: "idt_entry \<Rightarrow> u8" where
  "gate_dpl e = drop_bit 5 (i_attributes e) AND 3"

text \<open>Gate type and present bit: everything but the DPL.\<close>

definition gate_kind :: "idt_entry \<Rightarrow> u8" where
  "gate_kind e = i_attributes e AND NOT 0x60"

definition idt_ok :: "'h idt_state \<Rightarrow> bool" where
  "idt_ok s \<longleftrightarrow> length (idt s) = 256 \<and> length (handlers s) = 256"

definition make_gate :: "u32 \<Rightarrow> u8 \<Rightarrow> idt_entry" where
  "make_gate offset attr =
     \<lparr>i_offset_low = ucast (offset AND 0xFFFF), i_selector = 8, i_reserved = 0,
      i_attributes = attr, i_offset_high = ucast (drop_bit 16 offset AND 0xFFFF)\<rparr>"

lemma gate_offset_make: "gate_offset (make_gate offset attr) = offset"
proof (rule bit_word_eqI)
  fix n :: nat assume "n < LENGTH(32)"
  then consider "n < 16" | "16 \<le> n" "n < 32" by fastforce
  then show "bit (gate_offset (make_gate offset attr)) n = bit offset n"
    by cases (auto simp: gate_offset_def make_gate_def bit_masks bit_simps)
qed

lemma small_index: "i < 256 \<Longrightarrow> (of_nat i :: u16) < 256 \<and> unat (of_nat i :: u16) = i"
  by (simp add: unat_of_nat_small word_less_nat_alt)

lemma idt_set_entry_frame [simp]:
  "handlers (idt_set_entry i off sel attr s) = handlers s"
  "eflags (idt_set_entry i off sel attr s) = eflags s"
  "length (idt (idt_set_entry i off sel attr s)) = length (idt s)"
  by (simp_all add: idt_set_entry_def)

lemma idt_set_entry_at:
  "i < 256 \<Longrightarrow> idt (idt_set_entry (of_nat i) off 8 attr s) = (idt s)[i := make_gate off attr]"
  using small_index [of i] by (auto simp: idt_set_entry_def make_gate_def not_le)

lemma idt_fold:
  assumes "k \<le> 256" and "length (idt s) = 256"
  shows "idt (fold (\<lambda>i. idt_set_entry (of_nat i) (tbl ! i) 8 attr) [0..<k] s) =
      map (\<lambda>i. make_gate (tbl ! i) attr) [0..<k] @ drop k (idt s)
    \<and> handlers (fold (\<lambda>i. idt_set_entry (of_nat i) (tbl ! i) 8 attr) [0..<k] s) = handlers s
    \<and> eflags (fold (\<lambda>i. idt_set_entry (of_nat i) (tbl ! i) 8 attr) [0..<k] s) = eflags s"
  using assms(1)
proof (induction k)
  case (Suc k)
  then have k: "k < 256" "k < length (idt s)" using assms(2) by auto
  then have "(map (\<lambda>i. make_gate (tbl ! i) attr) [0..<k] @ drop k (idt s))[k := make_gate (tbl ! k) attr]
      = map (\<lambda>i. make_gate (tbl ! i) attr) [0..<Suc k] @ drop (Suc k) (idt s)"
    by (simp add: list_update_append Cons_nth_drop_Suc [symmetric])
  with Suc k show ?case by (simp add: idt_set_entry_at)
qed simp

lemma gdt_set_entry_at:
  "i < 8 \<Longrightarrow> gdt_set_entry (of_nat i) b l a f gdt = gdt[i := gdt_entry_of b l a f]"
proof -
  assume "i < 8"
  then have "(of_nat i :: u16) < 8 \<and> unat (of_nat i :: u16) = i"
    by (simp add: unat_of_nat_small word_less_nat_alt)
  then show ?thesis by (auto simp: gdt_set_entry_def not_le)
qed

lemma gdt_fold:
  assumes "k \<le> 8" and "length gdt = 8"
  shows "fold (\<lambda>i. gdt_set_entry (of_nat i) b l a f) [0..<k] gdt =
    replicate k (gdt_entry_of b l a f) @ drop k gdt"
  using assms(1)
proof (induction k)
  case (Suc k)
  then have k: "k < 8" "k < length gdt" using assms(2) by auto
  then have "(replicate k e @ drop k gdt)[k := e] = replicate (Suc k) e @ drop (Suc k) gdt" for e
    by (simp add: list_update_append Cons_nth_drop_Suc [symmetric] replicate_append_same)
  with Suc k show ?case by (simp add: gdt_set_entry_at)
qed simp

section \<open>Properties\<close>

text \<open>A descriptor written by \<open>gdt_set_entry\<close> reads back, as the processor splits its fields, as the
  base, the low 20 bits of the limit, the access byte and the low four flag bits it was given, and
  no other descriptor changes.\<close>

theorem gdt_descriptor_reads_back:
  assumes "length gdt = 8" and "i < 8"
  shows "let g = gdt_set_entry (of_nat i) base limit access flags gdt in
    seg_base (g ! i) = base \<and> seg_limit (g ! i) = limit AND 0xFFFFF \<and> g_access (g ! i) = access \<and>
    seg_flags (g ! i) = flags AND 0xF \<and> length g = 8 \<and> (\<forall>j < 8. j \<noteq> i \<longrightarrow> g ! j = gdt ! j)"
  using assms
  by (simp add: gdt_set_entry_at seg_base_of seg_limit_of seg_flags_of seg_access_of Let_def)

theorem gdt_descriptor_reads_back_witness:
  "seg_base (gdt_set_entry 5 0xC0108000 103 0x89 0 (replicate 8 (gdt_entry_of 0 0 0 0)) ! 5) = 0xC0108000"
  using gdt_descriptor_reads_back [of "replicate 8 (gdt_entry_of 0 0 0 0)" 5 "0xC0108000" 103 "0x89" 0]
  by (simp add: Let_def)

text \<open>After \<open>gdt_init\<close> and \<open>tss_init\<close> the four code and data segments are flat over 4 GB, the user
  ones (and only they) at privilege level 3, and descriptor 5 spans exactly the TSS.\<close>

theorem boot_segments:
  assumes "length gdt = 8"
  shows "let g = fst (snd (tss_init tss_addr (snd (gdt_init gdt_addr gdt)))) in
    (\<forall>i \<in> {1, 2, 3, 4}. seg_base (g ! i) = 0 \<and> seg_limit (g ! i) = 0xFFFFF \<and> seg_flags (g ! i) = 0xC \<and>
       seg_dpl (g ! i) = (if i \<in> {3, 4} then 3 else 0)) \<and>
    seg_base (g ! 5) = tss_addr \<and> seg_limit (g ! 5) = 103 \<and> g_access (g ! 5) = 0x89 \<and>
    (\<forall>i \<in> {0, 6, 7}. g ! i = gdt_entry_of 0 0 0 0)"
proof -
  let ?z = "gdt_entry_of 0 0 0 0"
  have "fold (\<lambda>i. gdt_set_entry (of_nat i) 0 0 0 0) [0..<8] gdt = replicate 8 ?z"
    using gdt_fold [of 8 gdt] assms by simp
  moreover have "\<not> (8 :: u16) \<le> 1" by (simp add: word_le_nat_alt)
  ultimately have g: "fst (snd (tss_init tss_addr (snd (gdt_init gdt_addr gdt)))) =
      (replicate 8 ?z)[1 := gdt_entry_of 0 0xFFFFF 0x9A 0xC, 2 := gdt_entry_of 0 0xFFFFF 0x92 0xC,
        3 := gdt_entry_of 0 0xFFFFF 0xFA 0xC, 4 := gdt_entry_of 0 0xFFFFF 0xF2 0xC,
        5 := gdt_entry_of tss_addr 103 0x89 0]"
    by (simp add: gdt_init_def tss_init_def gdt_set_entry_def Let_def)
  show ?thesis
    unfolding g Let_def
    by (simp add: nth_list_update seg_base_of seg_limit_of seg_flags_of seg_access_of seg_dpl_def)
qed

theorem boot_segments_witness:
  "seg_dpl (fst (snd (tss_init 0xC0108000 (snd (gdt_init 0xC0107000 (replicate 8 (gdt_entry_of 1 1 1 1)))))) ! 3) = 3"
  using boot_segments [of "replicate 8 (gdt_entry_of 1 1 1 1)" "0xC0108000" "0xC0107000"]
  by (simp add: Let_def)

text \<open>After \<open>idt_init\<close> every vector goes to its stub through the kernel code selector at privilege 0:
  trap gates for breakpoint and overflow, interrupt gates for the rest; no handler changes.\<close>

theorem idt_init_gates:
  assumes "idt_ok s" and "length isr_table = 256" and "n < 256"
  shows "let s' = snd (idt_init idt_addr isr_table s) in
    gate_offset (idt s' ! n) = isr_table ! n \<and> i_selector (idt s' ! n) = 8 \<and> gate_dpl (idt s' ! n) = 0 \<and>
    gate_kind (idt s' ! n) = (if n = 3 \<or> n = 4 then 0x8F else 0x8E) \<and> handlers s' = handlers s \<and>
    idt_ok s' \<and> eflags s' = eflags s"
proof -
  define s1 where "s1 = fold (\<lambda>i. idt_set_entry (of_nat i) (isr_table ! i) 8 0x8E) [0..<256] s"
  have s1: "idt s1 = map (\<lambda>i. make_gate (isr_table ! i) 0x8E) [0..<256]" "handlers s1 = handlers s"
    "eflags s1 = eflags s"
    using idt_fold [of 256 s isr_table "0x8E"] assms(1) by (simp_all add: s1_def idt_ok_def)
  define s' where "s' = snd (idt_init idt_addr isr_table s)"
  have s': "s' = idt_set_entry (of_nat 4) (isr_table ! 4) 8 0x8F
      (idt_set_entry (of_nat 3) (isr_table ! 3) 8 0x8F s1)"
    unfolding s'_def idt_init_def Let_def s1_def by simp
  then have "idt s' = (idt s1)[3 := make_gate (isr_table ! 3) 0x8F, 4 := make_gate (isr_table ! 4) 0x8F]"
    by (simp only: idt_set_entry_at)
  then have at: "idt s' ! n = make_gate (isr_table ! n) (if n = 3 \<or> n = 4 then 0x8F else 0x8E)"
    "length (idt s') = 256"
    using assms(3) by (auto simp: s1(1) nth_list_update)
  have "handlers s' = handlers s \<and> eflags s' = eflags s" unfolding s' by (simp add: s1)
  with at assms(1) show ?thesis
    unfolding s'_def [symmetric] Let_def
    by (simp add: gate_offset_make idt_ok_def) (simp add: make_gate_def gate_dpl_def gate_kind_def)
qed

definition boot_idt :: "nat idt_state" where
  "boot_idt = \<lparr>idt = replicate 256 (make_gate 0 0), handlers = replicate 256 None, eflags = 2\<rparr>"

lemma boot_idt_ok: "idt_ok boot_idt"
  by (simp add: idt_ok_def boot_idt_def)

theorem idt_init_gates_witness:
  "gate_offset (idt (snd (idt_init 0xC0109000 (map (\<lambda>i. 0xC0100000 + of_nat i * 16) [0..<256]) boot_idt)) ! 14)
     = 0xC01000E0"
  using idt_init_gates [OF boot_idt_ok, of "map (\<lambda>i. 0xC0100000 + of_nat i * 16) [0..<256]" 14]
  by (simp add: Let_def)

text \<open>\<open>idt_set_dpl\<close> changes the privilege level of one gate and nothing else: not its stub, its
  type or its selector, no other gate, no handler, and the interrupt flag is as before.\<close>

theorem idt_set_dpl_only:
  assumes "idt_ok s" and "n < 256"
  shows "let s' = idt_set_dpl (of_nat n) dpl s in
    gate_dpl (idt s' ! n) = dpl AND 3 \<and> gate_kind (idt s' ! n) = gate_kind (idt s ! n) \<and>
    gate_offset (idt s' ! n) = gate_offset (idt s ! n) \<and> i_selector (idt s' ! n) = i_selector (idt s ! n) \<and>
    (\<forall>j < 256. j \<noteq> n \<longrightarrow> idt s' ! j = idt s ! j) \<and> handlers s' = handlers s \<and> eflags s' = eflags s"
proof -
  let ?a = "i_attributes (idt s ! n)"
  have dpl: "drop_bit 5 ((?a AND NOT 0x60) OR push_bit 5 (dpl AND 3)) AND 3 = dpl AND 3"
  proof (rule bit_word_eqI)
    fix k :: nat assume "k < LENGTH(8)"
    have m: "(0x60 :: u8) = push_bit 5 (mask 2)" by (simp add: mask_eq_exp_minus_1)
    show "bit (drop_bit 5 ((?a AND NOT 0x60) OR push_bit 5 (dpl AND 3)) AND 3) k = bit (dpl AND 3) k"
      unfolding m mask_3 by (auto simp: bit_simps)
  qed
  have kind: "((?a AND NOT 0x60) OR push_bit 5 (dpl AND 3)) AND NOT 0x60 = ?a AND NOT 0x60"
  proof (rule bit_word_eqI)
    fix k :: nat assume "k < LENGTH(8)"
    have m: "(0x60 :: u8) = push_bit 5 (mask 2)" by (simp add: mask_eq_exp_minus_1)
    show "bit (((?a AND NOT 0x60) OR push_bit 5 (dpl AND 3)) AND NOT 0x60) k = bit (?a AND NOT 0x60) k"
      unfolding m mask_3 by (auto simp: bit_simps)
  qed
  have n: "\<not> (256 :: u16) \<le> of_nat n" "unat (of_nat n :: u16) = n"
    using small_index [OF assms(2)] by auto
  show ?thesis
    using assms n dpl kind
    by (simp add: idt_set_dpl_def Let_def idt_ok_def gate_dpl_def gate_kind_def gate_offset_def)
qed

theorem idt_set_dpl_only_witness:
  "gate_dpl (idt (idt_set_dpl (of_nat 0x80) 3 boot_idt) ! 0x80) = 3"
  using idt_set_dpl_only [OF boot_idt_ok, of "0x80" 3] by (simp add: Let_def)

end
