(* ===== verification/Ports.thy ===== *)
theory Ports
  imports Prelude
begin

text \<open>
  The port-driven devices: \<^verbatim>\<open>pic.c\<close>, \<^verbatim>\<open>pit.c\<close> and \<^verbatim>\<open>serial.c\<close>.  A driver is modelled by the sequence of
  port accesses it makes; the hardware is the parameter \<open>dev\<close>, which answers a read from the
  accesses made so far.  \<^verbatim>\<open>outb\<close>, \<^verbatim>\<open>inb\<close> and \<^verbatim>\<open>io_wait\<close> are assembly, one event each.
\<close>

section \<open>Port accesses\<close>

datatype io_event = Out u16 u8 | In u16 | Wait

type_synonym io_trace = "io_event list"
type_synonym device = "io_trace \<Rightarrow> u16 \<Rightarrow> u8"

definition outb :: "u16 \<Rightarrow> u8 \<Rightarrow> io_trace \<Rightarrow> io_trace" where
  "outb port v tr = tr @ [Out port v]"

definition inb :: "device \<Rightarrow> u16 \<Rightarrow> io_trace \<Rightarrow> u8 \<times> io_trace" where
  "inb dev port tr = (dev tr port, tr @ [In port])"

definition io_wait :: "io_trace \<Rightarrow> io_trace" where
  "io_wait tr = tr @ [Wait]"

text \<open>The bytes written to a port.\<close>

fun writes_to :: "u16 \<Rightarrow> io_trace \<Rightarrow> u8 list" where
  "writes_to p [] = []"
| "writes_to p (Out q v # tr) = (if q = p then v # writes_to p tr else writes_to p tr)"
| "writes_to p (In q # tr) = writes_to p tr"
| "writes_to p (Wait # tr) = writes_to p tr"

lemma writes_to_append [simp]: "writes_to p (xs @ ys) = writes_to p xs @ writes_to p ys"
  by (induction p xs rule: writes_to.induct) auto

section \<open>pic.c\<close>

definition pic_remap :: "io_trace \<Rightarrow> io_trace" where
  "pic_remap tr =
     (let tr = io_wait (outb 0x20 0x11 tr);
          tr = io_wait (outb 0xA0 0x11 tr);
          tr = io_wait (outb 0x21 0x20 tr);
          tr = io_wait (outb 0xA1 (0x20 + 8) tr);
          tr = io_wait (outb 0x21 4 tr);
          tr = io_wait (outb 0xA1 2 tr);
          tr = io_wait (outb 0x21 1 tr);
          tr = io_wait (outb 0xA1 1 tr)
      in outb 0xA1 0xFF (outb 0x21 0xFF tr))"

definition pic_send_eoi :: "u8 \<Rightarrow> io_trace \<Rightarrow> io_trace" where
  "pic_send_eoi irq tr = outb 0x20 0x20 (if irq \<ge> 8 then outb 0xA0 0x20 tr else tr)"

text \<open>
  \<^verbatim>\<open>1 << n\<close> is computed on \<^verbatim>\<open>int\<close> and cut to the byte that goes out; a shift of 32 or more is
  undefined.
\<close>

definition irq_bit :: "nat \<Rightarrow> u8 option" where
  "irq_bit n = (if n < 32 then Some (ucast (push_bit n 1 :: u32)) else None)"

definition pic_irq_set_mask :: "device \<Rightarrow> u8 \<Rightarrow> io_trace \<Rightarrow> io_trace option" where
  "pic_irq_set_mask dev irq tr =
     (if irq < 8 then do {
        b \<leftarrow> irq_bit (unat irq);
        let (m, tr) = inb dev 0x21 tr;
        Some (outb 0x21 (m OR b) tr) }
      else do {
        b \<leftarrow> irq_bit (unat irq - 8);
        let (m, tr) = inb dev 0xA1 tr;
        Some (outb 0xA1 (m OR b) tr) })"

definition pic_irq_clear_mask :: "device \<Rightarrow> u8 \<Rightarrow> io_trace \<Rightarrow> io_trace option" where
  "pic_irq_clear_mask dev irq tr =
     (if irq < 8 then do {
        b \<leftarrow> irq_bit (unat irq);
        let (m, tr) = inb dev 0x21 tr;
        Some (outb 0x21 (m AND NOT b) tr) }
      else do {
        b \<leftarrow> irq_bit (unat irq - 8);
        let (m, tr) = inb dev 0xA1 tr;
        Some (outb 0xA1 (m AND NOT b) tr) })"

section \<open>pit.c\<close>

definition pit_set_frequency :: "device \<Rightarrow> u16 \<Rightarrow> u16 \<Rightarrow> u8 \<Rightarrow> io_trace \<Rightarrow> io_trace option" where
  "pit_set_frequency dev channel frequency mode tr =
     (if channel > 2 \<or> frequency = 0 then Some tr
      else
        let divisor = (1193182 :: u32) div ucast frequency
        in if divisor = 0 \<or> divisor > 0xFFFF then Some tr
           else do {
             tr \<leftarrow> (if channel = 0 then pic_irq_set_mask dev 0 tr else Some tr);
             let command = (ucast (push_bit 6 (ucast channel :: u32) OR 0x30 OR (ucast mode AND 0xE)) :: u8);
             let port = channel + 0x40;
             let tr = outb 0x43 command tr;
             let tr = outb port (ucast (divisor AND 0xFF)) tr;
             let tr = outb port (ucast (drop_bit 8 divisor AND 0xFF)) tr;
             if channel = 0 then pic_irq_clear_mask dev 0 tr else Some tr })"

section \<open>serial.c\<close>

definition serial_init :: "device \<Rightarrow> u16 \<Rightarrow> int \<Rightarrow> io_trace \<Rightarrow> int \<times> io_trace" where
  "serial_init dev port baudrate tr =
     (if baudrate \<le> 0 then (1, tr)
      else if port \<noteq> 0x3F8 \<and> port \<noteq> 0x2F8 \<and> port \<noteq> 0x3E8 \<and> port \<noteq> 0x2E8 then (1, tr)
      else
        let tr = outb (port + 3) 0x80 tr;
            divisor = (word_of_int (115200 div baudrate) :: u16);
            tr = outb (port + 0) (ucast (divisor AND 0xFF)) tr;
            tr = outb (port + 1) (ucast (drop_bit 8 divisor AND 0xFF)) tr;
            tr = outb (port + 3) 0x03 tr;
            tr = outb (port + 2) 0xC7 tr;
            tr = outb (port + 4) 0x0B tr;
            tr = outb (port + 4) 0x1E tr;
            tr = outb (port + 0) 0xAE tr;
            (echo, tr) = inb dev (port + 0) tr
        in if echo \<noteq> 0xAE then (1, tr)
           else (0, outb (port + 4) 0x0F (outb (port + 4) 0x0F tr)))"

definition is_transmit_fifo_empty :: "device \<Rightarrow> u16 \<Rightarrow> io_trace \<Rightarrow> u8 \<times> io_trace" where
  "is_transmit_fifo_empty dev port tr = (let (v, tr) = inb dev (port + 5) tr in (v AND 0x20, tr))"

text \<open>The polling loop: \<^term>\<open>None\<close> when the device never reports an empty queue.\<close>

partial_function (option) wait_transmit :: "device \<Rightarrow> u16 \<Rightarrow> io_trace \<Rightarrow> io_trace option" where
  "wait_transmit dev port tr =
     (if fst (is_transmit_fifo_empty dev port tr) = 0
      then wait_transmit dev port (snd (is_transmit_fifo_empty dev port tr))
      else Some (snd (is_transmit_fifo_empty dev port tr)))"

definition write_serial :: "device \<Rightarrow> u16 \<Rightarrow> u8 \<Rightarrow> io_trace \<Rightarrow> io_trace option" where
  "write_serial dev port a tr = do { tr \<leftarrow> wait_transmit dev port tr; Some (outb port a tr) }"

section \<open>What the drivers program\<close>

lemma port_writes [simp]:
  "writes_to p (outb q v tr) = writes_to p tr @ (if q = p then [v] else [])"
  "writes_to p (snd (inb dev q tr)) = writes_to p tr"
  "writes_to p (io_wait tr) = writes_to p tr"
  by (simp_all add: outb_def inb_def io_wait_def)

lemma irq_bit_bit: "k < 8 \<Longrightarrow> \<exists>b. irq_bit k = Some b \<and> (\<forall>n. bit b n \<longleftrightarrow> n = k)"
  by (auto simp: irq_bit_def bit_simps bit_1_iff)

text \<open>The port of the mask register that holds an IRQ.\<close>

definition mask_port :: "u8 \<Rightarrow> u16" where
  "mask_port irq = (if irq < 8 then 0x21 else 0xA1)"

lemma pic_irq_set_mask_bits:
  assumes "irq < 16"
  shows "\<exists>b. pic_irq_set_mask dev irq tr = Some (outb (mask_port irq) (dev tr (mask_port irq) OR b)
      (tr @ [In (mask_port irq)])) \<and> (\<forall>n. bit b n \<longleftrightarrow> n = unat irq mod 8)"
proof (cases "irq < 8")
  case True
  then have k: "unat irq < 8" by (simp add: word_less_nat_alt)
  with irq_bit_bit [OF k] True show ?thesis
    by (auto simp: pic_irq_set_mask_def mask_port_def inb_def)
next
  case False
  then have k: "8 \<le> unat irq" "unat irq < 16" using assms by (auto simp: word_less_nat_alt)
  then have m: "unat irq - 8 < 8" "unat irq mod 8 = unat irq - 8"
    by (auto simp: le_mod_geq)
  with irq_bit_bit [OF m(1)] False show ?thesis
    by (auto simp: pic_irq_set_mask_def mask_port_def inb_def)
qed

lemma pic_irq_clear_mask_bits:
  assumes "irq < 16"
  shows "\<exists>b. pic_irq_clear_mask dev irq tr = Some (outb (mask_port irq) (dev tr (mask_port irq) AND NOT b)
      (tr @ [In (mask_port irq)])) \<and> (\<forall>n. bit b n \<longleftrightarrow> n = unat irq mod 8)"
proof (cases "irq < 8")
  case True
  then have k: "unat irq < 8" by (simp add: word_less_nat_alt)
  with irq_bit_bit [OF k] True show ?thesis
    by (auto simp: pic_irq_clear_mask_def mask_port_def inb_def)
next
  case False
  then have k: "8 \<le> unat irq" "unat irq < 16" using assms by (auto simp: word_less_nat_alt)
  then have m: "unat irq - 8 < 8" "unat irq mod 8 = unat irq - 8"
    by (auto simp: le_mod_geq)
  with irq_bit_bit [OF m(1)] False show ?thesis
    by (auto simp: pic_irq_clear_mask_def mask_port_def inb_def)
qed

text \<open>The documented behaviour of the 8259: once initialised, its data port reads back the mask that
  was last written.\<close>

definition imr_readback :: "device \<Rightarrow> bool" where
  "imr_readback dev \<longleftrightarrow>
     (\<forall>tr. \<forall>p \<in> {0x21, 0xA1}. writes_to p tr \<noteq> [] \<longrightarrow> dev tr p = last (writes_to p tr))"

definition imr_of :: "u8 \<Rightarrow> io_trace \<Rightarrow> u8" where
  "imr_of irq tr = last (writes_to (mask_port irq) tr)"

lemma imr_readbackD:
  "\<lbrakk> imr_readback dev; writes_to (mask_port irq) tr \<noteq> [] \<rbrakk> \<Longrightarrow> dev tr (mask_port irq) = imr_of irq tr"
  by (auto simp: imr_readback_def imr_of_def mask_port_def split: if_splits)

text \<open>The divisor of the PIT, and its two bytes.\<close>

lemma pit_divisor: "unat ((1193182 :: u32) div ucast (f :: u16)) = 1193182 div unat f"
proof -
  have "unat (ucast f :: u32) = unat f"
    using unat_lt [of f] by (simp add: unat_ucast_small)
  then show ?thesis by (simp add: unat_div_distrib)
qed

lemma pit_divisor_too_big:
  assumes "f \<noteq> 0" and "unat (f :: u16) \<le> 18"
  shows "(1193182 :: u32) div ucast f > 0xFFFF"
proof -
  have "0 < unat f" using assms(1) by (simp add: unat_gt_0)
  then have "1193182 div 18 \<le> 1193182 div unat f"
    using assms(2) by (intro div_le_mono2) auto
  then show ?thesis by (simp add: word_less_nat_alt pit_divisor)
qed

lemma pit_divisor_fits:
  assumes "18 < unat (f :: u16)"
  shows "(1193182 :: u32) div ucast f \<noteq> 0" and "\<not> (1193182 :: u32) div ucast f > 0xFFFF"
    and "(1193182 :: u32) div ucast f < 2 ^ 16"
proof -
  have "1193182 div unat f \<le> 1193182 div 19" using assms by (intro div_le_mono2) auto
  moreover have "1193182 div 65536 \<le> 1193182 div unat f"
    using assms unat_lt [of f] by (intro div_le_mono2) auto
  ultimately have "0 < unat ((1193182 :: u32) div ucast f)" "unat ((1193182 :: u32) div ucast f) \<le> 62799"
    by (auto simp: pit_divisor)
  then show "(1193182 :: u32) div ucast f \<noteq> 0" "\<not> (1193182 :: u32) div ucast f > 0xFFFF"
    "(1193182 :: u32) div ucast f < 2 ^ 16"
    by (auto simp: word_less_nat_alt)
qed

lemma two_bytes:
  assumes "(d :: 'a::len word) < 2 ^ 16" and "16 < LENGTH('a)"
  shows "unat (ucast (d AND 0xFF) :: u8) + 256 * unat (ucast (drop_bit 8 d AND 0xFF) :: u8) = unat d"
proof -
  have d: "unat d < 65536"
    using assms unat_exp [where 'a = 'a, of 16] by (simp add: word_less_nat_alt)
  have ff: "(0xFF :: 'a word) = mask 8" by (simp add: mask_eq_exp_minus_1)
  have "(ucast (d AND 0xFF) :: u8) = ucast d"
    unfolding ff by (rule bit_word_eqI) (auto simp: bit_simps dest: bit_imp_le_length)
  then have lo: "unat (ucast (d AND 0xFF) :: u8) = unat d mod 256"
    by (simp add: unsigned_ucast_eq take_bit_eq_mod)
  have b8: "(ucast (drop_bit 8 d AND 0xFF) :: u8) = ucast (drop_bit 8 d)"
    unfolding ff by (rule bit_word_eqI) (auto simp: bit_simps dest: bit_imp_le_length)
  have hi: "unat (ucast (drop_bit 8 d AND 0xFF) :: u8) = unat d div 256"
  proof -
    have "unat (drop_bit 8 d) = unat d div 256"
      unfolding unsigned_drop_bit_eq by (simp add: drop_bit_eq_div take_bit_eq_mod)
    then show ?thesis using d by (simp only: b8 unsigned_ucast_eq take_bit_eq_mod) simp
  qed
  show ?thesis unfolding lo hi by simp
qed

section \<open>Properties\<close>

text \<open>On a PIC whose data port reads back its mask, \<open>pic_irq_set_mask\<close> sets the bit of the IRQ and
  \<open>pic_irq_clear_mask\<close> clears it, on the right controller, leaving the other seven bits alone.\<close>

theorem pic_masks_one_irq:
  assumes "imr_readback dev" and "writes_to (mask_port irq) tr \<noteq> []" and "irq < 16"
  shows "\<exists>t1 t2. pic_irq_set_mask dev irq tr = Some t1 \<and>
      (\<forall>n < 8. bit (imr_of irq t1) n \<longleftrightarrow> n = unat irq mod 8 \<or> bit (imr_of irq tr) n) \<and>
    pic_irq_clear_mask dev irq t1 = Some t2 \<and>
      (\<forall>n < 8. bit (imr_of irq t2) n \<longleftrightarrow> n \<noteq> unat irq mod 8 \<and> bit (imr_of irq tr) n)"
proof -
  let ?p = "mask_port irq"
  obtain b1 where b1: "pic_irq_set_mask dev irq tr = Some (outb ?p (dev tr ?p OR b1) (tr @ [In ?p]))"
    "\<forall>n. bit b1 n \<longleftrightarrow> n = unat irq mod 8"
    using pic_irq_set_mask_bits [OF assms(3)] by blast
  define t1 where "t1 = outb ?p (dev tr ?p OR b1) (tr @ [In ?p])"
  obtain b2 where b2: "pic_irq_clear_mask dev irq t1 = Some (outb ?p (dev t1 ?p AND NOT b2) (t1 @ [In ?p]))"
    "\<forall>n. bit b2 n \<longleftrightarrow> n = unat irq mod 8"
    using pic_irq_clear_mask_bits [OF assms(3)] by blast
  have i1: "imr_of irq t1 = imr_of irq tr OR b1"
    using imr_readbackD [OF assms(1,2)] by (simp add: t1_def imr_of_def)
  have "writes_to ?p t1 \<noteq> []" by (simp add: t1_def)
  from imr_readbackD [OF assms(1) this] i1
  have "imr_of irq (outb ?p (dev t1 ?p AND NOT b2) (t1 @ [In ?p])) = (imr_of irq tr OR b1) AND NOT b2"
    by (simp add: imr_of_def)
  with b1 b2 i1 show ?thesis
    unfolding t1_def [symmetric] by (auto simp: bit_simps)
qed

definition plain_device :: device where
  "plain_device tr p = (if writes_to p tr = [] then 0 else last (writes_to p tr))"

lemma plain_device_readback: "imr_readback plain_device"
  by (simp add: imr_readback_def plain_device_def)

theorem pic_masks_one_irq_witness:
  "\<exists>t1. pic_irq_set_mask plain_device 12 (pic_remap []) = Some t1 \<and> bit (imr_of 12 t1) 4"
proof -
  have "writes_to (mask_port 12) (pic_remap []) \<noteq> []"
    by (simp add: pic_remap_def mask_port_def Let_def)
  moreover have "(12 :: u8) < 16" by (simp add: word_less_nat_alt)
  moreover have "unat (12 :: u8) mod 8 = 4" by simp
  ultimately show ?thesis
    using pic_masks_one_irq [OF plain_device_readback, of 12 "pic_remap []"] by auto
qed

text \<open>\<open>pit_set_frequency\<close> programs a channel with the exact divisor of the base frequency, low byte
  first, and leaves IRQ 0 enabled; for frequencies of 18 Hz and less it programs nothing.\<close>

theorem pit_programs_divisor:
  assumes "channel \<le> 2"
  shows "\<exists>tr'. pit_set_frequency dev channel frequency mode tr = Some tr' \<and>
    (if unat frequency \<le> 18 then tr' = tr
     else \<exists>cmd lo hi. writes_to 0x43 tr' = writes_to 0x43 tr @ [cmd] \<and>
            writes_to (channel + 0x40) tr' = writes_to (channel + 0x40) tr @ [lo, hi] \<and>
            unat lo + 256 * unat hi = 1193182 div unat frequency \<and>
            (channel = 0 \<longrightarrow> \<not> bit (imr_of 0 tr') 0))"
proof (cases "unat frequency \<le> 18")
  case True
  then have "pit_set_frequency dev channel frequency mode tr = Some tr"
    using pit_divisor_too_big [of frequency] by (auto simp: pit_set_frequency_def Let_def)
  then show ?thesis using True by simp
next
  case False
  then have "18 < unat frequency" by simp
  note fits = pit_divisor_fits [OF this]
  have nz: "frequency \<noteq> 0" using False by auto
  have "unat channel = 0 \<or> unat channel = 1 \<or> unat channel = 2"
    using assms by (auto simp: word_le_nat_alt)
  then have "channel = 0 \<or> channel = 1 \<or> channel = 2" by (simp add: word_unat_eq_iff)
  then have ch: "\<not> channel > 2" "channel + 0x40 \<noteq> 0x43" "channel + 0x40 \<noteq> 0x21" by auto
  let ?d = "(1193182 :: u32) div ucast frequency"
  define cmd where "cmd = (ucast (push_bit 6 (ucast channel :: u32) OR 0x30 OR (ucast mode AND 0xE)) :: u8)"
  define lob where "lob = (ucast (?d AND 0xFF) :: u8)"
  define hib where "hib = (ucast (drop_bit 8 ?d AND 0xFF) :: u8)"
  define prog where "prog t = outb (channel + 0x40) hib (outb (channel + 0x40) lob (outb 0x43 cmd t))" for t
  have prog: "writes_to 0x43 (prog t) = writes_to 0x43 t @ [cmd]"
    "writes_to (channel + 0x40) (prog t) = writes_to (channel + 0x40) t @ [lob, hib]"
    "writes_to 0x21 (prog t) = writes_to 0x21 t" for t
    using ch by (auto simp: prog_def)
  have sum: "unat lob + 256 * unat hib = 1193182 div unat frequency"
    unfolding lob_def hib_def pit_divisor [symmetric] by (rule two_bytes [OF fits(3)]) simp
  show ?thesis
  proof (cases "channel = 0")
    case True
    obtain t1 where t1: "pic_irq_set_mask dev 0 tr = Some t1"
      "\<And>p. p \<noteq> 0x21 \<Longrightarrow> writes_to p t1 = writes_to p tr"
      using pic_irq_set_mask_bits [of 0 dev tr] by (auto simp: mask_port_def)
    obtain t2 where t2: "pic_irq_clear_mask dev 0 (prog t1) = Some t2"
      "\<And>p. p \<noteq> 0x21 \<Longrightarrow> writes_to p t2 = writes_to p (prog t1)" "\<not> bit (imr_of 0 t2) 0"
      using pic_irq_clear_mask_bits [of 0 dev "prog t1"] by (auto simp: mask_port_def imr_of_def bit_simps)
    have "pit_set_frequency dev channel frequency mode tr = Some t2"
      using True nz fits(1,2) t1(1) t2(1)
      by (simp add: pit_set_frequency_def Let_def prog_def lob_def hib_def cmd_def)
    then show ?thesis using False True t1(2) t2(2,3) prog sum ch by auto
  next
    case cn: False
    have "pit_set_frequency dev channel frequency mode tr = Some (prog tr)"
      using cn nz fits(1,2) ch(1) by (simp add: pit_set_frequency_def Let_def prog_def lob_def hib_def cmd_def)
    then show ?thesis using False cn prog sum by auto
  qed
qed

theorem pit_programs_divisor_witness:
  "\<exists>tr' cmd. pit_set_frequency plain_device 0 100 6 (pic_remap []) = Some tr' \<and>
     (\<exists>lo hi. writes_to 0x40 tr' = [lo, hi] \<and> unat lo + 256 * unat hi = 11931)"
proof -
  have "\<exists>tr'. pit_set_frequency plain_device 0 100 6 (pic_remap []) = Some tr' \<and>
    (if unat (100 :: u16) \<le> 18 then tr' = pic_remap []
     else \<exists>cmd lo hi. writes_to 0x43 tr' = writes_to 0x43 (pic_remap []) @ [cmd] \<and>
            writes_to (0 + 0x40) tr' = writes_to (0 + 0x40) (pic_remap []) @ [lo, hi] \<and>
            unat lo + 256 * unat hi = 1193182 div unat (100 :: u16) \<and>
            ((0 :: u16) = 0 \<longrightarrow> \<not> bit (imr_of 0 tr') 0))"
    by (rule pit_programs_divisor) simp
  then show ?thesis by (auto simp: pic_remap_def Let_def)
qed

text \<open>For a valid port and a rate from 2 to 115200 baud, \<open>serial_init\<close> writes the exact divisor and
  the test byte, succeeds exactly when the port echoes the test byte, and leaves
  the port in normal operation when it succeeds but in loopback mode when it fails.\<close>

theorem serial_init_programs:
  assumes "port \<in> {0x3F8, 0x2F8, 0x3E8, 0x2E8}" and "2 \<le> baudrate" and "baudrate \<le> 115200"
    and "writes_to port tr = []" and "serial_init dev port baudrate tr = (r, tr')"
  shows "\<exists>lo hi t. writes_to port tr' = [lo, 0xAE] \<and> writes_to (port + 1) tr' = writes_to (port + 1) tr @ [hi] \<and>
    int (unat lo + 256 * unat hi) = 115200 div baudrate \<and> writes_to port t = [lo, 0xAE] \<and>
    (r = 0 \<longleftrightarrow> dev t port = 0xAE) \<and> (r = 0 \<or> r = 1) \<and>
    last (writes_to (port + 4) tr') = (if r = 0 then 0x0F else 0x1E)"
proof -
  have "115200 div baudrate \<le> 115200 div 2" "115200 div 115200 \<le> 115200 div baudrate"
    using assms(2,3) zdiv_mono2 [of 115200 2 baudrate] zdiv_mono2 [of 115200 baudrate 115200] by auto
  then have d: "0 < 115200 div baudrate" "115200 div baudrate < 65536" by auto
  let ?d = "word_of_int (115200 div baudrate) :: u16"
  have ud: "int (unat ?d) = 115200 div baudrate"
    using d by (simp add: uint_word_of_int_eq take_bit_eq_mod flip: uint_nat)
  let ?lo = "ucast (?d AND 0xFF) :: u8" and ?hi = "ucast (drop_bit 8 ?d AND 0xFF) :: u8"
  have sum: "int (unat ?lo + 256 * unat ?hi) = 115200 div baudrate"
  proof -
    have "(ucast ?d :: u32) < 2 ^ 16"
      using unat_lt [of ?d] by (simp add: word_less_nat_alt unat_ucast_small)
    from two_bytes [OF this] have "unat (ucast ((ucast ?d :: u32) AND 0xFF) :: u8) +
        256 * unat (ucast (drop_bit 8 (ucast ?d :: u32) AND 0xFF) :: u8) = unat (ucast ?d :: u32)" by simp
    moreover have "(ucast ((ucast ?d :: u32) AND 0xFF) :: u8) = ?lo"
      by (rule bit_word_eqI) (auto simp: bit_simps)
    moreover have "(ucast (drop_bit 8 (ucast ?d :: u32) AND 0xFF) :: u8) = ?hi"
      by (rule bit_word_eqI) (auto simp: bit_simps)
    moreover have "unat (ucast ?d :: u32) = unat ?d"
      using unat_lt [of ?d] by (simp add: unat_ucast_small)
    ultimately show ?thesis using ud by simp
  qed
  define t where "t = outb (port + 0) 0xAE (outb (port + 4) 0x1E (outb (port + 4) 0x0B (outb (port + 2) 0xC7
    (outb (port + 3) 0x03 (outb (port + 1) ?hi (outb (port + 0) ?lo (outb (port + 3) 0x80 tr)))))))"
  have t: "writes_to port t = [?lo, 0xAE]" "writes_to (port + 1) t = writes_to (port + 1) tr @ [?hi]" "writes_to (port + 4) t \<noteq> []"
    "last (writes_to (port + 4) t) = 0x1E"
    using assms(1,4) by (auto simp: t_def)
  have "serial_init dev port baudrate tr =
      (if dev t port \<noteq> 0xAE then (1, t @ [In port])
       else (0, outb (port + 4) 0x0F (outb (port + 4) 0x0F (t @ [In port]))))"
    using assms(1,2) by (auto simp: serial_init_def Let_def inb_def t_def)
  with assms(5) have "(r, tr') = (if dev t port \<noteq> 0xAE then (1, t @ [In port])
       else (0, outb (port + 4) 0x0F (outb (port + 4) 0x0F (t @ [In port]))))" by simp
  with t sum show ?thesis
    by (intro exI [of _ ?lo] exI [of _ ?hi] exI [of _ t]) (auto split: if_splits)
qed

definition echo_device :: device where
  "echo_device tr p = (if writes_to p tr = [] then 0xFF else last (writes_to p tr))"

theorem serial_init_programs_witness:
  "\<exists>lo hi. writes_to 0x3F8 (snd (serial_init echo_device 0x3F8 9600 [])) = [lo, 0xAE] \<and>
     writes_to 0x3F9 (snd (serial_init echo_device 0x3F8 9600 [])) = [hi] \<and>
     int (unat lo + 256 * unat hi) = 12"
  using serial_init_programs [of "0x3F8" 9600 "[]" echo_device "fst (serial_init echo_device 0x3F8 9600 [])"
      "snd (serial_init echo_device 0x3F8 9600 [])"] by auto

end
