(* ===== verification/Terminal.thy ===== *)
theory Terminal
  imports Ports
begin

text \<open>
  \<^verbatim>\<open>vga.c\<close> and \<^verbatim>\<open>terminal.c\<close>: the text screen, its cursor and scrolling.  The screen memory is the object
  of 80 x 25 cells at \<^verbatim>\<open>VGA_LOC\<close>; a cell outside it is a fault.  The cursor goes to the CRT
  controller through port writes.
\<close>

section \<open>vga.c\<close>

record vga_cell =
  ch :: u8
  attr :: u8

definition vga_draw_cell :: "vga_cell \<Rightarrow> u16 \<Rightarrow> u16 \<Rightarrow> vga_cell list \<Rightarrow> vga_cell list option" where
  "vga_draw_cell cell x y vga = (let pos = y * 80 + x in obj_set vga (unat pos) cell)"

definition vga_peek_cell :: "u16 \<Rightarrow> u16 \<Rightarrow> vga_cell list \<Rightarrow> vga_cell option" where
  "vga_peek_cell x y vga = (let pos = y * 80 + x in obj_get vga (unat pos))"

definition vga_update_cursor :: "u16 \<Rightarrow> u16 \<Rightarrow> io_trace \<Rightarrow> io_trace" where
  "vga_update_cursor x y tr =
     (let pos = y * 80 + x;
          tr = outb 0x3D4 0x0F tr;
          tr = outb 0x3D5 (ucast (pos AND 0xFF)) tr;
          tr = outb 0x3D4 0x0E tr
      in outb 0x3D5 (ucast (drop_bit 8 pos AND 0xFF)) tr)"

section \<open>terminal.c\<close>

record terminal =
  vga :: "vga_cell list"
  cursor_x :: u16
  cursor_y :: u16
  current_color :: u8
  initialized :: bool
  t_ports :: io_trace

definition scroll_cell :: "nat \<Rightarrow> nat \<Rightarrow> vga_cell list \<Rightarrow> vga_cell list option" where
  "scroll_cell y x v = do {
     cell \<leftarrow> vga_peek_cell (of_nat x) (of_nat y) v;
     vga_draw_cell cell (of_nat x) (of_nat y - 1) v }"

definition terminal_scroll_up :: "terminal \<Rightarrow> terminal option" where
  "terminal_scroll_up t = do {
     v1 \<leftarrow> for_each (\<lambda>y. for_each (scroll_cell y) [0..<80]) [1..<25] (vga t);
     let space_cell = \<lparr>ch = 32, attr = current_color t\<rparr>;
     v2 \<leftarrow> for_each (\<lambda>x. vga_draw_cell space_cell (of_nat x) 24) [0..<80] v1;
     Some (t\<lparr>vga := v2\<rparr>) }"

definition terminal_putchar :: "u8 \<Rightarrow> terminal \<Rightarrow> terminal option" where
  "terminal_putchar c t = do {
     t \<leftarrow> (if c = 10 then Some (t\<lparr>cursor_y := cursor_y t + 1\<rparr>)
           else if c = 13 then Some (t\<lparr>cursor_x := 0\<rparr>)
           else do {
             v \<leftarrow> vga_draw_cell \<lparr>ch = c, attr = current_color t\<rparr> (cursor_x t) (cursor_y t) (vga t);
             Some (t\<lparr>vga := v, cursor_x := cursor_x t + 1\<rparr>) });
     let t = (if cursor_x t \<ge> 80 then t\<lparr>cursor_x := 0, cursor_y := cursor_y t + 1\<rparr> else t);
     t \<leftarrow> (if cursor_y t \<ge> 25 then do {
             t \<leftarrow> terminal_scroll_up t;
             Some (t\<lparr>cursor_x := 0, cursor_y := cursor_y t - 1\<rparr>) }
           else Some t);
     Some (t\<lparr>t_ports := vga_update_cursor (cursor_x t) (cursor_y t) (t_ports t)\<rparr>) }"

text \<open>\<open>s\<close> is the content of the C string.\<close>

definition terminal_print_string :: "u8 list \<Rightarrow> terminal \<Rightarrow> terminal option" where
  "terminal_print_string s t = (if \<not> initialized t then Some t else for_each terminal_putchar s t)"

definition terminal_init :: "terminal \<Rightarrow> terminal option" where
  "terminal_init t = do {
     let t = t\<lparr>cursor_x := 0, cursor_y := 0\<rparr>;
     let space_cell = \<lparr>ch = 32, attr = current_color t\<rparr>;
     v \<leftarrow> for_each (\<lambda>y. for_each (\<lambda>x. vga_draw_cell space_cell (of_nat x) (of_nat y)) [0..<80]) [0..<25] (vga t);
     Some (t\<lparr>vga := v, t_ports := vga_update_cursor 0 0 (t_ports t), initialized := True\<rparr>) }"

section \<open>The screen as lines\<close>

type_synonym lines = "vga_cell list list"

definition screen :: "vga_cell list \<Rightarrow> lines" where
  "screen v = map (\<lambda>y. map (\<lambda>x. v ! (y * 80 + x)) [0..<80]) [0..<25]"

definition blank_line :: "u8 \<Rightarrow> vga_cell list" where
  "blank_line color = replicate 80 \<lparr>ch = 32, attr = color\<rparr>"

text \<open>What one character does to the lines and the cursor.\<close>

definition show_char :: "u8 \<Rightarrow> u8 \<Rightarrow> lines \<times> nat \<times> nat \<Rightarrow> lines \<times> nat \<times> nat" where
  "show_char color c = (\<lambda>(ls, x, y).
     let (ls1, x1, y1) =
           (if c = 10 then (ls, x, y + 1)
            else if c = 13 then (ls, 0, y)
            else (ls[y := (ls ! y)[x := \<lparr>ch = c, attr = color\<rparr>]], x + 1, y));
         (x2, y2) = (if x1 = 80 then (0, y1 + 1) else (x1, y1))
     in if y2 = 25 then (tl ls1 @ [blank_line color], 0, 24) else (ls1, x2, y2))"

definition term_inv :: "terminal \<Rightarrow> bool" where
  "term_inv t \<longleftrightarrow> length (vga t) = 2000 \<and> cursor_x t < 80 \<and> cursor_y t < 25"

definition view :: "terminal \<Rightarrow> lines \<times> nat \<times> nat" where
  "view t = (screen (vga t), unat (cursor_x t), unat (cursor_y t))"

lemma cell_pos:
  "\<lbrakk> x < 80; y < 25 \<rbrakk> \<Longrightarrow> unat (of_nat y * 80 + of_nat x :: u16) = y * 80 + x"
proof -
  assume xy: "x < 80" "y < 25"
  then have "y * 80 + x < 2 ^ LENGTH(16)" by simp
  from unat_of_nat_small [OF this] show ?thesis by simp
qed

lemma draw_at:
  "\<lbrakk> x < 80; y < 25; length v = 2000 \<rbrakk>
    \<Longrightarrow> vga_draw_cell c (of_nat x) (of_nat y) v = Some (v[y * 80 + x := c])"
  by (simp add: vga_draw_cell_def cell_pos obj_set_def Let_def del: of_nat_mult)

lemma peek_at:
  "\<lbrakk> x < 80; y < 25; length v = 2000 \<rbrakk> \<Longrightarrow> vga_peek_cell (of_nat x) (of_nat y) v = Some (v ! (y * 80 + x))"
  by (simp add: vga_peek_cell_def cell_pos obj_get_def Let_def)

lemma screen_length [simp]: "length (screen v) = 25"
  by (simp add: screen_def)

lemma screen_at: "y < 25 \<Longrightarrow> screen v ! y = map (\<lambda>x. v ! (y * 80 + x)) [0..<80]"
  by (simp add: screen_def)

lemma line_length [simp]: "y < 25 \<Longrightarrow> length (screen v ! y) = 80"
  by (simp only: screen_at length_map length_upt)

lemma screen_cell: "\<lbrakk> x < 80; y < 25 \<rbrakk> \<Longrightarrow> screen v ! y ! x = v ! (y * 80 + x)"
  by (simp only: screen_at length_upt nth_map nth_upt add_0 diff_zero)

lemma lines_eqI:
  assumes "length ls = 25" and "\<And>y. y < 25 \<Longrightarrow> length (ls ! y) = 80"
    and "\<And>x y. x < 80 \<Longrightarrow> y < 25 \<Longrightarrow> ls ! y ! x = v ! (y * 80 + x)"
  shows "screen v = ls"
proof (rule nth_equalityI)
  fix y assume "y < length (screen v)"
  then have y: "y < 25" by simp
  show "screen v ! y = ls ! y"
    by (rule nth_equalityI) (use assms y screen_cell in auto)
qed (simp add: assms)

lemma pos_inj:
  assumes "x < 80" "x' < 80"
  shows "y * 80 + x = y' * 80 + x' \<longleftrightarrow> y = y' \<and> x = (x' :: nat)"
proof
  assume "y * 80 + x = y' * 80 + x'"
  then have "(y * 80 + x) div 80 = (y' * 80 + x') div 80" "(y * 80 + x) mod 80 = (y' * 80 + x') mod 80"
    by simp_all
  then show "y = y' \<and> x = x'" using assms by simp
qed simp

lemma update_cell:
  assumes "x < 80" "y < 25" "length v = 2000" "x' < 80"
  shows "v[y * 80 + x := c] ! (y' * 80 + x') = (if y = y' \<and> x = x' then c else v ! (y' * 80 + x'))"
proof -
  have lt: "y * 80 + x < length v" using assms by linarith
  show ?thesis unfolding nth_list_update [OF lt] pos_inj [OF assms(1,4)] ..
qed

lemma screen_update:
  assumes "x < 80" "y < 25" "length v = 2000"
  shows "screen (v[y * 80 + x := c]) = (screen v)[y := (screen v ! y)[x := c]]"
proof (rule lines_eqI)
  fix x' y' :: nat
  assume xy: "x' < 80" "y' < 25"
  show "(screen v)[y := (screen v ! y)[x := c]] ! y' ! x' = v[y * 80 + x := c] ! (y' * 80 + x')"
    unfolding update_cell [OF assms xy(1)] using xy assms(1,2)
    by (cases "y = y'"; cases "x = x'") (simp_all add: screen_cell)
next
  fix y' :: nat
  assume "y' < 25"
  then show "length ((screen v)[y := (screen v ! y)[x := c]] ! y') = 80"
    by (cases "y = y'") simp_all
qed simp

section \<open>Scrolling\<close>

lemma scroll_row:
  assumes "k \<le> 80" and "1 \<le> y" and "y < 25" and "length v = 2000"
  shows "\<exists>v'. for_each (scroll_cell y) [0..<k] v = Some v' \<and> length v' = 2000 \<and>
    (\<forall>p < 2000. v' ! p = (if (y - 1) * 80 \<le> p \<and> p < (y - 1) * 80 + k then v ! (p + 80) else v ! p))"
  using assms(1)
proof (induction k)
  case (Suc k)
  then obtain v1 where v1: "for_each (scroll_cell y) [0..<k] v = Some v1" "length v1 = 2000"
    "\<forall>p < 2000. v1 ! p = (if (y - 1) * 80 \<le> p \<and> p < (y - 1) * 80 + k then v ! (p + 80) else v ! p)"
    by auto
  have k: "k < 80" using Suc.prems by simp
  have y1: "of_nat y - 1 = (of_nat (y - 1) :: u16)" using assms(2) by simp
  let ?p = "(y - 1) * 80 + k"
  have below: "y * 80 + k = ?p + 80" using assms(2) by (simp add: diff_mult_distrib)
  have src: "v1 ! (y * 80 + k) = v ! (?p + 80)"
    using v1(3) k assms(2,3) unfolding below by auto
  have "scroll_cell y k v1 = Some (v1[?p := v ! (?p + 80)])"
    using k assms(3) v1(2) by (simp add: scroll_cell_def peek_at y1 draw_at src)
  then have run: "for_each (scroll_cell y) [0..<Suc k] v = Some (v1[?p := v ! (?p + 80)])"
    by (simp add: for_each_snoc v1(1))
  have "(v1[?p := v ! (?p + 80)]) ! p =
      (if (y - 1) * 80 \<le> p \<and> p < (y - 1) * 80 + Suc k then v ! (p + 80) else v ! p)" if "p < 2000" for p
    using v1(2,3) that by (cases "p = ?p") auto
  with run v1(2) show ?case by (intro exI [of _ "v1[?p := v ! (?p + 80)]"]) simp
qed (use assms in auto)

lemma scroll_rows:
  assumes "k \<le> 24" and "length v = 2000"
  shows "\<exists>v'. for_each (\<lambda>y. for_each (scroll_cell y) [0..<80]) [1..<Suc k] v = Some v' \<and>
    length v' = 2000 \<and> (\<forall>p < 2000. v' ! p = (if p < k * 80 then v ! (p + 80) else v ! p))"
  using assms(1)
proof (induction k)
  case (Suc k)
  then obtain v1 where v1: "for_each (\<lambda>y. for_each (scroll_cell y) [0..<80]) [1..<Suc k] v = Some v1"
    "length v1 = 2000" "\<forall>p < 2000. v1 ! p = (if p < k * 80 then v ! (p + 80) else v ! p)"
    by auto
  from scroll_row [of 80 "Suc k" v1] Suc.prems v1(2) obtain v2 where
    v2: "for_each (scroll_cell (Suc k)) [0..<80] v1 = Some v2" "length v2 = 2000"
      "\<forall>p < 2000. v2 ! p = (if k * 80 \<le> p \<and> p < k * 80 + 80 then v1 ! (p + 80) else v1 ! p)"
    by auto
  have "v2 ! p = (if p < Suc k * 80 then v ! (p + 80) else v ! p)" if "p < 2000" for p
    using v1(3) v2(3) that Suc.prems by auto
  with v1 v2 show ?case by (auto simp: for_each_snoc)
qed (use assms in simp)

lemma blank_row:
  assumes "k \<le> 80" and "y < 25" and "length v = 2000"
  shows "\<exists>v'. for_each (\<lambda>x. vga_draw_cell c (of_nat x) (of_nat y)) [0..<k] v = Some v' \<and>
    length v' = 2000 \<and> (\<forall>p < 2000. v' ! p = (if y * 80 \<le> p \<and> p < y * 80 + k then c else v ! p))"
  using assms(1)
proof (induction k)
  case (Suc k)
  then obtain v1 where v1: "for_each (\<lambda>x. vga_draw_cell c (of_nat x) (of_nat y)) [0..<k] v = Some v1"
    "length v1 = 2000" "\<forall>p < 2000. v1 ! p = (if y * 80 \<le> p \<and> p < y * 80 + k then c else v ! p)" by auto
  have "vga_draw_cell c (of_nat k) (of_nat y) v1 = Some (v1[y * 80 + k := c])"
    using Suc.prems assms(2) v1(2) by (simp add: draw_at)
  then have run: "for_each (\<lambda>x. vga_draw_cell c (of_nat x) (of_nat y)) [0..<Suc k] v = Some (v1[y * 80 + k := c])"
    by (simp add: for_each_snoc v1(1))
  have "(v1[y * 80 + k := c]) ! p = (if y * 80 \<le> p \<and> p < y * 80 + Suc k then c else v ! p)" if "p < 2000" for p
    using v1(2,3) that by (cases "p = y * 80 + k") auto
  with run v1(2) show ?case by (intro exI [of _ "v1[y * 80 + k := c]"]) simp
qed (use assms in auto)

lemma terminal_scroll_up_ok:
  assumes "length (vga t) = 2000"
  shows "\<exists>v. terminal_scroll_up t = Some (t\<lparr>vga := v\<rparr>) \<and> length v = 2000 \<and>
    screen v = tl (screen (vga t)) @ [blank_line (current_color t)]"
proof -
  obtain v1 where v1: "for_each (\<lambda>y. for_each (scroll_cell y) [0..<80]) [1..<Suc 24] (vga t) = Some v1"
    "length v1 = 2000" "\<forall>p < 2000. v1 ! p = (if p < 24 * 80 then vga t ! (p + 80) else vga t ! p)"
    using scroll_rows [of 24 "vga t"] assms by blast
  let ?c = "\<lparr>ch = 32, attr = current_color t\<rparr>"
  obtain v2 where v2: "for_each (\<lambda>x. vga_draw_cell ?c (of_nat x) (of_nat 24)) [0..<80] v1 = Some v2"
    "length v2 = 2000" "\<forall>p < 2000. v2 ! p = (if 24 * 80 \<le> p \<and> p < 24 * 80 + 80 then ?c else v1 ! p)"
    using blank_row [of 80 24 v1 ?c] v1(2) by auto
  have run: "terminal_scroll_up t = Some (t\<lparr>vga := v2\<rparr>)"
    using v1(1) v2(1) by (simp add: terminal_scroll_up_def)
  have "screen v2 = tl (screen (vga t)) @ [blank_line (current_color t)]"
  proof (rule lines_eqI)
    fix x y :: nat
    assume xy: "x < 80" "y < 25"
    show "(tl (screen (vga t)) @ [blank_line (current_color t)]) ! y ! x = v2 ! (y * 80 + x)"
    proof (cases "y < 24")
      case True
      then have "v2 ! (y * 80 + x) = vga t ! (Suc y * 80 + x)" using xy v1(3) v2(3) by (simp add: ac_simps)
      with True xy show ?thesis by (simp add: nth_append nth_tl screen_cell)
    next
      case False
      then have "y = 24" using xy by simp
      then show ?thesis using xy v2(3) by (simp add: nth_append blank_line_def)
    qed
  next
    fix y :: nat
    assume "y < 25"
    then show "length ((tl (screen (vga t)) @ [blank_line (current_color t)]) ! y) = 80"
      by (cases "y < 24") (auto simp: nth_append nth_tl blank_line_def)
  qed simp
  with run v2(2) show ?thesis by blast
qed

section \<open>Characters\<close>

definition at_cursor :: "terminal \<Rightarrow> terminal option" where
  "at_cursor t = Some (t\<lparr>t_ports := vga_update_cursor (cursor_x t) (cursor_y t) (t_ports t)\<rparr>)"

text \<open>The tail of \<open>terminal_putchar\<close>: line wrap, scrolling and the hardware cursor.\<close>

definition settle :: "terminal \<Rightarrow> terminal option" where
  "settle t0 = do {
     let t = (if cursor_x t0 \<ge> 80 then t0\<lparr>cursor_x := 0, cursor_y := cursor_y t0 + 1\<rparr> else t0);
     t \<leftarrow> (if cursor_y t \<ge> 25 then do {
             t \<leftarrow> terminal_scroll_up t;
             Some (t\<lparr>cursor_x := 0, cursor_y := cursor_y t - 1\<rparr>) }
           else Some t);
     at_cursor t }"

definition settle_view :: "u8 \<Rightarrow> lines \<times> nat \<times> nat \<Rightarrow> lines \<times> nat \<times> nat" where
  "settle_view color = (\<lambda>(ls, x, y).
     let (x2, y2) = (if x = 80 then (0, y + 1) else (x, y))
     in if y2 = 25 then (tl ls @ [blank_line color], 0, 24) else (ls, x2, y2))"

lemma u16_cmp: "(w :: u16) \<ge> 80 \<longleftrightarrow> 80 \<le> unat w" "(w :: u16) \<ge> 25 \<longleftrightarrow> 25 \<le> unat w"
  "(w :: u16) < 80 \<longleftrightarrow> unat w < 80" "(w :: u16) < 25 \<longleftrightarrow> unat w < 25"
  by (simp_all add: word_le_nat_alt word_less_nat_alt)

lemma u16_inc: "unat (w :: u16) < 100 \<Longrightarrow> unat (w + 1) = unat w + 1"
  by (subst unat_add_nowrap) auto

text \<open>The cursor column can reach 80 and the row 25 before the tail, but not both.\<close>

lemma settle_ok:
  assumes "length (vga t) = 2000" and "unat (cursor_x t) \<le> 80" and "unat (cursor_y t) \<le> 25"
    and "unat (cursor_x t) = 80 \<Longrightarrow> unat (cursor_y t) < 25"
  shows "\<exists>t'. settle t = Some t' \<and> term_inv t' \<and> view t' = settle_view (current_color t) (view t) \<and>
    current_color t' = current_color t \<and> initialized t' = initialized t"
proof -
  define t1 where "t1 = (if cursor_x t \<ge> 80 then t\<lparr>cursor_x := 0, cursor_y := cursor_y t + 1\<rparr> else t)"
  have t1: "vga t1 = vga t" "current_color t1 = current_color t" "initialized t1 = initialized t"
    "unat (cursor_x t1) = (if unat (cursor_x t) = 80 then 0 else unat (cursor_x t))"
    "unat (cursor_y t1) = (if unat (cursor_x t) = 80 then unat (cursor_y t) + 1 else unat (cursor_y t))"
    using assms by (auto simp: t1_def u16_cmp u16_inc)
  have st: "settle t = do {
     t \<leftarrow> (if cursor_y t1 \<ge> 25 then do {
             t \<leftarrow> terminal_scroll_up t1;
             Some (t\<lparr>cursor_x := 0, cursor_y := cursor_y t - 1\<rparr>) }
           else Some t1);
     at_cursor t }"
    unfolding settle_def Let_def t1_def ..
  from t1 have y1: "unat (cursor_y t1) \<le> 25" "unat (cursor_x t1) < 80" using assms by (auto split: if_splits)
  show ?thesis
  proof (cases "unat (cursor_y t1) = 25")
    case True
    have len: "length (vga t1) = 2000" using t1(1) assms(1) by simp
    obtain v where v: "terminal_scroll_up t1 = Some (t1\<lparr>vga := v\<rparr>)" "length v = 2000"
      "screen v = tl (screen (vga t1)) @ [blank_line (current_color t1)]"
      using terminal_scroll_up_ok [OF len] by blast
    have "cursor_y t1 = 25" using True by (simp add: word_unat_eq_iff)
    then have y24: "cursor_y t1 - 1 = 24" by simp
    have "settle t = at_cursor (t1\<lparr>vga := v, cursor_x := 0, cursor_y := 24\<rparr>)"
      using True v(1) y24 by (simp add: st u16_cmp)
    then show ?thesis using v True t1
      by (auto simp: at_cursor_def term_inv_def view_def settle_view_def split: if_splits)
  next
    case False
    then have "settle t = at_cursor t1"
      using y1 by (simp add: st u16_cmp)
    then show ?thesis using False y1 t1 assms
      by (auto simp: at_cursor_def term_inv_def u16_cmp view_def settle_view_def split: if_splits)
  qed
qed

lemma terminal_putchar_ok:
  assumes "term_inv t"
  shows "\<exists>t'. terminal_putchar c t = Some t' \<and> term_inv t' \<and>
    view t' = show_char (current_color t) c (view t) \<and>
    current_color t' = current_color t \<and> initialized t' = initialized t"
proof -
  have b: "length (vga t) = 2000" "unat (cursor_x t) < 80" "unat (cursor_y t) < 25"
    using assms by (auto simp: term_inv_def u16_cmp)
  have put: "terminal_putchar c t = do {
     t \<leftarrow> (if c = 10 then Some (t\<lparr>cursor_y := cursor_y t + 1\<rparr>)
           else if c = 13 then Some (t\<lparr>cursor_x := 0\<rparr>)
           else do {
             v \<leftarrow> vga_draw_cell \<lparr>ch = c, attr = current_color t\<rparr> (cursor_x t) (cursor_y t) (vga t);
             Some (t\<lparr>vga := v, cursor_x := cursor_x t + 1\<rparr>) });
     settle t }"
    by (simp add: terminal_putchar_def settle_def at_cursor_def)
  have s: "show_char k c p = settle_view k
     (case p of (ls, x, y) \<Rightarrow> if c = 10 then (ls, x, y + 1) else if c = 13 then (ls, 0, y)
        else (ls[y := (ls ! y)[x := \<lparr>ch = c, attr = k\<rparr>]], x + 1, y))" for k p
    by (simp add: show_char_def settle_view_def split: prod.splits)
  show ?thesis
  proof (cases "c = 10 \<or> c = 13")
    case True
    then show ?thesis
      using b settle_ok [of "t\<lparr>cursor_y := cursor_y t + 1\<rparr>"] settle_ok [of "t\<lparr>cursor_x := 0\<rparr>"]
      by (auto simp: put s view_def u16_inc)
  next
    case False
    let ?v = "(vga t)[unat (cursor_y t) * 80 + unat (cursor_x t) := \<lparr>ch = c, attr = current_color t\<rparr>]"
    have "vga_draw_cell \<lparr>ch = c, attr = current_color t\<rparr> (cursor_x t) (cursor_y t) (vga t) = Some ?v"
      using draw_at [OF b(2,3,1)] by simp
    then show ?thesis
      using False b settle_ok [of "t\<lparr>vga := ?v, cursor_x := cursor_x t + 1\<rparr>"]
      by (auto simp: put s view_def u16_inc screen_update)
  qed
qed

lemma terminal_print_ok:
  assumes "term_inv t"
  shows "\<exists>t'. for_each terminal_putchar s t = Some t' \<and> term_inv t' \<and>
    view t' = fold (show_char (current_color t)) s (view t) \<and> current_color t' = current_color t \<and>
    initialized t' = initialized t"
  using assms
proof (induction s arbitrary: t)
  case (Cons c s)
  obtain t1 where t1: "terminal_putchar c t = Some t1" "term_inv t1"
    "view t1 = show_char (current_color t) c (view t)" "current_color t1 = current_color t"
    "initialized t1 = initialized t"
    using terminal_putchar_ok [OF Cons.prems] by blast
  from Cons.IH [OF t1(2)] t1 show ?case by auto
qed simp

lemma blank_rows:
  assumes "k \<le> 25" and "length v = 2000"
  shows "\<exists>v'. for_each (\<lambda>y. for_each (\<lambda>x. vga_draw_cell c (of_nat x) (of_nat y)) [0..<80]) [0..<k] v = Some v' \<and>
    length v' = 2000 \<and> (\<forall>p < k * 80. v' ! p = c)"
  using assms(1)
proof (induction k)
  case (Suc k)
  then obtain v1 where v1: "for_each (\<lambda>y. for_each (\<lambda>x. vga_draw_cell c (of_nat x) (of_nat y)) [0..<80]) [0..<k] v = Some v1"
    "length v1 = 2000" "\<forall>p < k * 80. v1 ! p = c" by auto
  from blank_row [of 80 k v1 c] Suc.prems v1(2) obtain v2 where
    v2: "for_each (\<lambda>x. vga_draw_cell c (of_nat x) (of_nat k)) [0..<80] v1 = Some v2" "length v2 = 2000"
      "\<forall>p < 2000. v2 ! p = (if k * 80 \<le> p \<and> p < k * 80 + 80 then c else v1 ! p)" by auto
  have "v2 ! p = c" if "p < Suc k * 80" for p
    using v1(3) v2(3) that Suc.prems by auto
  with v1 v2 show ?case by (auto simp: for_each_snoc)
qed (use assms in simp)

section \<open>Properties\<close>

text \<open>C35. Printing any string on an initialised terminal never writes outside the screen, keeps the
  cursor on it, and changes the lines and the cursor exactly as the character-by-character
  specification says: text at the cursor, line wrap at column 80, and scrolling by one line with a
  blank line below when the last row is passed.\<close>

theorem terminal_prints:
  assumes "term_inv t" and "initialized t"
  shows "\<exists>t'. terminal_print_string s t = Some t' \<and> term_inv t' \<and>
    view t' = fold (show_char (current_color t)) s (view t)"
  using terminal_print_ok [OF assms(1), of s] assms(2) by (auto simp: terminal_print_string_def)

definition blank_terminal :: terminal where
  "blank_terminal = \<lparr>vga = replicate 2000 \<lparr>ch = 32, attr = 7\<rparr>, cursor_x = 0, cursor_y = 0,
     current_color = 7, initialized = True, t_ports = []\<rparr>"

lemma blank_terminal_inv: "term_inv blank_terminal"
  by (simp add: term_inv_def blank_terminal_def)

theorem terminal_prints_witness:
  "\<exists>t'. terminal_print_string [72, 105, 10] blank_terminal = Some t' \<and>
     unat (cursor_x t') = 2 \<and> unat (cursor_y t') = 1 \<and> screen (vga t') ! 0 ! 1 = \<lparr>ch = 105, attr = 7\<rparr>"
proof -
  obtain t' where t': "terminal_print_string [72, 105, 10] blank_terminal = Some t'"
    "view t' = fold (show_char (current_color blank_terminal)) [72, 105, 10] (view blank_terminal)"
    using terminal_prints [OF blank_terminal_inv, of "[72, 105, 10]"] by (auto simp: blank_terminal_def)
  then show ?thesis
    by (auto simp: view_def show_char_def blank_terminal_def Let_def)
qed

text \<open>\<open>terminal_init\<close> on any screen memory leaves an initialised terminal with a blank screen in the
  current colour and the cursor at the origin.\<close>

theorem terminal_init_blank:
  assumes "length (vga t) = 2000"
  shows "\<exists>t'. terminal_init t = Some t' \<and> term_inv t' \<and> initialized t' \<and>
    view t' = (replicate 25 (blank_line (current_color t)), 0, 0)"
proof -
  let ?c = "\<lparr>ch = 32, attr = current_color t\<rparr>"
  obtain v where v: "for_each (\<lambda>y. for_each (\<lambda>x. vga_draw_cell ?c (of_nat x) (of_nat y)) [0..<80]) [0..<25] (vga t) = Some v"
    "length v = 2000" "\<forall>p < 25 * 80. v ! p = ?c"
    using blank_rows [OF le_refl assms] by blast
  have "screen v = replicate 25 (blank_line (current_color t))"
    using v(3) by (intro lines_eqI) (auto simp: blank_line_def)
  then show ?thesis using v(1,2) by (auto simp: terminal_init_def view_def term_inv_def)
qed

theorem terminal_init_blank_witness:
  "\<exists>t'. terminal_init (blank_terminal\<lparr>cursor_y := 99, initialized := False\<rparr>) = Some t' \<and> term_inv t'"
  using terminal_init_blank [of "blank_terminal\<lparr>cursor_y := 99, initialized := False\<rparr>"]
  by (auto simp: blank_terminal_def)

end
