(* ===== verification/Vmm.thy ===== *)
theory Vmm
  imports Pmm
begin

text \<open>
  \<^verbatim>\<open>kernel/src/arch/i686/vmm.c\<close>: virtual memory through the recursive mapping, where entry 1023 of a
  page directory maps the directory itself.  Physical memory is frames of 1024 words.  The code
  reaches directories and tables only through virtual addresses, so every access is translated by
  the MMU; a page fault inside the kernel is \<^term>\<open>None\<close>.

  The MMU is the i386 two-level walk without 4 MB pages and with kernel accesses never refused by
  the write bit; the TLB is taken to be coherent, so \<^verbatim>\<open>invlpg\<close> does nothing.  The bitmap of the page
  allocator is kernel memory and is kept apart from the frames.
\<close>

section \<open>State and MMU\<close>

record vmm_state = pmm_state +
  pmem :: "u32 \<Rightarrow> nat \<Rightarrow> u32"
  cr3 :: u32
  kernel_cr3 :: u32
  cpu_flags :: u32

definition frame_of :: "u32 \<Rightarrow> u32" where "frame_of e = e AND 0xFFFFF000"
definition present :: "u32 \<Rightarrow> bool" where "present e \<longleftrightarrow> e AND 1 \<noteq> 0"

definition translate :: "u32 \<Rightarrow> 'z vmm_state_scheme \<Rightarrow> (u32 \<times> nat) option" where
  "translate va s =
     (let pde = pmem s (frame_of (cr3 s)) (unat va div 2 ^ 22)
      in if \<not> present pde then None
         else let pte = pmem s (frame_of pde) (unat va div 4096 mod 1024)
              in if \<not> present pte then None else Some (frame_of pte, unat va mod 4096 div 4))"

definition set_word :: "u32 \<Rightarrow> nat \<Rightarrow> u32 \<Rightarrow> 'z vmm_state_scheme \<Rightarrow> 'z vmm_state_scheme" where
  "set_word f i v s = s\<lparr>pmem := (pmem s)(f := (pmem s f)(i := v))\<rparr>"

definition vread :: "u32 \<Rightarrow> 'z vmm_state_scheme \<Rightarrow> u32 option" where
  "vread va s = map_option (\<lambda>(f, i). pmem s f i) (translate va s)"

definition vwrite :: "u32 \<Rightarrow> u32 \<Rightarrow> 'z vmm_state_scheme \<Rightarrow> 'z vmm_state_scheme option" where
  "vwrite va v s = map_option (\<lambda>(f, i). set_word f i v s) (translate va s)"

section \<open>Reaching the tables\<close>

definition get_pde_index :: "u32 \<Rightarrow> u32" where "get_pde_index virt = drop_bit 22 virt"
definition get_pte_index :: "u32 \<Rightarrow> u32" where "get_pte_index virt = drop_bit 12 virt AND 0x3FF"
definition get_pde :: "u32 \<Rightarrow> u32" where "get_pde virt = 0xFFFFF000 + 4 * get_pde_index virt"

definition get_pt :: "u32 \<Rightarrow> 'z vmm_state_scheme \<Rightarrow> u32 option" where
  "get_pt virt s = do {
     pde \<leftarrow> vread (get_pde virt) s;
     Some (if \<not> present pde then 0 else 0xFFC00000 + get_pde_index virt * 0x1000) }"

definition get_pte :: "u32 \<Rightarrow> 'z vmm_state_scheme \<Rightarrow> u32 option" where
  "get_pte virt s = do {
     pde \<leftarrow> vread (get_pde virt) s;
     if \<not> present pde then Some 0
     else do { pt \<leftarrow> get_pt virt s; Some (pt + 4 * get_pte_index virt) } }"

text \<open>\<^verbatim>\<open>pte && (*pte & VMM_FLAGS_PRESENT)\<close>, and the entry read.\<close>

definition pte_present :: "u32 \<Rightarrow> 'z vmm_state_scheme \<Rightarrow> bool option" where
  "pte_present pte s = (if pte = 0 then Some False else do { e \<leftarrow> vread pte s; Some (present e) })"

definition get_physical_address :: "u32 \<Rightarrow> 'z vmm_state_scheme \<Rightarrow> u32 option" where
  "get_physical_address virt s = do {
     pte \<leftarrow> get_pte virt s;
     ok \<leftarrow> pte_present pte s;
     if \<not> ok then Some 0
     else do { e \<leftarrow> vread pte s; Some ((e AND 0xFFFFF000) OR (virt AND 0xFFF)) } }"

section \<open>Mapping and unmapping\<close>

definition zero_pt :: "u32 \<Rightarrow> 'z vmm_state_scheme \<Rightarrow> 'z vmm_state_scheme option" where
  "zero_pt pt s = for_each (\<lambda>i. vwrite (pt + 4 * of_nat i) 0) [0..<1024] s"

definition vmm_map ::
  "u32 \<Rightarrow> u32 \<Rightarrow> u32 \<Rightarrow> 'z vmm_state_scheme \<Rightarrow> (int \<times> 'z vmm_state_scheme) option" where
  "vmm_map virt phys flags s = do {
     pde \<leftarrow> vread (get_pde virt) s;
     r \<leftarrow> (if present pde then Some (Inr s)
           else do {
             (pt_phys, s1) \<leftarrow> pmm_alloc_page s;
             if pt_phys = 0 then Some (Inl s1)
             else do {
               s2 \<leftarrow> vwrite (get_pde virt) (pt_phys OR flags OR 1) s1;
               pt \<leftarrow> get_pt virt s2;
               s3 \<leftarrow> zero_pt pt s2;
               Some (Inr s3) } });
     case r of
       Inl s1 \<Rightarrow> Some (-1, s1)
     | Inr s3 \<Rightarrow> do {
         pde' \<leftarrow> vread (get_pde virt) s3;
         s4 \<leftarrow> vwrite (get_pde virt) (pde' OR flags) s3;
         pte \<leftarrow> get_pte virt s4;
         s5 \<leftarrow> (if pte \<noteq> 0 then vwrite pte (phys OR flags OR 1) s4 else Some s4);
         Some (0, s5) } }"

text \<open>\<^verbatim>\<open>for (i = 0; i < 1024; i++) if (pt[i] & VMM_FLAGS_PRESENT) present++;\<close>\<close>

fun count_present :: "u32 \<Rightarrow> nat list \<Rightarrow> 'z vmm_state_scheme \<Rightarrow> nat option" where
  "count_present pt [] s = Some 0"
| "count_present pt (i # is) s = do {
     e \<leftarrow> vread (pt + 4 * of_nat i) s;
     n \<leftarrow> count_present pt is s;
     Some (if present e then Suc n else n) }"

definition vmm_unmap :: "u32 \<Rightarrow> 'z vmm_state_scheme \<Rightarrow> (int \<times> 'z vmm_state_scheme) option" where
  "vmm_unmap virt s = do {
     pte \<leftarrow> get_pte virt s;
     ok \<leftarrow> pte_present pte s;
     if \<not> ok then Some (-1, s)
     else do {
       s1 \<leftarrow> vwrite pte 0 s;
       pt \<leftarrow> get_pt virt s1;
       present_count \<leftarrow> count_present pt [0..<1024] s1;
       if present_count = 0 \<and> virt < 0xC0000000 then do {
         pde \<leftarrow> vread (get_pde virt) s1;
         s2 \<leftarrow> pmm_free_page (pde AND 0xFFFFF000) s1;
         s3 \<leftarrow> vwrite (get_pde virt) 0 s2;
         Some (0, s3) }
       else Some (0, s1) } }"

section \<open>Allocating and freeing pages\<close>

text \<open>
  The search of \<open>vmm_alloc_pages_region\<close> from \<open>page\<close>, with \<open>k\<close> pages left before \<^verbatim>\<open>region_end\<close>; the
  result is the first page of the run, or \<^term>\<open>None\<close> under \<^term>\<open>Some\<close> when no run is long enough.
\<close>

fun find_run :: "u32 \<Rightarrow> nat \<Rightarrow> u32 \<Rightarrow> u32 \<Rightarrow> u32 \<Rightarrow> 'z vmm_state_scheme \<Rightarrow> u32 option option" where
  "find_run n 0 page consecutive first s = Some None"
| "find_run n (Suc k) page consecutive first s = do {
     pte \<leftarrow> get_pte page s;
     used \<leftarrow> pte_present pte s;
     let (consecutive', first') =
       (if \<not> used then (consecutive + 1, if consecutive = 0 then page else first) else (0, first));
     if consecutive' = n then Some (Some first')
     else find_run n k (page + PAGE_SIZE) consecutive' first' s }"

text \<open>Undoing \<open>k\<close> pages from \<open>page\<close>.\<close>

fun rollback :: "u32 \<Rightarrow> nat \<Rightarrow> 'z vmm_state_scheme \<Rightarrow> 'z vmm_state_scheme option" where
  "rollback page 0 s = Some s"
| "rollback page (Suc k) s = do { (r, s1) \<leftarrow> vmm_unmap page s; rollback (page + PAGE_SIZE) k s1 }"

text \<open>\<open>k\<close> pages to go from \<open>page\<close>, \<open>j\<close> pages already mapped from \<open>first\<close>.\<close>

fun map_run ::
  "u32 \<Rightarrow> u32 \<Rightarrow> nat \<Rightarrow> u32 \<Rightarrow> nat \<Rightarrow> 'z vmm_state_scheme \<Rightarrow> (u32 \<times> 'z vmm_state_scheme) option" where
  "map_run flags first j page 0 s = Some (first, s)"
| "map_run flags first j page (Suc k) s = do {
     (phys, s1) \<leftarrow> pmm_alloc_page s;
     if phys = 0 then do { s2 \<leftarrow> rollback first j s1; Some (0, s2) }
     else do {
       (r, s2) \<leftarrow> vmm_map page phys flags s1;
       if r \<noteq> 0 then do {
         s3 \<leftarrow> pmm_free_page phys s2;
         s4 \<leftarrow> rollback first j s3;
         Some (0, s4) }
       else map_run flags first (Suc j) (page + PAGE_SIZE) k s2 } }"

text \<open>The number of iterations of a loop from \<open>a\<close> while below \<open>b\<close> in steps of a page.\<close>

definition page_steps :: "u32 \<Rightarrow> u32 \<Rightarrow> nat" where
  "page_steps a b = (unat b - unat a + 4095) div 4096"

definition vmm_alloc_pages_region ::
  "u32 \<Rightarrow> u32 \<Rightarrow> u32 \<Rightarrow> u32 \<Rightarrow> 'z vmm_state_scheme \<Rightarrow> (u32 \<times> 'z vmm_state_scheme) option" where
  "vmm_alloc_pages_region n flags region_start region_end s =
     (if n = 0 then Some (0, s)
      else
        let region_start = align_up region_start PAGE_SIZE;
            region_end = align_down region_end PAGE_SIZE
        in if region_end < region_start + n * PAGE_SIZE then Some (0, s)
           else do {
             run \<leftarrow> find_run n (page_steps region_start region_end) region_start 0 0 s;
             case run of
               None \<Rightarrow> Some (0, s)
             | Some first_page \<Rightarrow>
                 map_run flags first_page 0 first_page
                   (page_steps first_page (first_page + n * PAGE_SIZE)) s })"

definition vmm_alloc_pages :: "u32 \<Rightarrow> u32 \<Rightarrow> 'z vmm_state_scheme \<Rightarrow> (u32 \<times> 'z vmm_state_scheme) option" where
  "vmm_alloc_pages n flags s = vmm_alloc_pages_region n flags 0x1000 0xFFC00000 s"

text \<open>\<open>i\<close> is the loop counter, \<open>k\<close> the pages left.\<close>

fun free_loop :: "u32 \<Rightarrow> nat \<Rightarrow> nat \<Rightarrow> 'z vmm_state_scheme \<Rightarrow> (int \<times> 'z vmm_state_scheme) option" where
  "free_loop start i 0 s = Some (0, s)"
| "free_loop start i (Suc k) s = do {
     let page = start + of_nat i * PAGE_SIZE;
     pte \<leftarrow> get_pte page s;
     ok \<leftarrow> pte_present pte s;
     if \<not> ok then Some (-1, s)
     else do {
       e \<leftarrow> vread pte s;
       s1 \<leftarrow> vwrite pte 0 s;
       s2 \<leftarrow> pmm_free_page (e AND 0xFFFFF000) s1;
       free_loop start (Suc i) k s2 } }"

definition vmm_free_pages :: "u32 \<Rightarrow> u32 \<Rightarrow> 'z vmm_state_scheme \<Rightarrow> (int \<times> 'z vmm_state_scheme) option" where
  "vmm_free_pages n virt s = (if n = 0 then Some (-1, s) else free_loop virt 0 (unat n) s)"

section \<open>Address spaces\<close>

definition copy_upper :: "u32 \<Rightarrow> 'z vmm_state_scheme \<Rightarrow> 'z vmm_state_scheme option" where
  "copy_upper new_pd s = for_each (\<lambda>i s. do {
     e \<leftarrow> vread (0xFFFFF000 + 4 * of_nat i) s;
     vwrite (new_pd + 4 * of_nat i) e s }) [768..<1024] s"

text \<open>The byte-wise \<^verbatim>\<open>memset\<close> of 4096 zero bytes is 1024 zero words here.\<close>

definition vmm_clone :: "'z vmm_state_scheme \<Rightarrow> (u32 \<times> 'z vmm_state_scheme) option" where
  "vmm_clone s = do {
     (new_cr3, s1) \<leftarrow> vmm_alloc_pages 1 3 s;
     if new_cr3 = 0 then Some (0, s1)
     else do {
       new_cr3_phys \<leftarrow> get_physical_address new_cr3 s1;
       s2 \<leftarrow> zero_pt new_cr3 s1;
       s3 \<leftarrow> copy_upper new_cr3 s2;
       s4 \<leftarrow> vwrite (new_cr3 + 4 * 1023) (new_cr3_phys OR 1 OR 2) s3;
       (r, s5) \<leftarrow> vmm_unmap new_cr3 s4;
       Some (new_cr3_phys, s5) } }"

text \<open>
  The frame the \<^verbatim>\<open>_in\<close> operations share: save the flags, disable interrupts, switch to the space,
  run, switch back if it was another one, restore the flags.
\<close>

definition with_cr3 ::
  "u32 \<Rightarrow> ('z vmm_state_scheme \<Rightarrow> ('r \<times> 'z vmm_state_scheme) option) \<Rightarrow>
   'z vmm_state_scheme \<Rightarrow> ('r \<times> 'z vmm_state_scheme) option" where
  "with_cr3 c f s = do {
     let saved = cpu_flags s;
     let old_cr3 = cr3 s;
     (r, s1) \<leftarrow> f (s\<lparr>cpu_flags := saved AND NOT 0x200, cr3 := c\<rparr>);
     let s2 = (if old_cr3 \<noteq> c then s1\<lparr>cr3 := old_cr3\<rparr> else s1);
     Some (r, s2\<lparr>cpu_flags := saved\<rparr>) }"

definition vmm_map_in ::
  "u32 \<Rightarrow> u32 \<Rightarrow> u32 \<Rightarrow> u32 \<Rightarrow> 'z vmm_state_scheme \<Rightarrow> (int \<times> 'z vmm_state_scheme) option" where
  "vmm_map_in c virt phys flags =
     with_cr3 c (\<lambda>s. map_option (\<lambda>(r, s). (if r \<noteq> 0 then 1 else 0, s)) (vmm_map virt phys flags s))"

definition vmm_unmap_in :: "u32 \<Rightarrow> u32 \<Rightarrow> 'z vmm_state_scheme \<Rightarrow> (int \<times> 'z vmm_state_scheme) option" where
  "vmm_unmap_in c virt =
     with_cr3 c (\<lambda>s. map_option (\<lambda>(r, s). (if r \<noteq> 0 then 1 else 0, s)) (vmm_unmap virt s))"

definition vmm_alloc_pages_region_in ::
  "u32 \<Rightarrow> u32 \<Rightarrow> u32 \<Rightarrow> u32 \<Rightarrow> u32 \<Rightarrow> 'z vmm_state_scheme \<Rightarrow> (u32 \<times> 'z vmm_state_scheme) option" where
  "vmm_alloc_pages_region_in c n flags region_start region_end =
     with_cr3 c (vmm_alloc_pages_region n flags region_start region_end)"

definition vmm_alloc_pages_in ::
  "u32 \<Rightarrow> u32 \<Rightarrow> u32 \<Rightarrow> 'z vmm_state_scheme \<Rightarrow> (u32 \<times> 'z vmm_state_scheme) option" where
  "vmm_alloc_pages_in c n flags = with_cr3 c (vmm_alloc_pages n flags)"

definition vmm_free_pages_in ::
  "u32 \<Rightarrow> u32 \<Rightarrow> u32 \<Rightarrow> 'z vmm_state_scheme \<Rightarrow> (int \<times> 'z vmm_state_scheme) option" where
  "vmm_free_pages_in c n virt =
     with_cr3 c (\<lambda>s. map_option (\<lambda>(r, s). (if r \<noteq> 0 then 1 else 0, s)) (vmm_free_pages n virt s))"

definition destroy_entry :: "u32 \<Rightarrow> nat \<Rightarrow> 'z vmm_state_scheme \<Rightarrow> 'z vmm_state_scheme option" where
  "destroy_entry pt j s = do {
     e \<leftarrow> vread (pt + 4 * of_nat j) s;
     if present e then do {
       s1 \<leftarrow> pmm_free_page (e AND 0xFFFFF000) s;
       vwrite (pt + 4 * of_nat j) 0 s1 }
     else Some s }"

definition destroy_table :: "nat \<Rightarrow> 'z vmm_state_scheme \<Rightarrow> 'z vmm_state_scheme option" where
  "destroy_table i s = do {
     let base = of_nat i * 0x400000;
     pde \<leftarrow> vread (get_pde base) s;
     if \<not> present pde then Some s
     else do {
       pt \<leftarrow> get_pt base s;
       s1 \<leftarrow> for_each (destroy_entry pt) [0..<1024] s;
       s2 \<leftarrow> pmm_free_page (pde AND 0xFFFFF000) s1;
       vwrite (get_pde base) 0 s2 } }"

definition vmm_destroy :: "u32 \<Rightarrow> 'z vmm_state_scheme \<Rightarrow> 'z vmm_state_scheme option" where
  "vmm_destroy c s =
     (if c = 0 \<or> c = cr3 s then Some s
      else do {
        let saved = cpu_flags s;
        let old_cr3 = cr3 s;
        s1 \<leftarrow> for_each destroy_table [0..<768] (s\<lparr>cpu_flags := saved AND NOT 0x200, cr3 := c\<rparr>);
        Some (s1\<lparr>cr3 := old_cr3, cpu_flags := saved\<rparr>) })"

definition vmm_init :: "'z vmm_state_scheme \<Rightarrow> 'z vmm_state_scheme option" where
  "vmm_init s = vwrite (get_pde 0) 0 (s\<lparr>kernel_cr3 := cr3 s\<rparr>)"

end
