(* ===== verification/Vmm_Map.thy ===== *)
theory Vmm_Map
  imports Vmm
begin

text \<open>
  What the virtual memory operations do to the page tables.  The first part discharges the
  recursive mapping once: under \<open>self_mapped\<close> every access of \<^verbatim>\<open>vmm.c\<close> through a virtual address is
  an access to an entry of the current directory or of one of its tables.  The rest states the
  operations over \<open>lookup\<close>, the partial function from virtual page numbers to entries.
\<close>

section \<open>Entries\<close>

lemma unat_frame_of: "unat (frame_of e) = unat e div 4096 * 4096"
proof -
  have "(0xFFFFF000 :: u32) = NOT (2 ^ 12 - 1)" by simp
  then have "frame_of e = align_down e (2 ^ 12)" by (simp only: frame_of_def align_down_def)
  then show ?thesis by (simp only: align_down_unat) (simp add: minus_mod_eq_div_mult)
qed

lemma frame_of_idem [simp]: "frame_of (frame_of e) = frame_of e"
  by (simp add: frame_of_def and.assoc)

lemma frame_of_page_addr: "p < 2 ^ 20 \<Longrightarrow> frame_of (page_addr p) = page_addr p"
  by (rule word_unat_eq_iff [THEN iffD2]) (simp add: unat_frame_of page_addr_unat)

lemma low_bits: "flags < 0x1000 \<Longrightarrow> flags AND 0xFFFFF000 = (0 :: u32)"
proof -
  assume "flags < 0x1000"
  then have "frame_of flags = 0"
    unfolding word_unat_eq_iff by (simp add: unat_frame_of word_less_nat_alt)
  then show ?thesis by (simp add: frame_of_def)
qed

lemma frame_of_flags: "flags < 0x1000 \<Longrightarrow> frame_of (e OR flags) = frame_of e"
  by (simp add: frame_of_def bit.conj_disj_distrib2 low_bits)

lemma frame_of_entry:
  "\<lbrakk> frame_of f = f; flags < 0x1000 \<rbrakk> \<Longrightarrow> frame_of (f OR flags OR 1) = f"
  using frame_of_flags [of flags f] frame_of_flags [of 1 "f OR flags"] by (simp add: or.assoc)

lemma present_bit: "present e \<longleftrightarrow> bit e 0"
  by (simp add: present_def and_one_eq bit_0 even_iff_mod_2_eq_zero)

lemma present_or_1 [simp]: "present (e OR 1)"
  by (simp add: present_bit bit_simps)

lemma present_or: "present e \<Longrightarrow> present (e OR flags)"
  by (simp add: present_bit bit_simps)

lemma not_present_0 [simp]: "\<not> present 0"
  by (simp add: present_def)

section \<open>Virtual addresses\<close>

abbreviation vpn :: "u32 \<Rightarrow> nat" where "vpn virt \<equiv> unat virt div 4096"
abbreviation dix :: "u32 \<Rightarrow> nat" where "dix virt \<equiv> unat virt div 4096 div 1024"
abbreviation tix :: "u32 \<Rightarrow> nat" where "tix virt \<equiv> unat virt div 4096 mod 1024"

lemma dix_less: "dix virt < 1024"
  using unat_lt [of virt] by simp

lemma unat_pde_index: "unat (get_pde_index virt) = dix virt"
proof -
  have "unat (drop_bit 22 virt) = unat virt div 2 ^ 22"
    using unat_lt [of virt] unfolding unsigned_drop_bit_eq by (simp add: drop_bit_eq_div take_bit_eq_mod)
  then show ?thesis by (simp add: get_pde_index_def div_mult2_eq [symmetric])
qed

lemma unat_pte_index: "unat (get_pte_index virt) = tix virt"
proof -
  have "(0x3FF :: u32) = mask 10" by (simp add: mask_eq_exp_minus_1)
  then have "get_pte_index virt = take_bit 10 (drop_bit 12 virt)"
    by (simp add: get_pte_index_def take_bit_eq_mask)
  moreover have "unat (drop_bit 12 virt) = unat virt div 4096"
    using unat_lt [of virt] unfolding unsigned_drop_bit_eq by (simp add: drop_bit_eq_div take_bit_eq_mod)
  ultimately show ?thesis by (simp only: unsigned_take_bit_eq) (simp add: take_bit_eq_mod)
qed

text \<open>The address of entry \<open>i\<close> of the table that maps \<open>virt\<close>, as the recursive mapping shows it.\<close>

definition pt_va :: "u32 \<Rightarrow> u32" where
  "pt_va virt = 0xFFC00000 + get_pde_index virt * 0x1000"

lemma unat_pt_va_entry:
  assumes "i < 1024"
  shows "unat (pt_va virt + 4 * of_nat i) = 0xFFC00000 + dix virt * 4096 + 4 * i"
proof -
  have d: "dix virt < 1024" by (rule dix_less)
  have "unat (get_pde_index virt * 0x1000) = dix virt * 4096"
    using d by (subst unat_mult_nowrap) (simp_all add: unat_pde_index)
  then have "unat (pt_va virt) = 0xFFC00000 + dix virt * 4096"
    using d unfolding pt_va_def by (subst unat_add_nowrap) simp_all
  moreover have "unat (4 * of_nat i :: u32) = 4 * i"
    using assms by (subst unat_mult_nowrap) (simp_all add: unat_of_nat_small)
  ultimately show ?thesis using d assms by (subst unat_add_nowrap) simp_all
qed

lemma unat_get_pde: "unat (get_pde virt) = 0xFFFFF000 + 4 * dix virt"
proof -
  have d: "dix virt < 1024" by (rule dix_less)
  have "unat (4 * get_pde_index virt) = 4 * dix virt"
    using d by (subst unat_mult_nowrap) (simp_all add: unat_pde_index)
  then show ?thesis using d unfolding get_pde_def by (subst unat_add_nowrap) simp_all
qed

lemma pt_va_nonzero: "pt_va virt \<noteq> 0" "pt_va virt + 4 * get_pte_index virt \<noteq> 0"
proof -
  have "unat (pt_va virt) \<noteq> 0" using unat_pt_va_entry [of 0 virt] by simp
  then show "pt_va virt \<noteq> 0" by (metis unat_0)
  have "4 * get_pte_index virt = 4 * of_nat (tix virt)"
    by (simp add: unat_pte_index [symmetric])
  then have "unat (pt_va virt + 4 * get_pte_index virt) \<noteq> 0"
    using unat_pt_va_entry [of "tix virt" virt] by simp
  then show "pt_va virt + 4 * get_pte_index virt \<noteq> 0" by (metis unat_0)
qed

section \<open>The recursive mapping\<close>

definition dir :: "'z vmm_state_scheme \<Rightarrow> u32" where "dir s = frame_of (cr3 s)"
definition pd :: "'z vmm_state_scheme \<Rightarrow> nat \<Rightarrow> u32" where "pd s d = pmem s (dir s) d"

definition self_mapped :: "'z vmm_state_scheme \<Rightarrow> bool" where
  "self_mapped s \<longleftrightarrow> present (pd s 1023) \<and> frame_of (pd s 1023) = dir s"

lemma translate_self:
  assumes "self_mapped s" and "unat va = 0xFFC00000 + d * 4096 + 4 * i" and "d < 1024" and "i < 1024"
  shows "translate va s = (if present (pd s d) then Some (frame_of (pd s d), i) else None)"
proof -
  have va: "unat va = 4096 * (1024 * 1023 + d) + 4 * i" using assms(2) by simp
  have "(4096 * k + 4 * i) div 4096 = k" "(4096 * k + 4 * i) mod 4096 = 4 * i" for k
    using assms(4) by simp_all
  then have "unat va div 4096 = 1024 * 1023 + d" "unat va mod 4096 = 4 * i"
    unfolding va by blast+
  moreover have "unat va div 2 ^ 22 = unat va div 4096 div 1024" by (simp add: div_mult2_eq [symmetric])
  moreover have "(1024 * k + d) div 1024 = k" "(1024 * k + d) mod 1024 = d" for k
    using assms(3) by simp_all
  ultimately have "unat va div 2 ^ 22 = 1023" "unat va div 4096 mod 1024 = d" "unat va mod 4096 div 4 = i"
    by (metis, metis, simp)
  with assms(1) show ?thesis
    by (simp add: translate_def Let_def self_mapped_def pd_def dir_def)
qed

lemma translate_pde: "self_mapped s \<Longrightarrow> translate (get_pde virt) s = Some (dir s, dix virt)"
  using translate_self [of s "get_pde virt" 1023 "dix virt"] dix_less [of virt]
  by (simp add: unat_get_pde self_mapped_def)

lemma translate_pte:
  "\<lbrakk> self_mapped s; i < 1024 \<rbrakk> \<Longrightarrow> translate (pt_va virt + 4 * of_nat i) s =
     (if present (pd s (dix virt)) then Some (frame_of (pd s (dix virt)), i) else None)"
  using translate_self [of s _ "dix virt" i] dix_less [of virt] unat_pt_va_entry [of i virt] by simp

lemma vread_pde: "self_mapped s \<Longrightarrow> vread (get_pde virt) s = Some (pd s (dix virt))"
  by (simp add: vread_def translate_pde pd_def)

lemma vwrite_pde: "self_mapped s \<Longrightarrow> vwrite (get_pde virt) v s = Some (set_word (dir s) (dix virt) v s)"
  by (simp add: vwrite_def translate_pde)

lemma vread_pte:
  "\<lbrakk> self_mapped s; i < 1024; present (pd s (dix virt)) \<rbrakk>
    \<Longrightarrow> vread (pt_va virt + 4 * of_nat i) s = Some (pmem s (frame_of (pd s (dix virt))) i)"
  by (simp add: vread_def translate_pte)

lemma vwrite_pte:
  "\<lbrakk> self_mapped s; i < 1024; present (pd s (dix virt)) \<rbrakk>
    \<Longrightarrow> vwrite (pt_va virt + 4 * of_nat i) v s = Some (set_word (frame_of (pd s (dix virt))) i v s)"
  by (simp add: vwrite_def translate_pte)

lemma get_pt_self: "self_mapped s \<Longrightarrow> get_pt virt s = Some (if present (pd s (dix virt)) then pt_va virt else 0)"
  by (simp add: get_pt_def vread_pde pt_va_def)

lemma get_pte_self:
  "self_mapped s \<Longrightarrow>
    get_pte virt s = Some (if present (pd s (dix virt)) then pt_va virt + 4 * of_nat (tix virt) else 0)"
  by (simp add: get_pte_def vread_pde get_pt_self unat_pte_index [symmetric])

lemma pte_va_nonzero [simp]: "pt_va virt + 4 * of_nat (tix virt) \<noteq> 0"
  using pt_va_nonzero(2) [of virt] by (simp add: unat_pte_index [symmetric])

section \<open>The page map\<close>

definition lookup :: "'z vmm_state_scheme \<Rightarrow> nat \<Rightarrow> u32 option" where
  "lookup s v =
     (let pde = pd s (v div 1024)
      in if \<not> present pde then None
         else let e = pmem s (frame_of pde) (v mod 1024) in if present e then Some e else None)"

lemma translate_lookup:
  "translate va s = map_option (\<lambda>e. (frame_of e, unat va mod 4096 div 4)) (lookup s (vpn va))"
  by (simp add: translate_def lookup_def pd_def dir_def Let_def div_mult2_eq [symmetric])

lemma pte_present_self:
  "self_mapped s \<Longrightarrow> Option.bind (get_pte virt s) (\<lambda>pte. pte_present pte s) = Some (lookup s (vpn virt) \<noteq> None)"
  by (simp add: get_pte_self pte_present_def lookup_def Let_def vread_pte)

lemma get_physical_address_self:
  "self_mapped s \<Longrightarrow> get_physical_address virt s = Some (case lookup s (vpn virt) of None \<Rightarrow> 0
      | Some e \<Rightarrow> (e AND 0xFFFFF000) OR (virt AND 0xFFF))"
  by (simp add: get_physical_address_def get_pte_self pte_present_def lookup_def Let_def vread_pte)

section \<open>Whole tables\<close>

definition set_frame :: "u32 \<Rightarrow> (nat \<Rightarrow> u32) \<Rightarrow> 'z vmm_state_scheme \<Rightarrow> 'z vmm_state_scheme" where
  "set_frame f g s = s\<lparr>pmem := (pmem s)(f := g)\<rparr>"

lemma set_word_frame: "set_word f i v s = set_frame f ((pmem s f)(i := v)) s"
  by (simp add: set_word_def set_frame_def)

lemma set_frame_twice [simp]: "set_frame f h (set_frame f g s) = set_frame f h s"
  by (simp add: set_frame_def)

lemma set_frame_pmem [simp]: "pmem (set_frame f g s) = (pmem s)(f := g)"
  by (simp add: set_frame_def)

lemma set_frame_sel [simp]:
  "cr3 (set_frame f g s) = cr3 s" "kernel_cr3 (set_frame f g s) = kernel_cr3 s"
  "cpu_flags (set_frame f g s) = cpu_flags s" "dir (set_frame f g s) = dir s"
  "bitmap (set_frame f g s) = bitmap s" "bitmap_bits (set_frame f g s) = bitmap_bits s"
  "pmm_inv (set_frame f g s) = pmm_inv s" "free_pages (set_frame f g s) = free_pages s"
  "managed_pages (set_frame f g s) = managed_pages s"
  by (simp_all add: set_frame_def dir_def managed_pages_def pmm_inv_def free_pages_def page_free_def split: option.splits)

lemma pd_set_frame [simp]: "pd (set_frame f g s) d = (if f = dir s then g d else pd s d)"
  by (simp add: pd_def)

lemma self_mapped_other [simp]: "f \<noteq> dir s \<Longrightarrow> self_mapped (set_frame f g s) = self_mapped s"
  by (simp add: self_mapped_def)

lemma self_mapped_dir: "self_mapped (set_frame (dir s) g s) \<longleftrightarrow> present (g 1023) \<and> frame_of (g 1023) = dir s"
  by (simp add: self_mapped_def)

lemma zero_pt_self:
  assumes "self_mapped s" and "present (pd s (dix virt))" and "frame_of (pd s (dix virt)) \<noteq> dir s"
  shows "zero_pt (pt_va virt) s =
    Some (set_frame (frame_of (pd s (dix virt)))
      (\<lambda>i. if i < 1024 then 0 else pmem s (frame_of (pd s (dix virt))) i) s)"
proof -
  let ?f = "frame_of (pd s (dix virt))"
  have "for_each (\<lambda>i. vwrite (pt_va virt + 4 * of_nat i) 0) [0..<k] s =
      Some (set_frame ?f (\<lambda>i. if i < k then 0 else pmem s ?f i) s)" if "k \<le> 1024" for k
    using that
  proof (induction k)
    case 0
    have "set_frame ?f (pmem s ?f) s = s" by (simp add: set_frame_def)
    then show ?case by simp
  next
    case (Suc k)
    let ?s = "set_frame ?f (\<lambda>i. if i < k then 0 else pmem s ?f i) s"
    have "vwrite (pt_va virt + 4 * of_nat k) 0 ?s = Some (set_word ?f k 0 ?s)"
      using vwrite_pte [of ?s k virt 0] Suc.prems assms by simp
    moreover have "(\<lambda>i. if i < k then 0 else pmem s ?f i)(k := 0) = (\<lambda>i. if i < Suc k then 0 else pmem s ?f i)"
      by (rule ext) auto
    ultimately show ?case using Suc by (simp add: for_each_snoc set_word_frame)
  qed
  then show ?thesis by (simp add: zero_pt_def)
qed

lemma count_present_self:
  assumes "self_mapped s" and "present (pd s (dix virt))" and "\<forall>i \<in> set is. i < 1024"
  shows "count_present (pt_va virt) is s =
    Some (length (filter (\<lambda>i. present (pmem s (frame_of (pd s (dix virt))) i)) is))"
  using assms(3)
proof (induction "is")
  case (Cons i "is")
  then show ?case using vread_pte [OF assms(1) _ assms(2), of i] by simp
qed simp

section \<open>The invariant\<close>

abbreviation fnum :: "u32 \<Rightarrow> nat" where "fnum f \<equiv> unat f div 4096"

text \<open>
  Entry 1023 maps the directory; the tables of the other entries are distinct frames, none of
  them the directory; and neither the directory nor a table is a free page.
\<close>

definition vm_inv :: "'z vmm_state_scheme \<Rightarrow> bool" where
  "vm_inv s \<longleftrightarrow> pmm_inv s \<and> self_mapped s \<and>
     (\<forall>d < 1023. present (pd s d) \<longrightarrow> frame_of (pd s d) \<noteq> dir s) \<and>
     (\<forall>d < 1023. \<forall>d' < 1023. present (pd s d) \<and> present (pd s d') \<and> frame_of (pd s d) = frame_of (pd s d')
        \<longrightarrow> d = d') \<and>
     (\<forall>d < 1024. present (pd s d) \<longrightarrow> fnum (frame_of (pd s d)) \<notin> free_pages s) \<and>
     (\<forall>d < 768. present (pd s d) \<longrightarrow> fnum (frame_of (pd s d)) \<in> managed_pages s)"

lemma vm_invD:
  assumes "vm_inv s"
  shows "pmm_inv s" "self_mapped s"
    "\<And>d. d < 1023 \<Longrightarrow> present (pd s d) \<Longrightarrow> frame_of (pd s d) \<noteq> dir s"
    "\<And>d d'. \<lbrakk> d < 1023; d' < 1023; present (pd s d); present (pd s d'); frame_of (pd s d) = frame_of (pd s d') \<rbrakk>
       \<Longrightarrow> d = d'"
    "\<And>d. d < 1024 \<Longrightarrow> present (pd s d) \<Longrightarrow> fnum (frame_of (pd s d)) \<notin> free_pages s"
    "fnum (dir s) \<notin> free_pages s"
    "\<And>d. d < 768 \<Longrightarrow> present (pd s d) \<Longrightarrow> fnum (frame_of (pd s d)) \<in> managed_pages s"
proof -
  from assms show inv: "pmm_inv s" "self_mapped s"
    "\<And>d. d < 1023 \<Longrightarrow> present (pd s d) \<Longrightarrow> frame_of (pd s d) \<noteq> dir s"
    "\<And>d d'. \<lbrakk> d < 1023; d' < 1023; present (pd s d); present (pd s d'); frame_of (pd s d) = frame_of (pd s d') \<rbrakk>
       \<Longrightarrow> d = d'"
    "\<And>d. d < 1024 \<Longrightarrow> present (pd s d) \<Longrightarrow> fnum (frame_of (pd s d)) \<notin> free_pages s"
    "\<And>d. d < 768 \<Longrightarrow> present (pd s d) \<Longrightarrow> fnum (frame_of (pd s d)) \<in> managed_pages s"
    by (auto simp: vm_inv_def)
  from inv(2) inv(5) [of 1023] show "fnum (dir s) \<notin> free_pages s"
    by (simp add: self_mapped_def)
qed

text \<open>Writing entry \<open>i\<close> of the table of entry \<open>d\<close> changes one page and keeps the invariant.\<close>

lemma vm_inv_set_pte:
  assumes "vm_inv s" and "d < 1023" and "present (pd s d)"
  shows "vm_inv (set_word (frame_of (pd s d)) i v s)"
  using assms vm_invD(3) [OF assms] by (auto simp: vm_inv_def set_word_frame)

lemma lookup_set_pte:
  assumes "vm_inv s" and "d < 1023" and "present (pd s d)" and "i < 1024" and "v < 1023 * 1024"
  shows "lookup (set_word (frame_of (pd s d)) i e s) v =
    (if v = d * 1024 + i then if present e then Some e else None else lookup s v)"
proof -
  have v: "v div 1024 < 1023" using assms(5) by (simp add: less_mult_imp_div_less)
  have nd: "frame_of (pd s d) \<noteq> dir s" using vm_invD(3) [OF assms(1-3)] .
  have eq: "frame_of (pd s (v div 1024)) = frame_of (pd s d) \<longleftrightarrow> v div 1024 = d" if "present (pd s (v div 1024))"
    using vm_invD(4) [OF assms(1) v assms(2) that assms(3)] by blast
  have split: "v = d * 1024 + i \<longleftrightarrow> v div 1024 = d \<and> v mod 1024 = i"
  proof
    assume "v = d * 1024 + i"
    then show "v div 1024 = d \<and> v mod 1024 = i" using assms(4) by simp
  next
    assume "v div 1024 = d \<and> v mod 1024 = i"
    then show "v = d * 1024 + i" using div_mult_mod_eq [of v 1024] by simp
  qed
  show ?thesis
    using eq nd assms(3) unfolding split by (auto simp: lookup_def Let_def set_word_frame)
qed

text \<open>Setting flags in a directory entry changes no translation.\<close>

lemma vpn_dix: "v < 1023 * 1024 \<Longrightarrow> v div 1024 < (1023 :: nat)"
  by (simp add: less_mult_imp_div_less)

lemma vm_inv_pde_flags:
  assumes "vm_inv s" and "d < 1023" and "present (pd s d)" and "flags < 0x1000"
  shows "vm_inv (set_word (dir s) d (pd s d OR flags) s)"
    and "v < 1023 * 1024 \<Longrightarrow> lookup (set_word (dir s) d (pd s d OR flags) s) v = lookup s v"
proof -
  let ?s' = "set_word (dir s) d (pd s d OR flags) s"
  have pd': "pd ?s' d' = (if d' = d then pd s d OR flags else pd s d')" for d'
    by (simp add: set_word_frame) (simp add: pd_def)
  have same: "present (pd ?s' d') = present (pd s d')" "frame_of (pd ?s' d') = frame_of (pd s d')" for d'
    using assms(3,4) by (simp_all add: pd' present_or frame_of_flags)
  have dir': "dir ?s' = dir s" "pmm_inv ?s' = pmm_inv s" "free_pages ?s' = free_pages s"
    "managed_pages ?s' = managed_pages s"
    by (simp_all add: set_word_frame)
  show "vm_inv ?s'"
    using assms(1) unfolding vm_inv_def self_mapped_def same dir' .
  assume v: "v < 1023 * 1024"
  have "pmem ?s' (frame_of (pd s (v div 1024))) = pmem s (frame_of (pd s (v div 1024)))"
    if "present (pd s (v div 1024))"
    using vm_invD(3) [OF assms(1) vpn_dix [OF v] that] by (simp add: set_word_frame)
  then show "lookup ?s' v = lookup s v"
    by (simp add: lookup_def Let_def same)
qed

lemma lookup_set_frame:
  assumes "\<And>d. d < 1023 \<Longrightarrow> present (pd s d) \<Longrightarrow> frame_of (pd s d) \<noteq> f" and "f \<noteq> dir s" and "v < 1023 * 1024"
  shows "lookup (set_frame f g s) v = lookup s v"
proof (cases "present (pd s (v div 1024))")
  case True
  from assms(1) [OF vpn_dix [OF assms(3)] True] assms(2) show ?thesis
    by (simp add: lookup_def Let_def)
qed (use assms(2) in \<open>simp add: lookup_def\<close>)

section \<open>vmm\_map\<close>

definition set_pte :: "u32 \<Rightarrow> u32 \<Rightarrow> 'z vmm_state_scheme \<Rightarrow> 'z vmm_state_scheme" where
  "set_pte virt e s = set_word (frame_of (pd s (dix virt))) (tix virt) e s"

text \<open>With the table in place \<open>vmm_map\<close> adds the flags to the directory entry and writes the entry.\<close>

lemma vmm_map_present:
  assumes inv: "vm_inv s" and d: "dix virt < 1023" and pr: "present (pd s (dix virt))" and fl: "flags < 0x1000"
  shows "vmm_map virt phys flags s =
    Some (0, set_pte virt (phys OR flags OR 1) (set_word (dir s) (dix virt) (pd s (dix virt) OR flags) s))"
proof -
  let ?s4 = "set_word (dir s) (dix virt) (pd s (dix virt) OR flags) s"
  have inv4: "vm_inv ?s4" by (rule vm_inv_pde_flags(1) [OF inv d pr fl])
  have "pd ?s4 (dix virt) = pd s (dix virt) OR flags"
    by (simp add: set_word_frame) 
  then have pr4: "present (pd ?s4 (dix virt))" using pr by (simp add: present_or)
  note s = vm_invD(2) [OF inv] and s4 = vm_invD(2) [OF inv4]
  have w: "vwrite (pt_va virt + 4 * of_nat (tix virt)) (phys OR flags OR 1) ?s4 =
      Some (set_pte virt (phys OR flags OR 1) ?s4)"
    unfolding set_pte_def by (rule vwrite_pte [OF s4 _ pr4]) simp
  show ?thesis
    using pr pr4 w
    by (simp add: vmm_map_def vread_pde [OF s] vwrite_pde [OF s] get_pte_self [OF s4])
qed

lemma lookup_set_pte':
  assumes "vm_inv s" and "dix virt < 1023" and "present (pd s (dix virt))" and "v < 1023 * 1024"
  shows "lookup (set_pte virt e s) v =
    (if v = vpn virt then if present e then Some e else None else lookup s v)"
proof -
  have "dix virt * 1024 + tix virt = vpn virt" by simp
  with lookup_set_pte [OF assms(1-3) _ assms(4), of "tix virt" e] show ?thesis
    by (simp add: set_pte_def)
qed

text \<open>What a successful \<open>vmm_map\<close> gives: the new page map, and the frames it may have written.\<close>

definition maps_page ::
  "u32 \<Rightarrow> u32 \<Rightarrow> 'z vmm_state_scheme \<Rightarrow> 'z vmm_state_scheme \<Rightarrow> bool" where
  "maps_page virt e s s' \<longleftrightarrow> vm_inv s' \<and> cr3 s' = cr3 s \<and> cpu_flags s' = cpu_flags s \<and>
     kernel_cr3 s' = kernel_cr3 s \<and> managed_pages s' = managed_pages s \<and>
     present (pd s' (dix virt)) \<and>
     (\<forall>v < 1023 * 1024. lookup s' v = (if v = vpn virt then Some e else lookup s v)) \<and>
     (\<forall>f. f \<noteq> dir s \<and> f \<noteq> frame_of (pd s' (dix virt)) \<longrightarrow> pmem s' f = pmem s f) \<and>
     (\<forall>d. d \<noteq> dix virt \<longrightarrow> pd s' d = pd s d)"

lemma vmm_map_effect_present:
  assumes inv: "vm_inv s" and d: "dix virt < 1023" and pr: "present (pd s (dix virt))" and fl: "flags < 0x1000"
  shows "\<exists>s'. vmm_map virt phys flags s = Some (0, s') \<and> maps_page virt (phys OR flags OR 1) s s' \<and>
    free_pages s' = free_pages s \<and> pd s' (dix virt) = pd s (dix virt) OR flags"
proof -
  let ?s4 = "set_word (dir s) (dix virt) (pd s (dix virt) OR flags) s"
  let ?s' = "set_pte virt (phys OR flags OR 1) ?s4"
  have inv4: "vm_inv ?s4" and l4: "\<And>v. v < 1023 * 1024 \<Longrightarrow> lookup ?s4 v = lookup s v"
    using vm_inv_pde_flags [OF inv d pr fl] by blast+
  have pd4: "pd ?s4 k = (if k = dix virt then pd s (dix virt) OR flags else pd s k)" for k
    by (simp add: set_word_frame) (simp add: pd_def)
  then have pr4: "present (pd ?s4 (dix virt))" using pr by (simp add: present_or)
  have inv': "vm_inv ?s'" unfolding set_pte_def by (rule vm_inv_set_pte [OF inv4 d pr4])
  have nd: "frame_of (pd ?s4 (dix virt)) \<noteq> dir ?s4" by (rule vm_invD(3) [OF inv4 d pr4])
  have dir4: "dir ?s4 = dir s" by (simp add: set_word_frame)
  have pd': "pd ?s' k = pd ?s4 k" for k
    using nd by (simp add: set_pte_def set_word_frame [of "frame_of _"])
  have lk: "lookup ?s' v = (if v = vpn virt then Some (phys OR flags OR 1) else lookup s v)"
    if "v < 1023 * 1024" for v
    using lookup_set_pte' [OF inv4 d pr4 that] l4 [OF that] by (simp flip: or.assoc)
  have fr: "pmem ?s' f = pmem s f" if "f \<noteq> dir s" "f \<noteq> frame_of (pd ?s4 (dix virt))" for f
    using that by (simp add: set_pte_def set_word_def)
  have sel: "cr3 ?s' = cr3 s" "cpu_flags ?s' = cpu_flags s" "kernel_cr3 ?s' = kernel_cr3 s"
    "managed_pages ?s' = managed_pages s"
    by (simp_all add: set_pte_def set_word_def managed_pages_def)
  have oth: "pd ?s4 k = pd s k" if "k \<noteq> dix virt" for k using that pd4 by simp
  have "maps_page virt (phys OR flags OR 1) s ?s'"
    unfolding maps_page_def pd' using inv' lk fr pr4 oth sel by blast
  moreover have "free_pages ?s' = free_pages s" by (simp add: set_pte_def set_word_frame)
  ultimately show ?thesis
    using vmm_map_present [OF inv d pr fl] pd' pd4 by simp
qed

text \<open>Without a table \<open>vmm_map\<close> first installs an empty one in a free page.  The invariant only looks at
  the directory, the frames its entries name, and the free pages.\<close>

lemma vm_inv_add_table:
  assumes inv: "vm_inv s" and d: "d < 1023" and f: "fnum f = p" "p \<in> free_pages s"
    and ab: "\<not> present (pd s d)"
    and n: "pmm_inv s'" "free_pages s' = free_pages s - {p}" "dir s' = dir s"
      "present (pd s' d)" "frame_of (pd s' d) = f" "\<And>k. k \<noteq> d \<Longrightarrow> pd s' k = pd s k"
      "managed_pages s' = managed_pages s"
  shows "vm_inv s'"
proof -
  have nt: "frame_of (pd s k) \<noteq> f" if "k < 1024" "present (pd s k)" for k
    using vm_invD(5) [OF inv that] f by metis
  have nd: "f \<noteq> dir s" using vm_invD(6) [OF inv] f by metis
  have pr: "present (pd s k)" if "present (pd s' k)" "k \<noteq> d" for k
    using that n(6) by simp
  have "pd s' 1023 = pd s 1023" using d n(6) by simp
  then have "self_mapped s'"
    using vm_invD(2) [OF inv] n(3) by (simp add: self_mapped_def)
  moreover have "frame_of (pd s' k) \<noteq> dir s'" if "k < 1023" "present (pd s' k)" for k
  proof (cases "k = d")
    case True
    then show ?thesis using nd n(3,5) by simp
  next
    case False
    then show ?thesis using vm_invD(3) [OF inv that(1) pr [OF that(2)]] n(3,6) by simp
  qed
  moreover have "k = k'" if "k < 1023" "k' < 1023"
    "present (pd s' k) \<and> present (pd s' k') \<and> frame_of (pd s' k) = frame_of (pd s' k')" for k k'
  proof (rule ccontr)
    assume ne: "k \<noteq> k'"
    consider "k = d" "k' \<noteq> d" | "k' = d" "k \<noteq> d" | "k \<noteq> d" "k' \<noteq> d" using ne by blast
    then show False
    proof cases
      case 1
      then show ?thesis using nt [of k'] that pr n(5,6) by simp
    next
      case 2
      then show ?thesis using nt [of k] that pr n(5,6) by simp
    next
      case 3
      then show ?thesis using vm_invD(4) [OF inv that(1,2)] that(3) pr n(6) ne by simp
    qed
  qed
  moreover have "fnum (frame_of (pd s' k)) \<notin> free_pages s'" if "k < 1024" "present (pd s' k)" for k
  proof (cases "k = d")
    case True
    then show ?thesis using f n(2,5) by simp
  next
    case False
    then show ?thesis using vm_invD(5) [OF inv that(1) pr [OF that(2)]] n(2,6) by simp
  qed
  moreover have "fnum (frame_of (pd s' k)) \<in> managed_pages s'" if "k < 768" "present (pd s' k)" for k
  proof (cases "k = d")
    case True
    then show ?thesis using f n(5,7) pmm.avail_managed [OF vm_invD(1) [OF inv]] by auto
  next
    case False
    then show ?thesis using vm_invD(7) [OF inv that(1) pr [OF that(2)]] n(6,7) by simp
  qed
  ultimately show ?thesis using n(1) unfolding vm_inv_def by blast
qed

definition new_table :: "nat \<Rightarrow> u32 \<Rightarrow> u32 \<Rightarrow> 'z vmm_state_scheme \<Rightarrow> 'z vmm_state_scheme" where
  "new_table d f flags s =
     set_frame f (\<lambda>i. if i < 1024 then 0 else pmem s f i) (set_word (dir s) d (f OR flags OR 1) s)"

lemma new_table_facts:
  assumes f: "frame_of f = f" "f \<noteq> dir s" and fl: "flags < 0x1000"
  shows "dir (new_table d f flags s) = dir s"
    "pd (new_table d f flags s) k = (if k = d then f OR flags OR 1 else pd s k)"
    "free_pages (new_table d f flags s) = free_pages s" "pmm_inv (new_table d f flags s) = pmm_inv s"
    "managed_pages (new_table d f flags s) = managed_pages s"
    "cr3 (new_table d f flags s) = cr3 s" "cpu_flags (new_table d f flags s) = cpu_flags s"
    "kernel_cr3 (new_table d f flags s) = kernel_cr3 s"
    "g \<noteq> dir s \<Longrightarrow> g \<noteq> f \<Longrightarrow> pmem (new_table d f flags s) g = pmem s g"
    "i < 1024 \<Longrightarrow> pmem (new_table d f flags s) f i = 0"
  using f
  by (simp_all add: new_table_def set_word_frame) (simp_all add: set_frame_def managed_pages_def pd_def)

lemma lookup_new_table:
  assumes inv: "vm_inv s" and d: "d < 1023" and ab: "\<not> present (pd s d)" and fl: "flags < 0x1000"
    and f: "frame_of f = f" "f \<noteq> dir s" "\<And>k. k < 1024 \<Longrightarrow> present (pd s k) \<Longrightarrow> frame_of (pd s k) \<noteq> f"
    and v: "v < 1023 * 1024"
  shows "lookup (new_table d f flags s) v = lookup s v"
proof -
  note nf = new_table_facts [OF f(1,2) fl, where d = d]
  show ?thesis
  proof (cases "v div 1024 = d")
    case True
    have "frame_of (f OR flags OR 1) = f" by (rule frame_of_entry [OF f(1) fl])
    moreover have "v mod 1024 < 1024" by simp
    ultimately show ?thesis using True ab nf(2) nf(10) by (simp add: lookup_def Let_def)
  next
    case False
    have "pmem (new_table d f flags s) (frame_of (pd s (v div 1024))) = pmem s (frame_of (pd s (v div 1024)))"
      if pr: "present (pd s (v div 1024))"
    proof (rule nf(9))
      show "frame_of (pd s (v div 1024)) \<noteq> dir s" by (rule vm_invD(3) [OF inv vpn_dix [OF v] pr])
      show "frame_of (pd s (v div 1024)) \<noteq> f" using f(3) [OF _ pr] vpn_dix [OF v] by simp
    qed
    then show ?thesis using False nf(2) by (simp add: lookup_def Let_def)
  qed
qed

lemma vm_inv_bitmap:
  assumes "vm_inv s" and "pmm_inv (s\<lparr>bitmap := b\<rparr>)" and "free_pages (s\<lparr>bitmap := b\<rparr>) \<subseteq> free_pages s"
  shows "vm_inv (s\<lparr>bitmap := b\<rparr>)"
proof -
  have "pd (s\<lparr>bitmap := b\<rparr>) = pd s" "dir (s\<lparr>bitmap := b\<rparr>) = dir s"
    "managed_pages (s\<lparr>bitmap := b\<rparr>) = managed_pages s"
    by (simp_all add: pd_def dir_def fun_eq_iff managed_pages_def)
  with assms show ?thesis unfolding vm_inv_def self_mapped_def by auto
qed

lemma vmm_map_absent:
  assumes inv: "vm_inv s" and d: "dix virt < 1023" and ab: "\<not> present (pd s (dix virt))" and fl: "flags < 0x1000"
  shows "(free_pages s = {} \<and> vmm_map virt phys flags s = Some (-1, s)) \<or>
    (\<exists>p s'. p \<in> free_pages s \<and> vmm_map virt phys flags s = Some (0, s') \<and> maps_page virt (phys OR flags OR 1) s s' \<and>
       free_pages s' = free_pages s - {p} \<and> frame_of (pd s' (dix virt)) = page_addr p)"
proof (cases "free_pages s = {}")
  case True
  then show ?thesis
    using ab by (simp add: vmm_map_def vread_pde [OF vm_invD(2) [OF inv]] pmm_alloc_page_none [OF vm_invD(1) [OF inv]])
next
  case False
  obtain p b where al: "pmm_alloc_page s = Some (page_addr p, s\<lparr>bitmap := Some b\<rparr>)" "p \<in> free_pages s"
    "pmm_inv (s\<lparr>bitmap := Some b\<rparr>)" "free_pages (s\<lparr>bitmap := Some b\<rparr>) = free_pages s - {p}"
    by (rule pmm_alloc_page_some [OF vm_invD(1) [OF inv] False])
  define s1 where "s1 = s\<lparr>bitmap := Some b\<rparr>"
  have p20: "0 < p" "p < 2 ^ 20" using free_pages_range [OF vm_invD(1) [OF inv] al(2)] by auto
  have fp: "frame_of (page_addr p) = page_addr p" "fnum (page_addr p) = p" "page_addr p \<noteq> 0"
    using p20 by (simp_all add: frame_of_page_addr page_addr_unat page_addr_0_iff)
  have s1: "dir s1 = dir s" "pd s1 k = pd s k" "pmem s1 = pmem s" "lookup s1 v = lookup s v"
    "cr3 s1 = cr3 s" "cpu_flags s1 = cpu_flags s" "kernel_cr3 s1 = kernel_cr3 s" "managed_pages s1 = managed_pages s" for k v
    by (simp_all add: s1_def dir_def pd_def lookup_def Let_def managed_pages_def)
  have inv1: "vm_inv s1" unfolding s1_def by (rule vm_inv_bitmap [OF inv al(3)]) (use al(4) in blast)
  have nd: "page_addr p \<noteq> dir s1" using vm_invD(6) [OF inv] al(2) fp(2) s1(1) by metis
  have nt: "frame_of (pd s1 k) \<noteq> page_addr p" if "k < 1024" "present (pd s1 k)" for k
    using vm_invD(5) [OF inv that(1)] that(2) al(2) fp(2) s1(2) by metis
  define s2 where "s2 = set_word (dir s1) (dix virt) (page_addr p OR flags OR 1) s1"
  define s3 where "s3 = new_table (dix virt) (page_addr p) flags s1"
  note nf = new_table_facts [OF fp(1) nd fl, where d = "dix virt", folded s3_def]
  have ab1: "\<not> present (pd s1 (dix virt))" using ab s1(2) by simp
  have pd2: "pd s2 (dix virt) = page_addr p OR flags OR 1" "dir s2 = dir s1" "pd s2 1023 = pd s1 1023"
    using d by (simp_all add: s2_def set_word_frame) (simp_all add: pd_def)
  have sm2: "self_mapped s2" using vm_invD(2) [OF inv1] pd2(2,3) by (simp add: self_mapped_def)
  have pr: "present (page_addr p OR flags OR 1)" by (simp flip: or.assoc)
  have fr1: "frame_of (page_addr p OR flags OR 1) = page_addr p" by (rule frame_of_entry [OF fp(1) fl])
  have w: "vwrite (get_pde virt) (page_addr p OR flags OR 1) s1 = Some s2"
    by (simp add: vwrite_pde [OF vm_invD(2) [OF inv1]] s2_def)
  have s23: "pmem s2 (page_addr p) = pmem s1 (page_addr p)"
    using nd by (simp add: s2_def set_word_def)
  have "present (pd s2 (dix virt))" "frame_of (pd s2 (dix virt)) = page_addr p"
    using pr fr1 by (simp_all only: pd2(1))
  then have z: "zero_pt (pt_va virt) s2 = Some s3"
    using zero_pt_self [OF sm2, of virt] pd2(2) nd s23
    unfolding s3_def new_table_def s2_def [symmetric] by (simp cong: if_cong)
  have "free_pages s3 = free_pages s - {p}" "pmm_inv s3"
    using nf(3,4) al(3,4) by (simp_all add: s1_def)
  moreover have "pd s3 (dix virt) = page_addr p OR flags OR 1" "pd s3 k = pd s k" if "k \<noteq> dix virt" for k
    using nf(2) s1(2) that by simp_all
  ultimately have inv3: "vm_inv s3" and pr3: "present (pd s3 (dix virt))"
    using vm_inv_add_table [OF inv d fp(2) al(2) ab, of s3] nf(1,2,5) s1(1,2,8) pr fr1 by simp_all
  have run: "vmm_map virt phys flags s = vmm_map virt phys flags s3"
    using ab al(1) fp(3) w z pr3 pr pd2(1)
    by (simp add: vmm_map_def vread_pde [OF vm_invD(2) [OF inv]] vread_pde [OF vm_invD(2) [OF inv3]]
        get_pt_self [OF sm2] flip: s1_def)
  obtain s' where s': "vmm_map virt phys flags s3 = Some (0, s')"
    "maps_page virt (phys OR flags OR 1) s3 s'" "free_pages s' = free_pages s3"
    "pd s' (dix virt) = pd s3 (dix virt) OR flags"
    using vmm_map_effect_present [OF inv3 d pr3 fl] by blast
  have fr: "frame_of (pd s' (dix virt)) = page_addr p"
    using s'(4) nf(2) fr1 by (simp add: frame_of_flags [OF fl])
  have lk: "lookup s3 v = lookup s v" if "v < 1023 * 1024" for v
    using lookup_new_table [OF inv1 d ab1 fl fp(1) nd nt that] s1(4) by (simp add: s3_def)
  have fm: "pmem s3 f = pmem s f" if "f \<noteq> dir s" "f \<noteq> page_addr p" for f
    using nf(9) [of f] that s1(1,3) by simp
  have "maps_page virt (phys OR flags OR 1) s s'"
    using s'(2) lk fm nf(1,2,5-8) s1 unfolding maps_page_def fr by simp
  with run s'(1,3) al(2) fr \<open>free_pages s3 = free_pages s - {p}\<close> show ?thesis by auto
qed

section \<open>vmm\_unmap\<close>

lemma low_half: "virt < 0xC0000000 \<longleftrightarrow> dix virt < 768"
  by (simp add: word_less_nat_alt div_less_iff_less_mult)

lemma vm_inv_drop_table:
  assumes inv: "vm_inv s" and d: "d < 768" and pr: "present (pd s d)"
    and n: "pmm_inv s'" "free_pages s' = insert (fnum (frame_of (pd s d))) (free_pages s)" "dir s' = dir s"
      "\<not> present (pd s' d)" "\<And>k. k \<noteq> d \<Longrightarrow> pd s' k = pd s k" "managed_pages s' = managed_pages s"
  shows "vm_inv s'"
proof -
  let ?f = "frame_of (pd s d)"
  have p: "present (pd s k) \<and> k \<noteq> d" if "present (pd s' k)" for k
    using that n(4,5) by (cases "k = d") auto
  have fn: "fnum (frame_of x) = fnum (frame_of y) \<Longrightarrow> frame_of x = frame_of y" for x y
    unfolding word_unat_eq_iff by (simp add: unat_frame_of)
  have nd: "frame_of (pd s k) \<noteq> ?f" if "k < 1024" "present (pd s k)" "k \<noteq> d" for k
  proof (cases "k = 1023")
    case True
    then show ?thesis using vm_invD(2) [OF inv] vm_invD(3) [OF inv _ pr] d by (simp add: self_mapped_def)
  next
    case False
    then show ?thesis using vm_invD(4) [OF inv _ _ that(2) pr] that(1,3) d by force
  qed
  have "pd s' 1023 = pd s 1023" using d n(5) by simp
  then have "self_mapped s'" using vm_invD(2) [OF inv] n(3) by (simp add: self_mapped_def)
  moreover have "frame_of (pd s' k) \<noteq> dir s'" if "k < 1023" "present (pd s' k)" for k
    using vm_invD(3) [OF inv that(1)] p [OF that(2)] n(3,5) by simp
  moreover have "k = k'" if "k < 1023" "k' < 1023"
    "present (pd s' k) \<and> present (pd s' k') \<and> frame_of (pd s' k) = frame_of (pd s' k')" for k k'
  proof -
    have a: "present (pd s k) \<and> k \<noteq> d" "present (pd s k') \<and> k' \<noteq> d" using p that(3) by blast+
    then have "frame_of (pd s k) = frame_of (pd s k')" using that(3) n(5) by simp
    then show ?thesis using vm_invD(4) [OF inv that(1,2)] a by blast
  qed
  moreover have "fnum (frame_of (pd s' k)) \<notin> free_pages s'" if k: "k < 1024" "present (pd s' k)" for k
  proof -
    have a: "present (pd s k)" "k \<noteq> d" using p k(2) by blast+
    have "fnum (frame_of (pd s k)) \<noteq> fnum ?f" using nd [OF k(1) a] fn by blast
    then show ?thesis using vm_invD(5) [OF inv k(1) a(1)] n(2) n(5) [OF a(2)] by simp
  qed
  moreover have "fnum (frame_of (pd s' k)) \<in> managed_pages s'" if "k < 768" "present (pd s' k)" for k
    using vm_invD(7) [OF inv that(1)] p [OF that(2)] n(5,6) by simp
  ultimately show ?thesis using n(1) unfolding vm_inv_def by blast
qed

lemma lookup_table_empty:
  assumes "present (pd s d)"
  shows "length (filter (\<lambda>i. present (pmem s (frame_of (pd s d)) i)) [0..<1024]) = 0
    \<longleftrightarrow> (\<forall>v. v div 1024 = d \<longrightarrow> lookup s v = None)"
proof -
  have l: "lookup s v = None \<longleftrightarrow> \<not> present (pmem s (frame_of (pd s d)) (v mod 1024))" if "v div 1024 = d" for v
    using assms that by (simp add: lookup_def Let_def)
  have "(\<forall>i < 1024. \<not> present (pmem s (frame_of (pd s d)) i)) \<longleftrightarrow> (\<forall>v. v div 1024 = d \<longrightarrow> lookup s v = None)"
  proof
    assume "\<forall>i < 1024. \<not> present (pmem s (frame_of (pd s d)) i)"
    then show "\<forall>v. v div 1024 = d \<longrightarrow> lookup s v = None" using l by simp
  next
    assume a: "\<forall>v. v div 1024 = d \<longrightarrow> lookup s v = None"
    show "\<forall>i < 1024. \<not> present (pmem s (frame_of (pd s d)) i)"
    proof (intro allI impI)
      fix i :: nat assume "i < 1024"
      then have "(1024 * d + i) div 1024 = d" "(1024 * d + i) mod 1024 = i" by simp_all
      with l [of "1024 * d + i"] a show "\<not> present (pmem s (frame_of (pd s d)) i)" by simp
    qed
  qed
  then show ?thesis by (auto simp: filter_empty_conv)
qed

definition unmaps_page :: "u32 \<Rightarrow> 'z vmm_state_scheme \<Rightarrow> 'z vmm_state_scheme \<Rightarrow> bool" where
  "unmaps_page virt s s' \<longleftrightarrow> vm_inv s' \<and> cr3 s' = cr3 s \<and> cpu_flags s' = cpu_flags s \<and>
     kernel_cr3 s' = kernel_cr3 s \<and> managed_pages s' = managed_pages s \<and>
     (\<forall>v < 1023 * 1024. lookup s' v = (if v = vpn virt then None else lookup s v)) \<and>
     (\<forall>f. f \<noteq> dir s \<and> f \<noteq> frame_of (pd s (dix virt)) \<longrightarrow> pmem s' f = pmem s f) \<and>
     (\<forall>d. d \<noteq> dix virt \<longrightarrow> pd s' d = pd s d)"

lemma set_pte_facts:
  assumes inv: "vm_inv s" and d: "dix virt < 1023" and pr: "present (pd s (dix virt))"
  shows "vm_inv (set_pte virt e s)" "dir (set_pte virt e s) = dir s" "pd (set_pte virt e s) k = pd s k"
    "free_pages (set_pte virt e s) = free_pages s" "managed_pages (set_pte virt e s) = managed_pages s"
    "cr3 (set_pte virt e s) = cr3 s" "cpu_flags (set_pte virt e s) = cpu_flags s"
    "kernel_cr3 (set_pte virt e s) = kernel_cr3 s" "bitmap_bits (set_pte virt e s) = bitmap_bits s"
    "f \<noteq> frame_of (pd s (dix virt)) \<Longrightarrow> pmem (set_pte virt e s) f = pmem s f"
  using vm_inv_set_pte [OF assms] vm_invD(3) [OF assms]
  by (simp_all add: set_pte_def set_word_frame)

lemma vmm_unmap_absent:
  assumes "vm_inv s" and "lookup s (vpn virt) = None"
  shows "vmm_unmap virt s = Some (-1, s)"
proof -
  have "\<exists>pte. get_pte virt s = Some pte \<and> pte_present pte s = Some False"
    using pte_present_self [OF vm_invD(2) [OF assms(1)], of virt] assms(2)
    by (auto simp: bind_eq_Some_conv)
  then show ?thesis by (auto simp: vmm_unmap_def)
qed

lemma vmm_unmap_mapped:
  assumes inv: "vm_inv s" and d: "dix virt < 1023" and m: "lookup s (vpn virt) \<noteq> None"
  defines "s1 \<equiv> set_pte virt 0 s"
  shows "\<exists>s'. vmm_unmap virt s = Some (0, s') \<and> unmaps_page virt s s' \<and>
    (if dix virt < 768 \<and> (\<forall>v. v div 1024 = dix virt \<longrightarrow> lookup s1 v = None)
     then \<not> present (pd s' (dix virt)) \<and> free_pages s' = insert (fnum (frame_of (pd s (dix virt)))) (free_pages s)
     else s' = s1 \<and> free_pages s' = free_pages s)"
proof -
  let ?f = "frame_of (pd s (dix virt))"
  have pr: "present (pd s (dix virt))" using m by (auto simp: lookup_def Let_def split: if_splits)
  note f1 = set_pte_facts [OF inv d pr, where e = 0, folded s1_def]
  have sm: "self_mapped s" "self_mapped s1" using vm_invD(2) inv f1(1) by blast+
  have pr1: "present (pd s1 (dix virt))" using pr f1(3) by simp
  have lk1: "lookup s1 v = (if v = vpn virt then None else lookup s v)" if "v < 1023 * 1024" for v
    using lookup_set_pte' [OF inv d pr that, of 0] by (simp add: s1_def)
  have pte: "get_pte virt s = Some (pt_va virt + 4 * of_nat (tix virt))"
    using pr by (simp add: get_pte_self [OF sm(1)])
  have pp: "pte_present (pt_va virt + 4 * of_nat (tix virt)) s = Some True"
    using pte_present_self [OF sm(1), of virt] m pte by simp
  have w: "vwrite (pt_va virt + 4 * of_nat (tix virt)) 0 s = Some s1"
    unfolding s1_def set_pte_def by (rule vwrite_pte [OF sm(1) _ pr]) simp
  have pt: "get_pt virt s1 = Some (pt_va virt)" using pr1 by (simp add: get_pt_self [OF sm(2)])
  let ?n = "length (filter (\<lambda>i. present (pmem s1 (frame_of (pd s1 (dix virt))) i)) [0..<1024])"
  have cnt: "count_present (pt_va virt) [0..<1024] s1 = Some ?n"
    by (rule count_present_self [OF sm(2) pr1]) simp
  have un: "vmm_unmap virt s = (if ?n = 0 \<and> virt < 0xC0000000 then do {
       s2 \<leftarrow> pmm_free_page (pd s (dix virt) AND 0xFFFFF000) s1;
       s3 \<leftarrow> vwrite (get_pde virt) 0 s2; Some (0, s3) } else Some (0, s1))"
    by (simp add: vmm_unmap_def pte pp w pt cnt vread_pde [OF sm(2)] f1(3))
  have u1: "unmaps_page virt s s1"
    unfolding unmaps_page_def using f1 lk1 by blast
  show ?thesis
  proof (cases "dix virt < 768 \<and> (\<forall>v. v div 1024 = dix virt \<longrightarrow> lookup s1 v = None)")
    case False
    then have "vmm_unmap virt s = Some (0, s1)"
      using lookup_table_empty [OF pr1] low_half [of virt] by (auto simp: un)
    then show ?thesis using u1 False f1(4) by auto
  next
    case True
    have mg: "fnum ?f \<in> managed_pages s1" using vm_invD(7) [OF f1(1) _ pr1] True f1(3) by simp
    then have b: "unat ?f div 4096 < unat (bitmap_bits s1)" "unat ?f div 4096 \<noteq> 0"
      by (auto simp: managed_pages_def)
    obtain b where b: "pmm_free_page ?f s1 = Some (s1\<lparr>bitmap := Some b\<rparr>)" "pmm_inv (s1\<lparr>bitmap := Some b\<rparr>)"
      "free_pages (s1\<lparr>bitmap := Some b\<rparr>) = insert (fnum ?f) (free_pages s1)"
      by (rule pmm_free_page_ok [OF vm_invD(1) [OF f1(1)] b])
    define s2 where "s2 = s1\<lparr>bitmap := Some b\<rparr>"
    have s2: "pd s2 k = pd s1 k" "dir s2 = dir s1" "pmem s2 = pmem s1" "managed_pages s2 = managed_pages s1"
      "cr3 s2 = cr3 s1" "cpu_flags s2 = cpu_flags s1" "kernel_cr3 s2 = kernel_cr3 s1" for k
      by (simp_all add: s2_def pd_def dir_def managed_pages_def)
    have sm2: "self_mapped s2" using sm(2) s2 by (simp add: self_mapped_def)
    define s3 where "s3 = set_word (dir s2) (dix virt) 0 s2"
    have w3: "vwrite (get_pde virt) 0 s2 = Some s3" by (simp add: vwrite_pde [OF sm2] s3_def)
    have run: "vmm_unmap virt s = Some (0, s3)"
      using True lookup_table_empty [OF pr1] low_half [of virt] b(1) w3
      by (simp add: un frame_of_def flip: s2_def)
    have pd3: "pd s3 k = (if k = dix virt then 0 else pd s k)" for k
    proof -
      have "pmem s2 (dir s2) k = pd s k" by (simp only: pd_def [symmetric] s2(1) f1(3))
      then show ?thesis by (simp add: s3_def set_word_frame)
    qed
    have d3: "dir s3 = dir s" "managed_pages s3 = managed_pages s" "free_pages s3 = insert (fnum ?f) (free_pages s)"
      "pmm_inv s3" "cr3 s3 = cr3 s" "cpu_flags s3 = cpu_flags s" "kernel_cr3 s3 = kernel_cr3 s"
      using b(2,3) f1 s2 by (simp_all add: s3_def set_word_frame) (simp_all add: s2_def)
    have inv3: "vm_inv s3"
      by (rule vm_inv_drop_table [OF inv _ pr]) (use True d3 pd3 in simp_all)
    have fr3: "pmem s3 f = pmem s1 f" if "f \<noteq> dir s" for f
      using that by (simp add: s3_def set_word_def s2 f1(2))
    have lk3: "lookup s3 v = lookup s1 v" if v: "v < 1023 * 1024" for v
    proof (cases "v div 1024 = dix virt")
      case c: True
      then show ?thesis using True pd3 by (simp add: lookup_def Let_def)
    next
      case False
      then show ?thesis
        using vm_invD(3) [OF inv vpn_dix [OF v]] fr3
        by (auto simp: lookup_def Let_def pd3 f1(3))
    qed
    have "unmaps_page virt s s3"
      unfolding unmaps_page_def using inv3 d3 lk3 lk1 fr3 f1(10) pd3 by auto
    then show ?thesis using run True d3(3) pd3 by auto
  qed
qed

section \<open>Data frames\<close>

text \<open>
  A frame that is neither the directory, nor a page table, nor free holds data: no operation of the
  module writes it or makes it a table.
\<close>

definition data_frame :: "'z vmm_state_scheme \<Rightarrow> u32 \<Rightarrow> bool" where
  "data_frame s f \<longleftrightarrow> frame_of f = f \<and> f \<noteq> dir s \<and>
     (\<forall>d < 1023. present (pd s d) \<longrightarrow> frame_of (pd s d) \<noteq> f) \<and> fnum f \<notin> free_pages s"

definition keeps_data :: "'z vmm_state_scheme \<Rightarrow> 'z vmm_state_scheme \<Rightarrow> bool" where
  "keeps_data s s' \<longleftrightarrow> (\<forall>f. data_frame s f \<longrightarrow> data_frame s' f \<and> pmem s' f = pmem s f)"

lemma keeps_data_refl [simp]: "keeps_data s s"
  by (simp add: keeps_data_def)

lemma keeps_data_trans [trans]: "\<lbrakk> keeps_data s t; keeps_data t u \<rbrakk> \<Longrightarrow> keeps_data s u"
  by (simp add: keeps_data_def)

lemma keeps_data_bitmap:
  "free_pages (s\<lparr>bitmap := b\<rparr>) \<subseteq> free_pages s \<Longrightarrow> keeps_data s (s\<lparr>bitmap := b\<rparr>)"
  by (auto simp: keeps_data_def data_frame_def dir_def pd_def)

lemma frame_of_fnum: "\<lbrakk> frame_of f = f; frame_of g = g; fnum f = fnum g \<rbrakk> \<Longrightarrow> f = g"
  by (metis unat_frame_of word_unat_eq_iff)

lemma vmm_map_keeps_data:
  assumes "maps_page virt e s s'" and "dix virt < 1023" and "free_pages s' \<subseteq> free_pages s"
    and "frame_of (pd s' (dix virt)) = frame_of (pd s (dix virt)) \<and> present (pd s (dix virt)) \<or>
      fnum (frame_of (pd s' (dix virt))) \<in> free_pages s"
  shows "keeps_data s s'"
  unfolding keeps_data_def
proof (intro allI impI)
  fix f assume f: "data_frame s f"
  have nt: "frame_of (pd s' (dix virt)) \<noteq> f" using f assms(2,4) by (auto simp: data_frame_def)
  have "dir s' = dir s" using assms(1) by (simp add: maps_page_def dir_def)
  moreover have "frame_of (pd s' d) \<noteq> f" if "d < 1023" "present (pd s' d)" for d
    using that nt f assms(1) by (cases "d = dix virt") (auto simp: maps_page_def data_frame_def)
  ultimately show "data_frame s' f \<and> pmem s' f = pmem s f"
    using f nt assms(1,3) by (auto simp: data_frame_def maps_page_def)
qed

lemma vmm_unmap_keeps_data:
  assumes "unmaps_page virt s s'" and "dix virt < 1023" and "present (pd s (dix virt))"
    and "\<not> present (pd s' (dix virt)) \<and> free_pages s' = insert (fnum (frame_of (pd s (dix virt)))) (free_pages s) \<or>
      pd s' (dix virt) = pd s (dix virt) \<and> free_pages s' = free_pages s"
  shows "keeps_data s s'"
  unfolding keeps_data_def
proof (intro allI impI)
  fix f assume f: "data_frame s f"
  then have nt: "frame_of (pd s (dix virt)) \<noteq> f" using assms(2,3) by (simp add: data_frame_def)
  have fn: "fnum f \<noteq> fnum (frame_of (pd s (dix virt)))"
    using frame_of_fnum [of f "frame_of (pd s (dix virt))"] f nt by (auto simp: data_frame_def)
  have "dir s' = dir s" using assms(1) by (simp add: unmaps_page_def dir_def)
  moreover have "frame_of (pd s' d) \<noteq> f" if "d < 1023" "present (pd s' d)" for d
    using that nt f assms(1,4) by (cases "d = dix virt") (auto simp: unmaps_page_def data_frame_def)
  moreover have "fnum f \<notin> free_pages s'" using assms(4) f fn by (auto simp: data_frame_def)
  ultimately show "data_frame s' f \<and> pmem s' f = pmem s f"
    using f nt assms(1) by (auto simp: data_frame_def unmaps_page_def)
qed

text \<open>A page just taken from the allocator is a data frame.\<close>

lemma data_frame_taken:
  assumes "vm_inv s" and "p \<in> free_pages s" and "free_pages (s\<lparr>bitmap := b\<rparr>) = free_pages s - {p}"
  shows "data_frame (s\<lparr>bitmap := b\<rparr>) (page_addr p)"
proof -
  have p20: "0 < p" "p < 2 ^ 20" using free_pages_range [OF vm_invD(1) [OF assms(1)] assms(2)] by auto
  then have fp: "frame_of (page_addr p) = page_addr p" "fnum (page_addr p) = p"
    by (simp_all add: frame_of_page_addr page_addr_unat)
  have "page_addr p \<noteq> dir s" using vm_invD(6) [OF assms(1)] assms(2) fp(2) by metis
  moreover have "frame_of (pd s d) \<noteq> page_addr p" if "d < 1023" "present (pd s d)" for d
    using vm_invD(5) [OF assms(1), of d] that assms(2) fp(2) by fastforce
  ultimately show ?thesis using fp assms(3) by (simp add: data_frame_def dir_def pd_def)
qed

end
