(* ===== verification/Vmm_Alloc.thy ===== *)
theory Vmm_Alloc
  imports Vmm_Map
begin

text \<open>
  \<open>vmm_alloc_pages_region\<close> over the page map: the search finds the lowest run of unmapped pages, and
  mapping it either succeeds on all pages or leaves the page map as it was.
\<close>

section \<open>The search\<close>

lemma page_addr_Suc: "page_addr q + PAGE_SIZE = page_addr (Suc q)"
  by (simp add: page_addr_def algebra_simps)

lemma vpn_page_addr: "q < 2 ^ 20 \<Longrightarrow> vpn (page_addr q) = q"
  by (simp add: page_addr_unat)

lemma used_page:
  assumes "self_mapped s" and "q < 2 ^ 20"
  obtains pte where "get_pte (page_addr q) s = Some pte" "pte_present pte s = Some (lookup s q \<noteq> None)"
  using pte_present_self [OF assms(1), of "page_addr q"] vpn_page_addr [OF assms(2)]
  by (auto simp: bind_eq_Some_conv)

definition is_run :: "'z vmm_state_scheme \<Rightarrow> nat \<Rightarrow> nat \<Rightarrow> bool" where
  "is_run s n q \<longleftrightarrow> (\<forall>i < n. lookup s (q + i) = None)"

text \<open>\<open>r\<close> is the first page of the lowest run of \<open>n\<close> pages in \<open>[a, b)\<close>, or there is none.\<close>

definition lowest_run :: "'z vmm_state_scheme \<Rightarrow> nat \<Rightarrow> nat \<Rightarrow> nat \<Rightarrow> u32 option \<Rightarrow> bool" where
  "lowest_run s n a b r \<longleftrightarrow>
     (case r of
        None \<Rightarrow> \<forall>q. a \<le> q \<and> q + n \<le> b \<longrightarrow> \<not> is_run s n q
      | Some f \<Rightarrow> \<exists>q. f = page_addr q \<and> a \<le> q \<and> q + n \<le> b \<and> is_run s n q \<and>
                      (\<forall>q'. a \<le> q' \<and> q' < q \<longrightarrow> \<not> is_run s n q'))"

lemma not_run_over: "\<lbrakk> lookup s q \<noteq> None; q' \<le> q; q < q' + n \<rbrakk> \<Longrightarrow> \<not> is_run s n q'"
  unfolding is_run_def by (metis add.commute le_add_diff_inverse2 less_diff_conv2)

lemma lowest_run_skip:
  assumes "lookup s q \<noteq> None" and "q < a + n" and "a \<le> q" and "lowest_run s n (Suc q) b r"
  shows "lowest_run s n a b r"
proof -
  have no: "\<not> is_run s n q'" if "a \<le> q'" "q' \<le> q" for q'
  proof -
    have "q < q' + n" using that(1) assms(2) by simp
    then show ?thesis by (rule not_run_over [OF assms(1) that(2)])
  qed
  show ?thesis
  proof (cases r)
    case None
    then show ?thesis
      using assms(4) no by (auto simp: lowest_run_def) (metis not_less_eq_eq)
  next
    case (Some f)
    then obtain q0 where q0: "f = page_addr q0" "Suc q \<le> q0" "q0 + n \<le> b" "is_run s n q0"
      "\<forall>q'. Suc q \<le> q' \<and> q' < q0 \<longrightarrow> \<not> is_run s n q'"
      using assms(4) by (auto simp: lowest_run_def)
    have "\<not> is_run s n q'" if "a \<le> q'" "q' < q0" for q'
      using no [of q'] q0(5) that by (cases "q' \<le> q") auto
    then show ?thesis using Some q0 assms(3) by (auto simp: lowest_run_def)
  qed
qed

lemma lowest_run_start:
  "\<lbrakk> is_run s n a; a + n \<le> b \<rbrakk> \<Longrightarrow> lowest_run s n a b (Some (page_addr a))"
  unfolding lowest_run_def option.case by (intro exI [of _ a]) auto

lemma find_run_ok:
  assumes "self_mapped s" and "c < unat n" and "c \<le> q" and "q + k \<le> 2 ^ 20"
    and "\<forall>i. q - c \<le> i \<and> i < q \<longrightarrow> lookup s i = None" and "c \<noteq> 0 \<Longrightarrow> first = page_addr (q - c)"
  shows "\<exists>r. find_run n k (page_addr q) (of_nat c) first s = Some r \<and> lowest_run s (unat n) (q - c) (q + k) r"
  using assms(2-6)
proof (induction k arbitrary: q c first)
  case 0
  have "\<not> is_run s (unat n) q'" if "q - c \<le> q'" "q' + unat n \<le> q" for q'
    using 0 that by linarith
  then show ?case by (simp add: lowest_run_def)
next
  case (Suc k)
  have q20: "q < 2 ^ 20" using Suc.prems by simp
  obtain pte where pte: "get_pte (page_addr q) s = Some pte" "pte_present pte s = Some (lookup s q \<noteq> None)"
    by (rule used_page [OF assms(1) q20])
  have c32: "unat (of_nat c :: u32) = c" "unat (of_nat (Suc c) :: u32) = Suc c"
    using Suc.prems unat_lt [of n] by (simp_all add: unat_of_nat_small del: of_nat_Suc)
  show ?case
  proof (cases "lookup s q = None")
    case True
    let ?first = "if (of_nat c :: u32) = 0 then page_addr q else first"
    have f: "?first = page_addr (Suc q - Suc c)"
      using Suc.prems(5) c32(1) by (cases "c = 0") auto
    have eq: "(of_nat c :: u32) + 1 = of_nat (Suc c)" by simp
    have un: "\<forall>i. q - c \<le> i \<and> i < Suc q \<longrightarrow> lookup s i = None"
      using Suc.prems(4) True by (auto simp: less_Suc_eq)
    show ?thesis
    proof (cases "Suc c = unat n")
      case c: True
      have "unat (of_nat (Suc c) :: u32) = unat n" by (rule trans [OF c32(2) c])
      then have "(of_nat (Suc c) :: u32) = n" by (simp only: word_unat_eq_iff)
      then have "find_run n (Suc k) (page_addr q) (of_nat c) first s = Some (Some ?first)"
        using True pte by (simp add: Let_def add.commute)
      moreover have "is_run s (unat n) (q - c)"
        unfolding is_run_def c [symmetric]
      proof (intro allI impI)
        fix i assume "i < Suc c"
        then have "q - c \<le> q - c + i \<and> q - c + i < Suc q" using Suc.prems(2) by linarith
        with un show "lookup s (q - c + i) = None" by blast
      qed
      then have "lowest_run s (unat n) (q - c) (q + Suc k) (Some (page_addr (q - c)))"
        by (rule lowest_run_start) (use Suc.prems(2) c in linarith)
      moreover have "?first = page_addr (q - c)" using f by simp
      ultimately show ?thesis by (intro exI [of _ "Some ?first"]) (simp only: simp_thms)
    next
      case c: False
      then have "(of_nat (Suc c) :: u32) \<noteq> n" using c32(2) by metis
      then have run: "find_run n (Suc k) (page_addr q) (of_nat c) first s =
          find_run n k (page_addr (Suc q)) (of_nat (Suc c)) ?first s"
        using True pte by (simp add: Let_def add.commute page_addr_Suc)
      have "\<exists>r. find_run n k (page_addr (Suc q)) (of_nat (Suc c)) ?first s = Some r \<and>
          lowest_run s (unat n) (Suc q - Suc c) (Suc q + k) r"
        by (rule Suc.IH) (use c Suc.prems f un in auto)
      then show ?thesis unfolding run by simp
    qed
  next
    case False
    have n0: "n \<noteq> 0" using Suc.prems(1) by auto
    then have run: "find_run n (Suc k) (page_addr q) (of_nat c) first s =
        find_run n k (page_addr (Suc q)) (of_nat 0) first s"
      using False pte by (simp add: Let_def page_addr_Suc)
    have "\<exists>r. find_run n k (page_addr (Suc q)) (of_nat 0) first s = Some r \<and>
        lowest_run s (unat n) (Suc q - 0) (Suc q + k) r"
      by (rule Suc.IH) (use Suc.prems in auto)
    then obtain r where r: "find_run n k (page_addr (Suc q)) (of_nat 0) first s = Some r"
      "lowest_run s (unat n) (Suc q) (Suc q + k) r" by auto
    have "lowest_run s (unat n) (q - c) (q + Suc k) r"
      using lowest_run_skip [OF False _ _ r(2), of "q - c"] Suc.prems(1,2) by simp
    then show ?thesis unfolding run using r(1) by auto
  qed
qed

section \<open>Mapping the run\<close>

abbreviation low_pages :: nat where "low_pages \<equiv> 1023 * 1024"

lemma dix_page_addr: "q < low_pages \<Longrightarrow> dix (page_addr q) < 1023"
  by (simp add: page_addr_unat less_mult_imp_div_less)

lemma vmm_unmap_ok:
  assumes "vm_inv s" and "q < low_pages"
  shows "\<exists>r s'. vmm_unmap (page_addr q) s = Some (r, s') \<and> vm_inv s' \<and> cr3 s' = cr3 s \<and> cpu_flags s' = cpu_flags s \<and>
    keeps_data s s' \<and> (\<forall>v < low_pages. lookup s' v = (if v = q then None else lookup s v))"
proof (cases "lookup s q = None")
  case True
  have q: "vpn (page_addr q) = q" using assms(2) by (simp add: page_addr_unat)
  have "vmm_unmap (page_addr q) s = Some (-1, s)"
    by (rule vmm_unmap_absent [OF assms(1)]) (simp only: q True)
  then show ?thesis using assms(1) True by auto
next
  case False
  have q: "vpn (page_addr q) = q" using assms(2) by (simp add: page_addr_unat)
  note d = dix_page_addr [OF assms(2)]
  have pr: "present (pd s (dix (page_addr q)))" using False q by (auto simp: lookup_def Let_def split: if_splits)
  obtain s' where s': "vmm_unmap (page_addr q) s = Some (0, s')" "unmaps_page (page_addr q) s s'" "keeps_data s s'"
  proof -
    obtain s' where s': "vmm_unmap (page_addr q) s = Some (0, s')" "unmaps_page (page_addr q) s s'"
      "(if dix (page_addr q) < 768 \<and> (\<forall>v. v div 1024 = dix (page_addr q) \<longrightarrow> lookup (set_pte (page_addr q) 0 s) v = None)
        then \<not> present (pd s' (dix (page_addr q))) \<and>
          free_pages s' = insert (fnum (frame_of (pd s (dix (page_addr q))))) (free_pages s)
        else s' = set_pte (page_addr q) 0 s \<and> free_pages s' = free_pages s)"
      using vmm_unmap_mapped [OF assms(1) d] False q by metis
    have "keeps_data s s'"
      by (rule vmm_unmap_keeps_data [OF s'(2) d pr])
        (use s'(3) set_pte_facts(3) [OF assms(1) d pr] in \<open>auto split: if_splits\<close>)
    with s'(1,2) show thesis by (rule that)
  qed
  then show ?thesis using q unfolding unmaps_page_def by metis
qed

lemma rollback_ok:
  assumes "vm_inv s" and "q + k \<le> low_pages"
  shows "\<exists>s'. rollback (page_addr q) k s = Some s' \<and> vm_inv s' \<and> cr3 s' = cr3 s \<and> cpu_flags s' = cpu_flags s \<and>
    keeps_data s s' \<and> (\<forall>v < low_pages. lookup s' v = (if q \<le> v \<and> v < q + k then None else lookup s v))"
  using assms
proof (induction k arbitrary: q s)
  case (Suc k)
  have "q < low_pages" using Suc.prems(2) by simp
  then obtain r s1 where s1: "vmm_unmap (page_addr q) s = Some (r, s1)" "vm_inv s1" "cr3 s1 = cr3 s"
    "cpu_flags s1 = cpu_flags s" "keeps_data s s1" "\<forall>v < low_pages. lookup s1 v = (if v = q then None else lookup s v)"
    using vmm_unmap_ok [OF Suc.prems(1)] by blast
  have "Suc q + k \<le> low_pages" using Suc.prems(2) by simp
  from Suc.IH [OF s1(2) this] obtain s2 where s2: "rollback (page_addr (Suc q)) k s1 = Some s2" "vm_inv s2"
    "cr3 s2 = cr3 s1" "cpu_flags s2 = cpu_flags s1" "keeps_data s1 s2"
    "\<forall>v < low_pages. lookup s2 v = (if Suc q \<le> v \<and> v < Suc q + k then None else lookup s1 v)" by blast
  have "lookup s2 v = (if q \<le> v \<and> v < q + Suc k then None else lookup s v)" if "v < low_pages" for v
    using s1(6) s2(6) that by auto
  then show ?case using s1 s2 keeps_data_trans [OF s1(5) s2(5)] by (simp add: page_addr_Suc)
qed auto

lemma vmm_map_ok:
  assumes "vm_inv s" and "q < low_pages" and "flags < 0x1000"
  shows "(\<exists>s'. vmm_map (page_addr q) phys flags s = Some (0, s') \<and>
        maps_page (page_addr q) (phys OR flags OR 1) s s' \<and> free_pages s' \<subseteq> free_pages s \<and> keeps_data s s') \<or>
    vmm_map (page_addr q) phys flags s = Some (-1, s)"
proof (cases "present (pd s (dix (page_addr q)))")
  case True
  note d = dix_page_addr [OF assms(2)]
  obtain s' where s': "vmm_map (page_addr q) phys flags s = Some (0, s')"
    "maps_page (page_addr q) (phys OR flags OR 1) s s'" "free_pages s' = free_pages s"
    "pd s' (dix (page_addr q)) = pd s (dix (page_addr q)) OR flags"
    using vmm_map_effect_present [OF assms(1) d True assms(3)] by blast
  have "keeps_data s s'"
    by (rule vmm_map_keeps_data [OF s'(2) d]) (simp_all add: s'(3,4) frame_of_flags [OF assms(3)] True)
  then show ?thesis using s'(1-3) by blast
next
  case False
  note d = dix_page_addr [OF assms(2)]
  from vmm_map_absent [OF assms(1) d False assms(3), of phys] show ?thesis
  proof (elim disjE exE conjE)
    fix p s'
    assume s': "p \<in> free_pages s" "vmm_map (page_addr q) phys flags s = Some (0, s')"
      "maps_page (page_addr q) (phys OR flags OR 1) s s'" "free_pages s' = free_pages s - {p}"
      "frame_of (pd s' (dix (page_addr q))) = page_addr p"
    have "fnum (page_addr p) = p"
      using free_pages_range [OF vm_invD(1) [OF assms(1)] s'(1)] by (simp add: page_addr_unat)
    then have "keeps_data s s'"
      using s'(1) by (intro vmm_map_keeps_data [OF s'(3) d]) (simp_all add: s'(4,5))
    then show ?thesis using s'(2-4) by blast
  qed blast
qed

text \<open>The page map after \<open>k\<close> pages from \<open>q\<close> were mapped to the pages \<open>ps\<close>.\<close>

definition entry_for :: "nat \<Rightarrow> u32 \<Rightarrow> u32" where
  "entry_for p flags = page_addr p OR flags OR 1"

definition run_mapped :: "u32 \<Rightarrow> nat \<Rightarrow> nat list \<Rightarrow> 'z vmm_state_scheme \<Rightarrow> 'z vmm_state_scheme \<Rightarrow> bool" where
  "run_mapped flags q ps s s' \<longleftrightarrow> vm_inv s' \<and> cr3 s' = cr3 s \<and> cpu_flags s' = cpu_flags s \<and>
     distinct ps \<and> set ps \<subseteq> free_pages s \<and> free_pages s' \<subseteq> free_pages s - set ps \<and>
     keeps_data s s' \<and> (\<forall>p \<in> set ps. data_frame s' (page_addr p)) \<and>
     (\<forall>v < low_pages. lookup s' v =
        (if q \<le> v \<and> v < q + length ps then Some (entry_for (ps ! (v - q)) flags) else lookup s v))"

definition map_restored :: "nat \<Rightarrow> nat \<Rightarrow> 'z vmm_state_scheme \<Rightarrow> 'z vmm_state_scheme \<Rightarrow> bool" where
  "map_restored q j s s' \<longleftrightarrow> vm_inv s' \<and> cr3 s' = cr3 s \<and> cpu_flags s' = cpu_flags s \<and> keeps_data s s' \<and>
     (\<forall>v < low_pages. lookup s' v = (if q \<le> v \<and> v < q + j then None else lookup s v))"

lemma alloc_bitmap:
  assumes "vm_inv s" and "free_pages s \<noteq> {}"
  obtains p b where "pmm_alloc_page s = Some (page_addr p, s\<lparr>bitmap := Some b\<rparr>)" "p \<in> free_pages s"
    "page_addr p \<noteq> 0" "vm_inv (s\<lparr>bitmap := Some b\<rparr>)" "free_pages (s\<lparr>bitmap := Some b\<rparr>) = free_pages s - {p}"
proof (rule pmm_alloc_page_some [OF vm_invD(1) [OF assms(1)] assms(2)])
  fix p b
  assume a: "pmm_alloc_page s = Some (page_addr p, s\<lparr>bitmap := Some b\<rparr>)" "p \<in> free_pages s"
    "pmm_inv (s\<lparr>bitmap := Some b\<rparr>)" "free_pages (s\<lparr>bitmap := Some b\<rparr>) = free_pages s - {p}"
  have "page_addr p \<noteq> 0"
    using free_pages_range [OF vm_invD(1) [OF assms(1)] a(2)] by (simp add: page_addr_0_iff)
  moreover have "vm_inv (s\<lparr>bitmap := Some b\<rparr>)"
    by (rule vm_inv_bitmap [OF assms(1) a(3)]) (use a(4) in blast)
  ultimately show thesis using that a by blast
qed

lemma lookup_bitmap [simp]:
  "lookup (s\<lparr>bitmap := b\<rparr>) v = lookup s v" "dir (s\<lparr>bitmap := b\<rparr>) = dir s" "pd (s\<lparr>bitmap := b\<rparr>) d = pd s d"
  by (simp_all add: lookup_def Let_def pd_def dir_def)

lemma give_back:
  assumes "vm_inv s" and "p \<in> free_pages s"
    and "pmm_inv (s\<lparr>bitmap := Some b\<rparr>)" and "free_pages (s\<lparr>bitmap := Some b\<rparr>) = free_pages s - {p}"
  shows "\<exists>b'. pmm_free_page (page_addr p) (s\<lparr>bitmap := Some b\<rparr>) = Some (s\<lparr>bitmap := Some b'\<rparr>) \<and>
    vm_inv (s\<lparr>bitmap := Some b'\<rparr>) \<and> keeps_data s (s\<lparr>bitmap := Some b'\<rparr>) \<and>
    free_pages (s\<lparr>bitmap := Some b'\<rparr>) = free_pages s"
proof -
  let ?s = "s\<lparr>bitmap := Some b\<rparr>"
  have r: "0 < p" "p < 2 ^ 20" using free_pages_range [OF vm_invD(1) [OF assms(1)] assms(2)] by auto
  have p: "unat (page_addr p) div 4096 = p" using r by (simp add: page_addr_unat)
  have "p \<in> managed_pages s" using pmm.avail_managed [OF vm_invD(1) [OF assms(1)]] assms(2) by blast
  then have "unat (page_addr p) div 4096 < unat (bitmap_bits ?s)" "unat (page_addr p) div 4096 \<noteq> 0"
    using r p by (simp_all add: managed_pages_def)
  then obtain b' where b': "pmm_free_page (page_addr p) ?s = Some (?s\<lparr>bitmap := Some b'\<rparr>)"
    "pmm_inv (?s\<lparr>bitmap := Some b'\<rparr>)" "free_pages (?s\<lparr>bitmap := Some b'\<rparr>) = insert p (free_pages ?s)"
    using pmm_free_page_ok [OF assms(3), of "page_addr p"] unfolding p by blast
  have eq: "free_pages (s\<lparr>bitmap := Some b'\<rparr>) = free_pages s" using b'(3) assms(2,4) by auto
  then have sub: "free_pages (s\<lparr>bitmap := Some b'\<rparr>) \<subseteq> free_pages s" by simp
  then have "vm_inv (s\<lparr>bitmap := Some b'\<rparr>)"
    using b'(2) by (intro vm_inv_bitmap [OF assms(1)]) simp_all
  then show ?thesis using b'(1) keeps_data_bitmap [OF sub] eq by auto
qed

lemma map_run_ok:
  assumes "vm_inv s" and "flags < 0x1000" and "q0 + j + k \<le> low_pages"
    and "\<forall>v. q0 + j \<le> v \<and> v < q0 + j + k \<longrightarrow> lookup s v = None"
  shows "(\<exists>ps s'. map_run flags (page_addr q0) j (page_addr (q0 + j)) k s = Some (page_addr q0, s') \<and>
        length ps = k \<and> run_mapped flags (q0 + j) ps s s') \<or>
    (\<exists>s'. map_run flags (page_addr q0) j (page_addr (q0 + j)) k s = Some (0, s') \<and> map_restored q0 j s s')"
  using assms
proof (induction k arbitrary: j s)
  case 0
  then have "run_mapped flags (q0 + j) [] s s" by (auto simp: run_mapped_def)
  then show ?case by (intro disjI1 exI [of _ "[]"] exI [of _ s]) simp
next
  case (Suc k)
  note inv = Suc.prems(1)
  have q: "q0 + j < low_pages" "q0 + j \<le> low_pages" using Suc.prems(3) by simp_all
  have roll: "\<exists>s'. rollback (page_addr q0) j t = Some s' \<and> map_restored q0 j t s'" if "vm_inv t" for t :: "'a vmm_state_scheme"
    using rollback_ok [OF that q(2)] by (simp add: map_restored_def)
  show ?case
  proof (cases "free_pages s = {}")
    case True
    obtain s' where s': "rollback (page_addr q0) j s = Some s'" "map_restored q0 j s s'"
      using roll [OF inv] by blast
    have "map_run flags (page_addr q0) j (page_addr (q0 + j)) (Suc k) s = Some (0, s')"
      using pmm_alloc_page_none [OF vm_invD(1) [OF inv] True] s'(1) by simp
    then show ?thesis using s'(2) by blast
  next
    case False
    obtain p b where al: "pmm_alloc_page s = Some (page_addr p, s\<lparr>bitmap := Some b\<rparr>)" "p \<in> free_pages s"
      "page_addr p \<noteq> 0" "vm_inv (s\<lparr>bitmap := Some b\<rparr>)" "free_pages (s\<lparr>bitmap := Some b\<rparr>) = free_pages s - {p}"
      by (rule alloc_bitmap [OF inv False])
    let ?s1 = "s\<lparr>bitmap := Some b\<rparr>"
    from vmm_map_ok [OF al(4) q(1) Suc.prems(2), of "page_addr p"] show ?thesis
    proof (elim disjE exE conjE)
      assume m: "vmm_map (page_addr (q0 + j)) (page_addr p) flags ?s1 = Some (-1, ?s1)"
      obtain b' where b': "pmm_free_page (page_addr p) ?s1 = Some (s\<lparr>bitmap := Some b'\<rparr>)"
        "vm_inv (s\<lparr>bitmap := Some b'\<rparr>)" "keeps_data s (s\<lparr>bitmap := Some b'\<rparr>)"
        using give_back [OF inv al(2) vm_invD(1) [OF al(4)] al(5)] by blast
      obtain s' where s': "rollback (page_addr q0) j (s\<lparr>bitmap := Some b'\<rparr>) = Some s'"
        "map_restored q0 j (s\<lparr>bitmap := Some b'\<rparr>) s'"
        using roll [OF b'(2)] by blast
      have "map_run flags (page_addr q0) j (page_addr (q0 + j)) (Suc k) s = Some (0, s')"
        using al(1,3) m b'(1) s'(1) by simp
      moreover have "map_restored q0 j s s'"
        using s'(2) keeps_data_trans [OF b'(3)] by (simp add: map_restored_def)
      ultimately show ?thesis by blast
    next
      fix s2
      assume m: "vmm_map (page_addr (q0 + j)) (page_addr p) flags ?s1 = Some (0, s2)"
        and mp: "maps_page (page_addr (q0 + j)) (page_addr p OR flags OR 1) ?s1 s2"
        and fr: "free_pages s2 \<subseteq> free_pages ?s1" and kd: "keeps_data ?s1 s2"
      have v: "vpn (page_addr (q0 + j)) = q0 + j" using q(1) by (simp add: page_addr_unat)
      have lk: "lookup s2 v = (if v = q0 + j then Some (entry_for p flags) else lookup s v)" if "v < low_pages" for v
        using mp that unfolding maps_page_def v entry_for_def by simp
      have sel: "vm_inv s2" "cr3 s2 = cr3 s" "cpu_flags s2 = cpu_flags s"
        using mp by (simp_all add: maps_page_def)
      have k1: "keeps_data s s2"
        using keeps_data_trans [OF keeps_data_bitmap kd] al(5) by simp
      have dp: "data_frame s2 (page_addr p)"
        using kd data_frame_taken [OF inv al(2,5)] by (simp add: keeps_data_def)
      have run: "map_run flags (page_addr q0) j (page_addr (q0 + j)) (Suc k) s =
          map_run flags (page_addr q0) (Suc j) (page_addr (q0 + Suc j)) k s2"
        using al(1,3) m by (simp add: page_addr_Suc)
      have lim: "q0 + Suc j + k \<le> low_pages" using Suc.prems(3) by simp
      have un: "\<forall>v. q0 + Suc j \<le> v \<and> v < q0 + Suc j + k \<longrightarrow> lookup s2 v = None"
        using lk Suc.prems(4) lim by simp
      from Suc.IH [OF sel(1) Suc.prems(2) lim un] show ?thesis
      proof (elim disjE exE conjE)
        fix ps s'
        assume r: "map_run flags (page_addr q0) (Suc j) (page_addr (q0 + Suc j)) k s2 = Some (page_addr q0, s')"
          and len: "length ps = k" and rm: "run_mapped flags (q0 + Suc j) ps s2 s'"
        have "lookup s' v = (if q0 + j \<le> v \<and> v < q0 + j + length (p # ps)
            then Some (entry_for ((p # ps) ! (v - (q0 + j))) flags) else lookup s v)" if "v < low_pages" for v
        proof -
          have "(p # ps) ! (v - (q0 + j)) = (if v = q0 + j then p else ps ! (v - (q0 + Suc j)))"
            if "q0 + j \<le> v"
          proof (cases "v = q0 + j")
            case False
            then have "v - (q0 + j) = Suc (v - (q0 + Suc j))" using that by simp
            then show ?thesis using False by simp
          qed simp
          then show ?thesis using rm lk [OF that] that by (auto simp: run_mapped_def)
        qed
        moreover have "keeps_data s s'"
          by (rule keeps_data_trans [OF k1]) (use rm in \<open>simp add: run_mapped_def\<close>)
        moreover have "data_frame s' (page_addr p)"
          using rm dp unfolding run_mapped_def keeps_data_def by blast
        moreover have "distinct (p # ps)" "set (p # ps) \<subseteq> free_pages s" "free_pages s' \<subseteq> free_pages s - set (p # ps)"
          using rm fr al(2,5) by (auto simp: run_mapped_def)
        ultimately have "run_mapped flags (q0 + j) (p # ps) s s'"
          using rm sel unfolding run_mapped_def by simp
        then show ?thesis using r run len by (intro disjI1 exI [of _ "p # ps"] exI [of _ s']) simp
      next
        fix s'
        assume r: "map_run flags (page_addr q0) (Suc j) (page_addr (q0 + Suc j)) k s2 = Some (0, s')"
          and mr: "map_restored q0 (Suc j) s2 s'"
        have "lookup s (q0 + j) = None" using Suc.prems(4) by simp
        moreover have "keeps_data s s'"
          by (rule keeps_data_trans [OF k1]) (use mr in \<open>simp add: map_restored_def\<close>)
        ultimately have "map_restored q0 j s s'"
          using mr lk sel unfolding map_restored_def by (simp add: less_Suc_eq)
        then show ?thesis using r run by auto
      qed
    qed
  qed
qed

section \<open>The whole operation\<close>

lemma align_page:
  "unat x + 4095 < 2 ^ 32 \<Longrightarrow> unat (align_up x PAGE_SIZE) = (unat x + 4095) div 4096 * 4096"
  "unat (align_down x PAGE_SIZE) = unat x div 4096 * 4096"
  using align_up_unat [of x 12] align_down_unat [of x 12] by (simp_all add: minus_mod_eq_div_mult)

lemma page_steps_pages: "\<lbrakk> unat x = i * 4096; unat y = j * 4096 \<rbrakk> \<Longrightarrow> page_steps x y = j - i"
proof -
  have "j * 4096 - i * 4096 = 4096 * (j - i)" by (simp add: algebra_simps)
  then show "unat x = i * 4096 \<Longrightarrow> unat y = j * 4096 \<Longrightarrow> page_steps x y = j - i"
    unfolding page_steps_def by simp
qed

lemma unat_pages: "unat n * 4096 < 2 ^ 32 \<Longrightarrow> unat (n * PAGE_SIZE) = unat n * 4096"
  by (subst unat_mult_nowrap) simp_all

lemma unat_run_end:
  assumes "unat x = q * 4096" and "q * 4096 + unat n * 4096 < 2 ^ 32"
  shows "unat (x + n * PAGE_SIZE) = (q + unat n) * 4096"
proof -
  have "unat n * 4096 < 2 ^ 32" using assms(2) by linarith
  note np = unat_pages [OF this]
  have "unat (x + n * PAGE_SIZE) = unat x + unat (n * PAGE_SIZE)"
    by (rule unat_add_nowrap) (use assms np in simp)
  then show ?thesis using assms(1) np by simp
qed

lemma run_steps:
  assumes "q + unat n \<le> low_pages"
  shows "page_steps (page_addr q) (page_addr q + n * PAGE_SIZE) = unat n"
proof -
  have q20: "q < 2 ^ 20" using assms by simp
  note q = page_addr_unat [OF q20]
  have "unat (page_addr q + n * PAGE_SIZE) = (q + unat n) * 4096"
    by (rule unat_run_end [OF q]) (use assms in simp)
  from page_steps_pages [OF q this] show ?thesis by simp
qed

lemma is_run_unmapped:
  assumes "is_run s n q"
  shows "\<forall>v. q + 0 \<le> v \<and> v < q + 0 + n \<longrightarrow> lookup s v = None"
proof (intro allI impI)
  fix v assume v: "q + 0 \<le> v \<and> v < q + 0 + n"
  then have "v - q < n" by linarith
  with assms have "lookup s (q + (v - q)) = None" unfolding is_run_def by blast
  then show "lookup s v = None" using v by simp
qed

lemma map_run_from_start:
  assumes inv: "vm_inv s" and fl: "flags < 0x1000" and lim: "q + unat n \<le> low_pages" and run: "is_run s (unat n) q"
  shows "(\<exists>ps s'. map_run flags (page_addr q) 0 (page_addr q) (page_steps (page_addr q) (page_addr q + n * PAGE_SIZE)) s
        = Some (page_addr q, s') \<and> length ps = unat n \<and> run_mapped flags q ps s s') \<or>
    (\<exists>s'. map_run flags (page_addr q) 0 (page_addr q) (page_steps (page_addr q) (page_addr q + n * PAGE_SIZE)) s
        = Some (0, s') \<and> map_restored q 0 s s')"
proof -
  have "q + 0 + unat n \<le> low_pages" using lim by simp
  from map_run_ok [OF inv fl this is_run_unmapped [OF run]] show ?thesis
    unfolding run_steps [OF lim] by (simp only: add_0_right)
qed

text \<open>The operation is the search followed by the mapping, for any region below the window of the
  recursive mapping and a size that does not wrap.\<close>

definition region_fits :: "u32 \<Rightarrow> u32 \<Rightarrow> u32 \<Rightarrow> bool" where
  "region_fits n region_start region_end \<longleftrightarrow> n \<noteq> 0 \<and> unat region_start + 4095 < 2 ^ 32 \<and>
     unat region_end \<le> 0xFFC00000 \<and> (unat region_start + 4095) div 4096 * 4096 + unat n * 4096 < 2 ^ 32"

abbreviation first_page :: "u32 \<Rightarrow> nat" where "first_page x \<equiv> (unat x + 4095) div 4096"

lemma region_search:
  assumes sm: "self_mapped s" and fits: "region_fits n rs re"
  shows "\<exists>r. lowest_run s (unat n) (first_page rs) (vpn re) r \<and>
    vmm_alloc_pages_region n flags rs re s =
      (case r of None \<Rightarrow> Some (0, s)
       | Some f \<Rightarrow> map_run flags f 0 f (page_steps f (f + n * PAGE_SIZE)) s)"
proof -
  let ?rs = "align_up rs PAGE_SIZE" and ?re = "align_down re PAGE_SIZE" and ?a = "first_page rs" and ?b = "vpn re"
  have st: "unat rs + 4095 < 2 ^ 32" and en: "unat re \<le> 0xFFC00000" and n: "n \<noteq> 0"
    and sz: "?a * 4096 + unat n * 4096 < 2 ^ 32"
    using fits by (auto simp: region_fits_def)
  note rs = align_page(1) [OF st] and re = align_page(2) [of re]
  have bl: "?b \<le> low_pages" using div_le_mono [OF en, of 4096] by simp
  have sum: "unat (?rs + n * PAGE_SIZE) = (?a + unat n) * 4096" by (rule unat_run_end [OF rs sz])
  have lt: "?re < ?rs + n * PAGE_SIZE \<longleftrightarrow> ?b < ?a + unat n"
    unfolding word_less_nat_alt re sum by (simp only: mult_less_cancel2) simp
  show ?thesis
  proof (cases "?b < ?a + unat n")
    case True
    then have "vmm_alloc_pages_region n flags rs re s = Some (0, s)"
      using n lt by (simp add: vmm_alloc_pages_region_def Let_def)
    moreover have "lowest_run s (unat n) ?a ?b None" using True by (auto simp: lowest_run_def)
    ultimately show ?thesis by (intro exI [of _ None]) simp
  next
    case False
    have a20: "?a < 2 ^ 20" using False bl n by (simp add: not_less)
    have rsa: "?rs = page_addr ?a" unfolding word_unat_eq_iff rs page_addr_unat [OF a20] ..
    have n0: "0 < unat n" using n by (simp add: unat_gt_0)
    have ab: "?a + (?b - ?a) \<le> 2 ^ 20" "?a + (?b - ?a) = ?b" using False bl by simp_all
    have "\<exists>r. find_run n (?b - ?a) (page_addr ?a) (of_nat 0) 0 s = Some r \<and>
        lowest_run s (unat n) (?a - 0) (?a + (?b - ?a)) r"
      by (rule find_run_ok [OF sm n0 le0 ab(1)]) auto
    then obtain r where r: "find_run n (?b - ?a) (page_addr ?a) 0 0 s = Some r" "lowest_run s (unat n) ?a ?b r"
      unfolding ab(2) by auto
    have "vmm_alloc_pages_region n flags rs re s = (case r of None \<Rightarrow> Some (0, s)
      | Some f \<Rightarrow> map_run flags f 0 f (page_steps f (f + n * PAGE_SIZE)) s)"
      using n lt False r(1) page_steps_pages [OF rs re]
      by (simp add: vmm_alloc_pages_region_def Let_def flip: rsa)
    with r(2) show ?thesis by blast
  qed
qed

lemma lowest_run_someD:
  assumes "lowest_run s n a b (Some f)"
  obtains q where "f = page_addr q" "a \<le> q" "q + n \<le> b" "is_run s n q"
  using assms by (auto simp: lowest_run_def)

lemma vmm_alloc_pages_region_ok:
  assumes inv: "vm_inv s" and fl: "flags < 0x1000" and fits: "region_fits n rs re"
  shows "(\<exists>q ps s'. vmm_alloc_pages_region n flags rs re s = Some (page_addr q, s') \<and>
        lowest_run s (unat n) (first_page rs) (vpn re) (Some (page_addr q)) \<and>
        first_page rs \<le> q \<and> q + unat n \<le> vpn re \<and> length ps = unat n \<and> run_mapped flags q ps s s') \<or>
    (\<exists>s'. vmm_alloc_pages_region n flags rs re s = Some (0, s') \<and> map_restored 0 0 s s')"
proof -
  obtain r where r: "lowest_run s (unat n) (first_page rs) (vpn re) r"
    "vmm_alloc_pages_region n flags rs re s = (case r of None \<Rightarrow> Some (0, s)
       | Some f \<Rightarrow> map_run flags f 0 f (page_steps f (f + n * PAGE_SIZE)) s)"
    using region_search [OF vm_invD(2) [OF inv] fits] by blast
  show ?thesis
  proof (cases r)
    case None
    have "map_restored 0 0 s s" using inv by (simp add: map_restored_def)
    then show ?thesis using r(2) None by auto
  next
    case (Some f)
    obtain q where q: "f = page_addr q" "first_page rs \<le> q" "q + unat n \<le> vpn re" "is_run s (unat n) q"
      using r(1) unfolding Some by (rule lowest_run_someD)
    have "unat re \<le> 0xFFC00000" using fits by (simp add: region_fits_def)
    then have "vpn re \<le> low_pages" using div_le_mono [of "unat re" "0xFFC00000" 4096] by simp
    with q(3) have lim: "q + unat n \<le> low_pages" by (rule le_trans)
    have res: "map_restored 0 0 s s'" if "map_restored q 0 s s'" for s'
      using that unfolding map_restored_def by auto
    show ?thesis
      using map_run_from_start [OF inv fl lim q(4)] r(1) q(2,3) res
      unfolding r(2) Some option.case q(1) by blast
  qed
qed

section \<open>Running out of pages\<close>

lemma rollback_upper:
  assumes "vm_inv s" and "q + k \<le> low_pages" and "768 * 1024 \<le> q"
  shows "\<exists>s'. rollback (page_addr q) k s = Some s' \<and> vm_inv s' \<and> free_pages s' = free_pages s"
  using assms
proof (induction k arbitrary: q s)
  case (Suc k)
  have q: "q < low_pages" "vpn (page_addr q) = q" using Suc.prems(2) by (simp_all add: page_addr_unat)
  have up: "\<not> dix (page_addr q) < 768" unfolding q(2) using Suc.prems(3) by simp
  have "\<exists>r s1. vmm_unmap (page_addr q) s = Some (r, s1) \<and> vm_inv s1 \<and> free_pages s1 = free_pages s"
  proof (cases "lookup s q = None")
    case True
    then show ?thesis using vmm_unmap_absent [OF Suc.prems(1), of "page_addr q"] Suc.prems(1) unfolding q(2) by auto
  next
    case False
    obtain s1 where "vmm_unmap (page_addr q) s = Some (0, s1)" "unmaps_page (page_addr q) s s1" "free_pages s1 = free_pages s"
      using vmm_unmap_mapped [OF Suc.prems(1) dix_page_addr [OF q(1)]] False up unfolding q(2) by auto
    then show ?thesis by (auto simp: unmaps_page_def)
  qed
  then obtain r s1 where s1: "vmm_unmap (page_addr q) s = Some (r, s1)" "vm_inv s1" "free_pages s1 = free_pages s"
    by blast
  have "Suc q + k \<le> low_pages" "768 * 1024 \<le> Suc q" using Suc.prems by simp_all
  from Suc.IH [OF s1(2) this] s1 show ?case by (simp add: page_addr_Suc)
qed simp

text \<open>When fewer pages are free than are asked for, the loop gives up with at most one page left free: the
  one it has to give back itself when there is none for the page table.\<close>

lemma map_run_exhausts:
  assumes "vm_inv s" and "flags < 0x1000" and "q0 + j + k \<le> low_pages" and "768 * 1024 \<le> q0"
    and "card (free_pages s) < k"
  shows "\<exists>s'. map_run flags (page_addr q0) j (page_addr (q0 + j)) k s = Some (0, s') \<and>
    free_pages s' \<subseteq> free_pages s \<and> card (free_pages s') \<le> 1"
  using assms
proof (induction k arbitrary: j s)
  case (Suc k)
  note inv = Suc.prems(1)
  have q: "q0 + j < low_pages" "q0 + j \<le> low_pages" using Suc.prems(3) by simp_all
  show ?case
  proof (cases "free_pages s = {}")
    case True
    obtain s' where "rollback (page_addr q0) j s = Some s'" "free_pages s' = free_pages s"
      using rollback_upper [OF inv q(2) Suc.prems(4)] by blast
    then show ?thesis using pmm_alloc_page_none [OF vm_invD(1) [OF inv] True] True by simp
  next
    case False
    obtain p b where al: "pmm_alloc_page s = Some (page_addr p, s\<lparr>bitmap := Some b\<rparr>)" "p \<in> free_pages s"
      "page_addr p \<noteq> 0" "vm_inv (s\<lparr>bitmap := Some b\<rparr>)" "free_pages (s\<lparr>bitmap := Some b\<rparr>) = free_pages s - {p}"
      by (rule alloc_bitmap [OF inv False])
    let ?s1 = "s\<lparr>bitmap := Some b\<rparr>"
    have rest: ?thesis if "vmm_map (page_addr (q0 + j)) (page_addr p) flags ?s1 = Some (0, s2)" "vm_inv s2"
      "free_pages s2 \<subseteq> free_pages ?s1" for s2
    proof -
      have "free_pages s2 \<subset> free_pages s" using that(3) al(2,5) by blast
      from psubset_card_mono [OF finite_free_pages this] have c: "card (free_pages s2) < k"
        using Suc.prems(5) by linarith
      have "q0 + Suc j + k \<le> low_pages" using Suc.prems(3) by simp
      from Suc.IH [OF that(2) Suc.prems(2) this Suc.prems(4) c] obtain s' where
        "map_run flags (page_addr q0) (Suc j) (page_addr (q0 + Suc j)) k s2 = Some (0, s')"
        "free_pages s' \<subseteq> free_pages s2" "card (free_pages s') \<le> 1" by blast
      then show ?thesis
        using al(1,3,5) that(1,3) by (intro exI [of _ s']) (auto simp: page_addr_Suc)
    qed
    show ?thesis
    proof (cases "present (pd ?s1 (dix (page_addr (q0 + j))))")
      case True
      obtain s2 where s2: "vmm_map (page_addr (q0 + j)) (page_addr p) flags ?s1 = Some (0, s2)"
        "maps_page (page_addr (q0 + j)) (page_addr p OR flags OR 1) ?s1 s2" "free_pages s2 = free_pages ?s1"
        using vmm_map_effect_present [OF al(4) dix_page_addr [OF q(1)] True Suc.prems(2)] by blast
      from s2(1) show ?thesis
        by (rule rest) (use s2(2,3) in \<open>simp_all add: maps_page_def\<close>)
    next
      case absent: False
      from vmm_map_absent [OF al(4) dix_page_addr [OF q(1)] absent Suc.prems(2), of "page_addr p"] show ?thesis
      proof (elim disjE exE conjE)
        assume e: "free_pages ?s1 = {}" "vmm_map (page_addr (q0 + j)) (page_addr p) flags ?s1 = Some (-1, ?s1)"
        obtain b' where b': "pmm_free_page (page_addr p) ?s1 = Some (s\<lparr>bitmap := Some b'\<rparr>)"
          "vm_inv (s\<lparr>bitmap := Some b'\<rparr>)" "free_pages (s\<lparr>bitmap := Some b'\<rparr>) = free_pages s"
          using give_back [OF inv al(2) vm_invD(1) [OF al(4)] al(5)] by blast
        obtain s' where s': "rollback (page_addr q0) j (s\<lparr>bitmap := Some b'\<rparr>) = Some s'"
          "free_pages s' = free_pages s"
          using rollback_upper [OF b'(2) q(2) Suc.prems(4)] b'(3) by auto
        have "free_pages s = {p}" using e(1) al(2,5) by auto
        then show ?thesis using al(1,3) e(2) b'(1) s' by simp
      next
        fix p' s2
        assume s2: "vmm_map (page_addr (q0 + j)) (page_addr p) flags ?s1 = Some (0, s2)"
          "maps_page (page_addr (q0 + j)) (page_addr p OR flags OR 1) ?s1 s2" "free_pages s2 = free_pages ?s1 - {p'}"
        from s2(1) show ?thesis
          by (rule rest) (use s2(2,3) in \<open>auto simp: maps_page_def\<close>)
      qed
    qed
  qed
qed simp

section \<open>Enough pages\<close>

text \<open>A page and at most one page table are taken for every page mapped, so twice the run is enough.\<close>

lemma vmm_map_takes_one:
  assumes "vm_inv s" and "q < low_pages" and "flags < 0x1000" and "free_pages s \<noteq> {}"
  shows "\<exists>s'. vmm_map (page_addr q) phys flags s = Some (0, s') \<and> vm_inv s' \<and>
    card (free_pages s) \<le> Suc (card (free_pages s'))"
proof (cases "present (pd s (dix (page_addr q)))")
  case True
  from vmm_map_effect_present [OF assms(1) dix_page_addr [OF assms(2)] True assms(3), of phys]
  show ?thesis by (auto simp: maps_page_def)
next
  case False
  from vmm_map_absent [OF assms(1) dix_page_addr [OF assms(2)] False assms(3), of phys] assms(4)
  obtain p s' where s': "p \<in> free_pages s" "vmm_map (page_addr q) phys flags s = Some (0, s')"
    "maps_page (page_addr q) (phys OR flags OR 1) s s'" "free_pages s' = free_pages s - {p}" by blast
  have "card (free_pages s) \<le> Suc (card (free_pages s'))"
    using s'(1,4) finite_free_pages [of s] by (simp add: card_Diff_singleton)
  then show ?thesis using s'(2,3) by (auto simp: maps_page_def)
qed

lemma map_run_succeeds:
  assumes "vm_inv s" and "flags < 0x1000" and "q0 + j + k \<le> low_pages" and "2 * k \<le> card (free_pages s)"
  shows "\<exists>s'. map_run flags (page_addr q0) j (page_addr (q0 + j)) k s = Some (page_addr q0, s')"
  using assms
proof (induction k arbitrary: j s)
  case (Suc k)
  note inv = Suc.prems(1)
  have q: "q0 + j < low_pages" using Suc.prems(3) by simp
  have "0 < card (free_pages s)" using Suc.prems(4) by simp
  then have False': "free_pages s \<noteq> {}" by auto
  obtain p b where al: "pmm_alloc_page s = Some (page_addr p, s\<lparr>bitmap := Some b\<rparr>)" "p \<in> free_pages s"
    "page_addr p \<noteq> 0" "vm_inv (s\<lparr>bitmap := Some b\<rparr>)" "free_pages (s\<lparr>bitmap := Some b\<rparr>) = free_pages s - {p}"
    by (rule alloc_bitmap [OF inv False'])
  let ?s1 = "s\<lparr>bitmap := Some b\<rparr>"
  have c1: "card (free_pages ?s1) = card (free_pages s) - 1"
    using al(2,5) finite_free_pages [of s] by (simp add: card_Diff_singleton)
  then have "0 < card (free_pages ?s1)" using Suc.prems(4) by simp
  then have "free_pages ?s1 \<noteq> {}" by auto
  from vmm_map_takes_one [OF al(4) q Suc.prems(2) this, of "page_addr p"] obtain s2 where
    s2: "vmm_map (page_addr (q0 + j)) (page_addr p) flags ?s1 = Some (0, s2)" "vm_inv s2"
      "card (free_pages ?s1) \<le> Suc (card (free_pages s2))" by blast
  have "q0 + Suc j + k \<le> low_pages" "2 * k \<le> card (free_pages s2)" using Suc.prems(3,4) c1 s2(3) by simp_all
  from Suc.IH [OF s2(2) Suc.prems(2) this] show ?case using al(1,3) s2(1) by (simp add: page_addr_Suc)
qed simp

lemma region_succeeds:
  assumes inv: "vm_inv s" and fl: "flags < 0x1000" and fits: "region_fits n rs re"
    and q: "first_page rs \<le> q" "q + unat n \<le> vpn re" "is_run s (unat n) q"
    and pages: "2 * unat n \<le> card (free_pages s)"
  shows "\<exists>q' s'. vmm_alloc_pages_region n flags rs re s = Some (page_addr q', s') \<and> first_page rs \<le> q' \<and> q' < low_pages"
proof -
  obtain r where r: "lowest_run s (unat n) (first_page rs) (vpn re) r"
    "vmm_alloc_pages_region n flags rs re s = (case r of None \<Rightarrow> Some (0, s)
       | Some f \<Rightarrow> map_run flags f 0 f (page_steps f (f + n * PAGE_SIZE)) s)"
    using region_search [OF vm_invD(2) [OF inv] fits] by blast
  have "r \<noteq> None"
  proof
    assume "r = None"
    with r(1) have "\<forall>q. first_page rs \<le> q \<and> q + unat n \<le> vpn re \<longrightarrow> \<not> is_run s (unat n) q"
      by (simp add: lowest_run_def)
    with q show False by blast
  qed
  then obtain f where f: "r = Some f" by blast
  obtain q0 where q0: "f = page_addr q0" "first_page rs \<le> q0" "q0 + unat n \<le> vpn re"
    using r(1) unfolding f by (rule lowest_run_someD)
  have "unat re \<le> 0xFFC00000" using fits by (simp add: region_fits_def)
  then have "vpn re \<le> low_pages" using div_le_mono [of "unat re" "0xFFC00000" 4096] by simp
  with q0(3) have lim: "q0 + unat n \<le> low_pages" by (rule le_trans)
  have "0 < unat n" using fits by (simp add: region_fits_def unat_gt_0)
  then have "q0 < low_pages" using lim by linarith
  moreover have "\<exists>s'. map_run flags (page_addr q0) 0 (page_addr (q0 + 0)) (unat n) s = Some (page_addr q0, s')"
    by (rule map_run_succeeds [OF inv fl _ pages]) (use lim in simp)
  ultimately show ?thesis using q0(2) unfolding r(2) f option.case q0(1) run_steps [OF lim] by auto
qed

end
