(* ===== verification/Address_Space.thy ===== *)
theory Address_Space
  imports Vmm_Alloc
begin

text \<open>
  Whole operations of \<^verbatim>\<open>vmm.c\<close> seen by their callers: what the MMU translates before and after, the
  allocation of a region, and the variants that work on another address space.
\<close>

section \<open>Switching spaces\<close>

text \<open>Every operation of the module leaves \<^verbatim>\<open>cr3\<close>, the flags and the state of its callers
  alone; \<^verbatim>\<open>cr3\<close> and the flags are changed by \<open>with_cr3\<close> only.\<close>

text \<open>The processor, the address of the kernel's page directory and the state of the callers stay.\<close>

abbreviation same_cpu :: "'z vmm_state_scheme \<Rightarrow> 'z vmm_state_scheme \<Rightarrow> bool" where
  "same_cpu s s' \<equiv> cr3 s' = cr3 s \<and> cpu_flags s' = cpu_flags s \<and> kernel_cr3 s' = kernel_cr3 s \<and>
     vmm_state.more s' = vmm_state.more s"

definition keeps_cpu :: "('z vmm_state_scheme \<Rightarrow> ('r \<times> 'z vmm_state_scheme) option) \<Rightarrow> bool" where
  "keeps_cpu f \<longleftrightarrow> (\<forall>s r s'. f s = Some (r, s') \<longrightarrow> same_cpu s s')"

lemma with_cr3_restores:
  assumes "with_cr3 c f s = Some (r, s')" and "keeps_cpu f"
  shows "same_cpu s s'"
proof -
  obtain s1 where s1: "f (s\<lparr>cpu_flags := cpu_flags s AND NOT 0x200, cr3 := c\<rparr>) = Some (r, s1)"
    "s' = (if cr3 s \<noteq> c then s1\<lparr>cr3 := cr3 s\<rparr> else s1)\<lparr>cpu_flags := cpu_flags s\<rparr>"
    using assms(1) by (auto simp: with_cr3_def Let_def bind_eq_Some_conv)
  with assms(2) have "cr3 s1 = c" "kernel_cr3 s1 = kernel_cr3 s" "vmm_state.more s1 = vmm_state.more s"
    unfolding keeps_cpu_def by fastforce+
  then show ?thesis using s1(2) by simp
qed

lemma with_cr3_cpu:
  "\<lbrakk> with_cr3 c f s = Some (r, s'); keeps_cpu f \<rbrakk> \<Longrightarrow> cr3 s' = cr3 s \<and> cpu_flags s' = cpu_flags s"
  by (blast dest: with_cr3_restores)

lemma vwrite_cpu: "vwrite va v s = Some s' \<Longrightarrow> same_cpu s s'"
  by (auto simp: vwrite_def set_word_def)

lemma pmm_cpu:
  "pmm_alloc_page s = Some (r, s') \<Longrightarrow> same_cpu (s :: 'z vmm_state_scheme) s'"
  "pmm_free_page f s = Some s' \<Longrightarrow> same_cpu (s :: 'z vmm_state_scheme) s'"
  by (auto simp: pmm_alloc_page_def pmm_free_page_def bind_eq_Some_conv Let_def split: if_splits)

lemma for_each_cpu:
  assumes "\<And>i s s'. f i s = Some s' \<Longrightarrow> same_cpu s s'"
  shows "for_each f is s = Some s' \<Longrightarrow> same_cpu s s'"
proof (induction "is" arbitrary: s)
  case (Cons i "is")
  then obtain s1 where "f i s = Some s1" "for_each f is s1 = Some s'" by (auto simp: bind_eq_Some_conv)
  then show ?case using Cons.IH assms by metis
qed simp

lemma zero_pt_cpu: "zero_pt pt s = Some s' \<Longrightarrow> same_cpu s s'"
  unfolding zero_pt_def by (rule for_each_cpu [rotated]) (auto dest: vwrite_cpu)

lemma vmm_map_cpu: "vmm_map virt phys flags s = Some (r, s') \<Longrightarrow> same_cpu s s'"
  by (auto simp: vmm_map_def bind_eq_Some_conv split: if_splits sum.splits
      dest!: pmm_cpu vwrite_cpu zero_pt_cpu)

lemma vmm_unmap_cpu: "vmm_unmap virt s = Some (r, s') \<Longrightarrow> same_cpu s s'"
  by (auto simp: vmm_unmap_def bind_eq_Some_conv split: if_splits dest!: pmm_cpu vwrite_cpu)

lemma rollback_cpu: "rollback page k s = Some s' \<Longrightarrow> same_cpu s s'"
proof (induction k arbitrary: page s)
  case (Suc k)
  then obtain r s1 where "vmm_unmap page s = Some (r, s1)" "rollback (page + PAGE_SIZE) k s1 = Some s'"
    by (auto simp: bind_eq_Some_conv)
  then show ?case using Suc.IH vmm_unmap_cpu by metis
qed simp

lemma map_run_cpu: "map_run flags first j page k s = Some (r, s') \<Longrightarrow> same_cpu s s'"
proof (induction k arbitrary: j page s)
  case (Suc k)
  obtain phys s1 where al: "pmm_alloc_page s = Some (phys, s1)"
    using Suc.prems by (auto simp: bind_eq_Some_conv)
  note c1 = pmm_cpu(1) [OF al]
  show ?case
  proof (cases "phys = 0")
    case True
    then have "rollback first j s1 = Some s'" using Suc.prems al by (auto simp: bind_eq_Some_conv)
    then show ?thesis using rollback_cpu c1 by metis
  next
    case False
    then obtain m s2 where m: "vmm_map page phys flags s1 = Some (m, s2)"
      using Suc.prems al by (auto simp: bind_eq_Some_conv)
    note c2 = vmm_map_cpu [OF m]
    show ?thesis
    proof (cases "m = 0")
      case True
      then have "map_run flags first (Suc j) (page + PAGE_SIZE) k s2 = Some (r, s')"
        using Suc.prems al m False by simp
      then show ?thesis using Suc.IH c1 c2 by metis
    next
      case n: False
      then obtain s3 where "pmm_free_page phys s2 = Some s3" "rollback first j s3 = Some s'"
        using Suc.prems al m False by (auto simp: bind_eq_Some_conv)
      then show ?thesis using rollback_cpu pmm_cpu(2) c1 c2 by metis
    qed
  qed
qed simp

lemma region_cpu: "keeps_cpu (vmm_alloc_pages_region n flags rs re)"
  unfolding keeps_cpu_def vmm_alloc_pages_region_def Let_def
  by (auto simp: bind_eq_Some_conv split: if_splits option.splits dest: map_run_cpu)

lemma free_loop_cpu: "free_loop start i k s = Some (r, s') \<Longrightarrow> same_cpu s s'"
proof (induction k arbitrary: i s)
  case (Suc k)
  from Suc.prems show ?case
    by (auto simp: bind_eq_Some_conv Let_def split: if_splits dest!: Suc.IH pmm_cpu vwrite_cpu)
qed simp

lemma in_space_cpu:
  "keeps_cpu (vmm_map virt phys flags)" "keeps_cpu (vmm_unmap virt)" "keeps_cpu (vmm_free_pages n virt)"
  "keeps_cpu (vmm_alloc_pages n flags)"
  using region_cpu [of n flags "0x1000" "0xFFC00000"]
  by (auto simp: keeps_cpu_def vmm_free_pages_def vmm_alloc_pages_def split: if_splits
      dest: vmm_map_cpu vmm_unmap_cpu free_loop_cpu)

lemma keeps_cpu_map_option: "keeps_cpu f \<Longrightarrow> keeps_cpu (\<lambda>s. map_option (\<lambda>(r, s). (g r, s)) (f s))"
  by (auto simp: keeps_cpu_def)

section \<open>Properties\<close>

text \<open>A directory at 0x1000 with only its recursive entry, and pages 2 to 7 free.\<close>

definition demo_vm :: vmm_state where
  "demo_vm = \<lparr>bitmap = Some [3], bitmap_bits = 8, bitmap_bytes = 1, phys_top = 0x8000, usable_mem = 0x8000,
     pmem = (\<lambda>f i. if f = 0x1000 \<and> i = 1023 then 0x1003 else 0), cr3 = 0x1000, kernel_cr3 = 0x1000,
     cpu_flags = 0x202\<rparr>"

lemma demo_vm_facts:
  "dir demo_vm = 0x1000" "pd demo_vm d = (if d = 1023 then 0x1003 else 0)" "pmm_inv demo_vm"
  "free_pages demo_vm = {2 ..< 8}"
proof -
  show d: "dir demo_vm = 0x1000" by (simp add: dir_def frame_of_def demo_vm_def)
  show "pd demo_vm d = (if d = 1023 then 0x1003 else 0)"
    unfolding pd_def d by (simp add: demo_vm_def)
  show "pmm_inv demo_vm" by (simp add: pmm_inv_def demo_vm_def bit_at_def bit_1_iff)
  have "free_pages demo_vm = set (filter (\<lambda>p. \<not> bit_at [3] p) [0 ..< 8])"
    by (auto simp: free_pages_def page_free_def demo_vm_def)
  also have "filter (\<lambda>p. \<not> bit_at [3] p) [0 ..< 8] = [2 ..< 8]" by code_simp
  finally show "free_pages demo_vm = {2 ..< 8}" by (simp only: atLeastLessThan_upt)
qed

lemma demo_vm_inv: "vm_inv demo_vm"
  unfolding vm_inv_def self_mapped_def demo_vm_facts
  using demo_vm_facts(3) by (auto simp: present_def frame_of_def)

lemma demo_vm_lookup: "v < low_pages \<Longrightarrow> lookup demo_vm v = None"
  using vpn_dix [of v] by (simp add: lookup_def Let_def demo_vm_facts)

lemma low_address: "unat virt < 0xFFC00000 \<longleftrightarrow> vpn virt < low_pages"
  by (simp add: div_less_iff_less_mult)

lemma low_dix: "unat virt < 0xFFC00000 \<Longrightarrow> dix virt < 1023"
  using vpn_dix [of "vpn virt"] low_address [of virt] by simp

text \<open>C29. \<open>vmm_map\<close> below the recursive window either returns 0, and then the MMU translates the page to
  the frame it was given and every other page as before, or returns -1 and has changed nothing,
  which happens only when a page table was needed and no page is free.\<close>

theorem vmm_map_translates:
  assumes "vm_inv s" and "unat virt < 0xFFC00000" and "frame_of phys = phys" and "flags < 0x1000"
  shows "\<exists>r s'. vmm_map virt phys flags s = Some (r, s') \<and> vm_inv s' \<and>
    (if r = 0 then translate virt s' = Some (phys, unat virt mod 4096 div 4) \<and>
         (\<forall>va. unat va < 0xFFC00000 \<and> vpn va \<noteq> vpn virt \<longrightarrow> translate va s' = translate va s)
     else r = -1 \<and> s' = s \<and> free_pages s = {} \<and> \<not> present (pd s (dix virt)))"
proof -
  note d = low_dix [OF assms(2)]
  have ok: "translate virt s' = Some (phys, unat virt mod 4096 div 4) \<and>
      (\<forall>va. unat va < 0xFFC00000 \<and> vpn va \<noteq> vpn virt \<longrightarrow> translate va s' = translate va s) \<and> vm_inv s'"
    if "maps_page virt (phys OR flags OR 1) s s'" for s'
    using that assms(2) frame_of_entry [OF assms(3,4)]
    by (simp add: maps_page_def translate_lookup low_address)
  show ?thesis
  proof (cases "present (pd s (dix virt))")
    case True
    then show ?thesis using vmm_map_effect_present [OF assms(1) d True assms(4), of phys] ok by force
  next
    case False
    from vmm_map_absent [OF assms(1) d False assms(4), of phys] show ?thesis
    proof (elim disjE exE conjE)
      assume "free_pages s = {}" "vmm_map virt phys flags s = Some (-1, s)"
      then show ?thesis using assms(1) False by (intro exI [of _ "-1"] exI [of _ s]) simp
    next
      fix p s'
      assume "vmm_map virt phys flags s = Some (0, s')" "maps_page virt (phys OR flags OR 1) s s'"
      then show ?thesis using ok [of s'] by (intro exI [of _ 0] exI [of _ s']) simp
    qed
  qed
qed

theorem vmm_map_translates_witness:
  "\<exists>s'. vmm_map 0x400ABC 0x5000 7 demo_vm = Some (0, s') \<and> translate 0x400ABC s' = Some (0x5000, 687)"
proof -
  have "frame_of 0x5000 = 0x5000" by (simp add: frame_of_def)
  from vmm_map_translates [OF demo_vm_inv _ this, of "0x400ABC" 7]
  show ?thesis by (auto simp: demo_vm_facts split: if_splits)
qed

text \<open>C30. \<open>vmm_unmap\<close> below the recursive window makes the MMU fault on the page and translate every
  other page as before; it returns -1 exactly when the page was not mapped, and gives the page table
  back to the allocator exactly when the page was mapped, lies in the lower half and was the last one
  the table mapped.\<close>

theorem vmm_unmap_translates:
  assumes "vm_inv s" and "unat virt < 0xFFC00000"
  shows "\<exists>r s'. vmm_unmap virt s = Some (r, s') \<and> vm_inv s' \<and> translate virt s' = None \<and>
    (\<forall>va. unat va < 0xFFC00000 \<and> vpn va \<noteq> vpn virt \<longrightarrow> translate va s' = translate va s) \<and>
    (r = (if translate virt s = None then -1 else 0)) \<and>
    free_pages s' = (if r = 0 \<and> virt < 0xC0000000 \<and> (\<forall>v < low_pages. v div 1024 = dix virt \<longrightarrow> lookup s' v = None)
       then insert (fnum (frame_of (pd s (dix virt)))) (free_pages s) else free_pages s)"
proof (cases "lookup s (vpn virt) = None")
  case True
  then show ?thesis
    using vmm_unmap_absent [OF assms(1) True] assms(1)
    by (intro exI [of _ "-1"] exI [of _ s]) (simp add: translate_lookup)
next
  case False
  note d = low_dix [OF assms(2)]
  obtain s' where s': "vmm_unmap virt s = Some (0, s')" "unmaps_page virt s s'"
    "(if dix virt < 768 \<and> (\<forall>v. v div 1024 = dix virt \<longrightarrow> lookup (set_pte virt 0 s) v = None)
      then \<not> present (pd s' (dix virt)) \<and> free_pages s' = insert (fnum (frame_of (pd s (dix virt)))) (free_pages s)
      else s' = set_pte virt 0 s \<and> free_pages s' = free_pages s)"
    using vmm_unmap_mapped [OF assms(1) d False] by blast
  have "translate virt s' = None"
    "\<forall>va. unat va < 0xFFC00000 \<and> vpn va \<noteq> vpn virt \<longrightarrow> translate va s' = translate va s" "vm_inv s'"
    using s'(2) assms(2) by (simp_all add: unmaps_page_def translate_lookup low_address)
  moreover have "translate virt s \<noteq> None" using False by (simp add: translate_lookup)
  moreover have low: "v < low_pages" if "v div 1024 = dix virt" for v
    using that d by (metis div_less_iff_less_mult zero_less_numeral)
  have "free_pages s' = (if virt < 0xC0000000 \<and> (\<forall>v < low_pages. v div 1024 = dix virt \<longrightarrow> lookup s' v = None)
      then insert (fnum (frame_of (pd s (dix virt)))) (free_pages s) else free_pages s)"
  proof (cases "dix virt < 768 \<and> (\<forall>v. v div 1024 = dix virt \<longrightarrow> lookup (set_pte virt 0 s) v = None)")
    case True
    then show ?thesis using s'(3) low_half [of virt] by (auto simp: lookup_def)
  next
    case False
    then have "s' = set_pte virt 0 s" "free_pages s' = free_pages s" using s'(3) by metis+
    then show ?thesis using False low_half [of virt] low by metis
  qed
  ultimately show ?thesis using s'(1) by (intro exI [of _ 0] exI [of _ s']) simp
qed

theorem vmm_unmap_translates_witness:
  "\<exists>s1 s2. vmm_map 0x400ABC 0x5000 7 demo_vm = Some (0, s1) \<and> translate 0x400ABC s1 = Some (0x5000, 687) \<and>
    vmm_unmap 0x400ABC s1 = Some (0, s2) \<and> translate 0x400ABC s2 = None"
proof -
  obtain s1 where s1: "vmm_map 0x400ABC 0x5000 7 demo_vm = Some (0, s1)"
    "maps_page 0x400ABC (0x5000 OR 7 OR 1) demo_vm s1"
    using vmm_map_absent [OF demo_vm_inv, of "0x400ABC" 7 "0x5000"] by (auto simp: demo_vm_facts present_def)
  have t: "translate 0x400ABC s1 = Some (0x5000, 687)"
    using s1(2) by (simp add: maps_page_def translate_lookup frame_of_def)
  have "vm_inv s1" using s1(2) by (simp add: maps_page_def)
  from vmm_unmap_translates [OF this, of "0x400ABC"] s1(1) t show ?thesis by auto
qed

text \<open>What a result \<open>a\<close> of the region allocator says of the page map before and after.\<close>

definition region_result ::
  "u32 \<Rightarrow> u32 \<Rightarrow> u32 \<Rightarrow> u32 \<Rightarrow> 'z vmm_state_scheme \<Rightarrow> u32 \<Rightarrow> 'z vmm_state_scheme \<Rightarrow> bool" where
  "region_result n flags rs re s a s' \<longleftrightarrow>
    (if a \<noteq> 0
     then unat rs \<le> unat a \<and> unat a + 4096 * unat n \<le> unat re \<and>
       (\<forall>i < unat n. lookup s (vpn a + i) = None) \<and>
       (\<exists>ps. length ps = unat n \<and> distinct ps \<and> set ps \<subseteq> free_pages s \<and> free_pages s' \<inter> set ps = {} \<and>
         (\<forall>v < low_pages. lookup s' v = (if vpn a \<le> v \<and> v < vpn a + unat n
            then Some (entry_for (ps ! (v - vpn a)) flags) else lookup s v)))
     else \<forall>v < low_pages. lookup s' v = lookup s v)"

lemma region_contract:
  assumes "vm_inv s" and "flags < 0x1000" and "region_fits n rs re" and "rs \<noteq> 0"
  shows "\<exists>a s'. vmm_alloc_pages_region n flags rs re s = Some (a, s') \<and> vm_inv s' \<and> region_result n flags rs re s a s'"
  using vmm_alloc_pages_region_ok [OF assms(1-3)]
proof (elim disjE exE conjE)
  fix q ps s'
  assume r: "vmm_alloc_pages_region n flags rs re s = Some (page_addr q, s')"
    and run: "lowest_run s (unat n) (first_page rs) (vpn re) (Some (page_addr q))"
    and q: "first_page rs \<le> q" "q + unat n \<le> vpn re" and ps: "length ps = unat n" "run_mapped flags q ps s s'"
  have n0: "0 < unat n" using assms(3) by (simp add: region_fits_def unat_gt_0)
  have "vpn re < 2 ^ 20" using unat_lt [of re] by simp
  then have q20: "q < 2 ^ 20" using q(2) by linarith
  have rs0: "0 < unat rs" using assms(4) by (simp add: unat_gt_0)
  have bounds: "unat rs \<le> q * 4096" "q * 4096 + 4096 * unat n \<le> unat re" using q by linarith+
  then have nz: "page_addr q \<noteq> 0" using page_addr_0_iff [OF q20] rs0 by auto
  obtain q' where q': "page_addr q = page_addr q'" "q' + unat n \<le> vpn re" "is_run s (unat n) q'"
    using run by (rule lowest_run_someD) blast
  have "q' < 2 ^ 20" using q'(2) \<open>vpn re < 2 ^ 20\<close> by linarith
  then have "q' = q" using page_addr_inj [OF _ q20] q'(1) by metis
  then have "\<forall>i < unat n. lookup s (q + i) = None" using q'(3) by (simp add: is_run_def)
  moreover have "vm_inv s'" "distinct ps" "set ps \<subseteq> free_pages s" "free_pages s' \<inter> set ps = {}"
    using ps(2) by (auto simp: run_mapped_def region_result_def)
  ultimately show ?thesis
    using r nz bounds ps page_addr_unat [OF q20] vpn_page_addr [OF q20]
    by (intro exI [of _ "page_addr q"] exI [of _ s']) (auto simp: run_mapped_def region_result_def)
next
  fix s'
  assume "vmm_alloc_pages_region n flags rs re s = Some (0, s')" "map_restored 0 0 s s'"
  then show ?thesis by (intro exI [of _ 0] exI [of _ s']) (simp add: map_restored_def region_result_def)
qed

text \<open>C31. \<open>vmm_alloc_pages_region\<close> returns the start of a run of \<open>n\<close> pages inside the region that were
  unmapped and are now mapped, with the requested flags, to different pages that were free and are
  free no more, and leaves all other pages alone; when it returns \<^verbatim>\<open>NULL\<close> the page map is as before. It
  does not return \<^verbatim>\<open>NULL\<close> when the region has such a run and twice as many pages are free as are asked for.\<close>

theorem vmm_alloc_region_contract:
  assumes "vm_inv s" and "flags < 0x1000" and "region_fits n rs re" and "rs \<noteq> 0"
  shows "\<exists>a s'. vmm_alloc_pages_region n flags rs re s = Some (a, s') \<and> vm_inv s' \<and>
    (if a \<noteq> 0
     then unat rs \<le> unat a \<and> unat a + 4096 * unat n \<le> unat re \<and>
       (\<forall>i < unat n. lookup s (vpn a + i) = None) \<and>
       (\<exists>ps. length ps = unat n \<and> distinct ps \<and> set ps \<subseteq> free_pages s \<and> free_pages s' \<inter> set ps = {} \<and>
         (\<forall>v < low_pages. lookup s' v = (if vpn a \<le> v \<and> v < vpn a + unat n
            then Some (entry_for (ps ! (v - vpn a)) flags) else lookup s v)))
     else \<forall>v < low_pages. lookup s' v = lookup s v) \<and>
    ((\<exists>q. first_page rs \<le> q \<and> q + unat n \<le> vpn re \<and> is_run s (unat n) q) \<and>
     2 * unat n \<le> card (free_pages s) \<longrightarrow> a \<noteq> 0)"
proof -
  obtain a s' where a: "vmm_alloc_pages_region n flags rs re s = Some (a, s')"
    and rest: "vm_inv s'" "region_result n flags rs re s a s'"
    using region_contract [OF assms] by blast
  have "a \<noteq> 0" if q: "first_page rs \<le> q" "q + unat n \<le> vpn re" "is_run s (unat n) q"
    and pages: "2 * unat n \<le> card (free_pages s)" for q
  proof -
    obtain q' where "a = page_addr q'" "first_page rs \<le> q'" "q' < low_pages"
      using region_succeeds [OF assms(1-3) q pages] a by auto
    moreover have "0 < unat rs" using assms(4) by (simp add: unat_gt_0)
    then have "0 < first_page rs" by linarith
    ultimately show ?thesis by (simp add: page_addr_0_iff)
  qed
  then show ?thesis using a rest unfolding region_result_def by (intro exI [of _ a] exI [of _ s']) blast
qed

theorem vmm_alloc_region_contract_witness:
  "\<exists>a s'. vmm_alloc_pages_region 2 6 0x400000 0x500000 demo_vm = Some (a, s') \<and> a \<noteq> 0 \<and>
    0x400000 \<le> unat a \<and> unat a + 8192 \<le> 0x500000 \<and> lookup s' (vpn a) \<noteq> None \<and> lookup s' (vpn a + 1) \<noteq> None"
proof -
  have run: "is_run demo_vm (unat (2 :: u32)) 0x400" by (simp add: is_run_def demo_vm_lookup)
  have pages: "2 * unat (2 :: u32) \<le> card (free_pages demo_vm)" by (simp add: demo_vm_facts)
  have "region_fits 2 0x400000 0x500000" by (simp add: region_fits_def)
  from vmm_alloc_region_contract [OF demo_vm_inv _ this, of 6] obtain a s' where
    r: "vmm_alloc_pages_region 2 6 0x400000 0x500000 demo_vm = Some (a, s')"
    and c: "if a \<noteq> 0
     then unat (0x400000 :: u32) \<le> unat a \<and> unat a + 4096 * unat (2 :: u32) \<le> unat (0x500000 :: u32) \<and>
       (\<forall>i < unat (2 :: u32). lookup demo_vm (vpn a + i) = None) \<and>
       (\<exists>ps. length ps = unat (2 :: u32) \<and> distinct ps \<and> set ps \<subseteq> free_pages demo_vm \<and> free_pages s' \<inter> set ps = {} \<and>
         (\<forall>v < low_pages. lookup s' v = (if vpn a \<le> v \<and> v < vpn a + unat (2 :: u32)
            then Some (entry_for (ps ! (v - vpn a)) 6) else lookup demo_vm v)))
     else \<forall>v < low_pages. lookup s' v = lookup demo_vm v"
    and ok: "(\<exists>q. first_page 0x400000 \<le> q \<and> q + unat (2 :: u32) \<le> vpn 0x500000 \<and> is_run demo_vm (unat (2 :: u32)) q) \<and>
      2 * unat (2 :: u32) \<le> card (free_pages demo_vm) \<longrightarrow> a \<noteq> 0" by auto
  have nz: "a \<noteq> 0" using run pages by (intro ok [rule_format] conjI exI [of _ "0x400"]) simp_all
  with c have b: "0x400000 \<le> unat a" "unat a + 8192 \<le> 0x500000"
    and m: "v < low_pages \<Longrightarrow> vpn a \<le> v \<Longrightarrow> v < vpn a + 2 \<Longrightarrow> lookup s' v \<noteq> None" for v by auto
  have "vpn a < 1280" using b(2) by (simp add: div_less_iff_less_mult)
  then have "lookup s' (vpn a) \<noteq> None" "lookup s' (vpn a + 1) \<noteq> None" by (simp_all add: m)
  with r nz b show ?thesis by blast
qed

text \<open>Every operation on another address space returns with the caller's address space loaded and
  the caller's interrupt flag restored.\<close>

theorem in_space_restores_cpu:
  assumes "vmm_map_in c virt phys flags s = Some (r, s') \<or> vmm_unmap_in c virt s = Some (r, s') \<or>
    vmm_free_pages_in c n virt s = Some (r, s') \<or>
    vmm_alloc_pages_region_in c n flags rs re s = Some (a, s') \<or> vmm_alloc_pages_in c n flags s = Some (a, s')"
  shows "cr3 s' = cr3 s \<and> cpu_flags s' = cpu_flags s"
  using assms unfolding vmm_map_in_def vmm_unmap_in_def vmm_free_pages_in_def vmm_alloc_pages_region_in_def
    vmm_alloc_pages_in_def
  by (elim disjE) (erule with_cr3_cpu; intro keeps_cpu_map_option in_space_cpu region_cpu)+

theorem in_space_restores_cpu_witness:
  "\<exists>s'. vmm_unmap_in 0x1000 0x400000 demo_vm = Some (1, s') \<and> cpu_flags s' = 0x202"
proof -
  let ?s = "demo_vm\<lparr>cpu_flags := 0x202 AND NOT 0x200, cr3 := 0x1000\<rparr>"
  have "vmm_unmap 0x400000 ?s = Some (-1, ?s)"
  proof (rule vmm_unmap_absent)
    have d: "dir ?s = dir demo_vm" "pd ?s d = pd demo_vm d" "free_pages ?s = free_pages demo_vm" for d
      by (simp_all add: dir_def pd_def demo_vm_def free_pages_def page_free_def)
    show "vm_inv ?s"
      using demo_vm_inv unfolding vm_inv_def self_mapped_def d
      by (simp add: pmm_inv_def managed_pages_def split: option.splits)
    show "lookup ?s (vpn 0x400000) = None"
      unfolding lookup_def d by (simp add: demo_vm_facts Let_def)
  qed
  moreover have "cr3 demo_vm = 0x1000" "cpu_flags demo_vm = 0x202" by (simp_all add: demo_vm_def)
  ultimately have r: "vmm_unmap_in 0x1000 0x400000 demo_vm = Some (1, ?s\<lparr>cpu_flags := 0x202\<rparr>)"
    by (simp add: vmm_unmap_in_def with_cr3_def Let_def)
  from in_space_restores_cpu [OF disjI2 [OF disjI1 [OF r]]] have
    "cpu_flags (?s\<lparr>cpu_flags := 0x202\<rparr>) = cpu_flags demo_vm" by (rule conjunct2)
  then show ?thesis
    using r \<open>cpu_flags demo_vm = 0x202\<close> by (intro exI [of _ "?s\<lparr>cpu_flags := 0x202\<rparr>"]) (rule conjI, simp_all only:)
qed

text \<open>C32. A region allocation in the upper half that runs out of pages keeps what it had taken: when
  the region has a run long enough but more pages are asked for than are free, the call returns \<^verbatim>\<open>NULL\<close>
  with the page map as it was, and yet of all the pages that were free at most one still is, because the
  roll back unmaps pages without giving their frames back.\<close>

theorem vmm_failed_region_leaks:
  assumes "vm_inv s" and "flags < 0x1000" and "region_fits n rs re" and "768 * 1024 \<le> first_page rs"
    and "first_page rs \<le> q" and "q + unat n \<le> vpn re" and "is_run s (unat n) q"
    and "card (free_pages s) < unat n"
  shows "\<exists>s'. vmm_alloc_pages_region n flags rs re s = Some (0, s') \<and>
    (\<forall>v < low_pages. lookup s' v = lookup s v) \<and> free_pages s' \<subseteq> free_pages s \<and> card (free_pages s') \<le> 1"
proof -
  obtain r where r: "lowest_run s (unat n) (first_page rs) (vpn re) r"
    "vmm_alloc_pages_region n flags rs re s = (case r of None \<Rightarrow> Some (0, s)
       | Some f \<Rightarrow> map_run flags f 0 f (page_steps f (f + n * PAGE_SIZE)) s)"
    using region_search [OF vm_invD(2) [OF assms(1)] assms(3)] by blast
  have "r \<noteq> None"
  proof
    assume "r = None"
    with r(1) have "\<forall>q. first_page rs \<le> q \<and> q + unat n \<le> vpn re \<longrightarrow> \<not> is_run s (unat n) q"
      by (simp add: lowest_run_def)
    with assms(5-7) show False by blast
  qed
  then obtain f where f: "r = Some f" by blast
  obtain q0 where q0: "f = page_addr q0" "first_page rs \<le> q0" "q0 + unat n \<le> vpn re"
    using r(1) unfolding f by (rule lowest_run_someD)
  have "unat re \<le> 0xFFC00000" using assms(3) by (simp add: region_fits_def)
  then have "vpn re \<le> low_pages" using div_le_mono [of "unat re" "0xFFC00000" 4096] by simp
  with q0(3) have lim: "q0 + unat n \<le> low_pages" by (rule le_trans)
  have up: "768 * 1024 \<le> q0" using q0(2) assms(4) by (rule order_trans [rotated])
  have "q0 + 0 + unat n \<le> low_pages" using lim by simp
  from map_run_exhausts [OF assms(1,2) this up assms(8)] obtain s' where
    s': "vmm_alloc_pages_region n flags rs re s = Some (0, s')" "free_pages s' \<subseteq> free_pages s" "card (free_pages s') \<le> 1"
    unfolding r(2) f option.case q0(1) run_steps [OF lim] by auto
  have "rs \<noteq> 0" using assms(4) by auto
  from region_contract [OF assms(1-3) this] s'(1) have "\<forall>v < low_pages. lookup s' v = lookup s v"
    by (auto simp: region_result_def)
  with s' show ?thesis by blast
qed

theorem vmm_failed_region_leaks_witness:
  "card (free_pages demo_vm) = 6 \<and>
   (\<exists>s'. vmm_alloc_pages_region 7 2 0xE0000000 0xE0010000 demo_vm = Some (0, s') \<and> card (free_pages s') \<le> 1)"
proof
  show "card (free_pages demo_vm) = 6" by (simp add: demo_vm_facts)
  have "region_fits 7 0xE0000000 0xE0010000" by (simp add: region_fits_def)
  moreover have "is_run demo_vm (unat (7 :: u32)) 0xE0000" by (simp add: is_run_def demo_vm_lookup)
  ultimately show "\<exists>s'. vmm_alloc_pages_region 7 2 0xE0000000 0xE0010000 demo_vm = Some (0, s') \<and> card (free_pages s') \<le> 1"
    using vmm_failed_region_leaks [OF demo_vm_inv, of 2 7 "0xE0000000" "0xE0010000" "0xE0000"]
    by (auto simp: demo_vm_facts)
qed

end
