(* ===== verification/Heap.thy ===== *)
theory Heap
  imports Address_Space
begin

text \<open>
  \<^verbatim>\<open>kernel/src/heap.c\<close>: the kernel heap, a doubly linked list of blocks whose 16-byte headers lie in
  front of them in virtual memory.  Headers are read and written through the page tables like every
  other access of the kernel, so a header on an unmapped page faults.  A \<^verbatim>\<open>heap_block_t\<close> at \<open>b\<close> has
  its size at \<open>b\<close>, the byte \<^verbatim>\<open>used\<close> at \<open>b + 4\<close>, \<^verbatim>\<open>prev\<close> at \<open>b + 8\<close> and \<^verbatim>\<open>next\<close> at \<open>b + 12\<close>; block addresses
  are multiples of four.  The loops along \<^verbatim>\<open>next\<close> end only if the list does: a cycle is the value
  \<^term>\<open>None\<close>, like a fault.  Messages are left out.
\<close>

section \<open>State and block headers\<close>

record heap_state = vmm_state +
  heap_start :: u32

definition blk_size :: "u32 \<Rightarrow> 'z vmm_state_scheme \<Rightarrow> u32 option" where
  "blk_size b s = vread b s"

definition blk_used :: "u32 \<Rightarrow> 'z vmm_state_scheme \<Rightarrow> bool option" where
  "blk_used b s = do { w \<leftarrow> vread (b + 4) s; Some (w AND 0xFF \<noteq> 0) }"

definition blk_prev :: "u32 \<Rightarrow> 'z vmm_state_scheme \<Rightarrow> u32 option" where
  "blk_prev b s = vread (b + 8) s"

definition blk_next :: "u32 \<Rightarrow> 'z vmm_state_scheme \<Rightarrow> u32 option" where
  "blk_next b s = vread (b + 12) s"

definition set_size :: "u32 \<Rightarrow> u32 \<Rightarrow> 'z vmm_state_scheme \<Rightarrow> 'z vmm_state_scheme option" where
  "set_size b v s = vwrite b v s"

text \<open>Writing the byte \<^verbatim>\<open>used\<close> leaves the three bytes of padding after it.\<close>

definition set_used :: "u32 \<Rightarrow> bool \<Rightarrow> 'z vmm_state_scheme \<Rightarrow> 'z vmm_state_scheme option" where
  "set_used b u s = do {
     w \<leftarrow> vread (b + 4) s;
     vwrite (b + 4) ((w AND 0xFFFFFF00) OR (if u then 1 else 0)) s }"

definition set_prev :: "u32 \<Rightarrow> u32 \<Rightarrow> 'z vmm_state_scheme \<Rightarrow> 'z vmm_state_scheme option" where
  "set_prev b v s = vwrite (b + 8) v s"

definition set_next :: "u32 \<Rightarrow> u32 \<Rightarrow> 'z vmm_state_scheme \<Rightarrow> 'z vmm_state_scheme option" where
  "set_next b v s = vwrite (b + 12) v s"

definition init_block :: "u32 \<Rightarrow> u32 \<Rightarrow> u32 \<Rightarrow> u32 \<Rightarrow> 'z vmm_state_scheme \<Rightarrow> 'z vmm_state_scheme option" where
  "init_block b n p x s = do {
     s \<leftarrow> set_size b n s;
     s \<leftarrow> set_used b False s;
     s \<leftarrow> set_prev b p s;
     set_next b x s }"

section \<open>Operations\<close>

definition heap_init :: "'z heap_state_scheme \<Rightarrow> 'z heap_state_scheme option" where
  "heap_init s =
     (let region_start = 0xE0000000;
          region_end = 0xE0000000 + 24 * PAGE_SIZE
      in if region_end \<ge> 0xFFC00000 then Some s
         else do {
           (b, s) \<leftarrow> vmm_alloc_pages_region 24 (2 OR 1) region_start region_end s;
           let s = s\<lparr>heap_start := b\<rparr>;
           if b = 0 then Some s
           else init_block b (24 * PAGE_SIZE - 16) 0 0 s })"

text \<open>\<^verbatim>\<open>while (b->next) b = b->next;\<close>\<close>

partial_function (option) heap_last :: "u32 \<Rightarrow> 'z vmm_state_scheme \<Rightarrow> u32 option" where
  "heap_last b s = do { x \<leftarrow> blk_next b s; if x = 0 then Some b else heap_last x s }"

definition heap_expand :: "u32 \<Rightarrow> 'z heap_state_scheme \<Rightarrow> (u32 \<times> 'z heap_state_scheme) option" where
  "heap_expand n s =
     (if heap_start s = 0 \<or> n = 0 then Some (0, s)
      else do {
        b \<leftarrow> heap_last (heap_start s) s;
        bsize \<leftarrow> blk_size b s;
        let region_start = b + 16 + bsize;
        let region_end = region_start + n * PAGE_SIZE;
        if region_end \<ge> 0xFFC00000 then Some (0, s)
        else do {
          (new_block, s) \<leftarrow> vmm_alloc_pages_region n (2 OR 1) region_start region_end s;
          if new_block = 0 then Some (0, s)
          else do {
            s \<leftarrow> init_block new_block (n * PAGE_SIZE - 16) b 0 s;
            s \<leftarrow> set_next b new_block s;
            Some (new_block, s) } } })"

text \<open>\<^verbatim>\<open>p && !p->used\<close>\<close>

definition is_free :: "u32 \<Rightarrow> 'z vmm_state_scheme \<Rightarrow> bool option" where
  "is_free p s = (if p = 0 then Some False else do { u \<leftarrow> blk_used p s; Some (\<not> u) })"

definition merge_prev :: "u32 \<Rightarrow> 'z vmm_state_scheme \<Rightarrow> (u32 \<times> 'z vmm_state_scheme) option" where
  "merge_prev b s = do {
     p \<leftarrow> blk_prev b s;
     free \<leftarrow> is_free p s;
     if \<not> free then Some (b, s)
     else do {
       psize \<leftarrow> blk_size p s;
       bsize \<leftarrow> blk_size b s;
       s \<leftarrow> set_size p (psize + (bsize + 16)) s;
       p \<leftarrow> blk_prev b s;
       x \<leftarrow> blk_next b s;
       s \<leftarrow> set_next p x s;
       x \<leftarrow> blk_next b s;
       s \<leftarrow> (if x \<noteq> 0 then do { p \<leftarrow> blk_prev b s; set_prev x p s } else Some s);
       p \<leftarrow> blk_prev b s;
       Some (p, s) } }"

definition merge_next :: "u32 \<Rightarrow> 'z vmm_state_scheme \<Rightarrow> 'z vmm_state_scheme option" where
  "merge_next b s = do {
     x \<leftarrow> blk_next b s;
     free \<leftarrow> is_free x s;
     if \<not> free then Some s
     else do {
       bsize \<leftarrow> blk_size b s;
       xsize \<leftarrow> blk_size x s;
       s \<leftarrow> set_size b (bsize + (xsize + 16)) s;
       x \<leftarrow> blk_next b s;
       y \<leftarrow> blk_next x s;
       s \<leftarrow> set_next b y s;
       x \<leftarrow> blk_next b s;
       if x \<noteq> 0 then set_prev x b s else Some s } }"

definition heap_merge_free_blocks :: "u32 \<Rightarrow> 'z vmm_state_scheme \<Rightarrow> 'z vmm_state_scheme option" where
  "heap_merge_free_blocks b s = do {
     free \<leftarrow> is_free b s;
     if \<not> free then Some s
     else do {
       (b, s) \<leftarrow> merge_prev b s;
       merge_next b s } }"

definition heap_split_block :: "u32 \<Rightarrow> u32 \<Rightarrow> 'z vmm_state_scheme \<Rightarrow> 'z vmm_state_scheme option" where
  "heap_split_block b sz s = do {
     free \<leftarrow> is_free b s;
     if \<not> free then Some s
     else do {
       bsize \<leftarrow> blk_size b s;
       if bsize \<le> sz then Some s
       else do {
         let new_size = bsize - sz - 16;
         if new_size < 32 then Some s
         else do {
           let new = b + sz + 16;
           x \<leftarrow> blk_next b s;
           s \<leftarrow> init_block new new_size b x s;
           x \<leftarrow> blk_next b s;
           s \<leftarrow> (if x \<noteq> 0 then set_prev x new s else Some s);
           s \<leftarrow> set_size b sz s;
           set_next b new s } } } }"

text \<open>The search of \<open>heap_alloc\<close>: the first free block from \<open>b\<close> on of at least \<open>sz\<close> bytes, or 0.\<close>

partial_function (option) heap_find :: "u32 \<Rightarrow> u32 \<Rightarrow> 'z vmm_state_scheme \<Rightarrow> u32 option" where
  "heap_find sz b s =
     (if b = 0 then Some 0
      else do {
        u \<leftarrow> blk_used b s;
        ok \<leftarrow> (if u then Some False else do { n \<leftarrow> blk_size b s; Some (n \<ge> sz) });
        if ok then Some b
        else do {
          x \<leftarrow> blk_next b s;
          if x = 0 then Some 0 else heap_find sz x s } })"

definition heap_alloc :: "u32 \<Rightarrow> 'z heap_state_scheme \<Rightarrow> (u32 \<times> 'z heap_state_scheme) option" where
  "heap_alloc sz s =
     (if sz = 0 then Some (0, s)
      else do {
        let sz = align_up sz 4;
        b \<leftarrow> heap_find sz (heap_start s) s;
        if b \<noteq> 0 then do {
          s \<leftarrow> heap_split_block b sz s;
          s \<leftarrow> set_used b True s;
          Some (b + 16, s) }
        else do {
          (new, s) \<leftarrow> heap_expand (align_up (sz + 16) PAGE_SIZE div PAGE_SIZE) s;
          if new = 0 then Some (0, s)
          else do {
            s \<leftarrow> set_used new True s;
            Some (new + 16, s) } } })"

text \<open>The search of \<open>heap_free\<close>: the block whose data starts at \<open>ptr\<close>, or 0.\<close>

partial_function (option) heap_block_of :: "u32 \<Rightarrow> u32 \<Rightarrow> 'z vmm_state_scheme \<Rightarrow> u32 option" where
  "heap_block_of ptr b s =
     (if b = 0 then Some 0
      else if b + 16 = ptr then Some b
      else do { x \<leftarrow> blk_next b s; heap_block_of ptr x s })"

definition heap_free :: "u32 \<Rightarrow> 'z heap_state_scheme \<Rightarrow> 'z heap_state_scheme option" where
  "heap_free ptr s =
     (if ptr = 0 then Some s
      else do {
        b \<leftarrow> heap_block_of ptr (heap_start s) s;
        s \<leftarrow> (if b \<noteq> 0 then set_used b False s else Some s);
        heap_merge_free_blocks b s })"

text \<open>What \<open>heap_print\<close> reports: the number of blocks, the bytes in use and the free bytes.\<close>

partial_function (option) heap_totals ::
  "u32 \<Rightarrow> u32 \<times> u32 \<times> u32 \<Rightarrow> 'z vmm_state_scheme \<Rightarrow> (u32 \<times> u32 \<times> u32) option" where
  "heap_totals b acc s =
     (if b = 0 then Some acc
      else do {
        u \<leftarrow> blk_used b s;
        n \<leftarrow> blk_size b s;
        let (blocks, used_bytes, free_bytes) = acc;
        x \<leftarrow> blk_next b s;
        heap_totals x (blocks + 1, if u then used_bytes + n else used_bytes, if u then free_bytes else free_bytes + n) s })"

definition heap_print :: "'z heap_state_scheme \<Rightarrow> (u32 \<times> u32 \<times> u32) option option" where
  "heap_print s =
     (if heap_start s = 0 then Some None else map_option Some (heap_totals (heap_start s) (0, 0, 0) s))"

end
