(* ===== verification/Heap_Memory.thy ===== *)
theory Heap_Memory
  imports Heap
begin

text \<open>
  The heap region seen as an array of words.  The pages of the heap are mapped to distinct data
  frames; under that condition reading and writing a header through the page tables is reading and
  updating a function from addresses to words, and leaves everything else of the machine alone.
\<close>

section \<open>The region\<close>

abbreviation heap_base :: nat where "heap_base \<equiv> 0xE0000000"

definition heap_frame :: "'z vmm_state_scheme \<Rightarrow> nat \<Rightarrow> u32" where
  "heap_frame s i = frame_of (the (lookup s (0xE0000 + i)))"

definition heap_mapped :: "nat \<Rightarrow> 'z vmm_state_scheme \<Rightarrow> bool" where
  "heap_mapped n s \<longleftrightarrow> 0xE0000 + n \<le> low_pages \<and>
     (\<forall>i < n. lookup s (0xE0000 + i) \<noteq> None \<and> data_frame s (heap_frame s i)) \<and>
     inj_on (heap_frame s) {..< n}"

text \<open>Aligned addresses inside the first \<open>n\<close> pages of the region.\<close>

definition in_heap :: "nat \<Rightarrow> nat \<Rightarrow> bool" where
  "in_heap n a \<longleftrightarrow> heap_base \<le> a \<and> a < heap_base + n * 4096 \<and> 4 dvd a"

definition hword :: "'z vmm_state_scheme \<Rightarrow> nat \<Rightarrow> u32" where
  "hword s a = pmem s (heap_frame s (a div 4096 - 0xE0000)) (a mod 4096 div 4)"

definition hput :: "nat \<Rightarrow> u32 \<Rightarrow> 'z vmm_state_scheme \<Rightarrow> 'z vmm_state_scheme" where
  "hput a v s = set_word (heap_frame s (a div 4096 - 0xE0000)) (a mod 4096 div 4) v s"

text \<open>\<open>M\<close> is the contents of the heap region.\<close>

definition heap_view :: "nat \<Rightarrow> 'z vmm_state_scheme \<Rightarrow> (nat \<Rightarrow> u32) \<Rightarrow> bool" where
  "heap_view n s M \<longleftrightarrow> vm_inv s \<and> heap_mapped n s \<and> (\<forall>a. in_heap n a \<longrightarrow> hword s a = M a)"

lemma in_heap_page:
  assumes "heap_mapped n s" and "in_heap n a"
  obtains i where "i < n" "a div 4096 = 0xE0000 + i" "a < 2 ^ 32" "0xE0000 + i < low_pages"
    "a div 4096 - 0xE0000 = i"
proof -
  have lo: "0xE0000 \<le> a div 4096" using assms(2) div_le_mono [of heap_base a 4096] by (simp add: in_heap_def)
  have "a < (0xE0000 + n) * 4096" using assms(2) by (simp add: in_heap_def)
  then have hi: "a div 4096 < 0xE0000 + n" by (simp only: less_mult_imp_div_less)
  have lim: "0xE0000 + n \<le> low_pages" using assms(1) by (simp add: heap_mapped_def)
  have "a < 2 ^ 32" using assms(2) lim by (simp add: in_heap_def)
  with lo hi lim show thesis by (intro that [of "a div 4096 - 0xE0000"]) simp_all
qed

lemma translate_heap:
  assumes "heap_mapped n s" and "in_heap n a"
  shows "translate (of_nat a) s = Some (heap_frame s (a div 4096 - 0xE0000), a mod 4096 div 4)"
proof -
  obtain i where i: "i < n" "a div 4096 = 0xE0000 + i" "a < 2 ^ 32" "a div 4096 - 0xE0000 = i"
    by (rule in_heap_page [OF assms])
  have "unat (of_nat a :: u32) = a" using i(3) by (simp add: unat_of_nat_small)
  then show ?thesis
    using i assms(1) unfolding translate_lookup heap_mapped_def heap_frame_def by auto
qed

lemma vread_heap: "\<lbrakk> heap_view n s M; in_heap n a \<rbrakk> \<Longrightarrow> vread (of_nat a) s = Some (M a)"
  using translate_heap [of n s a] by (auto simp: vread_def heap_view_def hword_def)

lemma vwrite_heap: "\<lbrakk> heap_view n s M; in_heap n a \<rbrakk> \<Longrightarrow> vwrite (of_nat a) v s = Some (hput a v s)"
  using translate_heap [of n s a] by (auto simp: vwrite_def heap_view_def hput_def)

section \<open>Writing a data frame\<close>

lemma set_word_data:
  assumes "vm_inv s" and "data_frame s f"
  shows "vm_inv (set_word f i v s)" "w < low_pages \<Longrightarrow> lookup (set_word f i v s) w = lookup s w"
    "data_frame (set_word f i v s) g \<longleftrightarrow> data_frame s g"
proof -
  have nd: "f \<noteq> dir s" and nt: "\<And>d. d < 1023 \<Longrightarrow> present (pd s d) \<Longrightarrow> frame_of (pd s d) \<noteq> f"
    using assms(2) by (auto simp: data_frame_def)
  show "vm_inv (set_word f i v s)" using assms(1) nd by (simp add: vm_inv_def set_word_frame)
  show "w < low_pages \<Longrightarrow> lookup (set_word f i v s) w = lookup s w"
    using lookup_set_frame [OF nt nd] by (simp add: set_word_frame)
  show "data_frame (set_word f i v s) g \<longleftrightarrow> data_frame s g"
    using nd by (simp add: data_frame_def set_word_frame)
qed

lemma heap_frame_cong:
  "\<lbrakk> i < n; 0xE0000 + n \<le> low_pages; \<forall>v < low_pages. lookup s' v = lookup s v \<rbrakk> \<Longrightarrow> heap_frame s' i = heap_frame s i"
  by (simp add: heap_frame_def)

text \<open>Everything of the machine but the contents of the heap frames.\<close>

definition same_machine :: "'z vmm_state_scheme \<Rightarrow> 'z vmm_state_scheme \<Rightarrow> bool" where
  "same_machine s s' \<longleftrightarrow> cr3 s' = cr3 s \<and> kernel_cr3 s' = kernel_cr3 s \<and> cpu_flags s' = cpu_flags s \<and>
     vmm_state.more s' = vmm_state.more s \<and> free_pages s' = free_pages s \<and>
     (\<forall>f. data_frame s' f \<longleftrightarrow> data_frame s f) \<and> (\<forall>v < low_pages. lookup s' v = lookup s v)"

lemma same_machine_refl [simp]: "same_machine s s"
  by (simp add: same_machine_def)

lemma same_machine_trans [trans]: "\<lbrakk> same_machine s t; same_machine t u \<rbrakk> \<Longrightarrow> same_machine s u"
  by (simp add: same_machine_def)

lemma hput_ok:
  assumes v: "heap_view n s M" and a: "in_heap n a"
  shows "heap_view n (hput a x s) (M(a := x))" "same_machine s (hput a x s)"
    "f \<notin> heap_frame s ` {..< n} \<Longrightarrow> pmem (hput a x s) f = pmem s f"
proof -
  have m: "vm_inv s" "heap_mapped n s" "\<And>a. in_heap n a \<Longrightarrow> hword s a = M a" using v by (auto simp: heap_view_def)
  obtain i where i: "i < n" "a div 4096 = 0xE0000 + i" "a div 4096 - 0xE0000 = i"
    by (rule in_heap_page [OF m(2) a])
  let ?s' = "hput a x s"
  have s': "?s' = set_word (heap_frame s i) (a mod 4096 div 4) x s" by (simp only: hput_def i(3))
  have df: "data_frame s (heap_frame s i)" and lim: "0xE0000 + n \<le> low_pages"
    using m(2) i(1) by (simp_all add: heap_mapped_def)
  note w = set_word_data [OF m(1) df]
  have lk: "\<forall>v < low_pages. lookup ?s' v = lookup s v" using w(2) s' by simp
  have fr: "heap_frame ?s' j = heap_frame s j" if "j < n" for j
    by (rule heap_frame_cong [OF that lim lk])
  have "heap_mapped n ?s'"
    unfolding heap_mapped_def
  proof (intro conjI allI impI)
    show "0xE0000 + n \<le> low_pages" by (rule lim)
    fix j assume j: "j < n"
    then have "0xE0000 + j < low_pages" using lim by simp
    then show "lookup ?s' (0xE0000 + j) \<noteq> None" using lk m(2) j by (simp add: heap_mapped_def)
    show "data_frame ?s' (heap_frame ?s' j)" unfolding fr [OF j] using w(3) s' m(2) j by (simp add: heap_mapped_def)
  next
    have "inj_on (heap_frame s) {..< n}" using m(2) by (simp add: heap_mapped_def)
    then show "inj_on (heap_frame ?s') {..< n}" using fr by (simp add: inj_on_def)
  qed
  moreover have "hword ?s' b = (M(a := x)) b" if b: "in_heap n b" for b
  proof -
    obtain j where j: "j < n" "b div 4096 = 0xE0000 + j" "b div 4096 - 0xE0000 = j"
      by (rule in_heap_page [OF m(2) b])
    have eq: "hword ?s' b = pmem ?s' (heap_frame s j) (b mod 4096 div 4)" by (simp only: hword_def j(3) fr [OF j(1)])
    show ?thesis
    proof (cases "a = b")
      case True
      then show ?thesis using eq j(3) by (simp add: hput_def set_word_def)
    next
      case False
      have "heap_frame s i \<noteq> heap_frame s j \<or> a mod 4096 div 4 \<noteq> b mod 4096 div 4"
      proof (rule ccontr)
        assume "\<not> ?thesis"
        then have e: "heap_frame s i = heap_frame s j" "a mod 4096 div 4 = b mod 4096 div 4" by simp_all
        have "inj_on (heap_frame s) {..< n}" using m(2) by (simp add: heap_mapped_def)
        then have "i = j" using e(1) i(1) j(1) by (auto dest: inj_onD)
        have d: "4 dvd a mod 4096" "4 dvd b mod 4096" using a b by (simp_all add: in_heap_def dvd_mod)
        then have "a mod 4096 = b mod 4096" using e(2) by (metis dvd_div_mult_self)
        then have "a = b" using i(2) j(2) \<open>i = j\<close> by (metis div_mult_mod_eq)
        with False show False ..
      qed
      then have "pmem ?s' (heap_frame s j) (b mod 4096 div 4) = pmem s (heap_frame s j) (b mod 4096 div 4)"
        by (auto simp: s' set_word_def)
      then show ?thesis using eq m(3) [OF b] False by (simp add: hword_def j(3))
    qed
  qed
  ultimately show "heap_view n ?s' (M(a := x))" using w(1) s' by (simp add: heap_view_def)
  show "same_machine s ?s'" unfolding same_machine_def using lk w(3) by (simp add: s' set_word_frame) (simp add: set_frame_def)
  show "f \<notin> heap_frame s ` {..< n} \<Longrightarrow> pmem ?s' f = pmem s f" using i(1) by (auto simp: s' set_word_def)
qed

end
