(* ===== verification/Heap_List.thy ===== *)
theory Heap_List
  imports Heap_Memory
begin

text \<open>
  The list of blocks the heap region holds.  A block is its size in bytes and whether it is in use;
  the blocks lie one after the other, so a list of blocks fixes the address of every header.
\<close>

section \<open>Lists of blocks\<close>

type_synonym blk = "nat \<times> bool"

fun extent :: "blk list \<Rightarrow> nat" where
  "extent [] = 0"
| "extent (x # L) = fst x + 16 + extent L"

lemma extent_append [simp]: "extent (L1 @ L2) = extent L1 + extent L2"
  by (induction L1) auto

text \<open>The address of the last header, \<open>p\<close> when there is none.\<close>

fun last_addr :: "nat \<Rightarrow> nat \<Rightarrow> blk list \<Rightarrow> nat" where
  "last_addr p a [] = p"
| "last_addr p a (x # L) = last_addr a (a + 16 + fst x) L"

lemma last_addr_append [simp]:
  "last_addr p a (L1 @ L2) = last_addr (last_addr p a L1) (a + extent L1) L2"
  by (induction L1 arbitrary: p a) (auto simp: add_ac)

text \<open>
  \<open>M\<close> holds the headers of the blocks \<open>L\<close> from address \<open>a\<close> on; the first one's \<^verbatim>\<open>prev\<close> is \<open>p\<close>, the
  last one's \<^verbatim>\<open>next\<close> is \<open>e\<close>.
\<close>

fun seg :: "nat \<Rightarrow> nat \<Rightarrow> blk list \<Rightarrow> nat \<Rightarrow> (nat \<Rightarrow> u32) \<Rightarrow> bool" where
  "seg p a [] e M \<longleftrightarrow> True"
| "seg p a (x # L) e M \<longleftrightarrow>
     M a = of_nat (fst x) \<and> (M (a + 4) AND 0xFF \<noteq> 0) = snd x \<and> M (a + 8) = of_nat p \<and>
     M (a + 12) = of_nat (if L = [] then e else a + 16 + fst x) \<and> seg a (a + 16 + fst x) L e M"

lemma seg_append:
  "seg p a (L1 @ L2) e M \<longleftrightarrow>
    seg p a L1 (if L2 = [] then e else a + extent L1) M \<and> seg (last_addr p a L1) (a + extent L1) L2 e M"
proof (induction L1 arbitrary: p a)
  case (Cons x L1)
  have "a + (16 + (fst x + extent L1)) = a + 16 + fst x + extent L1" by simp
  then show ?case by (cases "L1 = []"; cases "L2 = []") (auto simp: Cons.IH add_ac)
qed simp

lemma seg_cong:
  "(\<And>c. a \<le> c \<Longrightarrow> c < a + extent L \<Longrightarrow> M' c = M c) \<Longrightarrow> seg p a L e M' = seg p a L e M"
proof (induction L arbitrary: p a)
  case (Cons x L)
  have "seg a (a + 16 + fst x) L e M' = seg a (a + 16 + fst x) L e M"
    by (rule Cons.IH) (rule Cons.prems, simp_all)
  moreover have "M' a = M a" "M' (a + 4) = M (a + 4)" "M' (a + 8) = M (a + 8)" "M' (a + 12) = M (a + 12)"
    by (rule Cons.prems; simp)+
  ultimately show ?case by simp
qed simp

text \<open>Only the first \<^verbatim>\<open>prev\<close> depends on \<open>p\<close>.\<close>

lemma seg_prev:
  assumes "seg p a L e M" and "\<And>c. a \<le> c \<Longrightarrow> c < a + extent L \<Longrightarrow> c \<noteq> a + 8 \<Longrightarrow> M' c = M c"
    and "L \<noteq> [] \<Longrightarrow> M' (a + 8) = of_nat q"
  shows "seg q a L e M'"
proof (cases L)
  case (Cons x L')
  have "seg a (a + 16 + fst x) L' e M' = seg a (a + 16 + fst x) L' e M"
    by (rule seg_cong, rule assms(2)) (simp_all add: Cons)
  moreover have "M' a = M a" "M' (a + 4) = M (a + 4)" "M' (a + 12) = M (a + 12)"
    by (rule assms(2); simp add: Cons)+
  ultimately show ?thesis using assms(1,3) Cons by simp
qed simp

text \<open>Replacing some blocks by others of the same extent.\<close>

lemma seg_replace:
  assumes seg: "seg p a (L1 @ X @ L2) e M" and ne: "X \<noteq> []" "Y \<noteq> []" and ext: "extent Y = extent X"
    and bef: "\<And>c. a \<le> c \<Longrightarrow> c < a + extent L1 \<Longrightarrow> M' c = M c"
    and new: "seg (last_addr p a L1) (a + extent L1) Y (if L2 = [] then e else a + extent L1 + extent X) M'"
    and aft: "\<And>c. a + extent L1 + extent X \<le> c \<Longrightarrow> c < a + extent (L1 @ X @ L2) \<Longrightarrow>
        c \<noteq> a + extent L1 + extent X + 8 \<Longrightarrow> M' c = M c"
    and lnk: "L2 \<noteq> [] \<Longrightarrow> M' (a + extent L1 + extent X + 8) = of_nat (last_addr (last_addr p a L1) (a + extent L1) Y)"
  shows "seg p a (L1 @ Y @ L2) e M'"
proof -
  have s: "seg p a L1 (a + extent L1) M"
    "seg (last_addr p a (L1 @ X)) (a + extent L1 + extent X) L2 e M"
    using seg ne(1) unfolding seg_append by (simp_all add: add.assoc)
  have "seg p a L1 (a + extent L1) M' = seg p a L1 (a + extent L1) M" by (rule seg_cong) (rule bef)
  with s(1) have 1: "seg p a L1 (a + extent L1) M'" by simp
  have 2: "seg (last_addr (last_addr p a L1) (a + extent L1) Y) (a + extent L1 + extent X) L2 e M'"
    by (rule seg_prev [OF s(2)]) (use aft lnk in \<open>simp_all add: add.assoc\<close>)
  show ?thesis using 1 2 new ne(2) ext unfolding seg_append by (simp add: add.assoc split: if_splits)
qed

section \<open>The heap as a list\<close>

definition heap_rep :: "nat \<Rightarrow> 'z vmm_state_scheme \<Rightarrow> (nat \<Rightarrow> u32) \<Rightarrow> blk list \<Rightarrow> bool" where
  "heap_rep n s M L \<longleftrightarrow> heap_view n s M \<and> seg 0 heap_base L 0 M \<and> extent L = n * 4096 \<and>
     (\<forall>x \<in> set L. 4 dvd fst x) \<and> L \<noteq> []"

definition header_at :: "nat \<Rightarrow> nat \<Rightarrow> bool" where
  "header_at n b \<longleftrightarrow> in_heap n b \<and> in_heap n (b + 12)"

lemma header_words:
  "header_at n b \<Longrightarrow> in_heap n b \<and> in_heap n (b + 4) \<and> in_heap n (b + 8) \<and> in_heap n (b + 12)"
  by (auto simp: header_at_def in_heap_def intro: dvd_add)

lemma extent_dvd: "\<forall>x \<in> set L. 4 dvd fst x \<Longrightarrow> 4 dvd extent L"
  by (induction L) auto

lemma heap_limit: "heap_view n s M \<Longrightarrow> heap_base + n * 4096 \<le> 0xFFC00000"
  by (simp add: heap_view_def heap_mapped_def)

lemma rep_block:
  assumes r: "heap_rep n s M L" and L: "L = L1 @ (m, u) # L2" and b: "b = heap_base + extent L1"
  shows "header_at n b" "M b = of_nat m" "(M (b + 4) AND 0xFF \<noteq> 0) = u"
    "M (b + 8) = of_nat (last_addr 0 heap_base L1)"
    "M (b + 12) = of_nat (if L2 = [] then 0 else b + 16 + m)"
    "b + 16 + m + extent L2 = heap_base + n * 4096" "4 dvd m" "4 dvd b"
    "b + 16 + m + extent L2 \<le> 0xFFC00000"
proof -
  have d: "\<forall>x \<in> set L1. 4 dvd fst x" "4 dvd m" and e: "extent L = n * 4096"
    using r unfolding heap_rep_def L by auto
  show m: "4 dvd m" by (rule d(2))
  show d4: "4 dvd b" unfolding b using extent_dvd [OF d(1)] by (simp add: dvd_add)
  show tot: "b + 16 + m + extent L2 = heap_base + n * 4096" using e L b by simp
  have "heap_base \<le> b" by (simp add: b)
  moreover have "4 dvd b + 12" by (rule dvd_add [OF d4]) simp
  ultimately show "header_at n b" using tot d4 unfolding header_at_def in_heap_def by simp
  have "seg 0 heap_base (L1 @ (m, u) # L2) 0 M" using r L by (simp add: heap_rep_def)
  then have "seg (last_addr 0 heap_base L1) b ((m, u) # L2) 0 M" by (simp only: seg_append b)
  then show "M b = of_nat m" "(M (b + 4) AND 0xFF \<noteq> 0) = u" "M (b + 8) = of_nat (last_addr 0 heap_base L1)"
    "M (b + 12) = of_nat (if L2 = [] then 0 else b + 16 + m)" by simp_all
  have "heap_view n s M" using r by (simp add: heap_rep_def)
  from heap_limit [OF this] show "b + 16 + m + extent L2 \<le> 0xFFC00000" using tot by simp
qed

section \<open>Header accesses\<close>

lemma blk_reads:
  assumes "heap_view n s M" and "header_at n b"
  shows "blk_size (of_nat b) s = Some (M b)" "blk_used (of_nat b) s = Some (M (b + 4) AND 0xFF \<noteq> 0)"
    "blk_prev (of_nat b) s = Some (M (b + 8))" "blk_next (of_nat b) s = Some (M (b + 12))"
  using header_words [OF assms(2)] vread_heap [OF assms(1), of b] vread_heap [OF assms(1), of "b + 4"]
    vread_heap [OF assms(1), of "b + 8"] vread_heap [OF assms(1), of "b + 12"]
  by (simp_all add: blk_size_def blk_used_def blk_prev_def blk_next_def)

definition used_word :: "u32 \<Rightarrow> bool \<Rightarrow> u32" where
  "used_word w u = (w AND 0xFFFFFF00) OR (if u then 1 else 0)"

lemma used_word_byte [simp]: "used_word w u AND 0xFF \<noteq> 0 \<longleftrightarrow> u"
  by (simp add: used_word_def bit.conj_disj_distrib2 and.assoc)

lemma blk_writes:
  assumes "heap_view n s M" and "header_at n b"
  shows "set_size (of_nat b) v s = Some (hput b v s)"
    "set_used (of_nat b) u s = Some (hput (b + 4) (used_word (M (b + 4)) u) s)"
    "set_prev (of_nat b) v s = Some (hput (b + 8) v s)" "set_next (of_nat b) v s = Some (hput (b + 12) v s)"
  using header_words [OF assms(2)] vwrite_heap [OF assms(1), of b] vwrite_heap [OF assms(1), of "b + 4"]
    vwrite_heap [OF assms(1), of "b + 8"] vwrite_heap [OF assms(1), of "b + 12"]
    vread_heap [OF assms(1), of "b + 4"]
  by (simp_all add: set_size_def set_used_def set_prev_def set_next_def used_word_def)

text \<open>A run of header writes: the new contents of the region, and nothing else changed.\<close>

definition hstep ::
  "nat \<Rightarrow> 'z vmm_state_scheme \<Rightarrow> 'z vmm_state_scheme \<Rightarrow> (nat \<Rightarrow> u32) \<Rightarrow> bool" where
  "hstep n s s' M \<longleftrightarrow> heap_view n s' M \<and> same_machine s s' \<and>
     (\<forall>i < n. heap_frame s' i = heap_frame s i) \<and>
     (\<forall>f. f \<notin> heap_frame s ` {..< n} \<longrightarrow> pmem s' f = pmem s f)"

lemma hstep_view: "hstep n s s' M \<Longrightarrow> heap_view n s' M"
  by (simp add: hstep_def)

lemma hstep_refl: "heap_view n s M \<Longrightarrow> hstep n s s M"
  by (simp add: hstep_def)

lemma hstep_trans: "\<lbrakk> hstep n s t M; hstep n t u N \<rbrakk> \<Longrightarrow> hstep n s u N"
proof -
  assume a: "hstep n s t M" "hstep n t u N"
  then have "heap_frame t ` {..< n} = heap_frame s ` {..< n}" by (auto simp: hstep_def)
  then show ?thesis using a same_machine_trans by (auto simp: hstep_def)
qed

lemma hstep_put:
  assumes "hstep n s t M" and "in_heap n a"
  shows "hstep n s (hput a v t) (M(a := v))"
proof -
  have v: "heap_view n t M" using assms(1) by (rule hstep_view)
  note h = hput_ok [OF v assms(2)]
  have lim: "0xE0000 + n \<le> low_pages" using v by (simp add: heap_view_def heap_mapped_def)
  have "heap_frame (hput a v t) i = heap_frame t i" if "i < n" for i
    by (rule heap_frame_cong [OF that lim]) (use h(2) in \<open>simp add: same_machine_def\<close>)
  then have "hstep n t (hput a v t) (M(a := v))" using h by (simp add: hstep_def)
  then show ?thesis using hstep_trans assms(1) by blast
qed

lemma set_size_step:
  "\<lbrakk> hstep n s t M; header_at n b \<rbrakk> \<Longrightarrow> \<exists>t'. set_size (of_nat b) v t = Some t' \<and> hstep n s t' (M(b := v))"
  using blk_writes(1) hstep_put hstep_view header_words by blast

lemma set_used_step:
  "\<lbrakk> hstep n s t M; header_at n b \<rbrakk>
    \<Longrightarrow> \<exists>t'. set_used (of_nat b) u t = Some t' \<and> hstep n s t' (M(b + 4 := used_word (M (b + 4)) u))"
  using blk_writes(2) hstep_put hstep_view header_words by blast

lemma set_prev_step:
  "\<lbrakk> hstep n s t M; header_at n b \<rbrakk> \<Longrightarrow> \<exists>t'. set_prev (of_nat b) v t = Some t' \<and> hstep n s t' (M(b + 8 := v))"
  using blk_writes(3) hstep_put hstep_view header_words by blast

lemma set_next_step:
  "\<lbrakk> hstep n s t M; header_at n b \<rbrakk> \<Longrightarrow> \<exists>t'. set_next (of_nat b) v t = Some t' \<and> hstep n s t' (M(b + 12 := v))"
  using blk_writes(4) hstep_put hstep_view header_words by blast

definition put_header :: "nat \<Rightarrow> u32 \<Rightarrow> u32 \<Rightarrow> u32 \<Rightarrow> (nat \<Rightarrow> u32) \<Rightarrow> nat \<Rightarrow> u32" where
  "put_header b v p x M = M(b := v, b + 4 := used_word (M (b + 4)) False, b + 8 := p, b + 12 := x)"

lemma init_block_step:
  assumes "hstep n s t M" and "header_at n b"
  shows "\<exists>t'. init_block (of_nat b) v p x t = Some t' \<and> hstep n s t' (put_header b v p x M)"
proof -
  obtain t1 where t1: "set_size (of_nat b) v t = Some t1" "hstep n s t1 (M(b := v))"
    using set_size_step [OF assms] by blast
  obtain t2 where t2: "set_used (of_nat b) False t1 = Some t2"
    "hstep n s t2 (M(b := v, b + 4 := used_word (M (b + 4)) False))"
    using set_used_step [OF t1(2) assms(2)] by auto
  obtain t3 where t3: "set_prev (of_nat b) p t2 = Some t3"
    "hstep n s t3 (M(b := v, b + 4 := used_word (M (b + 4)) False, b + 8 := p))"
    using set_prev_step [OF t2(2) assms(2)] by blast
  obtain t4 where "set_next (of_nat b) x t3 = Some t4" "hstep n s t4 (put_header b v p x M)"
    using set_next_step [OF t3(2) assms(2)] unfolding put_header_def by blast
  then show ?thesis using t1(1) t2(1) t3(1) by (simp add: init_block_def)
qed

end
