(* ===== verification/Heap_Ops.thy ===== *)
theory Heap_Ops
  imports Heap_List
begin

text \<open>
  What every operation of \<^verbatim>\<open>heap.c\<close> does to the list of blocks.
\<close>

section \<open>Addresses\<close>

lemma addr_nonzero: "\<lbrakk> 0 < a; a < 2 ^ 32 \<rbrakk> \<Longrightarrow> (of_nat a :: u32) \<noteq> 0"
proof -
  assume "0 < a" "a < 2 ^ 32"
  then have "unat (of_nat a :: u32) \<noteq> 0" by (simp add: unat_of_nat_small)
  then show ?thesis by auto
qed

lemma addr_inj: "\<lbrakk> (of_nat a :: u32) = of_nat b; a < 2 ^ 32; b < 2 ^ 32 \<rbrakk> \<Longrightarrow> a = b"
  by (simp add: of_nat_inj_small)

lemma of_nat_le_small: "\<lbrakk> a < 2 ^ 32; b < 2 ^ 32 \<rbrakk> \<Longrightarrow> (of_nat a :: u32) \<le> of_nat b \<longleftrightarrow> a \<le> b"
  by (simp add: word_le_nat_alt unat_of_nat_small)

lemma of_nat_less_small: "\<lbrakk> a < 2 ^ 32; b < 2 ^ 32 \<rbrakk> \<Longrightarrow> (of_nat a :: u32) < of_nat b \<longleftrightarrow> a < b"
  by (simp add: word_less_nat_alt unat_of_nat_small)

section \<open>The loops\<close>

lemma rep_blk:
  assumes r: "heap_rep n s M L" and L: "L = L1 @ (m, u) # L2" and b: "b = heap_base + extent L1"
  shows "blk_size (of_nat b) s = Some (of_nat m)" "blk_used (of_nat b) s = Some u"
    "blk_prev (of_nat b) s = Some (of_nat (last_addr 0 heap_base L1))"
    "blk_next (of_nat b) s = Some (if L2 = [] then 0 else of_nat (b + 16 + m))"
    "(of_nat b :: u32) \<noteq> 0" "b < 2 ^ 32" "m < 2 ^ 32" "L2 \<noteq> [] \<Longrightarrow> (of_nat (b + 16 + m) :: u32) \<noteq> 0"
proof -
  note f = rep_block [OF assms]
  have v: "heap_view n s M" using r by (simp add: heap_rep_def)
  show "blk_size (of_nat b) s = Some (of_nat m)" "blk_used (of_nat b) s = Some u"
    "blk_prev (of_nat b) s = Some (of_nat (last_addr 0 heap_base L1))"
    "blk_next (of_nat b) s = Some (if L2 = [] then 0 else of_nat (b + 16 + m))"
    using blk_reads [OF v f(1)] f(2-5) by simp_all
  show b32: "b < 2 ^ 32" "m < 2 ^ 32" using f(9) by simp_all
  show "(of_nat b :: u32) \<noteq> 0" by (rule addr_nonzero [OF _ b32(1)]) (simp add: b)
  show "L2 \<noteq> [] \<Longrightarrow> (of_nat (b + 16 + m) :: u32) \<noteq> 0" by (rule addr_nonzero) (use f(9) in simp_all)
qed

lemma heap_last_ok:
  assumes "heap_rep n s M (L1 @ L2)" and "L2 \<noteq> []"
  shows "heap_last (of_nat (heap_base + extent L1)) s = Some (of_nat (last_addr 0 heap_base (L1 @ L2)))"
  using assms
proof (induction L2 arbitrary: L1)
  case (Cons x L2)
  obtain m u where x: "x = (m, u)" by (cases x)
  note f = rep_blk [OF Cons.prems(1)[unfolded x] refl refl]
  show ?case
  proof (cases "L2 = []")
    case True
    then show ?thesis using f(4) by (subst heap_last.simps) simp
  next
    case False
    have "heap_rep n s M ((L1 @ [x]) @ L2)" using Cons.prems(1) by simp
    from Cons.IH [OF this False] have
      "heap_last (of_nat (heap_base + extent L1 + 16 + m)) s = Some (of_nat (last_addr 0 heap_base (L1 @ x # L2)))"
      by (simp add: x add_ac)
    then show ?thesis using f(4) f(8) [OF False] False by (subst heap_last.simps) (simp add: x)
  qed
qed simp

definition fits :: "nat \<Rightarrow> blk \<Rightarrow> bool" where
  "fits k x \<longleftrightarrow> \<not> snd x \<and> k \<le> fst x"

lemma heap_find_ok:
  assumes "heap_rep n s M (L1 @ L2)" and "L2 \<noteq> []"
  shows "heap_find sz (of_nat (heap_base + extent L1)) s =
    Some (if \<exists>x \<in> set L2. fits (unat sz) x
          then of_nat (heap_base + extent L1 + extent (takeWhile (\<lambda>x. \<not> fits (unat sz) x) L2)) else 0)"
  using assms
proof (induction L2 arbitrary: L1)
  case (Cons x L2)
  obtain m u where x: "x = (m, u)" by (cases x)
  note f = rep_blk [OF Cons.prems(1)[unfolded x] refl refl]
  have ok: "(if u then Some False else do { n \<leftarrow> blk_size (of_nat (heap_base + extent L1)) s; Some (n \<ge> sz) })
      = Some (fits (unat sz) x)"
    using f(1,7) by (simp add: x fits_def word_le_nat_alt unat_of_nat_small)
  show ?case
  proof (cases "fits (unat sz) x")
    case True
    then show ?thesis using f(2,5) ok by (subst heap_find.simps) simp
  next
    case nf: False
    show ?thesis
    proof (cases "L2 = []")
      case True
      then show ?thesis using f(2,4,5) ok nf by (subst heap_find.simps) simp
    next
      case False
      have "heap_rep n s M ((L1 @ [x]) @ L2)" using Cons.prems(1) by simp
      note ih = Cons.IH [OF this False]
      have "heap_find sz (of_nat (heap_base + extent L1)) s = heap_find sz (of_nat (heap_base + extent L1 + 16 + m)) s"
        using f(2,4,5) f(8) [OF False] ok nf False by (subst heap_find.simps) simp
      then show ?thesis using ih nf by (simp add: x add_ac)
    qed
  qed
qed simp

text \<open>\<open>data_addr a L x\<close>: \<open>a\<close> is where the data of a block \<open>x\<close> of \<open>L\<close> starts.\<close>

definition data_addr :: "blk list \<Rightarrow> nat \<Rightarrow> blk \<Rightarrow> bool" where
  "data_addr L a x \<longleftrightarrow> (\<exists>L1 L2. L = L1 @ x # L2 \<and> a = heap_base + extent L1 + 16)"

lemma heap_block_of_found:
  assumes "heap_rep n s M (L1 @ L2 @ x # L3)"
  shows "heap_block_of (of_nat (heap_base + extent L1 + extent L2 + 16)) (of_nat (heap_base + extent L1)) s =
    Some (of_nat (heap_base + extent L1 + extent L2))"
  using assms
proof (induction L2 arbitrary: L1)
  case Nil
  have r: "heap_rep n s M (L1 @ x # L3)" using Nil by simp
  obtain m u where x: "x = (m, u)" by (cases x)
  note f = rep_blk [OF r[unfolded x] refl refl]
  show ?case using f(5) by (subst heap_block_of.simps) simp
next
  case (Cons y L2)
  have r: "heap_rep n s M (L1 @ y # (L2 @ x # L3))" using Cons.prems by simp
  obtain m u where y: "y = (m, u)" by (cases y)
  note f = rep_blk [OF r[unfolded y] refl refl]
  note g = rep_block [OF r[unfolded y] refl refl]
  let ?p = "heap_base + extent L1 + extent (y # L2) + 16"
  have "?p < 2 ^ 32" "heap_base + extent L1 + 16 < 2 ^ 32" using g(9) by (simp_all add: y)
  then have ne: "(of_nat (heap_base + extent L1) :: u32) + 16 \<noteq> of_nat ?p"
    using addr_inj [of "heap_base + extent L1 + 16" ?p] by (auto simp: y)
  have r': "heap_rep n s M ((L1 @ [y]) @ L2 @ x # L3)" using Cons.prems by simp
  have "heap_block_of (of_nat ?p) (of_nat (heap_base + extent L1)) s =
      heap_block_of (of_nat ?p) (of_nat (heap_base + extent L1 + 16 + m)) s"
    using f(4,5) ne by (subst heap_block_of.simps) simp
  with Cons.IH [OF r'] show ?case by (simp add: y add_ac)
qed

lemma heap_block_of_none:
  assumes "heap_rep n s M (L1 @ L2)" and "L2 \<noteq> []"
    and "\<And>L x L'. L2 = L @ x # L' \<Longrightarrow> ptr \<noteq> of_nat (heap_base + extent L1 + extent L + 16)"
  shows "heap_block_of ptr (of_nat (heap_base + extent L1)) s = Some 0"
  using assms
proof (induction L2 arbitrary: L1)
  case (Cons y L2)
  obtain m u where y: "y = (m, u)" by (cases y)
  note f = rep_blk [OF Cons.prems(1)[unfolded y] refl refl]
  have ne: "of_nat (heap_base + extent L1) + 16 \<noteq> ptr" using Cons.prems(3) [of "[]" y L2] by auto
  show ?case
  proof (cases "L2 = []")
    case True
    then show ?thesis using f(4,5) ne by (subst heap_block_of.simps) (simp add: heap_block_of.simps [of _ 0])
  next
    case False
    have r': "heap_rep n s M ((L1 @ [y]) @ L2)" using Cons.prems(1) by simp
    have "heap_block_of ptr (of_nat (heap_base + extent (L1 @ [y]))) s = Some 0"
    proof (rule Cons.IH [OF r' False])
      fix L x L' assume "L2 = L @ x # L'"
      then show "ptr \<noteq> of_nat (heap_base + extent (L1 @ [y]) + extent L + 16)"
        using Cons.prems(3) [of "y # L" x L'] by (simp add: add_ac)
    qed
    then show ?thesis using f(4,5) ne False by (subst heap_block_of.simps) (simp add: y add_ac)
  qed
qed simp

definition used_bytes :: "blk list \<Rightarrow> nat" where "used_bytes L = sum_list (map fst (filter snd L))"
definition free_bytes :: "blk list \<Rightarrow> nat" where "free_bytes L = sum_list (map fst (filter (\<lambda>x. \<not> snd x) L))"

lemma heap_totals_ok:
  assumes "heap_rep n s M (L1 @ L2)" and "L2 \<noteq> []"
  shows "heap_totals (of_nat (heap_base + extent L1)) (x, y, z) s =
    Some (x + of_nat (length L2), y + of_nat (used_bytes L2), z + of_nat (free_bytes L2))"
  using assms
proof (induction L2 arbitrary: L1 x y z)
  case (Cons a L2)
  obtain m u where a: "a = (m, u)" by (cases a)
  note f = rep_blk [OF Cons.prems(1)[unfolded a] refl refl]
  show ?case
  proof (cases "L2 = []")
    case True
    then show ?thesis using f(1,2,4,5)
      by (subst heap_totals.simps) (simp add: heap_totals.simps [of 0] used_bytes_def free_bytes_def a)
  next
    case False
    have r': "heap_rep n s M ((L1 @ [a]) @ L2)" using Cons.prems(1) by simp
    from Cons.IH [OF r' False] show ?thesis using f(1,2,4,5) False
      by (subst heap_totals.simps) (simp add: used_bytes_def free_bytes_def a add_ac)
  qed
qed simp

section \<open>Marking and splitting\<close>

lemma rep_stepI:
  assumes "heap_rep n s M L" and "hstep n s s' M'" and "seg 0 heap_base L' 0 M'"
    and "extent L' = extent L" and "\<forall>x \<in> set L'. 4 dvd fst x" and "L' \<noteq> []"
  shows "heap_rep n s' M' L'"
  using assms hstep_view by (auto simp: heap_rep_def)

lemma rep_start: "heap_rep n s M L \<Longrightarrow> hstep n s s M"
  by (simp add: heap_rep_def hstep_refl)

lemma rep_follower:
  assumes r: "heap_rep n s M (L1 @ (m, u) # L2)" and b: "b = heap_base + extent L1" and ne: "L2 \<noteq> []"
  shows "M (b + 16 + m + 8) = of_nat b" "header_at n (b + 16 + m)"
proof -
  obtain x v L3 where L2: "L2 = (x, v) # L3" using ne by (cases L2) auto
  have "heap_rep n s M ((L1 @ [(m, u)]) @ (x, v) # L3)" using r L2 by simp
  from rep_block [OF this refl refl] show "M (b + 16 + m + 8) = of_nat b" "header_at n (b + 16 + m)"
    by (simp_all add: b add_ac)
qed

lemma mark_block:
  assumes r: "heap_rep n s M (L1 @ (m, u) # L2)" and b: "b = heap_base + extent L1"
  shows "\<exists>s' M'. set_used (of_nat b) v s = Some s' \<and> hstep n s s' M' \<and> heap_rep n s' M' (L1 @ (m, v) # L2)"
proof -
  note f = rep_block [OF r refl b]
  let ?M = "M(b + 4 := used_word (M (b + 4)) v)"
  obtain s' where s': "set_used (of_nat b) v s = Some s'" "hstep n s s' ?M"
    using set_used_step [OF rep_start [OF r] f(1)] by blast
  have "seg 0 heap_base (L1 @ [(m, v)] @ L2) 0 ?M"
    by (rule seg_replace [of _ _ _ "[(m, u)]" _ _ M])
      (use r f(2-5) rep_follower [OF r b] in \<open>simp_all add: heap_rep_def b add_ac seg_append split: if_splits\<close>)
  then have "heap_rep n s' ?M (L1 @ (m, v) # L2)"
    by (intro rep_stepI [OF r s'(2)]) (use r in \<open>auto simp: heap_rep_def\<close>)
  then show ?thesis using s' by blast
qed

lemma is_free_block:
  assumes "heap_rep n s M (L1 @ (m, u) # L2)" and "b = heap_base + extent L1"
  shows "is_free (of_nat b) s = Some (\<not> u)"
  using rep_blk [OF assms(1) refl assms(2)] by (simp add: is_free_def)

definition split_blk :: "nat \<Rightarrow> nat \<Rightarrow> bool \<Rightarrow> blk list" where
  "split_blk k m u = (if k + 48 \<le> m then [(k, u), (m - k - 16, False)] else [(m, u)])"

lemma split_blk_facts [simp]:
  "extent (split_blk k m u) = m + 16" "split_blk k m u \<noteq> []"
  "4 dvd k \<Longrightarrow> 4 dvd m \<Longrightarrow> x \<in> set (split_blk k m u) \<Longrightarrow> 4 dvd fst x"
  by (auto simp: split_blk_def dvd_diff_nat split: if_splits)

lemma seg_two:
  "\<lbrakk> M b = of_nat k; (M (b + 4) AND 0xFF \<noteq> 0) = u; M (b + 8) = of_nat p; M (b + 12) = of_nat c; c = b + 16 + k;
     M c = of_nat j; (M (c + 4) AND 0xFF \<noteq> 0) = v; M (c + 8) = of_nat b; M (c + 12) = of_nat e \<rbrakk>
    \<Longrightarrow> seg p b [(k, u), (j, v)] e M"
  by simp

lemma split_block:
  assumes r: "heap_rep n s M (L1 @ (m, False) # L2)" and b: "b = heap_base + extent L1"
    and k: "4 dvd k" "m \<le> k \<or> k + 16 \<le> m" "k < 2 ^ 32"
  shows "\<exists>s' M'. heap_split_block (of_nat b) (of_nat k) s = Some s' \<and> hstep n s s' M' \<and>
    heap_rep n s' M' (L1 @ split_blk k m False @ L2)"
proof -
  note f = rep_block [OF r refl b] and g = rep_blk [OF r refl b]
  note free = is_free_block [OF r b]
  have small: "(of_nat m :: u32) \<le> of_nat k \<longleftrightarrow> m \<le> k" using g(7) k(3) by (rule of_nat_le_small)
  have new: "(of_nat m - of_nat k - 16 :: u32) = of_nat (m - k - 16)" if "k + 16 \<le> m"
    using that by (simp add: of_nat_diff)
  have lt: "(of_nat (m - k - 16) :: u32) < 32 \<longleftrightarrow> m - k - 16 < 32"
    using of_nat_less_small [of "m - k - 16" 32] g(7) by simp
  show ?thesis
  proof (cases "k + 48 \<le> m")
    case False
    have "m \<le> k \<or> (of_nat m - of_nat k - 16 :: u32) < 32"
    proof (cases "m \<le> k")
      case nle: False
      then have "k + 16 \<le> m" using k(2) by simp
      then show ?thesis unfolding new [OF \<open>k + 16 \<le> m\<close>] lt using False by simp
    qed simp
    then have "heap_split_block (of_nat b) (of_nat k) s = Some s"
      using free g(1) small by (auto simp: heap_split_block_def Let_def)
    then show ?thesis using rep_start [OF r] r False by (intro exI [of _ s] exI [of _ M]) (simp add: split_blk_def)
  next
    case True
    define c where "c = b + k + 16"
    have c: "(of_nat b + of_nat k + 16 :: u32) = of_nat c" by (simp add: c_def)
    have "in_heap n b" using f(1) by (simp add: header_at_def)
    moreover have "4 dvd c" "4 dvd c + 12" using f(8) k(1) by (simp_all add: c_def)
    ultimately have hc: "header_at n c"
      using f(6) True by (simp add: header_at_def in_heap_def c_def)
    define x where "x = (if L2 = [] then 0 else of_nat (b + 16 + m) :: u32)"
    define d where "d = (of_nat (m - k - 16) :: u32)"
    have nx: "blk_next (of_nat b) s = Some x" using g(4) by (simp only: x_def)
    have d: "(of_nat m - of_nat k - 16 :: u32) = d" "\<not> d < 32" using new lt True by (simp_all add: d_def)
    let ?M1 = "put_header c d (of_nat b) x M"
    obtain s1 where s1: "init_block (of_nat c) d (of_nat b) x s = Some s1" "hstep n s s1 ?M1"
      using init_block_step [OF rep_start [OF r] hc] by blast
    have M1: "?M1 a = M a" if "a < c" for a using that by (simp add: put_header_def)
    have nx1: "blk_next (of_nat b) s1 = Some x"
      using blk_reads(4) [OF hstep_view [OF s1(2)] f(1)] M1 [of "b + 12"] True f(5) by (simp add: c_def x_def)
    define M2 where "M2 = (if L2 = [] then ?M1 else ?M1(b + 16 + m + 8 := of_nat c))"
    obtain s2 where s2: "(if x \<noteq> 0 then set_prev x (of_nat c) s1 else Some s1) = Some s2" "hstep n s s2 M2"
    proof (cases "L2 = []")
      case True
      then show ?thesis using that [of s1] s1(2) by (simp add: M2_def x_def)
    next
      case False
      from set_prev_step [OF s1(2) rep_follower(2) [OF r b False], of "of_nat c"] show ?thesis
        using that False g(8) [OF False] by (auto simp: M2_def x_def)
    qed
    obtain s3 where s3: "set_size (of_nat b) (of_nat k) s2 = Some s3" "hstep n s s3 (M2(b := of_nat k))"
      using set_size_step [OF s2(2) f(1)] by blast
    let ?M4 = "M2(b := of_nat k, b + 12 := of_nat c)"
    obtain s4 where s4: "set_next (of_nat b) (of_nat c) s3 = Some s4" "hstep n s s4 ?M4"
      using set_next_step [OF s3(2) f(1)] by blast
    have run: "heap_split_block (of_nat b) (of_nat k) s = Some s4"
      using free g(1) nx small True c s1(1) nx1 s2(1) s3(1) s4(1)
      by (simp add: heap_split_block_def Let_def d cong: if_cong)
    have "seg 0 heap_base (L1 @ [(k, False), (m - k - 16, False)] @ L2) 0 ?M4"
    proof (rule seg_replace [of _ _ _ "[(m, False)]" _ _ M])
      show "seg 0 heap_base (L1 @ [(m, False)] @ L2) 0 M" using r by (simp add: heap_rep_def)
      show "extent [(k, False), (m - k - 16, False)] = extent [(m, False)]" using True by simp
      fix a assume "heap_base \<le> a" "a < heap_base + extent L1"
      then show "?M4 a = M a" using M1 [of a] by (simp add: b [symmetric] c_def M2_def)
    next
      fix a assume "heap_base + extent L1 + extent [(m, False)] \<le> a"
        "a \<noteq> heap_base + extent L1 + extent [(m, False)] + 8"
      then show "?M4 a = M a" using True by (simp add: b [symmetric] c_def M2_def put_header_def)
    next
      assume ne: "L2 \<noteq> []"
      have "?M4 (b + 16 + m + 8) = of_nat c" using ne by (simp add: M2_def)
      moreover have "b + 16 + m + 8 = b + extent [(m, False)] + 8"
        "last_addr (last_addr 0 heap_base L1) b [(k, False), (m - k - 16, False)] = c"
        by (simp_all add: c_def)
      ultimately show "?M4 (heap_base + extent L1 + extent [(m, False)] + 8) =
          of_nat (last_addr (last_addr 0 heap_base L1) (heap_base + extent L1) [(k, False), (m - k - 16, False)])"
        unfolding b [symmetric] by (simp only:)
    next
      have "?M4 a = M2 a" if "a \<noteq> b" "a \<noteq> b + 12" for a using that by simp
      moreover have "M2 a = ?M1 a" if "a < b + 16 + m" for a using that by (simp add: M2_def)
      ultimately have hdr: "?M4 (b + 4) = M (b + 4)" "?M4 (b + 8) = M (b + 8)" "?M4 c = d"
        "?M4 (c + 4) = used_word (M (c + 4)) False" "?M4 (c + 8) = of_nat b" "?M4 (c + 12) = x"
        using True by (simp_all add: c_def put_header_def)
      have e: "x = of_nat (if L2 = [] then 0 else b + extent [(m, False)])"
        by (simp add: x_def)
      show "seg (last_addr 0 heap_base L1) (heap_base + extent L1) [(k, False), (m - k - 16, False)]
          (if L2 = [] then 0 else heap_base + extent L1 + extent [(m, False)]) ?M4"
        unfolding b [symmetric]
      proof (rule seg_two [of _ _ _ _ _ c])
        show "?M4 b = of_nat k" "?M4 (b + 12) = of_nat c" "c = b + 16 + k" by (simp_all add: c_def)
        show "(?M4 (b + 4) AND 0xFF \<noteq> 0) = False" "?M4 (b + 8) = of_nat (last_addr 0 heap_base L1)"
          unfolding hdr using f(3,4) by simp_all
        show "?M4 c = of_nat (m - k - 16)" unfolding hdr by (rule d_def)
        show "(?M4 (c + 4) AND 0xFF \<noteq> 0) = False" unfolding hdr by simp
        show "?M4 (c + 8) = of_nat b" "?M4 (c + 12) = of_nat (if L2 = [] then 0 else b + extent [(m, False)])"
          unfolding hdr using e by simp_all
      qed
    qed simp_all
    then have "heap_rep n s4 ?M4 (L1 @ split_blk k m False @ L2)"
      using True r k(1) f(7) by (intro rep_stepI [OF r s4(2)]) (auto simp: heap_rep_def split_blk_def dvd_diff_nat)
    then show ?thesis using run s4(2) by blast
  qed
qed

section \<open>Merging\<close>

definition joined :: "nat \<Rightarrow> nat \<Rightarrow> nat \<Rightarrow> nat \<Rightarrow> bool \<Rightarrow> (nat \<Rightarrow> u32) \<Rightarrow> nat \<Rightarrow> u32" where
  "joined b c m1 m2 link M =
     (let M1 = M(b := of_nat (m1 + 16 + m2), b + 12 := M (c + 12))
      in if link then M1(c + 16 + m2 + 8 := of_nat b) else M1)"

lemma rep_pair:
  assumes r: "heap_rep n s M (L1 @ (m1, u) # (m2, v) # L2)" and b: "b = heap_base + extent L1" "c = b + 16 + m1"
  shows "heap_rep n s M ((L1 @ [(m1, u)]) @ (m2, v) # L2)" "c = heap_base + extent (L1 @ [(m1, u)])"
  using r b by simp_all

lemma join_blocks:
  assumes r: "heap_rep n s M (L1 @ (m1, u) # (m2, v) # L2)" and b: "b = heap_base + extent L1" "c = b + 16 + m1"
    and st: "hstep n s s' (joined b c m1 m2 (L2 \<noteq> []) M)"
  shows "heap_rep n s' (joined b c m1 m2 (L2 \<noteq> []) M) (L1 @ (m1 + 16 + m2, u) # L2)"
proof (rule rep_stepI [OF r st])
  let ?M = "joined b c m1 m2 (L2 \<noteq> []) M"
  note f = rep_block [OF r refl b(1)] and g = rep_block [OF rep_pair(1) [OF r b] refl rep_pair(2) [OF r b]]
  have same: "?M a = M a" if "a \<noteq> b" "a \<noteq> b + 12" "a \<noteq> c + 16 + m2 + 8" for a
    using that by (simp add: joined_def Let_def)
  have c: "b < c" "b + 12 < c" by (simp_all add: b(2))
  have new: "?M b = of_nat (m1 + 16 + m2)" "?M (b + 12) = M (c + 12)"
    using c by (simp_all add: joined_def Let_def)
  have "seg 0 heap_base (L1 @ [(m1 + 16 + m2, u)] @ L2) 0 ?M"
  proof (rule seg_replace [of _ _ _ "[(m1, u), (m2, v)]" _ _ M])
    show "seg 0 heap_base (L1 @ [(m1, u), (m2, v)] @ L2) 0 M" using r by (simp add: heap_rep_def)
    fix a assume "heap_base \<le> a" "a < heap_base + extent L1"
    then show "?M a = M a" using c by (intro same) (simp_all flip: b(1))
  next
    fix a assume "heap_base + extent L1 + extent [(m1, u), (m2, v)] \<le> a"
      "a \<noteq> heap_base + extent L1 + extent [(m1, u), (m2, v)] + 8"
    then show "?M a = M a" unfolding b(1) [symmetric] by (intro same) (simp_all add: b(2))
  next
    assume "L2 \<noteq> []"
    moreover have "b + extent [(m1, u), (m2, v)] + 8 = c + 16 + m2 + 8" by (simp add: b(2))
    ultimately show "?M (heap_base + extent L1 + extent [(m1, u), (m2, v)] + 8) =
        of_nat (last_addr (last_addr 0 heap_base L1) (heap_base + extent L1) [(m1 + 16 + m2, u)])"
      unfolding b(1) [symmetric] by (simp add: joined_def Let_def)
  next
    have "?M (b + 4) = M (b + 4)" "?M (b + 8) = M (b + 8)" by (rule same; simp add: b(2))+
    moreover have "M (c + 12) = of_nat (if L2 = [] then 0 else b + extent [(m1, u), (m2, v)])"
      using g(5) by (simp add: b(2) add_ac)
    ultimately show "seg (last_addr 0 heap_base L1) (heap_base + extent L1) [(m1 + 16 + m2, u)]
        (if L2 = [] then 0 else heap_base + extent L1 + extent [(m1, u), (m2, v)]) ?M"
      unfolding b(1) [symmetric] using f(3,4) new by simp
  qed simp_all
  then show "seg 0 heap_base (L1 @ (m1 + 16 + m2, u) # L2) 0 ?M" by simp
qed (use r in \<open>auto simp: heap_rep_def\<close>)

text \<open>The writes both merges make: the joined size, the link over the second header, and the back link.\<close>

lemma join_run:
  assumes r: "heap_rep n s M (L1 @ (m1, u) # (m2, v) # L2)" and b: "b = heap_base + extent L1" "c = b + 16 + m1"
  shows "\<exists>s1 s2 s3. set_size (of_nat b) (of_nat m1 + (of_nat m2 + 16)) s = Some s1 \<and>
    blk_next (of_nat c) s1 = blk_next (of_nat c) s \<and> blk_prev (of_nat c) s1 = blk_prev (of_nat c) s \<and>
    blk_next (of_nat b) s1 = blk_next (of_nat b) s \<and>
    set_next (of_nat b) (if L2 = [] then 0 else of_nat (c + 16 + m2)) s1 = Some s2 \<and>
    blk_next (of_nat c) s2 = blk_next (of_nat c) s \<and> blk_prev (of_nat c) s2 = blk_prev (of_nat c) s \<and>
    blk_next (of_nat b) s2 = blk_next (of_nat c) s \<and>
    (if L2 = [] then Some s2 else set_prev (of_nat (c + 16 + m2)) (of_nat b) s2) = Some s3 \<and>
    blk_prev (of_nat c) s3 = blk_prev (of_nat c) s \<and>
    hstep n s s3 (joined b c m1 m2 (L2 \<noteq> []) M)"
proof -
  note r2 = rep_pair [OF r b]
  note f = rep_block [OF r refl b(1)] and g = rep_block [OF r2(1) refl r2(2)]
  note h = rep_blk [OF r2(1) refl r2(2)]
  let ?v = "of_nat m1 + (of_nat m2 + 16) :: u32" and ?x = "if L2 = [] then 0 else of_nat (c + 16 + m2) :: u32"
  have v: "?v = of_nat (m1 + 16 + m2)" by (simp add: add_ac)
  have c: "b < c" "b + 12 < c" by (simp_all add: b(2))
  obtain s1 where s1: "set_size (of_nat b) ?v s = Some s1" "hstep n s s1 (M(b := ?v))"
    using set_size_step [OF rep_start [OF r] f(1)] by blast
  obtain s2 where s2: "set_next (of_nat b) ?x s1 = Some s2" "hstep n s s2 (M(b := ?v, b + 12 := ?x))"
    using set_next_step [OF s1(2) f(1)] by blast
  have x: "M (c + 12) = ?x" using g(5) by simp
  have M2: "M(b := ?v, b + 12 := ?x) = joined b c m1 m2 False M"
    unfolding x [symmetric] v joined_def by simp
  obtain s3 where s3: "(if L2 = [] then Some s2 else set_prev (of_nat (c + 16 + m2)) (of_nat b) s2) = Some s3"
    "hstep n s s3 (joined b c m1 m2 (L2 \<noteq> []) M)"
  proof (cases "L2 = []")
    case True
    then show ?thesis using that [of s2] s2(2) M2 by simp
  next
    case False
    from set_prev_step [OF s2(2) rep_follower(2) [OF r2 False], of "of_nat b"]
    obtain s3 where "set_prev (of_nat (c + 16 + m2)) (of_nat b) s2 = Some s3"
      "hstep n s s3 ((joined b c m1 m2 False M)(c + 16 + m2 + 8 := of_nat b))" unfolding M2 by blast
    then show ?thesis using that [of s3] False by (simp add: joined_def Let_def)
  qed
  note v0 = blk_reads [OF hstep_view [OF rep_start [OF r]]]
    and v1 = blk_reads [OF hstep_view [OF s1(2)]] and v2 = blk_reads [OF hstep_view [OF s2(2)]]
    and v3 = blk_reads [OF hstep_view [OF s3(2)]]
  have j: "joined b c m1 m2 (L2 \<noteq> []) M (c + 8) = M (c + 8)" using c by (simp add: joined_def Let_def)
  show ?thesis
    by (rule exI [of _ s1], rule exI [of _ s2], rule exI [of _ s3])
      (use s1(1) s2(1) s3 v0(3,4) [OF g(1)] v0(4) [OF f(1)] v1(3,4) [OF g(1)] v1(4) [OF f(1)]
        v2(3,4) [OF g(1)] v2(4) [OF f(1)] v3(3) [OF g(1)] c j x in \<open>simp\<close>)
qed

lemma merge_next_ok:
  assumes r: "heap_rep n s M (L1 @ (m, u) # L2)" and b: "b = heap_base + extent L1"
  shows "\<exists>s' M'. merge_next (of_nat b) s = Some s' \<and> hstep n s s' M' \<and>
    heap_rep n s' M' (L1 @ (case L2 of (k, False) # L3 \<Rightarrow> (m + 16 + k, u) # L3 | _ \<Rightarrow> (m, u) # L2))"
proof (cases "\<exists>k L3. L2 = (k, False) # L3")
  case False
  have nx: "is_free (if L2 = [] then 0 else of_nat (b + 16 + m)) s = Some False"
  proof (cases L2)
    case (Cons x L3)
    then have "x = (fst x, True)" using False by (cases x) auto
    with Cons r have "heap_rep n s M (L1 @ (m, u) # (fst x, True) # L3)" by simp
    from is_free_block [OF rep_pair [OF this b refl]] show ?thesis using Cons by simp
  qed (simp add: is_free_def)
  have "merge_next (of_nat b) s = Some s"
    using rep_blk(4) [OF r refl b] nx by (simp add: merge_next_def)
  moreover have "(case L2 of (k, False) # L3 \<Rightarrow> (m + 16 + k, u) # L3 | _ \<Rightarrow> (m, u) # L2) = (m, u) # L2"
    using False by (auto split: list.splits bool.splits)
  ultimately show ?thesis using rep_start [OF r] r by auto
next
  case True
  then obtain k L3 where L2: "L2 = (k, False) # L3" by blast
  define c where "c = b + 16 + m"
  have r': "heap_rep n s M (L1 @ (m, u) # (k, False) # L3)" using r L2 by simp
  note r2 = rep_pair [OF r' b c_def]
  note f = rep_blk [OF r' refl b] and g = rep_blk [OF r2(1) refl r2(2)]
  obtain s1 s2 s3 where st: "set_size (of_nat b) (of_nat m + (of_nat k + 16)) s = Some s1"
    "blk_next (of_nat c) s1 = blk_next (of_nat c) s" "blk_next (of_nat b) s1 = blk_next (of_nat b) s"
    "set_next (of_nat b) (if L3 = [] then 0 else of_nat (c + 16 + k)) s1 = Some s2"
    "blk_next (of_nat b) s2 = blk_next (of_nat c) s"
    "(if L3 = [] then Some s2 else set_prev (of_nat (c + 16 + k)) (of_nat b) s2) = Some s3"
    "hstep n s s3 (joined b c m k (L3 \<noteq> []) M)"
    using join_run [OF r' b c_def] by blast
  have nb: "blk_next (of_nat b) s = Some (of_nat c)" using f(4) by (simp add: c_def)
  have fr: "is_free (of_nat c) s = Some True" using is_free_block [OF r2] by simp
  have "merge_next (of_nat b) s = Some s3"
    using nb fr f(1) g(1,4,8) st by (simp add: merge_next_def split: if_splits)
  then show ?thesis using st(7) join_blocks [OF r' b c_def st(7)] by (auto simp: L2)
qed

lemma merge_prev_ok:
  assumes r: "heap_rep n s M (L1 @ (m, u) # L2)" and b: "b = heap_base + extent L1"
  shows "\<exists>s' M'. hstep n s s' M' \<and>
    (if L1 \<noteq> [] \<and> \<not> snd (last L1)
     then merge_prev (of_nat b) s = Some (of_nat (heap_base + extent (butlast L1)), s') \<and>
       heap_rep n s' M' (butlast L1 @ (fst (last L1) + 16 + m, False) # L2)
     else merge_prev (of_nat b) s = Some (of_nat b, s') \<and> heap_rep n s' M' (L1 @ (m, u) # L2))"
proof (cases "L1 \<noteq> [] \<and> \<not> snd (last L1)")
  case False
  have "is_free (of_nat (last_addr 0 heap_base L1)) s = Some False"
  proof (cases L1 rule: rev_cases)
    case (snoc L0 x)
    then have x: "x = (fst x, True)" using False by (cases x) auto
    have "heap_rep n s M (L0 @ (fst x, True) # (m, u) # L2)" using r snoc x by (metis append_Cons append_Nil append_assoc)
    from is_free_block [OF this refl] show ?thesis using snoc by simp
  qed (simp add: is_free_def)
  then have "merge_prev (of_nat b) s = Some (of_nat b, s)"
    using rep_blk(3) [OF r refl b] by (simp add: merge_prev_def)
  then show ?thesis using False rep_start [OF r] r by auto
next
  case True
  then obtain L0 k where L1: "L1 = L0 @ [(k, False)]"
    by (metis append_butlast_last_id prod.collapse)
  define a where "a = heap_base + extent L0"
  have c: "b = a + 16 + k" by (simp add: b L1 a_def)
  have r': "heap_rep n s M (L0 @ (k, False) # (m, u) # L2)" using r L1 by simp
  note r2 = rep_pair [OF r' a_def c]
  note f = rep_blk [OF r' refl a_def] and g = rep_blk [OF r2(1) refl r2(2)]
  obtain s1 s2 s3 where st: "set_size (of_nat a) (of_nat k + (of_nat m + 16)) s = Some s1"
    "blk_next (of_nat b) s1 = blk_next (of_nat b) s" "blk_prev (of_nat b) s1 = blk_prev (of_nat b) s"
    "set_next (of_nat a) (if L2 = [] then 0 else of_nat (b + 16 + m)) s1 = Some s2"
    "blk_next (of_nat b) s2 = blk_next (of_nat b) s" "blk_prev (of_nat b) s2 = blk_prev (of_nat b) s"
    "(if L2 = [] then Some s2 else set_prev (of_nat (b + 16 + m)) (of_nat a) s2) = Some s3"
    "blk_prev (of_nat b) s3 = blk_prev (of_nat b) s"
    "hstep n s s3 (joined a b k m (L2 \<noteq> []) M)"
    using join_run [OF r' a_def c] by blast
  have pb: "blk_prev (of_nat b) s = Some (of_nat a)" using g(3) by (simp add: a_def)
  have fr: "is_free (of_nat a) s = Some True" using is_free_block [OF r' a_def] by simp
  have "merge_prev (of_nat b) s = Some (of_nat a, s3)"
    using pb fr f(1) g(1,4,8) st by (simp add: merge_prev_def split: if_splits)
  then show ?thesis using True st(9) join_blocks [OF r' a_def c st(9)] by (auto simp: L1 a_def)
qed

text \<open>The blocks around a free block of \<open>m\<close> bytes after merging.\<close>

definition absorb_next :: "nat \<Rightarrow> blk list \<Rightarrow> blk list" where
  "absorb_next m L2 = (case L2 of (k, False) # L3 \<Rightarrow> (m + 16 + k, False) # L3 | _ \<Rightarrow> (m, False) # L2)"

definition coalesce :: "blk list \<Rightarrow> nat \<Rightarrow> blk list \<Rightarrow> blk list" where
  "coalesce L1 m L2 =
     (if L1 \<noteq> [] \<and> \<not> snd (last L1) then butlast L1 @ absorb_next (fst (last L1) + 16 + m) L2
      else L1 @ absorb_next m L2)"

lemma heap_merge_ok:
  assumes r: "heap_rep n s M (L1 @ (m, False) # L2)" and b: "b = heap_base + extent L1"
  shows "\<exists>s' M'. heap_merge_free_blocks (of_nat b) s = Some s' \<and> hstep n s s' M' \<and> heap_rep n s' M' (coalesce L1 m L2)"
proof -
  have fr: "is_free (of_nat b) s = Some True" using is_free_block [OF r b] by simp
  obtain s1 M1 where s1: "hstep n s s1 M1"
    "if L1 \<noteq> [] \<and> \<not> snd (last L1)
     then merge_prev (of_nat b) s = Some (of_nat (heap_base + extent (butlast L1)), s1) \<and>
       heap_rep n s1 M1 (butlast L1 @ (fst (last L1) + 16 + m, False) # L2)
     else merge_prev (of_nat b) s = Some (of_nat b, s1) \<and> heap_rep n s1 M1 (L1 @ (m, False) # L2)"
    using merge_prev_ok [OF r b] by blast
  define K where "K = (if L1 \<noteq> [] \<and> \<not> snd (last L1) then butlast L1 else L1)"
  define j where "j = (if L1 \<noteq> [] \<and> \<not> snd (last L1) then fst (last L1) + 16 + m else m)"
  have mp: "merge_prev (of_nat b) s = Some (of_nat (heap_base + extent K), s1)" and r1: "heap_rep n s1 M1 (K @ (j, False) # L2)"
    using s1(2) b by (auto simp: K_def j_def split: if_splits)
  obtain s2 M2 where s2: "merge_next (of_nat (heap_base + extent K)) s1 = Some s2" "hstep n s1 s2 M2"
    "heap_rep n s2 M2 (K @ absorb_next j L2)"
    using merge_next_ok [OF r1 refl] unfolding absorb_next_def by blast
  have "coalesce L1 m L2 = K @ absorb_next j L2" by (simp add: coalesce_def K_def j_def)
  moreover have "heap_merge_free_blocks (of_nat b) s = Some s2"
    using fr mp s2(1) by (simp add: heap_merge_free_blocks_def)
  ultimately show ?thesis using hstep_trans [OF s1(1) s2(2)] s2(3) by auto
qed

end
