(* ===== verification/Heap_Grow.thy ===== *)
theory Heap_Grow
  imports Heap_Ops
begin

text \<open>
  Initialising and expanding the heap: the region allocator of the virtual memory manager appends
  pages to the heap region, and a new block takes them up.
\<close>

section \<open>New pages\<close>

lemma more_heap_start:
  "vmm_state.more s' = vmm_state.more s \<Longrightarrow> heap_start s' = heap_start (s :: 'z heap_state_scheme)"
  by (cases s; cases s') auto

lemma frame_of_entry_for:
  assumes "vm_inv s" and "p \<in> free_pages s" and "flags < 0x1000"
  shows "frame_of (entry_for p flags) = page_addr p" "fnum (page_addr p) = p"
proof -
  have p: "0 < p" "p < 2 ^ 20" using free_pages_range [OF vm_invD(1) [OF assms(1)] assms(2)] by auto
  show "fnum (page_addr p) = p" using p by (simp add: page_addr_unat)
  show "frame_of (entry_for p flags) = page_addr p"
    unfolding entry_for_def by (rule frame_of_entry [OF frame_of_page_addr [OF p(2)] assms(3)])
qed

lemma heap_view_grow:
  assumes inv: "vm_inv s" and view: "n \<noteq> 0 \<Longrightarrow> heap_view n s M" and fl: "flags < 0x1000"
    and lim: "0xE0000 + n + length ps \<le> low_pages" and run: "run_mapped flags (0xE0000 + n) ps s s'"
  shows "heap_view (n + length ps) s' (\<lambda>a. if a < heap_base + n * 4096 then M a else hword s' a)"
    and "heap_frame s' ` {..< n + length ps} \<inter> {f. data_frame s f} \<subseteq> heap_frame s ` {..< n}"
proof -
  have lk: "lookup s' v = (if 0xE0000 + n \<le> v \<and> v < 0xE0000 + n + length ps
      then Some (entry_for (ps ! (v - (0xE0000 + n))) flags) else lookup s v)" if "v < low_pages" for v
    using run that by (simp add: run_mapped_def)
  have ps: "set ps \<subseteq> free_pages s" "distinct ps" "\<And>p. p \<in> set ps \<Longrightarrow> data_frame s' (page_addr p)"
    "keeps_data s s'" "vm_inv s'" using run by (simp_all add: run_mapped_def)
  have old: "lookup s (0xE0000 + i) \<noteq> None" "data_frame s (heap_frame s i)" "heap_frame s' i = heap_frame s i"
    "lookup s' (0xE0000 + i) = lookup s (0xE0000 + i)" if "i < n" for i
  proof -
    have "heap_mapped n s" using view that by (simp add: heap_view_def)
    then show "lookup s (0xE0000 + i) \<noteq> None" "data_frame s (heap_frame s i)" using that by (simp_all add: heap_mapped_def)
    show "lookup s' (0xE0000 + i) = lookup s (0xE0000 + i)" using lk [of "0xE0000 + i"] lim that by simp
    then show "heap_frame s' i = heap_frame s i" by (simp add: heap_frame_def)
  qed
  have new: "lookup s' (0xE0000 + (n + j)) \<noteq> None" "heap_frame s' (n + j) = page_addr (ps ! j)" "ps ! j \<in> set ps"
    if "j < length ps" for j
  proof -
    have l: "lookup s' (0xE0000 + (n + j)) = Some (entry_for (ps ! j) flags)"
      using lk [of "0xE0000 + (n + j)"] lim that by simp
    then show "lookup s' (0xE0000 + (n + j)) \<noteq> None" by simp
    show m: "ps ! j \<in> set ps" using that by simp
    then show "heap_frame s' (n + j) = page_addr (ps ! j)"
      using l frame_of_entry_for(1) [OF inv _ fl] ps(1) by (auto simp: heap_frame_def)
  qed
  have cases: "i < n \<or> (\<exists>j < length ps. i = n + j)" if "i < n + length ps" for i
    using that by (cases "i < n") (auto intro: exI [of _ "i - n"])
  have fnew: "p \<in> free_pages s \<and> fnum (page_addr p) = p" if "p \<in> set ps" for p
    using that ps(1) frame_of_entry_for(2) [OF inv _ fl] by auto
  have "heap_mapped (n + length ps) s'"
    unfolding heap_mapped_def
  proof (intro conjI allI impI inj_onI)
    show "0xE0000 + (n + length ps) \<le> low_pages" using lim by simp
    fix i assume "i < n + length ps"
    then consider "i < n" | j where "j < length ps" "i = n + j" using cases by blast
    then show "lookup s' (0xE0000 + i) \<noteq> None" "data_frame s' (heap_frame s' i)"
      using old [of i] new ps(3,4) by (cases; simp add: keeps_data_def)+
  next
    fix i j assume ij: "i \<in> {..< n + length ps}" "j \<in> {..< n + length ps}" "heap_frame s' i = heap_frame s' j"
    have mix: False if "i < n" "k < length ps" "heap_frame s i = page_addr (ps ! k)" for i k
      using old(2) [OF that(1)] fnew [OF new(3) [OF that(2)]] that(3) by (simp add: data_frame_def)
    have sn: "inj_on (heap_frame s) {..< n}" using view by (cases "n = 0") (auto simp: heap_view_def heap_mapped_def)
    consider "i < n" "j < n" | k where "i < n" "k < length ps" "j = n + k" | k where "k < length ps" "i = n + k" "j < n"
      | k l where "k < length ps" "l < length ps" "i = n + k" "j = n + l"
      using cases [of i] cases [of j] ij(1,2) by auto
    then show "i = j"
    proof cases
      case 1
      then show ?thesis using sn ij(3) old(3) by (auto dest: inj_onD)
    next
      case 2
      then show ?thesis using mix ij(3) old(3) new(2) by metis
    next
      case 3
      then show ?thesis using mix ij(3) old(3) new(2) by metis
    next
      case 4
      then have "page_addr (ps ! k) = page_addr (ps ! l)" using ij(3) new(2) by simp
      then have "ps ! k = ps ! l" using fnew new(3) 4(1,2) by metis
      then show ?thesis using 4 ps(2) by (simp add: nth_eq_iff_index_eq)
    qed
  qed
  moreover have "hword s' a = M a" if "in_heap (n + length ps) a" "a < heap_base + n * 4096" for a
  proof -
    have a: "in_heap n a" using that by (simp add: in_heap_def)
    have n0: "n \<noteq> 0" using that by (auto simp: in_heap_def)
    obtain i where i: "i < n" "a div 4096 - 0xE0000 = i"
      using in_heap_page [OF _ a] view [OF n0] by (metis heap_view_def)
    have "pmem s' (heap_frame s i) = pmem s (heap_frame s i)" using ps(4) old(2) [OF i(1)] by (simp add: keeps_data_def)
    then have "hword s' a = hword s a" using old(3) [OF i(1)] i(2) by (simp add: hword_def)
    then show ?thesis using view [OF n0] a by (simp add: heap_view_def)
  qed
  ultimately show "heap_view (n + length ps) s' (\<lambda>a. if a < heap_base + n * 4096 then M a else hword s' a)"
    using ps(5) by (simp add: heap_view_def)
  show "heap_frame s' ` {..< n + length ps} \<inter> {f. data_frame s f} \<subseteq> heap_frame s ` {..< n}"
  proof
    fix f assume "f \<in> heap_frame s' ` {..< n + length ps} \<inter> {f. data_frame s f}"
    then obtain i where i: "i < n + length ps" "f = heap_frame s' i" "data_frame s f" by auto
    from cases [OF i(1)] show "f \<in> heap_frame s ` {..< n}"
    proof (elim disjE exE conjE)
      fix j assume j: "j < length ps" "i = n + j"
      then have "fnum f \<in> free_pages s" using i(2) new [OF j(1)] fnew by simp
      with i(3) show ?thesis by (simp add: data_frame_def)
    qed (use i old in auto)
  qed
qed

text \<open>
  What the heap leaves alone: the mapping of every page that was mapped, and the contents of every
  data frame that is not one of the heap's own.  The heap has \<open>n\<close> pages before and \<open>k\<close> pages after;
  pages it gained were free.
\<close>

definition outside_kept :: "nat \<Rightarrow> 'z vmm_state_scheme \<Rightarrow> nat \<Rightarrow> 'z vmm_state_scheme \<Rightarrow> bool" where
  "outside_kept n s k s' \<longleftrightarrow> cr3 s' = cr3 s \<and> cpu_flags s' = cpu_flags s \<and>
     (\<forall>v < low_pages. lookup s v \<noteq> None \<longrightarrow> lookup s' v = lookup s v) \<and>
     (\<forall>f. data_frame s f \<and> f \<notin> heap_frame s ` {..< n} \<longrightarrow> data_frame s' f \<and> pmem s' f = pmem s f) \<and>
     heap_frame s' ` {..< k} \<inter> {f. data_frame s f} \<subseteq> heap_frame s ` {..< n}"

lemma outside_kept_step: "hstep n s s' M \<Longrightarrow> outside_kept n s n s'"
  by (auto simp: hstep_def same_machine_def outside_kept_def)

lemma outside_kept_refl [simp]: "outside_kept n s n s"
  by (auto simp: outside_kept_def)

lemma outside_kept_trans [trans]:
  assumes "outside_kept n s k t" and "outside_kept k t l u"
  shows "outside_kept n s l u"
proof -
  have a: "cr3 t = cr3 s" "cpu_flags t = cpu_flags s" "\<And>v. v < low_pages \<Longrightarrow> lookup s v \<noteq> None \<Longrightarrow> lookup t v = lookup s v"
    "\<And>f. data_frame s f \<Longrightarrow> f \<notin> heap_frame s ` {..< n} \<Longrightarrow> data_frame t f \<and> pmem t f = pmem s f"
    "heap_frame t ` {..< k} \<inter> {f. data_frame s f} \<subseteq> heap_frame s ` {..< n}"
    using assms(1) by (simp_all add: outside_kept_def)
  have b: "cr3 u = cr3 t" "cpu_flags u = cpu_flags t" "\<And>v. v < low_pages \<Longrightarrow> lookup t v \<noteq> None \<Longrightarrow> lookup u v = lookup t v"
    "\<And>f. data_frame t f \<Longrightarrow> f \<notin> heap_frame t ` {..< k} \<Longrightarrow> data_frame u f \<and> pmem u f = pmem t f"
    "heap_frame u ` {..< l} \<inter> {f. data_frame t f} \<subseteq> heap_frame t ` {..< k}"
    using assms(2) by (simp_all add: outside_kept_def)
  have c: "data_frame u f \<and> pmem u f = pmem s f" if "data_frame s f" "f \<notin> heap_frame s ` {..< n}" for f
    using a(4) [OF that] b(4) [of f] a(5) that by fastforce
  have d: "heap_frame u ` {..< l} \<inter> {f. data_frame s f} \<subseteq> heap_frame s ` {..< n}"
  proof
    fix f assume f: "f \<in> heap_frame u ` {..< l} \<inter> {f. data_frame s f}"
    show "f \<in> heap_frame s ` {..< n}"
    proof (rule ccontr)
      assume nf: "f \<notin> heap_frame s ` {..< n}"
      then have "data_frame t f" using a(4) f by simp
      then have "f \<in> heap_frame t ` {..< k}" using b(5) f by blast
      then show False using a(5) f nf by blast
    qed
  qed
  show ?thesis unfolding outside_kept_def using a(1-3) b(1-3) c d by simp
qed

end
