(* ===== verification/Heap_Alloc.thy ===== *)
theory Heap_Alloc
  imports Heap_Grow
begin

text \<open>
  The operations of \<^verbatim>\<open>heap.c\<close> on the heap as a list of blocks: initialisation, expansion, allocation
  and release.
\<close>

section \<open>The invariant of the heap\<close>

text \<open>The heap starts at its fixed address and holds the blocks \<open>L\<close>, which fill whole pages.\<close>

definition heap_inv :: "'z heap_state_scheme \<Rightarrow> blk list \<Rightarrow> bool" where
  "heap_inv s L \<longleftrightarrow> heap_start s = of_nat heap_base \<and> (\<exists>M. heap_rep (extent L div 4096) s M L)"

abbreviation heap_pages :: "blk list \<Rightarrow> nat" where "heap_pages L \<equiv> extent L div 4096"

lemma heap_view_kept:
  assumes "heap_view n s M" and "vm_inv s'" and "keeps_data s s'"
    and "\<And>v. v < low_pages \<Longrightarrow> lookup s v \<noteq> None \<Longrightarrow> lookup s' v = lookup s v"
  shows "heap_view n s' M" "\<And>i. i < n \<Longrightarrow> heap_frame s' i = heap_frame s i"
proof -
  have m: "heap_mapped n s" "\<And>a. in_heap n a \<Longrightarrow> hword s a = M a" using assms(1) by (auto simp: heap_view_def)
  have lk: "lookup s' (0xE0000 + i) = lookup s (0xE0000 + i)" if "i < n" for i
    using m(1) that by (intro assms(4)) (simp_all add: heap_mapped_def)
  then show fr: "heap_frame s' i = heap_frame s i" if "i < n" for i using that by (simp add: heap_frame_def)
  have df: "data_frame s (heap_frame s i)" if "i < n" for i using m(1) that by (simp add: heap_mapped_def)
  have "heap_mapped n s'"
    using m(1) lk fr df assms(3) by (auto simp: heap_mapped_def keeps_data_def inj_on_def)
  moreover have "hword s' a = M a" if a: "in_heap n a" for a
  proof -
    obtain i where i: "i < n" "a div 4096 - 0xE0000 = i" by (rule in_heap_page [OF m(1) a])
    have "pmem s' (heap_frame s i) = pmem s (heap_frame s i)" using assms(3) df [OF i(1)] by (simp add: keeps_data_def)
    then show ?thesis using m(2) [OF a] fr [OF i(1)] i(2) by (simp add: hword_def)
  qed
  ultimately show "heap_view n s' M" using assms(2) by (simp add: heap_view_def)
qed

lemma heap_invE:
  assumes "heap_inv s L"
  obtains M n where "heap_rep n s M L" "n = heap_pages L" "extent L = n * 4096" "heap_start s = of_nat heap_base"
proof -
  obtain M where M: "heap_rep (heap_pages L) s M L" "heap_start s = of_nat heap_base"
    using assms unfolding heap_inv_def by blast
  then have "extent L = heap_pages L * 4096" unfolding heap_rep_def by blast
  with M show thesis using that by blast
qed

lemma heap_invI:
  assumes "heap_rep n s M L" and "heap_start s = of_nat heap_base"
  shows "heap_inv s L"
proof -
  have "heap_pages L = n" using assms(1) by (simp add: heap_rep_def)
  then have "heap_rep (heap_pages L) s M L" using assms(1) by (simp only:)
  then show ?thesis using assms(2) unfolding heap_inv_def by blast
qed

lemma hstep_inv:
  assumes "hstep n s s' M'" and "heap_rep n s' M' L'" and "heap_start s = of_nat heap_base"
  shows "heap_inv (s' :: 'z heap_state_scheme) L'"
proof -
  have "heap_start s' = heap_start s" using assms(1) by (intro more_heap_start) (simp add: hstep_def same_machine_def)
  then show ?thesis using heap_invI [OF assms(2)] assms(3) by simp
qed

section \<open>Expansion\<close>

lemma region_empty:
  assumes "self_mapped s" and "n \<noteq> 0" and "page_steps (align_up rs PAGE_SIZE) (align_down re PAGE_SIZE) = 0"
  shows "vmm_alloc_pages_region n flags rs re s = Some (0, s)"
  using assms by (simp add: vmm_alloc_pages_region_def Let_def)

text \<open>A region that starts at a page boundary and has exactly \<open>n\<close> pages is allocated as a whole or not at all.\<close>

lemma exact_region:
  assumes inv: "vm_inv s" and fl: "flags < 0x1000" and q: "0 < q" "q + unat n \<le> low_pages" and n: "n \<noteq> 0"
  shows "(\<exists>ps s'. vmm_alloc_pages_region n flags (page_addr q) (page_addr q + n * PAGE_SIZE) s = Some (page_addr q, s') \<and>
      length ps = unat n \<and> is_run s (unat n) q \<and> run_mapped flags q ps s s' \<and> vmm_state.more s' = vmm_state.more s) \<or>
    (\<exists>s'. vmm_alloc_pages_region n flags (page_addr q) (page_addr q + n * PAGE_SIZE) s = Some (0, s') \<and>
      map_restored 0 0 s s' \<and> vmm_state.more s' = vmm_state.more s)"
proof -
  have q20: "q < 2 ^ 20" using q(2) by simp
  note a = page_addr_unat [OF q20]
  have n0: "0 < unat n" using n by (simp add: unat_gt_0)
  have e: "unat (page_addr q + n * PAGE_SIZE) = (q + unat n) * 4096"
    by (rule unat_run_end [OF a]) (use q(2) in simp)
  have fp: "first_page (page_addr q) = q" "vpn (page_addr q + n * PAGE_SIZE) = q + unat n" using a e by simp_all
  have "region_fits n (page_addr q) (page_addr q + n * PAGE_SIZE)"
    unfolding region_fits_def fp a e using n q(2) by simp
  note ok = vmm_alloc_pages_region_ok [OF inv fl this]
  have more: "vmm_state.more s' = vmm_state.more s"
    if "vmm_alloc_pages_region n flags (page_addr q) (page_addr q + n * PAGE_SIZE) s = Some (r, s')" for r s'
    using region_cpu [unfolded keeps_cpu_def] that by blast
  from ok show ?thesis
  proof (elim disjE exE conjE)
    fix q' ps s'
    assume r: "vmm_alloc_pages_region n flags (page_addr q) (page_addr q + n * PAGE_SIZE) s = Some (page_addr q', s')"
      "first_page (page_addr q) \<le> q'" "q' + unat n \<le> vpn (page_addr q + n * PAGE_SIZE)" "length ps = unat n"
      "run_mapped flags q' ps s s'"
      and low: "lowest_run s (unat n) (first_page (page_addr q)) (vpn (page_addr q + n * PAGE_SIZE)) (Some (page_addr q'))"
    then have q': "q' = q" using fp by simp
    obtain q2 where q2: "page_addr q' = page_addr q2" "q2 + unat n \<le> q + unat n" "is_run s (unat n) q2"
      using low unfolding fp by (rule lowest_run_someD) blast
    have "q2 = q" using page_addr_inj [of q2 q] q2(1,2) q20 q' by simp
    then show ?thesis using r more [OF r(1)] q' q2(3) by blast
  next
    fix s'
    assume r: "vmm_alloc_pages_region n flags (page_addr q) (page_addr q + n * PAGE_SIZE) s = Some (0, s')" "map_restored 0 0 s s'"
    then show ?thesis using more [OF r(1)] by blast
  qed
qed

lemma map_restored_same:
  assumes "map_restored 0 0 s s'"
  shows "vm_inv s'" "keeps_data s s'" "\<And>v. v < low_pages \<Longrightarrow> lookup s' v = lookup s v"
    "0xE0000 + n \<le> low_pages \<Longrightarrow> outside_kept n s n s'"
proof -
  show a: "vm_inv s'" "keeps_data s s'" "\<And>v. v < low_pages \<Longrightarrow> lookup s' v = lookup s v"
    using assms by (simp_all add: map_restored_def)
  assume "0xE0000 + n \<le> low_pages"
  then have "heap_frame s' ` {..< n} = heap_frame s ` {..< n}" using heap_frame_cong [of _ n s' s] a(3) by auto
  then show "outside_kept n s n s'" using a(2,3) assms by (auto simp: map_restored_def outside_kept_def keeps_data_def)
qed

lemma run_mapped_outside:
  assumes "run_mapped flags q ps s s'" and "\<And>i. i < length ps \<Longrightarrow> lookup s (q + i) = None"
    and "heap_frame s' ` {..< k} \<inter> {f. data_frame s f} \<subseteq> heap_frame s ` {..< n}"
  shows "outside_kept n s k s'"
proof -
  have "lookup s v = None" if "q \<le> v" "v < q + length ps" for v
    using assms(2) [of "v - q"] that by simp
  then show ?thesis using assms(1,3) by (auto simp: run_mapped_def outside_kept_def keeps_data_def)
qed

text \<open>A new last block on new pages.\<close>

lemma append_block:
  assumes r: "heap_rep n s M (L0 @ [(m, u)])" and b: "b = heap_base + extent L0"
    and c: "c = heap_base + n * 4096"
    and v: "heap_view (n + k) s' N" and k: "0 < k" and same: "\<And>a. a < c \<Longrightarrow> N a = M a"
  shows "\<exists>t t' M'. init_block (of_nat c) (of_nat (k * 4096 - 16)) (of_nat b) 0 s' = Some t \<and>
    set_next (of_nat b) (of_nat c) t = Some t' \<and> hstep (n + k) s' t' M' \<and>
    heap_rep (n + k) t' M' (L0 @ [(m, u), (k * 4096 - 16, False)])"
proof -
  let ?j = "k * 4096 - 16"
  note f = rep_block [OF r refl b]
  have cb: "c = b + 16 + m" using f(6) c by simp
  have hb: "header_at (n + k) b" using f(1) by (auto simp: header_at_def in_heap_def)
  have hc: "header_at (n + k) c" using k by (simp add: header_at_def in_heap_def c)
  let ?M1 = "put_header c (of_nat ?j) (of_nat b) 0 N"
  let ?M2 = "?M1(b + 12 := of_nat c)"
  obtain t where t: "init_block (of_nat c) (of_nat ?j) (of_nat b) 0 s' = Some t" "hstep (n + k) s' t ?M1"
    using init_block_step [OF hstep_refl [OF v] hc] by blast
  obtain t' where t': "set_next (of_nat b) (of_nat c) t = Some t'" "hstep (n + k) s' t' ?M2"
    using set_next_step [OF t(2) hb] by blast
  have old: "?M2 a = M a" if "a < c" "a \<noteq> b + 12" for a
    using that same [of a] by (simp add: put_header_def)
  have "seg 0 heap_base (L0 @ [(m, u)]) 0 M" using r by (simp add: heap_rep_def)
  then have s: "seg 0 heap_base L0 b M" by (simp add: seg_append b)
  have "seg 0 heap_base L0 b ?M2 = seg 0 heap_base L0 b M"
    by (rule seg_cong, rule old) (use cb b in simp_all)
  then have s1: "seg 0 heap_base L0 b ?M2" using s by simp
  have s2: "seg (last_addr 0 heap_base L0) b [(m, u), (?j, False)] 0 ?M2"
  proof (rule seg_two [of _ _ _ _ _ c])
    show "?M2 b = of_nat m" using old [of b] f(2) cb by simp
    show "(?M2 (b + 4) AND 0xFF \<noteq> 0) = u" using old [of "b + 4"] f(3) cb by simp
    show "?M2 (b + 8) = of_nat (last_addr 0 heap_base L0)" using old [of "b + 8"] f(4) cb by simp
    show "?M2 (b + 12) = of_nat c" by simp
    show "c = b + 16 + m" by (rule cb)
    show "?M2 c = of_nat ?j" "?M2 (c + 8) = of_nat b" "?M2 (c + 12) = of_nat 0"
      using cb by (simp_all add: put_header_def)
    show "(?M2 (c + 4) AND 0xFF \<noteq> 0) = False" using cb by (simp add: put_header_def)
  qed
  have "seg 0 heap_base (L0 @ [(m, u), (?j, False)]) 0 ?M2"
    unfolding seg_append b [symmetric] using s1 s2 by simp
  moreover have "extent (L0 @ [(m, u), (?j, False)]) = (n + k) * 4096" using cb c k b by (simp add: algebra_simps)
  moreover have "\<forall>x \<in> set (L0 @ [(m, u), (?j, False)]). 4 dvd fst x"
    using r by (auto simp: heap_rep_def intro!: dvd_diff_nat)
  ultimately have "heap_rep (n + k) t' ?M2 (L0 @ [(m, u), (?j, False)])"
    using hstep_view [OF t'(2)] by (simp add: heap_rep_def)
  then show ?thesis using t(1) t' by blast
qed

lemma last_block:
  assumes r: "heap_rep n s M L" and L: "L = L0 @ [(m, u)]"
  shows "heap_last (of_nat heap_base) s = Some (of_nat (heap_base + extent L0))"
    "blk_size (of_nat (heap_base + extent L0)) s = Some (of_nat m)"
    "heap_base + extent L0 + 16 + m = heap_base + n * 4096" "0xE0000 + n \<le> low_pages"
proof -
  show "heap_last (of_nat heap_base) s = Some (of_nat (heap_base + extent L0))"
    using heap_last_ok [of n s M "[]" L] r L by simp
  show "blk_size (of_nat (heap_base + extent L0)) s = Some (of_nat m)"
    using rep_blk(1) [OF r L refl] .
  show "heap_base + extent L0 + 16 + m = heap_base + n * 4096" using rep_block(6) [OF r L refl] by simp
  show "0xE0000 + n \<le> low_pages" using r by (simp add: heap_rep_def heap_view_def heap_mapped_def)
qed

text \<open>
  Asked for \<open>k\<close> pages the heap either grows by a free block of \<open>k\<close> pages at its end, or returns \<^verbatim>\<open>NULL\<close>
  and keeps its blocks.
\<close>

definition grown :: "blk list \<Rightarrow> nat \<Rightarrow> blk list" where
  "grown L k = L @ [(k * 4096 - 16, False)]"

lemma heap_expand_start:
  assumes r: "heap_rep n s M L" and L: "L = L0 @ [(m, u)]" and hs: "heap_start s = of_nat heap_base"
    and B: "B = of_nat (heap_base + extent L0)" and C: "C = of_nat (heap_base + n * 4096)" and k: "k \<noteq> 0"
  shows "heap_expand k s = (if C + k * PAGE_SIZE \<ge> 0xFFC00000 then Some (0, s)
      else do {
        (new_block, s) \<leftarrow> vmm_alloc_pages_region k (2 OR 1) C (C + k * PAGE_SIZE) s;
        if new_block = 0 then Some (0, s)
        else do {
          s \<leftarrow> init_block new_block (k * PAGE_SIZE - 16) B 0 s;
          s \<leftarrow> set_next B new_block s;
          Some (new_block, s) } })"
proof -
  note l = last_block [OF r L]
  have "B + 16 + of_nat m = (of_nat (heap_base + extent L0 + 16 + m) :: u32)" by (simp add: B)
  then have e: "B + 16 + of_nat m = C" unfolding l(3) C .
  have h: "heap_last (heap_start s) s = Some B" "blk_size B s = Some (of_nat m)" "heap_start s \<noteq> 0"
    using l(1,2) by (simp_all add: hs B)
  show ?thesis unfolding heap_expand_def Let_def using h k by (simp add: e)
qed

lemma heap_expand_ok:
  assumes inv: "heap_inv s L" and k: "k \<noteq> 0" "unat k < 2 ^ 20"
  shows "\<exists>r s'. heap_expand k s = Some (r, s') \<and> 
    (if r = 0 then heap_inv s' L \<and> outside_kept (heap_pages L) s (heap_pages L) s'
     else r = of_nat (heap_base + extent L) \<and> heap_inv s' (grown L (unat k)) \<and>
       outside_kept (heap_pages L) s (heap_pages (grown L (unat k))) s')"
proof -
  obtain M n where n: "heap_rep n s M L" "n = heap_pages L" "extent L = n * 4096" "heap_start s = of_nat heap_base"
    by (rule heap_invE [OF inv])
  obtain L0 m u where L: "L = L0 @ [(m, u)]" using n(1) by (metis heap_rep_def rev_exhaust surj_pair)
  note l = last_block [OF n(1) L]
  define c where "c = heap_base + n * 4096"
  define b where "b = heap_base + extent L0"
  define C B where "C = (of_nat c :: u32)" and "B = (of_nat b :: u32)"
  have view: "heap_view n s M" and vm: "vm_inv s" using n(1) by (simp_all add: heap_rep_def heap_view_def)
  have c32: "c + 4095 < 2 ^ 32" using l(4) by (simp add: c_def)
  then have uc: "unat C = c" unfolding C_def by (intro unat_of_nat_small) simp
  have "unat (page_addr (0xE0000 + n)) = c" using l(4) by (simp add: page_addr_unat c_def)
  then have q: "page_addr (0xE0000 + n) = C" using uc by (simp only: word_unat_eq_iff)
  have C0: "C \<noteq> 0" using uc by (auto simp: c_def)
  note start = heap_expand_start [OF n(1) L n(4) _ _ k(1), of B C, unfolded B_def C_def, folded b_def c_def,
      OF refl refl, folded B_def C_def]
  have kp: "unat (k * PAGE_SIZE) = unat k * 4096" by (rule unat_pages) (use k(2) in simp)
  have stay: ?thesis if "heap_expand k s = Some (0, s)" using inv that by (intro exI [of _ 0] exI [of _ s]) simp
  show ?thesis
  proof (cases "c + unat k * 4096 < 2 ^ 32")
    case False
    have "unat (C + k * PAGE_SIZE) = (c + unat k * 4096) mod 2 ^ 32" using uc kp by (simp only: unat_word_ariths) simp
    also have "\<dots> = c + unat k * 4096 - 2 ^ 32" using False c32 k(2) by (simp add: mod_if)
    finally have "unat (C + k * PAGE_SIZE) \<le> c" using k(2) by simp
    moreover have "unat (align_up C PAGE_SIZE) = c"
      using align_page(1) [of C] uc c32 by (simp add: c_def)
    moreover have "unat (align_down (C + k * PAGE_SIZE) PAGE_SIZE) \<le> unat (C + k * PAGE_SIZE)" unfolding align_page(2) by simp
    ultimately have "page_steps (align_up C PAGE_SIZE) (align_down (C + k * PAGE_SIZE) PAGE_SIZE) = 0"
      unfolding page_steps_def by simp
    from region_empty [OF vm_invD(2) [OF vm] k(1) this] show ?thesis by (intro stay) (simp add: start)
  next
    case True
    then have end1: "unat (C + k * PAGE_SIZE) = c + unat k * 4096"
      using uc kp by (subst unat_add_nowrap) simp_all
    show ?thesis
    proof (cases "c + unat k * 4096 < 0xFFC00000")
      case False
      then show ?thesis by (intro stay) (simp add: start word_le_nat_alt end1)
    next
      case small: True
      then have go: "\<not> (C + k * PAGE_SIZE \<ge> 0xFFC00000)" by (simp add: word_le_nat_alt end1)
      have lim: "0xE0000 + n + unat k \<le> low_pages" using small by (simp add: c_def)
      have pos: "0 < 0xE0000 + n" and fl: "(2 OR 1 :: u32) < 0x1000" by simp_all
      from exact_region [OF vm fl pos lim k(1)] show ?thesis
        unfolding q
      proof (elim disjE exE conjE)
        fix s' assume r: "vmm_alloc_pages_region k (2 OR 1) C (C + k * PAGE_SIZE) s = Some (0, s')"
          "map_restored 0 0 s s'" "vmm_state.more s' = vmm_state.more s"
        note same = map_restored_same [OF r(2)]
        have "heap_view n s' M" by (rule heap_view_kept(1) [OF view same(1,2)]) (rule same(3))
        then have "heap_rep n s' M L" using n(1) by (simp add: heap_rep_def)
        then have "heap_inv s' L" by (rule heap_invI) (use more_heap_start [OF r(3)] n(4) in simp)
        moreover have "heap_expand k s = Some (0, s')" unfolding start using go r(1) by simp
        ultimately show ?thesis using same(4) l(4) n(2) by (intro exI [of _ 0] exI [of _ s']) simp
      next
        fix ps s' assume r: "vmm_alloc_pages_region k (2 OR 1) C (C + k * PAGE_SIZE) s = Some (C, s')"
          "length ps = unat k" "is_run s (unat k) (0xE0000 + n)" "run_mapped (2 OR 1) (0xE0000 + n) ps s s'"
          "vmm_state.more s' = vmm_state.more s"
        have un: "lookup s (0xE0000 + n + i) = None" if "i < length ps" for i
          using r(2,3) that by (simp add: is_run_def)
        have lim': "0xE0000 + n + length ps \<le> low_pages" using lim r(2) by simp
        note v1 = heap_view_grow(1) [OF vm view fl lim' r(4), unfolded r(2)]

        note out = run_mapped_outside [OF r(4) un heap_view_grow(2) [OF vm view fl lim' r(4)], unfolded r(2)]
        have k0: "0 < unat k" using k(1) by (simp add: unat_gt_0)
        have r0: "heap_rep n s M (L0 @ [(m, u)])" using n(1) L by simp
        have "k * PAGE_SIZE - 16 = of_nat (unat k * 4096 - 16)" using k0 by (simp add: of_nat_diff)
        then obtain t t' M' where
          t: "init_block C (k * PAGE_SIZE - 16) B 0 s' = Some t"
          "set_next B C t = Some t'" "hstep (n + unat k) s' t' M'"
          "heap_rep (n + unat k) t' M' (L0 @ [(m, u), (unat k * 4096 - 16, False)])"
          using append_block [OF r0 b_def c_def v1 k0, folded C_def B_def] c_def by auto
        have run: "heap_expand k s = Some (C, t')" unfolding start using go r(1) C0 t(1,2) by simp
        have "heap_inv t' (grown L (unat k))"
          using hstep_inv [OF t(3,4)] more_heap_start [OF r(5)] n(4) by (simp add: grown_def L)
        moreover have "C = of_nat (heap_base + extent L)" by (simp only: C_def c_def n(3))
        moreover have "extent (grown L (unat k)) = (n + unat k) * 4096"
          using t(4) by (simp add: heap_rep_def grown_def L)
        then have "heap_pages (grown L (unat k)) = n + unat k" by simp
        with outside_kept_trans [OF out outside_kept_step [OF t(3)]]
        have "outside_kept (heap_pages L) s (heap_pages (grown L (unat k))) t'" by (simp only: n(2))
        ultimately show ?thesis using run C0 by (intro exI [of _ C] exI [of _ t']) simp
      qed
    qed
  qed
qed

section \<open>Initialisation\<close>

lemma heap_start_frame [simp]:
  "dir (s\<lparr>heap_start := c\<rparr>) = dir s" "pd (s\<lparr>heap_start := c\<rparr>) d = pd s d"
  "free_pages (s\<lparr>heap_start := c\<rparr>) = free_pages s" "managed_pages (s\<lparr>heap_start := c\<rparr>) = managed_pages s"
  "pmm_inv (s\<lparr>heap_start := c\<rparr>) = pmm_inv s" "lookup (s\<lparr>heap_start := c\<rparr>) v = lookup s v"
  "vm_inv (s\<lparr>heap_start := c\<rparr>) = vm_inv s" "data_frame (s\<lparr>heap_start := c\<rparr>) f = data_frame s f"
  "heap_frame (s\<lparr>heap_start := c\<rparr>) i = heap_frame s i" "heap_mapped n (s\<lparr>heap_start := c\<rparr>) = heap_mapped n s"
  "hword (s\<lparr>heap_start := c\<rparr>) a = hword s a" "heap_view n (s\<lparr>heap_start := c\<rparr>) M = heap_view n s M"
  "outside_kept n t k (s\<lparr>heap_start := c\<rparr>) = outside_kept n t k s"
proof -
  let ?s = "s\<lparr>heap_start := c\<rparr>"
  show d: "dir ?s = dir s" "pd ?s d = pd s d" for d by (simp_all add: dir_def pd_def)
  show f: "free_pages ?s = free_pages s" "managed_pages ?s = managed_pages s" "pmm_inv ?s = pmm_inv s"
    by (simp_all add: free_pages_def page_free_def managed_pages_def pmm_inv_def split: option.splits)
  show l: "lookup ?s v = lookup s v" for v by (simp add: lookup_def Let_def d cong: if_cong)
  show v: "vm_inv ?s = vm_inv s" by (simp add: vm_inv_def self_mapped_def d f)
  show df: "data_frame ?s f = data_frame s f" for f by (simp add: data_frame_def d f)
  show h: "heap_frame ?s i = heap_frame s i" for i by (simp add: heap_frame_def l)
  then have "heap_frame ?s = heap_frame s" by blast
  then show m: "heap_mapped n ?s = heap_mapped n s" by (simp add: heap_mapped_def l df)
  show w: "hword ?s a = hword s a" for a by (simp add: hword_def h)
  show "heap_view n ?s M = heap_view n s M" by (simp add: heap_view_def v m w)
  show "outside_kept n t k ?s = outside_kept n t k s"
    unfolding outside_kept_def l df \<open>heap_frame ?s = heap_frame s\<close> by simp
qed

lemma unmapped_run: "is_run s n q \<longleftrightarrow> (\<forall>v. q \<le> v \<and> v < q + n \<longrightarrow> lookup s v = None)"
  unfolding is_run_def by (metis add_less_cancel_left le_add1 le_Suc_ex)

lemma exact_region_succeeds:
  assumes inv: "vm_inv s" and fl: "flags < 0x1000" and q: "0 < q" "q + unat n \<le> low_pages" and n: "n \<noteq> 0"
    and run: "is_run s (unat n) q" and pages: "2 * unat n \<le> card (free_pages s)"
  shows "\<exists>r s'. vmm_alloc_pages_region n flags (page_addr q) (page_addr q + n * PAGE_SIZE) s = Some (r, s') \<and> r \<noteq> 0"
proof -
  have q20: "q < 2 ^ 20" using q(2) by simp
  note a = page_addr_unat [OF q20]
  have e: "unat (page_addr q + n * PAGE_SIZE) = (q + unat n) * 4096"
    by (rule unat_run_end [OF a]) (use q(2) in simp)
  have fp: "first_page (page_addr q) = q" "vpn (page_addr q + n * PAGE_SIZE) = q + unat n" using a e by simp_all
  have fits: "region_fits n (page_addr q) (page_addr q + n * PAGE_SIZE)"
    unfolding region_fits_def fp a e using n q(2) by simp
  obtain q' s' where s': "vmm_alloc_pages_region n flags (page_addr q) (page_addr q + n * PAGE_SIZE) s = Some (page_addr q', s')"
    "q \<le> q'" "q' < low_pages"
    using region_succeeds [OF inv fl fits _ _ run pages] unfolding fp by blast
  have "page_addr q' \<noteq> 0" using s'(2,3) q(1) by (subst page_addr_0_iff) simp_all
  then show ?thesis using s'(1) by blast
qed

lemma heap_init_ok:
  assumes inv: "vm_inv s"
  shows "\<exists>s'. heap_init s = Some s' \<and> outside_kept 0 s (if heap_start s' = 0 then 0 else 24) s' \<and>
    (heap_start s' = 0 \<and> vm_inv s' \<or> heap_inv s' [(24 * 4096 - 16, False)]) \<and>
    (is_run s 24 0xE0000 \<and> 48 \<le> card (free_pages s) \<longrightarrow> heap_start s' \<noteq> 0)"
proof -
  define C where "C = page_addr 0xE0000"
  have uc: "unat C = 0xE0000000" unfolding C_def by (simp add: page_addr_unat)
  then have C: "C = 0xE0000000" by (intro word_unat_eq_iff [THEN iffD2]) simp
  have fl: "(2 OR 1 :: u32) < 0x1000" and pos: "0 < (0xE0000 :: nat)" "(24 :: u32) \<noteq> 0"
    and lim: "0xE0000 + unat (24 :: u32) \<le> low_pages" by simp_all
  have start: "heap_init s = do {
      (b, s) \<leftarrow> vmm_alloc_pages_region 24 (2 OR 1) C (C + 24 * PAGE_SIZE) s;
      let s = s\<lparr>heap_start := b\<rparr>;
      if b = 0 then Some s else init_block b (24 * PAGE_SIZE - 16) 0 0 s }"
    unfolding heap_init_def Let_def C by simp
  from exact_region [OF inv fl pos(1) lim pos(2), folded C_def] show ?thesis
  proof (elim disjE exE conjE)
    fix s' assume r: "vmm_alloc_pages_region 24 (2 OR 1) C (C + 24 * PAGE_SIZE) s = Some (0, s')"
      "map_restored 0 0 s s'"
    note same = map_restored_same [OF r(2)]
    have "outside_kept 0 s 0 s'" by (rule same(4)) simp
    moreover have "\<not> (is_run s 24 0xE0000 \<and> 48 \<le> card (free_pages s))"
      using exact_region_succeeds [OF inv fl pos(1) lim pos(2), folded C_def] r(1) by auto
    ultimately show ?thesis using same(1) unfolding start r(1) by (intro exI [of _ "s'\<lparr>heap_start := 0\<rparr>"]) simp
  next
    fix ps s' assume r: "vmm_alloc_pages_region 24 (2 OR 1) C (C + 24 * PAGE_SIZE) s = Some (C, s')"
      "length ps = unat (24 :: u32)" "is_run s (unat (24 :: u32)) 0xE0000" "run_mapped (2 OR 1) 0xE0000 ps s s'"
    have un: "lookup s (0xE0000 + i) = None" if "i < length ps" for i
      using r(2,3) that by (simp add: is_run_def)
    have run: "run_mapped (2 OR 1) (0xE0000 + 0) ps s s'" and lim': "0xE0000 + 0 + length ps \<le> low_pages"
      using r(2,4) by simp_all
    have l24: "0 + length ps = 24" using r(2) by simp
    note g = heap_view_grow [OF inv _ fl lim' run, unfolded l24]
    note out = run_mapped_outside [OF run [simplified] un g(2)]
    obtain N where v: "heap_view 24 (s'\<lparr>heap_start := C\<rparr>) N" using g(1) by auto
    have h: "header_at 24 heap_base" by (simp add: header_at_def in_heap_def)
    have cb: "of_nat heap_base = C" by (simp add: C)
    let ?M = "put_header heap_base (of_nat (24 * 4096 - 16)) 0 0 N"
    obtain t where t: "init_block C (of_nat (24 * 4096 - 16)) 0 0 (s'\<lparr>heap_start := C\<rparr>) = Some t"
      "hstep 24 (s'\<lparr>heap_start := C\<rparr>) t ?M"
      using init_block_step [OF hstep_refl [OF v] h] unfolding cb by blast
    have "heap_rep 24 t ?M [(24 * 4096 - 16, False)]"
      using hstep_view [OF t(2)] by (simp add: heap_rep_def put_header_def)
    then have hi: "heap_inv t [(24 * 4096 - 16, False)]" by (rule hstep_inv [OF t(2)]) (simp add: C)
    have "heap_start t \<noteq> 0" using hi by (simp add: heap_inv_def)
    moreover have "outside_kept 0 s 24 t"
      using outside_kept_trans [OF _ outside_kept_step [OF t(2)], of 0 s] out by simp
    moreover have "heap_init s = Some t" unfolding start r(1) using t(1) uc by (auto simp: Let_def)
    ultimately show ?thesis using hi by (intro exI [of _ t]) simp
  qed
qed

end
