(* ===== verification/Heap_Contract.thy ===== *)
theory Heap_Contract
  imports Heap_Alloc
begin

text \<open>
  What the rest of the kernel may rely on: \<open>heap_alloc\<close> is first fit, \<open>heap_free\<close> joins free
  neighbours, and the regions handed out are disjoint and mapped.
\<close>

section \<open>Allocation and release on the list\<close>

lemma align4: "unat sz + 3 < 2 ^ 32 \<Longrightarrow> unat (align_up (sz :: u32) 4) = (unat sz + 3) div 4 * 4"
  using align_up_unat [of sz 2] by simp

abbreviation (input) rounded :: "u32 \<Rightarrow> nat" where "rounded sz \<equiv> (unat sz + 3) div 4 * 4"

text \<open>The first free block of at least \<open>k\<close> bytes, if there is one, has exactly \<open>k\<close> bytes or room for a header
  after them: the split of \<open>heap_alloc\<close> does not wrap around (the sliver a block may otherwise have to
  spare is the subject of \<open>split_underflow\<close> below).\<close>

definition no_sliver :: "nat \<Rightarrow> blk list \<Rightarrow> bool" where
  "no_sliver k L \<longleftrightarrow>
     (case dropWhile (\<lambda>x. \<not> fits k x) L of [] \<Rightarrow> True | x # _ \<Rightarrow> fst x = k \<or> k + 16 \<le> fst x)"

lemma no_sliver_none: "\<forall>x \<in> set L. \<not> fits k x \<Longrightarrow> no_sliver k L"
  by (simp add: no_sliver_def dropWhile_eq_Nil_conv [THEN iffD2])

lemma no_sliver_at:
  assumes "L = L1 @ (m, False) # L2" and "k \<le> m" and "\<forall>x \<in> set L1. \<not> fits k x"
  shows "no_sliver k L \<longleftrightarrow> m = k \<or> k + 16 \<le> m"
proof -
  have "dropWhile (\<lambda>x. \<not> fits k x) L = (m, False) # L2"
    using assms by (simp add: dropWhile_append2 fits_def)
  then show ?thesis by (simp add: no_sliver_def)
qed

text \<open>The same of a request of \<open>n\<close> bytes on the state, in the terms of the code: what the search of
  \<open>heap_alloc\<close> finds.\<close>

definition sliver_free :: "u32 \<Rightarrow> 'z heap_state_scheme \<Rightarrow> bool" where
  "sliver_free n s \<longleftrightarrow>
     (case heap_find (align_up n 4) (heap_start s) s of
        None \<Rightarrow> False
      | Some b \<Rightarrow> b = 0 \<or> (case blk_size b s of
            None \<Rightarrow> False
          | Some m \<Rightarrow> unat m = unat (align_up n 4) \<or> unat (align_up n 4) + 16 \<le> unat m))"

lemma first_fit:
  assumes "\<exists>x \<in> set L. fits k x"
  obtains L1 m L2 where "L = L1 @ (m, False) # L2" "k \<le> m" "\<forall>x \<in> set L1. \<not> fits k x"
    "takeWhile (\<lambda>x. \<not> fits k x) L = L1"
proof -
  let ?P = "\<lambda>x. \<not> fits k x"
  have "dropWhile ?P L \<noteq> []" using assms by (simp add: dropWhile_eq_Nil_conv)
  then obtain x L2 where d: "dropWhile ?P L = x # L2" by (cases "dropWhile ?P L") auto
  then have f: "fits k x" using hd_dropWhile [of ?P L] by simp
  have "L = takeWhile ?P L @ x # L2" using d takeWhile_dropWhile_id [of ?P L] by simp
  moreover have "x = (fst x, False)" "k \<le> fst x" using f by (cases x; simp add: fits_def)+
  ultimately show thesis using that [of "takeWhile ?P L" "fst x" L2] set_takeWhileD by metis
qed

lemma sliver_free_iff:
  assumes "heap_inv s L"
  shows "sliver_free n s \<longleftrightarrow> no_sliver (unat (align_up n 4)) L"
proof -
  obtain M p where r: "heap_rep p s M L" "heap_start s = of_nat heap_base" by (rule heap_invE [OF assms])
  define z where "z = align_up n 4"
  have ne: "L \<noteq> []" using r(1) by (simp add: heap_rep_def)
  show ?thesis
  proof (cases "\<exists>x \<in> set L. fits (unat z) x")
    case False
    have "heap_find z (of_nat heap_base) s = Some 0"
      using heap_find_ok [of p s M "[]" L z] r(1) ne False by simp
    then show ?thesis using False no_sliver_none [of L "unat z"] r(2) by (simp add: sliver_free_def flip: z_def)
  next
    case True
    obtain L1 m L2 where f: "L = L1 @ (m, False) # L2" "unat z \<le> m" "\<forall>x \<in> set L1. \<not> fits (unat z) x"
      "takeWhile (\<lambda>x. \<not> fits (unat z) x) L = L1"
      by (rule first_fit [OF True])
    have find: "heap_find z (of_nat heap_base) s = Some (of_nat (heap_base + extent L1))"
      using heap_find_ok [of p s M "[]" L z] r(1) ne True f(4) by simp
    have r1: "heap_rep p s M (L1 @ (m, False) # L2)" using r(1) f(1) by simp
    note g = rep_blk [OF r1 refl refl]
    have "unat (of_nat m :: u32) = m" using g(7) by (simp add: unat_of_nat_small)
    then show ?thesis
      using find g(1,5) r(2) no_sliver_at [OF f(1-3)] by (simp add: sliver_free_def flip: z_def)
  qed
qed

lemma heap_alloc_fit:
  assumes inv: "heap_inv s L" and sz: "sz \<noteq> 0" and k: "unat (align_up sz 4) = k" "4 dvd k" and sl: "no_sliver k L"
    and L: "L = L1 @ (m, False) # L2" "k \<le> m" "\<forall>x \<in> set L1. \<not> fits k x"
  shows "\<exists>s'. heap_alloc sz s = Some (of_nat (heap_base + extent L1 + 16), s') \<and>
    outside_kept (heap_pages L) s (heap_pages L) s' \<and> heap_inv s' (L1 @ split_blk k m True @ L2)"
proof -
  obtain M n where n: "heap_rep n s M L" "n = heap_pages L" "heap_start s = of_nat heap_base"
    by (rule heap_invE [OF inv])
  define b where "b = heap_base + extent L1"
  define z where "z = align_up sz 4"
  have k': "unat z = k" using k(1) by (simp add: z_def)
  have k32: "k < 2 ^ 32" using unat_lt [of z] k' by simp
  have zk: "z = of_nat k" unfolding k' [symmetric] by simp
  have r: "heap_rep n s M (L1 @ (m, False) # L2)" using n(1) L(1) by simp
  have fit: "fits k (m, False)" using L(2) by (simp add: fits_def)
  have tw: "takeWhile (\<lambda>x. \<not> fits k x) (L1 @ (m, False) # L2) = L1"
    using L(3) fit by (simp add: takeWhile_append2)
  have find: "heap_find z (of_nat heap_base) s = Some (of_nat b)"
    using heap_find_ok [of n s M "[]" "L1 @ (m, False) # L2" z] r fit by (simp add: k' tw b_def)
  have b0: "(of_nat b :: u32) \<noteq> 0" by (rule rep_blk(5) [OF r refl b_def])
  have gap: "m \<le> k \<or> k + 16 \<le> m" using sl no_sliver_at [OF L] by auto
  obtain s1 M1 where s1: "heap_split_block (of_nat b) z s = Some s1" "hstep n s s1 M1"
    "heap_rep n s1 M1 (L1 @ split_blk k m False @ L2)"
    using split_block [OF r b_def k(2) gap k32] zk by auto
  define j R where "j = (if k + 48 \<le> m then k else m)" and "R = (if k + 48 \<le> m then [(m - k - 16, False)] else [])"
  have sp: "split_blk k m u = (j, u) # R" for u by (simp add: split_blk_def j_def R_def)
  have r1: "heap_rep n s1 M1 (L1 @ (j, False) # (R @ L2))" using s1(3) by (simp add: sp)
  obtain s2 M2 where s2: "set_used (of_nat b) True s1 = Some s2" "hstep n s1 s2 M2" "heap_rep n s2 M2 (L1 @ (j, True) # (R @ L2))"
    using mark_block [OF r1 b_def] by blast
  have run: "heap_alloc sz s = Some (of_nat b + 16, s2)"
    using sz(1) find n(3) b0 s1(1) s2(1) by (simp add: heap_alloc_def Let_def flip: z_def)
  have st: "hstep n s s2 M2" by (rule hstep_trans [OF s1(2) s2(2)])
  have "heap_inv s2 (L1 @ split_blk k m True @ L2)" by (rule hstep_inv [OF st _ n(3)]) (use s2(3) in \<open>simp add: sp\<close>)
  moreover have "of_nat b + 16 = (of_nat (heap_base + extent L1 + 16) :: u32)" by (simp add: b_def)
  ultimately show ?thesis using run outside_kept_step [OF st] n(2) by (intro exI [of _ s2]) (simp only: simp_thms)
qed

lemma heap_alloc_grow:
  assumes inv: "heap_inv s L" and sz: "sz \<noteq> 0" "unat sz \<le> 0xFFFFE000" and no: "\<forall>x \<in> set L. \<not> fits (rounded sz) x"
  defines "p \<equiv> (rounded sz + 4111) div 4096"
  shows "\<exists>r s'. heap_alloc sz s = Some (r, s') \<and> 
    (if r = 0 then heap_inv s' L \<and> outside_kept (heap_pages L) s (heap_pages L) s'
     else r = of_nat (heap_base + extent L + 16) \<and> heap_inv s' (L @ [(p * 4096 - 16, True)]) \<and>
       outside_kept (heap_pages L) s (heap_pages (grown L p)) s')"
proof -
  obtain M n where n: "heap_rep n s M L" "n = heap_pages L" "heap_start s = of_nat heap_base"
    by (rule heap_invE [OF inv])
  let ?k = "rounded sz"
  define z where "z = align_up sz 4"
  have k: "unat z = ?k" unfolding z_def by (rule align4) (use sz(2) in simp)
  have ne: "L \<noteq> []" using n(1) by (simp add: heap_rep_def)
  have find: "heap_find z (of_nat heap_base) s = Some 0"
    using heap_find_ok [of n s M "[]" L z] n(1) ne no by (simp add: k)
  define q where "q = align_up (z + 16) PAGE_SIZE div PAGE_SIZE"
  have kb: "?k \<le> 0xFFFFE000" using sz(2) by simp
  have z16: "unat (z + 16) = ?k + 16" using kb k by (subst unat_add_nowrap) simp_all
  have "unat (align_up (z + 16) PAGE_SIZE) = (unat (z + 16) + 4095) div 4096 * 4096"
    by (rule align_page(1)) (use z16 kb in simp)
  then have "unat q = (unat (z + 16) + 4095) div 4096" by (simp add: q_def unat_div)
  then have q: "unat q = p" unfolding z16 by (simp add: p_def)
  have p: "p \<noteq> 0" unfolding p_def by simp
  have "(?k + 4111) div 4096 \<le> (0xFFFFE000 + 4111) div 4096" using kb by (intro div_le_mono) simp
  then have p20: "p < 2 ^ 20" by (simp add: p_def)
  have q0: "q \<noteq> 0" using q p by auto
  have start: "heap_alloc sz s = do { (new, s) \<leftarrow> heap_expand q s;
      if new = 0 then Some (0, s) else do { s \<leftarrow> set_used new True s; Some (new + 16, s) } }"
    using sz(1) find n(3) by (simp add: heap_alloc_def Let_def q_def flip: z_def)
  obtain c s1 where s1: "heap_expand q s = Some (c, s1)" 
    "if c = 0 then heap_inv s1 L \<and> outside_kept (heap_pages L) s (heap_pages L) s1
     else c = of_nat (heap_base + extent L) \<and> heap_inv s1 (grown L p) \<and>
       outside_kept (heap_pages L) s (heap_pages (grown L p)) s1"
    using heap_expand_ok [OF inv q0] q p20 by auto
  show ?thesis
  proof (cases "c = 0")
    case True
    then show ?thesis using start s1 by (intro exI [of _ 0] exI [of _ s1]) simp
  next
    case False
    then have c: "c = of_nat (heap_base + extent L)" and inv1: "heap_inv s1 (grown L p)"
      and out: "outside_kept (heap_pages L) s (heap_pages (grown L p)) s1" using s1(2) by simp_all
    obtain M1 n1 where n1: "heap_rep n1 s1 M1 (grown L p)" "n1 = heap_pages (grown L p)" "heap_start s1 = of_nat heap_base"
      by (rule heap_invE [OF inv1])
    have r1: "heap_rep n1 s1 M1 (L @ (p * 4096 - 16, False) # [])" using n1(1) by (simp add: grown_def)
    obtain s2 M2 where s2: "set_used c True s1 = Some s2" "hstep n1 s1 s2 M2" "heap_rep n1 s2 M2 (L @ [(p * 4096 - 16, True)])"
      using mark_block [OF r1 refl, of True] c by auto
    have inv2: "heap_inv s2 (L @ [(p * 4096 - 16, True)])" by (rule hstep_inv [OF s2(2,3) n1(3)])
    have "c + 16 \<noteq> 0"
    proof -
      have "heap_base + extent L + 16 < 2 ^ 32" using rep_block(9) [OF r1 refl refl] by simp
      then have "(of_nat (heap_base + extent L + 16) :: u32) \<noteq> 0" by (intro addr_nonzero) simp_all
      then show ?thesis by (simp add: c)
    qed
    moreover have "heap_alloc sz s = Some (c + 16, s2)" using start s1(1) False s2(1) by simp
    moreover have "outside_kept (heap_pages L) s (heap_pages (grown L p)) s2"
      using outside_kept_trans [OF out] outside_kept_step [OF s2(2)] n1(2) by simp
    ultimately show ?thesis using inv2 by (intro exI [of _ "c + 16"] exI [of _ s2]) (simp add: c)
  qed
qed

lemma heap_free_block:
  assumes inv: "heap_inv s L" and L: "L = L1 @ (m, u) # L2" and p: "p = of_nat (heap_base + extent L1 + 16)"
  shows "\<exists>s'. heap_free p s = Some s' \<and> outside_kept (heap_pages L) s (heap_pages L) s' \<and> heap_inv s' (coalesce L1 m L2)"
proof -
  obtain M n where n: "heap_rep n s M L" "n = heap_pages L" "heap_start s = of_nat heap_base"
    by (rule heap_invE [OF inv])
  have r: "heap_rep n s M (L1 @ (m, u) # L2)" using n(1) L by simp
  define b where "b = heap_base + extent L1"
  have "b + 16 < 2 ^ 32" using rep_block(9) [OF r refl b_def] by simp
  then have p0: "p \<noteq> 0" unfolding p b_def [symmetric] by (intro addr_nonzero) simp_all
  have find: "heap_block_of p (of_nat heap_base) s = Some (of_nat b)"
    using heap_block_of_found [of n s M "[]" L1 "(m, u)" L2] r by (simp add: p b_def)
  have b0: "(of_nat b :: u32) \<noteq> 0" by (rule rep_blk(5) [OF r refl b_def])
  obtain s1 M1 where s1: "set_used (of_nat b) False s = Some s1" "hstep n s s1 M1" "heap_rep n s1 M1 (L1 @ (m, False) # L2)"
    using mark_block [OF r b_def] by blast
  obtain s2 M2 where s2: "heap_merge_free_blocks (of_nat b) s1 = Some s2" "hstep n s1 s2 M2" "heap_rep n s2 M2 (coalesce L1 m L2)"
    using heap_merge_ok [OF s1(3) b_def] by blast
  have st: "hstep n s s2 M2" by (rule hstep_trans [OF s1(2) s2(2)])
  have "heap_free p s = Some s2" using p0 find n(3) b0 s1(1) s2(1) by (simp add: heap_free_def)
  then show ?thesis using hstep_inv [OF st s2(3) n(3)] outside_kept_step [OF st] n(2) by blast
qed

lemma heap_free_other:
  assumes inv: "heap_inv s L" and "\<And>L1 x L2. L = L1 @ x # L2 \<Longrightarrow> p \<noteq> of_nat (heap_base + extent L1 + 16)"
  shows "heap_free p s = Some s"
proof (cases "p = 0")
  case False
  obtain M n where n: "heap_rep n s M L" "heap_start s = of_nat heap_base" by (rule heap_invE [OF inv])
  have "L \<noteq> []" using n(1) by (simp add: heap_rep_def)
  then have "heap_block_of p (of_nat heap_base) s = Some 0"
    using heap_block_of_none [of n s M "[]" L p] n(1) assms(2) by simp
  then show ?thesis using n(2) False by (simp add: heap_free_def heap_merge_free_blocks_def is_free_def)
qed (simp add: heap_free_def)

section \<open>Live regions\<close>

text \<open>The regions in use: address and size of the data of every used block.\<close>

fun live_from :: "nat \<Rightarrow> blk list \<Rightarrow> (nat \<times> nat) set" where
  "live_from a [] = {}"
| "live_from a (x # L) = (if snd x then {(a + 16, fst x)} else {}) \<union> live_from (a + 16 + fst x) L"

definition live :: "blk list \<Rightarrow> (nat \<times> nat) set" where "live L = live_from heap_base L"

lemma live_from_append: "live_from a (L1 @ L2) = live_from a L1 \<union> live_from (a + extent L1) L2"
  by (induction L1 arbitrary: a) (auto simp: add_ac)

lemma live_from_range: "(p, m) \<in> live_from a L \<Longrightarrow> a + 16 \<le> p \<and> p + m \<le> a + extent L"
  by (induction L arbitrary: a) (fastforce split: if_splits)+

lemma live_from_disjoint:
  "\<lbrakk> (p, m) \<in> live_from a L; (q, k) \<in> live_from a L; (p, m) \<noteq> (q, k) \<rbrakk> \<Longrightarrow> p + m \<le> q \<or> q + k \<le> p"
proof (induction L arbitrary: a)
  case (Cons x L)
  let ?b = "a + 16 + fst x"
  have later: "?b + 16 \<le> y" if "(y, j) \<in> live_from ?b L" for y j using live_from_range that by fast
  show ?case
  proof (cases "(p, m) \<in> live_from ?b L"; cases "(q, k) \<in> live_from ?b L")
    assume "(p, m) \<in> live_from ?b L" "(q, k) \<in> live_from ?b L"
    then show ?thesis using Cons.IH Cons.prems(3) by blast
  next
    assume a: "(p, m) \<in> live_from ?b L" "(q, k) \<notin> live_from ?b L"
    then have "q = a + 16" "k = fst x" using Cons.prems(2) by (auto split: if_splits)
    then show ?thesis using later [OF a(1)] by simp
  next
    assume a: "(p, m) \<notin> live_from ?b L" "(q, k) \<in> live_from ?b L"
    then have "p = a + 16" "m = fst x" using Cons.prems(1) by (auto split: if_splits)
    then show ?thesis using later [OF a(2)] by simp
  next
    assume a: "(p, m) \<notin> live_from ?b L" "(q, k) \<notin> live_from ?b L"
    then have "(p, m) = (q, k)" using Cons.prems(1,2) by (auto split: if_splits)
    then show ?thesis using Cons.prems(3) by blast
  qed
qed simp

lemma live_elem: "(p, m) \<in> live_from a L \<Longrightarrow> \<exists>L1 L2. L = L1 @ (m, True) # L2 \<and> p = a + extent L1 + 16"
proof (induction L arbitrary: a)
  case (Cons x L)
  show ?case
  proof (cases "(p, m) \<in> live_from (a + 16 + fst x) L")
    case True
    from Cons.IH [OF this] obtain L1 L2 where "L = L1 @ (m, True) # L2" "p = a + 16 + fst x + extent L1 + 16" by blast
    then show ?thesis by (intro exI [of _ "x # L1"] exI [of _ L2]) simp
  next
    case False
    then have "x = (m, True)" "p = a + 16" using Cons.prems by (cases x; auto split: if_splits)+
    then show ?thesis by (intro exI [of _ "[]"] exI [of _ L]) simp
  qed
qed simp

lemma live_alloc:
  "live (L1 @ split_blk k m True @ L2) =
    insert (heap_base + extent L1 + 16, if k + 48 \<le> m then k else m) (live (L1 @ (m, False) # L2))"
  by (auto simp: live_def live_from_append split_blk_def add_ac)

lemma live_from_absorb: "live_from a (absorb_next m L2) = live_from (a + 16 + m) L2"
  by (cases L2 rule: list.exhaust) (auto simp: absorb_next_def add_ac split: bool.splits)

lemma live_coalesce: "live (coalesce L1 m L2) = live_from heap_base L1 \<union> live_from (heap_base + extent L1 + 16 + m) L2"
proof (cases "L1 \<noteq> [] \<and> \<not> snd (last L1)")
  case True
  then have "L1 = butlast L1 @ [last L1]" by simp
  then obtain L0 x where L1: "L1 = L0 @ [x]" by blast
  then show ?thesis using True by (simp add: live_def coalesce_def live_from_append live_from_absorb add_ac)
next
  case False
  then show ?thesis by (auto simp: live_def coalesce_def live_from_append live_from_absorb add_ac)
qed

lemma live_free:
  assumes "L = L1 @ (m, u) # L2"
  shows "live (coalesce L1 m L2) = live L - {(heap_base + extent L1 + 16, m)}"
proof -
  have "(heap_base + extent L1 + 16, m) \<notin> live_from heap_base L1"
    using live_from_range [of "heap_base + extent L1 + 16" m heap_base L1] by auto
  moreover have "(heap_base + extent L1 + 16, m) \<notin> live_from (heap_base + extent L1 + 16 + m) L2"
    using live_from_range [of "heap_base + extent L1 + 16" m "heap_base + extent L1 + 16 + m" L2] by auto
  ultimately show ?thesis using assms unfolding live_coalesce by (auto simp: live_def live_from_append)
qed

text \<open>Every byte of a live region is mapped.\<close>

lemma heap_mapped_byte:
  assumes "heap_inv s L" and "heap_base \<le> a" "a < heap_base + extent L"
  shows "translate (of_nat a) s \<noteq> None"
proof -
  obtain M n where n: "heap_rep n s M L" "extent L = n * 4096" by (rule heap_invE [OF assms(1)])
  have m: "heap_mapped n s" using n(1) by (simp add: heap_rep_def heap_view_def)
  have "0xE0000 \<le> a div 4096" using assms(2) div_le_mono [of heap_base a 4096] by simp
  moreover have "a div 4096 < 0xE0000 + n" using assms(3) n(2) by (intro less_mult_imp_div_less) simp
  ultimately obtain i where i: "i < n" "a div 4096 = 0xE0000 + i" by (metis le_Suc_ex nat_add_left_cancel_less)
  have "a < 2 ^ 32" using assms(3) n(2) m by (simp add: heap_mapped_def)
  then have "unat (of_nat a :: u32) = a" by (simp add: unat_of_nat_small)
  then show ?thesis using i m by (simp add: translate_lookup heap_mapped_def)
qed

section \<open>A split with less than a header to spare\<close>

text \<open>
  When the block is larger than the request by less than 16 bytes, \<^verbatim>\<open>b->size - size - sizeof(heap_block_t)\<close>
  wraps around, passes the minimum, and a header is written into the tail of the block.
\<close>

lemma split_underflow:
  assumes r: "heap_rep n s M (L1 @ (m, False) # L2)" and b: "b = heap_base + extent L1" and ne: "L2 \<noteq> []"
    and k: "4 dvd k" "k < m" "m < k + 16"
  defines "c \<equiv> b + k + 16"
  shows "\<exists>s'. heap_split_block (of_nat b) (of_nat k) s = Some s' \<and>
    blk_next (of_nat b) s' = Some (of_nat c) \<and> is_free (of_nat c) s' = Some True \<and>
    blk_size (of_nat c) s' = Some (of_nat (2 ^ 32 - (k + 16 - m))) \<and>
    (m = k + 4 \<longrightarrow> blk_next (of_nat c) s' = Some (of_nat c))"
proof -
  note f = rep_block [OF r refl b] and g = rep_blk [OF r refl b]
  have m4: "4 dvd m" by (rule f(7))
  define x where "x = b + 16 + m"
  have d: "m = k + 4 \<or> m = k + 8 \<or> m = k + 12" using k m4 by presburger
  define z where "z = (of_nat m - of_nat k - 16 :: u32)"
  have b32: "b + 16 + m + 16 \<le> 2 ^ 32" using f(9) rep_follower(2) [OF r b ne] f(6) by (simp add: header_at_def in_heap_def)
  have zs: "z = of_nat (2 ^ 32 - (k + 16 - m))" using d k(2) by (auto simp: z_def of_nat_diff)
  have uz: "unat z = 2 ^ 32 - (k + 16 - m)" unfolding zs by (rule unat_of_nat_small) (use k(2,3) in simp)
  have big: "\<not> z < 32" using uz k(2) by (simp add: word_less_nat_alt)
  have hb: "header_at n b" and hx: "header_at n x" using f(1) rep_follower(2) [OF r b ne] by (simp_all add: x_def)
  have hc: "header_at n c"
    using hb hx k d dvd_add [OF f(8) k(1)] by (auto simp: header_at_def in_heap_def c_def x_def)
  have le: "\<not> (of_nat m :: u32) \<le> of_nat k" using of_nat_le_small [OF g(7), of k] k(2) g(7) by simp
  obtain s1 where s1: "init_block (of_nat c) z (of_nat b) (of_nat x) s = Some s1"
    "hstep n s s1 (put_header c z (of_nat b) (of_nat x) M)"
    using init_block_step [OF rep_start [OF r] hc] by blast
  let ?M1 = "put_header c z (of_nat b) (of_nat x) M"
  have "?M1 (b + 12) = of_nat x" using f(5) ne by (simp add: put_header_def c_def x_def)
  then have nx: "blk_next (of_nat b) s1 = Some (of_nat x)" using blk_reads(4) [OF hstep_view [OF s1(2)] hb] by simp
  have x0: "(of_nat x :: u32) \<noteq> 0" unfolding x_def by (rule g(8) [OF ne])
  let ?M2 = "?M1(x + 8 := of_nat c)"
  obtain s2 where s2: "set_prev (of_nat x) (of_nat c) s1 = Some s2" "hstep n s s2 ?M2"
    using set_prev_step [OF s1(2) hx] by blast
  let ?M3 = "?M2(b := of_nat k)"
  obtain s3 where s3: "set_size (of_nat b) (of_nat k) s2 = Some s3" "hstep n s s3 ?M3"
    using set_size_step [OF s2(2) hb] by blast
  let ?M4 = "?M3(b + 12 := of_nat c)"
  obtain s4 where s4: "set_next (of_nat b) (of_nat c) s3 = Some s4" "hstep n s s4 ?M4"
    using set_next_step [OF s3(2) hb] by blast
  have cw: "of_nat b + of_nat k + 16 = (of_nat c :: u32)" by (simp add: c_def)
  have g4: "blk_next (of_nat b) s = Some (of_nat x)" using g(4) ne by (simp add: x_def)
  have run: "heap_split_block (of_nat b) (of_nat k) s = Some s4"
    using is_free_block [OF r b] g(1) g4 le big s1(1) nx x0 s2(1) s3(1) s4(1)
    by (simp add: heap_split_block_def Let_def cw flip: z_def)
  note v = blk_reads [OF hstep_view [OF s4(2)]]
  have xc: "x + 8 = c + (m - k) + 8" using k(2) by (simp add: x_def c_def)
  have vals: "?M4 (b + 12) = of_nat c" "?M4 c = z" "m = k + 4 \<longrightarrow> ?M4 (c + 12) = of_nat c"
    "\<not> (?M4 (c + 4) AND 0xFF \<noteq> 0)"
    using d by (auto simp: put_header_def c_def xc)
  have "(of_nat c :: u32) \<noteq> 0" by (rule addr_nonzero) (use b32 k(2) in \<open>simp_all add: c_def\<close>)
  then have "is_free (of_nat c) s4 = Some True" using v(2) [OF hc] vals(4) by (simp add: is_free_def)
  moreover have "blk_next (of_nat b) s4 = Some (of_nat c)" using v(4) [OF hb] vals(1) by (simp only:)
  moreover have "blk_size (of_nat c) s4 = Some (of_nat (2 ^ 32 - (k + 16 - m)))" using v(1) [OF hc] vals(2) zs by (simp only:)
  moreover have "m = k + 4 \<longrightarrow> blk_next (of_nat c) s4 = Some (of_nat c)" unfolding v(4) [OF hc] option.inject by (rule vals(3))
  ultimately show ?thesis using run by blast
qed

end
