(* ===== verification/Heap_Clients.thy ===== *)
theory Heap_Clients
  imports Heap_Contract
begin

text \<open>
  The heap as its clients see it: the interface of an allocator of regions, its consequences for any
  sequence of requests and releases, and the properties of \<^verbatim>\<open>heap.c\<close>.
\<close>

section \<open>Allocators of regions\<close>

text \<open>A client asks for regions and gives back the \<open>i\<close>-th one it still holds; it keeps the pointers it
  got with the sizes it asked for.\<close>

datatype request = Request u32 | Release nat

fun client_step ::
  "(u32 \<Rightarrow> 's \<Rightarrow> (u32 \<times> 's) option) \<Rightarrow> (u32 \<Rightarrow> 's \<Rightarrow> 's option) \<Rightarrow> request \<Rightarrow>
   's \<times> (u32 \<times> u32) list \<Rightarrow> ('s \<times> (u32 \<times> u32) list) option" where
  "client_step alloc release (Request n) (s, ps) = do {
     (r, s') \<leftarrow> alloc n s;
     Some (s', if r = 0 then ps else (r, n) # ps) }"
| "client_step alloc release (Release i) (s, ps) =
     (if i < length ps
      then do { s' \<leftarrow> release (fst (ps ! i)) s; Some (s', take i ps @ drop (Suc i) ps) }
      else Some (s, ps))"

definition apart :: "nat \<times> nat \<Rightarrow> nat \<times> nat \<Rightarrow> bool" where
  "apart x y \<longleftrightarrow> fst x + snd x \<le> fst y \<or> fst y + snd y \<le> fst x"

definition region_of :: "u32 \<times> u32 \<Rightarrow> nat \<times> nat" where
  "region_of p = (unat (fst p), unat (snd p))"

text \<open>Every request of the run is one the allocator serves in the state it meets.\<close>

fun serviceable ::
  "(u32 \<Rightarrow> 's \<Rightarrow> (u32 \<times> 's) option) \<Rightarrow> (u32 \<Rightarrow> 's \<Rightarrow> 's option) \<Rightarrow> (u32 \<Rightarrow> 's \<Rightarrow> bool) \<Rightarrow> request list \<Rightarrow>
   's \<times> (u32 \<times> u32) list \<Rightarrow> bool" where
  "serviceable alloc release good [] st = True"
| "serviceable alloc release good (q # qs) st =
     ((case q of Request n \<Rightarrow> good n (fst st) | Release i \<Rightarrow> True) \<and>
      (case client_step alloc release q st of None \<Rightarrow> True | Some st' \<Rightarrow> serviceable alloc release good qs st'))"

text \<open>The pointers \<open>ps\<close> are regions of \<open>A\<close> of at least the size asked for.\<close>

definition owns :: "(u32 \<times> u32) list \<Rightarrow> (nat \<times> nat) set \<Rightarrow> bool" where
  "owns ps A \<longleftrightarrow> distinct (map fst ps) \<and>
     (\<forall>p \<in> set ps. snd p \<noteq> 0 \<and> (\<exists>m. unat (snd p) \<le> m \<and> (unat (fst p), m) \<in> A))"

lemma ownsE:
  assumes "owns ps A" and "p \<in> set ps"
  obtains m where "unat (snd p) \<le> m" "(unat (fst p), m) \<in> A" "snd p \<noteq> 0"
  using assms unfolding owns_def by blast

locale region_allocator =
  fixes alloc :: "u32 \<Rightarrow> 's \<Rightarrow> (u32 \<times> 's) option"
    and release :: "u32 \<Rightarrow> 's \<Rightarrow> 's option"
    and rep :: "'s \<Rightarrow> (nat \<times> nat) set \<Rightarrow> bool"
    and good :: "u32 \<Rightarrow> 's \<Rightarrow> bool"
  assumes alloc_fresh: "\<lbrakk> rep s A; good n s \<rbrakk> \<Longrightarrow> \<exists>r s'. alloc n s = Some (r, s') \<and>
      (if r = 0 then rep s' A
       else n \<noteq> 0 \<and> (\<exists>m. unat n \<le> m \<and> (unat r, m) \<notin> A \<and> rep s' (insert (unat r, m) A)))"
    and release_live: "\<lbrakk> rep s A; (unat (r :: u32), m) \<in> A \<rbrakk> \<Longrightarrow> \<exists>s'. release r s = Some s' \<and> rep s' (A - {(unat r, m)})"
    and live_apart: "\<lbrakk> rep s A; x \<in> A; y \<in> A; x \<noteq> y \<rbrakk> \<Longrightarrow> apart x y"
begin

lemma owns_alloc:
  assumes "rep s' (insert (unat r, m) A)" and "owns ps A" and "(unat r, m) \<notin> A" and "unat n \<le> m" and "n \<noteq> 0"
  shows "owns ((r, n) # ps) (insert (unat r, m) A)"
proof -
  have "fst p \<noteq> r" if p: "p \<in> set ps" for p
  proof
    assume r: "fst p = r"
    obtain k where k: "unat (snd p) \<le> k" "(unat r, k) \<in> A" "snd p \<noteq> 0"
      using ownsE [OF assms(2) p] r by metis
    then have "apart (unat r, m) (unat r, k)" using assms(3) by (intro live_apart [OF assms(1)]) auto
    moreover have "0 < unat n" "0 < unat (snd p)" using assms(5) k(3) by (simp_all add: unat_gt_0)
    ultimately show False using k(1) assms(4) by (simp add: apart_def)
  qed
  then show ?thesis using assms(2,4,5) by (auto simp: owns_def)
qed

lemma client_step_ok:
  assumes "rep s A" and "owns ps A" and "\<And>n. q = Request n \<Longrightarrow> good n s"
  shows "\<exists>s' ps' A'. client_step alloc release q (s, ps) = Some (s', ps') \<and> rep s' A' \<and> owns ps' A'"
proof (cases q)
  case (Request n)
  obtain r s' where a: "alloc n s = Some (r, s')"
    "if r = 0 then rep s' A
     else n \<noteq> 0 \<and> (\<exists>m. unat n \<le> m \<and> (unat r, m) \<notin> A \<and> rep s' (insert (unat r, m) A))"
    using alloc_fresh [OF assms(1) assms(3) [OF Request]] by blast
  show ?thesis
  proof (cases "r = 0")
    case True
    then show ?thesis using a assms(2) by (auto simp: Request)
  next
    case False
    then obtain m where m: "n \<noteq> 0" "unat n \<le> m" "(unat r, m) \<notin> A" "rep s' (insert (unat r, m) A)" using a(2) by auto
    from owns_alloc [OF m(4) assms(2) m(3,2,1)] show ?thesis
      using a(1) False m(4) by (auto simp: Request)
  qed
next
  case (Release i)
  show ?thesis
  proof (cases "i < length ps")
    case False
    then show ?thesis using assms by (auto simp: Release)
  next
    case True
    let ?qs = "take i ps @ drop (Suc i) ps"
    have ps: "ps = take i ps @ ps ! i # drop (Suc i) ps" using True by (rule id_take_nth_drop)
    obtain m where m: "(unat (fst (ps ! i)), m) \<in> A" using ownsE [OF assms(2) nth_mem [OF True]] by blast
    obtain s' where s': "release (fst (ps ! i)) s = Some s'" "rep s' (A - {(unat (fst (ps ! i)), m)})"
      using release_live [OF assms(1) m] by blast
    have d: "distinct (map fst (take i ps @ ps ! i # drop (Suc i) ps))" using assms(2) ps by (metis owns_def)
    have sub: "set ?qs \<subseteq> set ps" using set_take_subset [of i ps] set_drop_subset [of "Suc i" ps] by auto
    have "snd p \<noteq> 0 \<and> (\<exists>k. unat (snd p) \<le> k \<and> (unat (fst p), k) \<in> A - {(unat (fst (ps ! i)), m)})"
      if p: "p \<in> set ?qs" for p
    proof -
      have "p \<in> set ps" using p sub by blast
      then obtain k where k: "unat (snd p) \<le> k" "(unat (fst p), k) \<in> A" "snd p \<noteq> 0"
        by (rule ownsE [OF assms(2)])
      have "fst p \<in> fst ` set ?qs" using p by simp
      moreover have "fst (ps ! i) \<notin> fst ` set ?qs" using d by auto
      ultimately have "unat (fst p) \<noteq> unat (fst (ps ! i))" by (metis word_unat_eq_iff)
      then show ?thesis using k by blast
    qed
    moreover have "distinct (map fst ?qs)" using d by auto
    ultimately have "owns ?qs (A - {(unat (fst (ps ! i)), m)})" unfolding owns_def by blast
    then show ?thesis using s' True by (auto simp: Release)
  qed
qed

lemma client_run_ok:
  assumes "rep s A" and "owns ps A" and "serviceable alloc release good qs (s, ps)"
  shows "\<exists>s' ps' A'. for_each (client_step alloc release) qs (s, ps) = Some (s', ps') \<and> rep s' A' \<and> owns ps' A'"
  using assms
proof (induction qs arbitrary: s ps A)
  case (Cons q qs)
  have "\<exists>s' ps' A'. client_step alloc release q (s, ps) = Some (s', ps') \<and> rep s' A' \<and> owns ps' A'"
    by (rule client_step_ok [OF Cons.prems(1,2)]) (use Cons.prems(3) in simp)
  then obtain s1 ps1 A1 where s1: "client_step alloc release q (s, ps) = Some (s1, ps1)" "rep s1 A1" "owns ps1 A1"
    by blast
  then have "serviceable alloc release good qs (s1, ps1)" using Cons.prems(3) by simp
  from Cons.IH [OF s1(2,3) this] s1(1) show ?case by simp
qed auto

lemma owned_apart:
  assumes "rep s A" and "owns ps A" and "i < length ps" and "j < length ps" and "i \<noteq> j"
  shows "apart (region_of (ps ! i)) (region_of (ps ! j))"
proof -
  obtain m k where m: "unat (snd (ps ! i)) \<le> m" "(unat (fst (ps ! i)), m) \<in> A"
    and k: "unat (snd (ps ! j)) \<le> k" "(unat (fst (ps ! j)), k) \<in> A"
    using assms(2-4) unfolding owns_def by (meson nth_mem)
  have "map fst ps ! i \<noteq> map fst ps ! j" using assms(2-5) by (simp only: owns_def nth_eq_iff_index_eq length_map) simp
  then have "unat (fst (ps ! i)) \<noteq> unat (fst (ps ! j))" using assms(3,4) by (simp add: word_unat_eq_iff)
  then have "apart (unat (fst (ps ! i)), m) (unat (fst (ps ! j)), k)" using live_apart [OF assms(1) m(2) k(2)] by simp
  then show ?thesis using m(1) k(1) by (auto simp: apart_def region_of_def)
qed

end

section \<open>The kernel heap is one\<close>

text \<open>The regions in use are those of the used blocks. A request is served when it does not meet a sliver
  and its pages can be counted in 32 bits.\<close>

definition heap_regions :: "'z heap_state_scheme \<Rightarrow> (nat \<times> nat) set \<Rightarrow> bool" where
  "heap_regions s A \<longleftrightarrow> (\<exists>L. heap_inv s L \<and> A = live L)"

definition heap_request :: "u32 \<Rightarrow> 'z heap_state_scheme \<Rightarrow> bool" where
  "heap_request n s \<longleftrightarrow> unat n \<le> 0xFFFFE000 \<and> sliver_free n s"

lemma heap_addr_unat:
  assumes "heap_inv s L" and "a \<le> heap_base + extent L"
  shows "unat (of_nat a :: u32) = a"
proof -
  obtain M n where n: "heap_rep n s M L" "extent L = n * 4096" by (rule heap_invE [OF assms(1)])
  then have "heap_base + n * 4096 \<le> 0xFFC00000" using heap_limit by (auto simp: heap_rep_def)
  then show ?thesis using assms(2) n(2) by (simp add: unat_of_nat_small)
qed

lemma heap_alloc_fresh:
  assumes "heap_regions s A" and "heap_request n s"
  shows "\<exists>r s'. heap_alloc n s = Some (r, s') \<and>
    (if r = 0 then heap_regions s' A
     else n \<noteq> 0 \<and> (\<exists>m. unat n \<le> m \<and> (unat r, m) \<notin> A \<and> heap_regions s' (insert (unat r, m) A)))"
proof (cases "n = 0")
  case True
  then show ?thesis using assms(1) by (intro exI [of _ 0] exI [of _ s]) (simp add: heap_alloc_def)
next
  case n0: False
  obtain L where L: "heap_inv s L" "A = live L" using assms(1) by (auto simp: heap_regions_def)
  have n: "unat n \<le> 0xFFFFE000" "unat n + 3 < 2 ^ 32" using assms(2) by (auto simp: heap_request_def)
  have sl: "no_sliver (rounded n) L"
    using assms(2) sliver_free_iff [OF L(1), of n] align4 [OF n(2)] by (simp add: heap_request_def)
  have nk: "unat n \<le> rounded n" by linarith
  show ?thesis
  proof (cases "\<exists>x \<in> set L. fits (rounded n) x")
    case True
    obtain L1 m L2 where f: "L = L1 @ (m, False) # L2" "rounded n \<le> m" "\<forall>x \<in> set L1. \<not> fits (rounded n) x"
      by (rule first_fit [OF True])
    obtain s' where s': "heap_alloc n s = Some (of_nat (heap_base + extent L1 + 16), s')"
      "heap_inv s' (L1 @ split_blk (rounded n) m True @ L2)"
      using heap_alloc_fit [OF L(1) n0 align4 [OF n(2)] _ sl f] by auto
    let ?a = "heap_base + extent L1 + 16" and ?j = "if rounded n + 48 \<le> m then rounded n else m"
    have u: "unat (of_nat ?a :: u32) = ?a" by (rule heap_addr_unat [OF L(1)]) (simp add: f(1))
    have "(?a, ?j) \<notin> live L"
    proof
      assume "(?a, ?j) \<in> live L"
      then have "(?a, ?j) \<in> live_from heap_base L1 \<union> live_from (?a + m) L2"
        by (simp add: live_def f(1) live_from_append add_ac)
      then show False using live_from_range [of ?a ?j heap_base L1] live_from_range [of ?a ?j "?a + m" L2] by auto
    qed
    moreover have "heap_regions s' (insert (?a, ?j) (live L))"
      using s'(2) live_alloc [of L1 "rounded n" m L2] unfolding heap_regions_def f(1) by blast
    moreover have "unat n \<le> ?j" using nk f(2) by auto
    ultimately have "\<exists>m. unat n \<le> m \<and> (?a, m) \<notin> live L \<and> heap_regions s' (insert (?a, m) (live L))" by blast
    moreover have "(of_nat ?a :: u32) \<noteq> 0" using u by (metis add_is_0 unat_0 zero_neq_numeral)
    ultimately show ?thesis using s'(1) u by (intro exI [of _ "of_nat ?a"] exI [of _ s']) (simp add: L(2) n0 del: of_nat_add)
  next
    case False
    let ?p = "(rounded n + 4111) div 4096"
    obtain r s' where s': "heap_alloc n s = Some (r, s')"
      "if r = 0 then heap_inv s' L \<and> outside_kept (heap_pages L) s (heap_pages L) s'
       else r = of_nat (heap_base + extent L + 16) \<and> heap_inv s' (L @ [(?p * 4096 - 16, True)]) \<and>
         outside_kept (heap_pages L) s (heap_pages (grown L ?p)) s'"
      using heap_alloc_grow [OF L(1) n0 n(1)] False by blast
    show ?thesis
    proof (cases "r = 0")
      case True
      then show ?thesis using s' L by (auto simp: heap_regions_def)
    next
      case r: False
      let ?a = "heap_base + extent L + 16" and ?j = "?p * 4096 - 16"
      have i: "heap_inv s' (L @ [(?j, True)])" and ra: "r = of_nat ?a" using s'(2) r by simp_all
      have u: "unat r = ?a" unfolding ra by (rule heap_addr_unat [OF i]) simp
      have "(?a, ?j) \<notin> live L" using live_from_range [of ?a ?j heap_base L] by (auto simp: live_def)
      moreover have "live (L @ [(?j, True)]) = insert (?a, ?j) (live L)" by (simp add: live_def live_from_append)
      moreover from i have "heap_regions s' (live (L @ [(?j, True)]))" unfolding heap_regions_def by blast
      moreover have "unat n \<le> ?j" using nk by linarith
      ultimately show ?thesis using s'(1) r u L(2) n0 by (intro exI [of _ r] exI [of _ s']) auto
    qed
  qed
qed

lemma heap_release_live:
  fixes r :: u32
  assumes "heap_regions s A" and "(unat r, m) \<in> A"
  shows "\<exists>s'. heap_free r s = Some s' \<and> heap_regions s' (A - {(unat r, m)})"
proof -
  obtain L where L: "heap_inv s L" "A = live L" using assms(1) by (auto simp: heap_regions_def)
  obtain L1 L2 where l: "L = L1 @ (m, True) # L2" "unat r = heap_base + extent L1 + 16"
    using live_elem [of "unat r" m heap_base L] assms(2) L(2) by (auto simp: live_def)
  have r: "r = of_nat (heap_base + extent L1 + 16)" unfolding l(2) [symmetric] by simp
  obtain s' where "heap_free r s = Some s'" "heap_inv s' (coalesce L1 m L2)" using heap_free_block [OF L(1) l(1) r] by blast
  then show ?thesis using live_free [OF l(1)] L(2) l(2) by (auto simp: heap_regions_def)
qed

lemma heap_live_apart:
  assumes "heap_regions s A" and "x \<in> A" and "y \<in> A" and "x \<noteq> y"
  shows "apart x y"
  using assms live_from_disjoint [of "fst x" "snd x" heap_base _ "fst y" "snd y"]
  by (auto simp: heap_regions_def live_def apart_def)

interpretation heap: region_allocator heap_alloc heap_free heap_regions heap_request
proof unfold_locales
  fix s :: "'a heap_state_scheme" and A n
  assume "heap_regions s A" "heap_request n s"
  then show "\<exists>r s'. heap_alloc n s = Some (r, s') \<and> (if r = 0 then heap_regions s' A
      else n \<noteq> 0 \<and> (\<exists>m. unat n \<le> m \<and> (unat r, m) \<notin> A \<and> heap_regions s' (insert (unat r, m) A)))"
    by (rule heap_alloc_fresh)
next
  fix s :: "'a heap_state_scheme" and A m and r :: u32
  assume "heap_regions s A" "(unat r, m) \<in> A"
  then show "\<exists>s'. heap_free r s = Some s' \<and> heap_regions s' (A - {(unat r, m)})" by (rule heap_release_live)
qed (rule heap_live_apart)

lemma heap_region_mapped:
  assumes "heap_regions s A" and "(a, m) \<in> A" and "i < m"
  shows "translate (of_nat (a + i)) s \<noteq> None"
proof -
  obtain L where L: "heap_inv s L" "A = live L" using assms(1) by (auto simp: heap_regions_def)
  have "heap_base + 16 \<le> a" "a + m \<le> heap_base + extent L"
    using live_from_range [of a m heap_base L] assms(2) L(2) by (auto simp: live_def)
  then show ?thesis using assms(3) by (intro heap_mapped_byte [OF L(1)]) simp_all
qed

end
