(* ===== verification/Kernel_Heap.thy ===== *)
theory Kernel_Heap
  imports Heap_Clients
begin

text \<open>
  The properties of the kernel heap, with a machine on which they can be seen at work: 62 free pages,
  a page directory with nothing but its recursive entry, and a heap initialised on it.
\<close>

section \<open>A machine with a heap\<close>

definition boot_machine :: heap_state where
  "boot_machine = \<lparr>bitmap = Some [3, 0, 0, 0, 0, 0, 0, 0], bitmap_bits = 64, bitmap_bytes = 8,
     phys_top = 0x40000, usable_mem = 0x40000,
     pmem = (\<lambda>f i. if f = 0x1000 \<and> i = 1023 then 0x1003 else 0), cr3 = 0x1000, kernel_cr3 = 0x1000,
     cpu_flags = 0x202, heap_start = 0\<rparr>"

lemma boot_machine_facts:
  "dir boot_machine = 0x1000" "pd boot_machine d = (if d = 1023 then 0x1003 else 0)" "pmm_inv boot_machine"
  "free_pages boot_machine = {2 ..< 64}"
proof -
  show d: "dir boot_machine = 0x1000" by (simp add: dir_def frame_of_def boot_machine_def)
  show "pd boot_machine d = (if d = 1023 then 0x1003 else 0)"
    unfolding pd_def d by (simp add: boot_machine_def)
  show "pmm_inv boot_machine" by (simp add: pmm_inv_def boot_machine_def bit_at_def bit_1_iff)
  have "free_pages boot_machine = set (filter (\<lambda>p. \<not> bit_at [3, 0, 0, 0, 0, 0, 0, 0] p) [0 ..< 64])"
    by (auto simp: free_pages_def page_free_def boot_machine_def)
  also have "filter (\<lambda>p. \<not> bit_at [3, 0, 0, 0, 0, 0, 0, 0] p) [0 ..< 64] = [2 ..< 64]" by code_simp
  finally show "free_pages boot_machine = {2 ..< 64}" by (simp only: atLeastLessThan_upt)
qed

lemma boot_machine_inv: "vm_inv boot_machine"
  unfolding vm_inv_def self_mapped_def boot_machine_facts
  using boot_machine_facts(3) by (auto simp: present_def frame_of_def)

lemma boot_machine_unmapped: "v < low_pages \<Longrightarrow> lookup boot_machine v = None"
  using vpn_dix [of v] by (simp add: lookup_def Let_def boot_machine_facts)

abbreviation boot_blocks :: "blk list" where "boot_blocks \<equiv> [(98288, False)]"

lemma boot_heap: "\<exists>s. heap_init boot_machine = Some s \<and> heap_inv s boot_blocks"
proof -
  have "is_run boot_machine 24 0xE0000" using boot_machine_unmapped by (simp add: is_run_def)
  moreover have "48 \<le> card (free_pages boot_machine)" by (simp add: boot_machine_facts)
  ultimately show ?thesis using heap_init_ok [OF boot_machine_inv] by auto
qed

section \<open>Properties\<close>

text \<open>\<open>heap_init\<close> either leaves the kernel without a heap or with one free block of 24 pages less a
  header at \<^verbatim>\<open>HEAP_VIRTUAL_ADDRESS\<close>; it succeeds when the region is unmapped and enough pages are free.
  No page that was mapped and no other data in memory changes.\<close>

theorem heap_init_one_block:
  assumes "vm_inv s"
  shows "\<exists>s'. heap_init s = Some s' \<and> outside_kept 0 s (if heap_start s' = 0 then 0 else 24) s' \<and>
    (heap_start s' = 0 \<or> heap_inv s' [(24 * 4096 - 16, False)]) \<and>
    (is_run s 24 0xE0000 \<and> 48 \<le> card (free_pages s) \<longrightarrow> heap_start s' \<noteq> 0)"
  using heap_init_ok [OF assms] by blast

theorem heap_init_one_block_witness:
  "\<exists>s'. heap_init boot_machine = Some s' \<and> heap_inv s' [(24 * 4096 - 16, False)]"
proof -
  have "is_run boot_machine 24 0xE0000" using boot_machine_unmapped by (simp add: is_run_def)
  moreover have "48 \<le> card (free_pages boot_machine)" by (simp add: boot_machine_facts)
  ultimately show ?thesis using heap_init_one_block [OF boot_machine_inv] by auto
qed

text \<open>C36. \<open>heap_alloc\<close> is first fit: the first free block that is large enough is taken, split when at
  least 48 bytes remain, and its data address returned; without one the heap grows at its end by the
  pages needed or, when that fails, \<^verbatim>\<open>NULL\<close> is returned and no block changes. A request of 0 bytes gets
  \<^verbatim>\<open>NULL\<close>. This holds for requests of up to 0xFFFFE000 bytes, above which the sums in 32 bits wrap
  around, and unless the block found is larger than the request by 4, 8 or 12 bytes (\<open>no_sliver\<close>): then
  the split wraps around, which is property C40.\<close>

theorem heap_alloc_first_fit:
  assumes "heap_inv s L" and "unat sz \<le> 0xFFFFE000" and "no_sliver (rounded sz) L"
  shows "\<exists>r s'. heap_alloc sz s = Some (r, s') \<and>
    (if sz = 0 then r = 0 \<and> s' = s
     else case dropWhile (\<lambda>x. \<not> fits (rounded sz) x) L of
       (m, _) # L2 \<Rightarrow>
         let L1 = takeWhile (\<lambda>x. \<not> fits (rounded sz) x) L
         in r = of_nat (heap_base + extent L1 + 16) \<and> heap_inv s' (L1 @ split_blk (rounded sz) m True @ L2)
     | [] \<Rightarrow>
         if r = 0 then heap_inv s' L
         else r = of_nat (heap_base + extent L + 16) \<and>
              heap_inv s' (L @ [((rounded sz + 4111) div 4096 * 4096 - 16, True)]))"
proof (cases "sz = 0")
  case True
  then show ?thesis by (intro exI [of _ 0] exI [of _ s]) (simp add: heap_alloc_def)
next
  case sz: False
  show ?thesis
  proof (cases "\<exists>x \<in> set L. fits (rounded sz) x")
    case True
    obtain L1 m L2 where f: "L = L1 @ (m, False) # L2" "rounded sz \<le> m" "\<forall>x \<in> set L1. \<not> fits (rounded sz) x"
      "takeWhile (\<lambda>x. \<not> fits (rounded sz) x) L = L1"
      by (rule first_fit [OF True])
    have "L = L1 @ dropWhile (\<lambda>x. \<not> fits (rounded sz) x) L" using takeWhile_dropWhile_id f(4) by metis
    then have "dropWhile (\<lambda>x. \<not> fits (rounded sz) x) L = (m, False) # L2" using f(1) by simp
    moreover have "unat sz + 3 < 2 ^ 32" using assms(2) by simp
    ultimately show ?thesis
      using heap_alloc_fit [OF assms(1) sz align4 _ assms(3) f(1-3)] f(4) sz by (auto simp: Let_def)
  next
    case False
    then have "dropWhile (\<lambda>x. \<not> fits (rounded sz) x) L = []" by (simp add: dropWhile_eq_Nil_conv)
    moreover obtain r s' where "heap_alloc sz s = Some (r, s')"
      "if r = 0 then heap_inv s' L \<and> outside_kept (heap_pages L) s (heap_pages L) s'
       else r = of_nat (heap_base + extent L + 16) \<and>
         heap_inv s' (L @ [((rounded sz + 4111) div 4096 * 4096 - 16, True)]) \<and>
         outside_kept (heap_pages L) s (heap_pages (grown L ((rounded sz + 4111) div 4096))) s'"
      using heap_alloc_grow [OF assms(1) sz assms(2)] False by blast
    ultimately show ?thesis by (intro exI [of _ r] exI [of _ s']) (simp only: list.case sz if_False split: if_splits, blast+)
  qed
qed

theorem heap_alloc_first_fit_witness:
  "\<exists>s r s'. heap_init boot_machine = Some s \<and> heap_alloc 1636 s = Some (r, s') \<and> r = 0xE0000010 \<and>
    heap_inv s' [(1636, True), (96636, False)]"
proof -
  obtain s where s: "heap_init boot_machine = Some s" "heap_inv s boot_blocks" using boot_heap by blast
  have "no_sliver (rounded 1636) boot_blocks" by (simp add: no_sliver_def fits_def)
  from heap_alloc_first_fit [OF s(2) _ this] s(1) show ?thesis
    by (auto simp: fits_def split_blk_def)
qed

text \<open>C38. \<open>heap_free\<close> marks the block of a data address free and joins it with the free blocks next to it;
  any other pointer, \<^verbatim>\<open>NULL\<close> included, is ignored.\<close>

theorem heap_free_coalesces:
  assumes "heap_inv s L"
  shows "(\<forall>L1 m u L2. L = L1 @ (m, u) # L2 \<longrightarrow>
      (\<exists>s'. heap_free (of_nat (heap_base + extent L1 + 16)) s = Some s' \<and> heap_inv s' (coalesce L1 m L2) \<and>
        live (coalesce L1 m L2) = live L - {(heap_base + extent L1 + 16, m)})) \<and>
    ((\<forall>L1 x L2. L = L1 @ x # L2 \<longrightarrow> p \<noteq> of_nat (heap_base + extent L1 + 16)) \<longrightarrow> heap_free p s = Some s)"
proof (intro conjI allI impI)
  fix L1 m u L2 assume L: "L = L1 @ (m, u) # L2"
  obtain s' where s': "heap_free (of_nat (heap_base + extent L1 + 16)) s = Some s'" "heap_inv s' (coalesce L1 m L2)"
    using heap_free_block [OF assms L refl] by blast
  have "live (coalesce L1 m L2) = live L - {(heap_base + extent L1 + 16, m)}"
    by (rule live_free [OF L])
  with s' show "\<exists>s'. heap_free (of_nat (heap_base + extent L1 + 16)) s = Some s' \<and> heap_inv s' (coalesce L1 m L2) \<and>
      live (coalesce L1 m L2) = live L - {(heap_base + extent L1 + 16, m)}" by blast
qed (use heap_free_other [OF assms] in blast)

theorem heap_free_coalesces_witness:
  "\<exists>s s'. heap_init boot_machine = Some s \<and> heap_free 0xE0000010 s = Some s' \<and> heap_inv s' boot_blocks \<and>
    heap_free 0xE0000014 s = Some s"
proof -
  obtain s where s: "heap_init boot_machine = Some s" "heap_inv s boot_blocks" using boot_heap by blast
  note f = heap_free_coalesces [OF s(2)]
  have "heap_free 0xE0000014 s = Some s"
    by (rule f [of "0xE0000014", THEN conjunct2, rule_format]) (auto simp: Cons_eq_append_conv)
  moreover have "\<exists>s'. heap_free 0xE0000010 s = Some s' \<and> heap_inv s' boot_blocks"
    using f [THEN conjunct1, rule_format, of "[]" 98288 False "[]"] by (auto simp: coalesce_def absorb_next_def)
  ultimately show ?thesis using s(1) by blast
qed

text \<open>Freeing a region right after allocating it gives back the heap there was, when no two free
  blocks lie side by side.\<close>

theorem heap_free_undoes_alloc:
  assumes "heap_inv s L" and "sz \<noteq> 0" and "unat sz \<le> 0xFFFFE000" and "no_sliver (rounded sz) L"
    and "\<exists>x \<in> set L. fits (rounded sz) x" and "successively (\<lambda>x y. snd x \<or> snd y) L"
  shows "\<exists>r s1 s2. heap_alloc sz s = Some (r, s1) \<and> heap_free r s1 = Some s2 \<and> heap_inv s2 L"
proof -
  let ?k = "rounded sz"
  obtain L1 m L2 where f: "L = L1 @ (m, False) # L2" "?k \<le> m" "\<forall>x \<in> set L1. \<not> fits ?k x"
    by (rule first_fit [OF assms(5)])
  have sz3: "unat sz + 3 < 2 ^ 32" using assms(3) by simp
  obtain s1 where s1: "heap_alloc sz s = Some (of_nat (heap_base + extent L1 + 16), s1)"
    "heap_inv s1 (L1 @ split_blk ?k m True @ L2)"
    using heap_alloc_fit [OF assms(1,2) align4 [OF sz3] _ assms(4) f] by auto
  have n1: "L1 = [] \<or> snd (last L1)" and n2: "L2 = [] \<or> snd (hd L2)"
    using assms(6) unfolding f(1) by (auto simp: successively_append_iff successively_Cons)
  define j R where "j = (if ?k + 48 \<le> m then ?k else m)" and "R = (if ?k + 48 \<le> m then [(m - ?k - 16, False)] else [])"
  have sp: "L1 @ split_blk ?k m True @ L2 = L1 @ (j, True) # (R @ L2)" by (simp add: split_blk_def j_def R_def)
  have "absorb_next m L2 = (m, False) # L2"
    using n2 by (cases L2) (auto simp: absorb_next_def split: bool.splits)
  then have "coalesce L1 j (R @ L2) = L"
    using n1 by (auto simp: coalesce_def j_def R_def f(1)) (auto simp: absorb_next_def)
  then show ?thesis using s1(1) heap_free_block [OF s1(2) sp refl] by fastforce
qed

theorem heap_free_undoes_alloc_witness:
  "\<exists>s r s1 s2. heap_init boot_machine = Some s \<and> heap_alloc 1636 s = Some (r, s1) \<and> heap_free r s1 = Some s2 \<and>
    heap_inv s2 boot_blocks"
proof -
  obtain s where s: "heap_init boot_machine = Some s" "heap_inv s boot_blocks" using boot_heap by blast
  from heap_free_undoes_alloc [OF s(2), of 1636] s(1) show ?thesis
    by (auto simp: no_sliver_def fits_def)
qed

text \<open>C37. As long as no request meets a sliver or asks for more than 0xFFFFE000 bytes, no sequence of requests
  and releases fails: every operation returns, and at the end the regions the client holds are disjoint
  and every byte of them is mapped.  The condition is on the run itself: before each request the block the
  search of \<open>heap_alloc\<close> finds, if any, must not be larger than the rounded size by 4, 8 or 12 bytes; what
  happens otherwise is property C40.\<close>

theorem heap_regions_disjoint:
  assumes "heap_inv s L" and "serviceable heap_alloc heap_free heap_request qs (s, [])"
  shows "\<exists>s' ps. for_each (client_step heap_alloc heap_free) qs (s, []) = Some (s', ps) \<and>
    (\<forall>i < length ps. \<forall>j < length ps. i \<noteq> j \<longrightarrow> apart (region_of (ps ! i)) (region_of (ps ! j))) \<and>
    (\<forall>p \<in> set ps. \<forall>i < unat (snd p). translate (of_nat (unat (fst p) + i)) s' \<noteq> None)"
proof -
  have "heap_regions s (live L)" "owns [] (live L)" using assms(1) by (auto simp: heap_regions_def owns_def)
  from heap.client_run_ok [OF this assms(2)] obtain s' ps A' where
    r: "for_each (client_step heap_alloc heap_free) qs (s, []) = Some (s', ps)" "heap_regions s' A'" "owns ps A'"
    by blast
  have "translate (of_nat (unat (fst p) + i)) s' \<noteq> None" if p: "p \<in> set ps" "i < unat (snd p)" for p i
  proof -
    obtain m where m: "unat (snd p) \<le> m" "(unat (fst p), m) \<in> A'" by (rule ownsE [OF r(3) p(1)])
    show ?thesis by (rule heap_region_mapped [OF r(2) m(2)]) (use m(1) p(2) in simp)
  qed
  then show ?thesis using r(1) heap.owned_apart [OF r(2,3)] by blast
qed

text \<open>A run with the size of a process, the reuse of its block for a request 16 bytes smaller, and a
  request for nothing.\<close>

lemma request_step:
  assumes "heap_inv s L" and "unat sz \<le> 0xFFFFE000" and "sz \<noteq> 0" and "k = rounded sz" and "k = m \<or> k + 16 \<le> m"
    and "L = L1 @ (m, False) # L2" and "\<forall>x \<in> set L1. \<not> fits k x"
    and "r = of_nat (heap_base + extent L1 + 16)" and "L' = L1 @ split_blk k m True @ L2"
  shows "heap_request sz s \<and> (\<exists>s'. heap_alloc sz s = Some (r, s') \<and> heap_inv s' L')"
proof -
  have km: "k \<le> m" using assms(5) by auto
  have sl: "no_sliver k L" using no_sliver_at [OF assms(6) km assms(7)] assms(5) by auto
  have "unat sz + 3 < 2 ^ 32" using assms(2) by simp
  then have al: "unat (align_up sz 4) = k" using align4 assms(4) by simp
  with sl have "heap_request sz s" using sliver_free_iff [OF assms(1)] assms(2) by (simp add: heap_request_def)
  moreover have "4 dvd k" using assms(4) by simp
  from heap_alloc_fit [OF assms(1,3) al this sl assms(6) km assms(7)] have
    "\<exists>s'. heap_alloc sz s = Some (r, s') \<and> heap_inv s' L'"
    unfolding assms(8,9) by blast
  ultimately show ?thesis ..
qed

abbreviation demo_requests :: "request list" where
  "demo_requests \<equiv> [Request 1636, Request 64, Release 1, Request 1620, Request 0]"

lemma demo_serviceable:
  fixes s :: heap_state
  assumes "heap_inv s boot_blocks"
  shows "serviceable heap_alloc heap_free heap_request demo_requests (s, [])"
proof -
  have "heap_request 1636 s \<and> (\<exists>s1. heap_alloc 1636 s = Some (0xE0000010, s1) \<and> heap_inv s1 [(1636, True), (96636, False)])"
    by (rule request_step [OF assms, where k = 1636 and m = 98288 and ?L1.0 = "[]" and ?L2.0 = "[]"])
      (simp_all add: split_blk_def)
  then obtain s1 where s1: "heap_request 1636 s" "heap_alloc 1636 s = Some (0xE0000010, s1)"
    "heap_inv s1 [(1636, True), (96636, False)]" by blast
  have "heap_request 64 s1 \<and> (\<exists>s2. heap_alloc 64 s1 = Some (0xE0000684, s2) \<and>
      heap_inv s2 [(1636, True), (64, True), (96556, False)])"
    by (rule request_step [OF s1(3), where k = 64 and m = 96636 and ?L1.0 = "[(1636, True)]" and ?L2.0 = "[]"])
      (simp_all add: split_blk_def fits_def)
  then obtain s2 where s2: "heap_request 64 s1" "heap_alloc 64 s1 = Some (0xE0000684, s2)"
    "heap_inv s2 [(1636, True), (64, True), (96556, False)]" by blast
  have "\<exists>s3. heap_free 0xE0000010 s2 = Some s3 \<and> heap_inv s3 (coalesce [] 1636 [(64, True), (96556, False)])"
    using heap_free_block [OF s2(3), of "[]" 1636 True "[(64, True), (96556, False)]" "0xE0000010"] by force
  then obtain s3 where s3: "heap_free 0xE0000010 s2 = Some s3" "heap_inv s3 [(1636, False), (64, True), (96556, False)]"
    by (auto simp: coalesce_def absorb_next_def)
  have "heap_request 1620 s3 \<and> (\<exists>s4. heap_alloc 1620 s3 = Some (0xE0000010, s4) \<and>
      heap_inv s4 [(1636, True), (64, True), (96556, False)])"
    by (rule request_step [OF s3(2), where k = 1620 and m = 1636 and ?L1.0 = "[]" and ?L2.0 = "[(64, True), (96556, False)]"])
      (simp_all add: split_blk_def)
  then obtain s4 where s4: "heap_request 1620 s3" "heap_alloc 1620 s3 = Some (0xE0000010, s4)"
    "heap_inv s4 [(1636, True), (64, True), (96556, False)]" by blast
  have "heap_request 0 s4"
    using sliver_free_iff [OF s4(3), of 0] by (simp add: heap_request_def no_sliver_def fits_def align_up_def)
  moreover have "heap_alloc 0 s4 = Some (0, s4)" by (simp add: heap_alloc_def)
  ultimately show ?thesis using s1(1,2) s2(1,2) s3(1) s4(1,2) by simp
qed

theorem heap_regions_disjoint_witness:
  "\<exists>s s' ps. heap_init boot_machine = Some s \<and>
    for_each (client_step heap_alloc heap_free) demo_requests (s, []) = Some (s', ps)"
proof -
  obtain s where s: "heap_init boot_machine = Some s" "heap_inv s boot_blocks" using boot_heap by blast
  from heap_regions_disjoint [OF s(2) demo_serviceable [OF s(2)]] s(1) show ?thesis by blast
qed

text \<open>C40. A request that is smaller than the block found by less than a header corrupts the heap: the
  remainder wraps around, and a free block of almost 4 GiB is linked into the list, its header lying
  across the end of the allocated block; with 4 bytes to spare its \<^verbatim>\<open>next\<close> is itself.\<close>

theorem heap_split_underflow:
  assumes "heap_inv s (L1 @ (m, False) # L2)" and "L2 \<noteq> []" and "4 dvd k" and "k < m" and "m < k + 16"
  shows "\<exists>s'. heap_split_block (of_nat (heap_base + extent L1)) (of_nat k) s = Some s' \<and>
    (let c = of_nat (heap_base + extent L1 + k + 16)
     in blk_next (of_nat (heap_base + extent L1)) s' = Some c \<and> is_free c s' = Some True \<and>
        blk_size c s' = Some (of_nat (2 ^ 32 - (k + 16 - m))) \<and> (m = k + 4 \<longrightarrow> blk_next c s' = Some c))"
proof -
  obtain M n where "heap_rep n s M (L1 @ (m, False) # L2)" by (rule heap_invE [OF assms(1)])
  from split_underflow [OF this refl assms(2-5)] show ?thesis by (simp add: Let_def)
qed

text \<open>The heap after allocating 1636 and 64 bytes and freeing the first again.\<close>

lemma alloc_step:
  fixes s :: heap_state
  assumes "heap_inv s L" and "unat sz + 3 < 2 ^ 32" and "rounded sz = k" and "sz \<noteq> 0" and "no_sliver k L"
    and "L = L1 @ (m, False) # L2" and "k \<le> m" and "\<forall>x \<in> set L1. \<not> fits k x"
  shows "\<exists>s' :: heap_state. heap_inv s' (L1 @ split_blk k m True @ L2)"
proof -
  have "unat (align_up sz 4) = k" using align4 [OF assms(2)] assms(3) by simp
  moreover have "4 dvd k" unfolding assms(3) [symmetric] by simp
  ultimately show ?thesis using heap_alloc_fit [OF assms(1,4) _ _ assms(5-8)] by blast
qed

lemma gap_heap: "\<exists>s :: heap_state. heap_inv s [(1636, False), (64, True), (96556, False)]"
proof -
  obtain s :: heap_state where s: "heap_inv s boot_blocks" using boot_heap by blast
  have "\<exists>s' :: heap_state. heap_inv s' ([] @ split_blk 1636 98288 True @ [])"
    by (rule alloc_step [OF s, of 1636]) (simp_all add: no_sliver_def fits_def)
  then obtain s1 :: heap_state where s1: "heap_inv s1 [(1636, True), (96636, False)]"
    by (auto simp: split_blk_def)
  have "\<exists>s' :: heap_state. heap_inv s' ([(1636, True)] @ split_blk 64 96636 True @ [])"
    by (rule alloc_step [OF s1, of 64]) (simp_all add: no_sliver_def fits_def)
  then obtain s2 :: heap_state where s2: "heap_inv s2 ([] @ (1636, True) # [(64, True), (96556, False)])"
    by (auto simp: split_blk_def)
  have "\<exists>s' :: heap_state. heap_inv s' (coalesce [] 1636 [(64, True), (96556, False)])"
    using heap_free_block [OF s2 refl refl] by blast
  then show ?thesis by (simp add: coalesce_def absorb_next_def)
qed

theorem heap_split_underflow_witness:
  "\<exists>s s' :: heap_state. heap_inv s [(1636, False), (64, True), (96556, False)] \<and>
    heap_split_block 0xE0000000 1632 s = Some s' \<and> blk_size 0xE0000670 s' = Some 0xFFFFFFF4 \<and>
    blk_next 0xE0000670 s' = Some 0xE0000670"
proof -
  obtain s :: heap_state where s: "heap_inv s [(1636, False), (64, True), (96556, False)]" using gap_heap by blast
  have "heap_inv s ([] @ (1636, False) # [(64, True), (96556, False)])" using s by simp
  from heap_split_underflow [OF this, of 1632] s show ?thesis by (auto simp: Let_def)
qed

text \<open>A request of more than 4 GiB less 4 bytes is rounded to 0 and granted: the first free block is
  split into an empty region, whose address is returned.\<close>

theorem heap_alloc_wraps_to_empty:
  assumes "heap_inv s L" and "0xFFFFFFFD \<le> unat sz" and "L = L1 @ (m, False) # L2" and "\<forall>x \<in> set L1. snd x"
    and "no_sliver 0 L"
  shows "\<exists>s'. heap_alloc sz s = Some (of_nat (heap_base + extent L1 + 16), s') \<and>
    heap_inv s' (L1 @ split_blk 0 m True @ L2)"
proof -
  have "sz \<noteq> 0" using assms(2) by auto
  moreover have "unat (align_up sz 4) = 0"
  proof -
    have "unat sz = 0xFFFFFFFD \<or> unat sz = 0xFFFFFFFE \<or> unat sz = 0xFFFFFFFF"
      using assms(2) unat_lt [of sz] by (simp, linarith)
    then have "sz = 0xFFFFFFFD \<or> sz = 0xFFFFFFFE \<or> sz = 0xFFFFFFFF"
      by (simp add: word_unat_eq_iff)
    then show ?thesis by (auto simp: align_up_def)
  qed
  ultimately show ?thesis
    using heap_alloc_fit [OF assms(1) _ _ _ assms(5,3), of sz] assms(4) by (auto simp: fits_def)
qed

theorem heap_alloc_wraps_to_empty_witness:
  "\<exists>s s'. heap_init boot_machine = Some s \<and> heap_alloc 0xFFFFFFFF s = Some (0xE0000010, s') \<and>
    heap_inv s' [(0, True), (98272, False)]"
proof -
  obtain s where s: "heap_init boot_machine = Some s" "heap_inv s boot_blocks" using boot_heap by blast
  from heap_alloc_wraps_to_empty [OF s(2), of "0xFFFFFFFF" "[]" 98288 "[]"] s(1) show ?thesis
    by (auto simp: split_blk_def no_sliver_def fits_def)
qed

end
