(* ===== verification/User_Memory.thy ===== *)
theory User_Memory
  imports Heap_Clients
begin

text \<open>
  Memory seen as bytes.  The kernel reads and writes the buffers of its callers through the page
  tables in force, without checking them: a byte of an unmapped page is a page fault in the kernel,
  the value \<^term>\<open>None\<close>.  A word holds its bytes least significant first.
\<close>

section \<open>Bytes of a word\<close>

definition byte_of :: "nat \<Rightarrow> u32 \<Rightarrow> u8" where
  "byte_of k w = ucast (drop_bit (8 * k) w)"

definition put_byte :: "nat \<Rightarrow> u8 \<Rightarrow> u32 \<Rightarrow> u32" where
  "put_byte k b w = (w AND NOT (push_bit (8 * k) 0xFF)) OR push_bit (8 * k) (ucast b)"

lemma byte_of_put:
  assumes "j < 4" and "k < 4"
  shows "byte_of j (put_byte k b w) = (if j = k then b else byte_of j w)"
proof (rule bit_word_eqI)
  fix n assume n: "n < LENGTH(8)"
  have e: "(0xFF :: u32) = mask 8" by (simp add: mask_eq_exp_minus_1)
  have "8 * j + n < 32" using assms n by simp
  moreover have "8 * k \<le> 8 * j + n \<and> 8 * j + n - 8 * k < 8 \<longleftrightarrow> j = k" using n by auto
  moreover have "8 * k \<le> 8 * j + n \<Longrightarrow> bit b (8 * j + n - 8 * k) \<Longrightarrow> 8 * j + n - 8 * k < 8"
    using bit_imp_le_length [of b "8 * j + n - 8 * k"] by simp
  ultimately show "bit (byte_of j (put_byte k b w)) n = bit (if j = k then b else byte_of j w) n"
    unfolding byte_of_def put_byte_def e using n by (auto simp: bit_simps)
qed

section \<open>Accesses\<close>

definition vread8 :: "u32 \<Rightarrow> 'z vmm_state_scheme \<Rightarrow> u8 option" where
  "vread8 a s = map_option (\<lambda>(f, i). byte_of (unat a mod 4) (pmem s f i)) (translate a s)"

definition vwrite8 :: "u32 \<Rightarrow> u8 \<Rightarrow> 'z vmm_state_scheme \<Rightarrow> 'z vmm_state_scheme option" where
  "vwrite8 a b s =
     map_option (\<lambda>(f, i). set_word f i (put_byte (unat a mod 4) b (pmem s f i)) s) (translate a s)"

text \<open>\<open>n\<close> bytes from \<open>a\<close> on, and the copies \<^verbatim>\<open>memcpy\<close> makes from and to an object of the kernel.\<close>

fun vload :: "u32 \<Rightarrow> nat \<Rightarrow> 'z vmm_state_scheme \<Rightarrow> u8 list option" where
  "vload a 0 s = Some []"
| "vload a (Suc n) s = do { b \<leftarrow> vread8 a s; bs \<leftarrow> vload (a + 1) n s; Some (b # bs) }"

fun vstore :: "u32 \<Rightarrow> u8 list \<Rightarrow> 'z vmm_state_scheme \<Rightarrow> 'z vmm_state_scheme option" where
  "vstore a [] s = Some s"
| "vstore a (b # bs) s = do { s \<leftarrow> vwrite8 a b s; vstore (a + 1) bs s }"

text \<open>\<^verbatim>\<open>memcpy\<close> between two places in virtual memory, byte by byte.\<close>

definition vmemcpy :: "u32 \<Rightarrow> u32 \<Rightarrow> u32 \<Rightarrow> 'z vmm_state_scheme \<Rightarrow> 'z vmm_state_scheme option" where
  "vmemcpy dst src n s =
     (if dst = 0 \<or> src = 0 then Some s
      else for_each (\<lambda>i s. do { b \<leftarrow> vread8 (src + of_nat i) s; vwrite8 (dst + of_nat i) b s }) [0 ..< unat n] s)"

section \<open>What they leave alone\<close>

lemma vwrite8_cpu:
  "vwrite8 a b s = Some s' \<Longrightarrow> same_cpu s s'"
  by (auto simp: vwrite8_def set_word_def)

lemma vstore_cpu:
  "vstore a bs s = Some s' \<Longrightarrow> same_cpu s s'"
proof (induction bs arbitrary: a s)
  case (Cons b bs)
  then obtain s1 where "vwrite8 a b s = Some s1" "vstore (a + 1) bs s1 = Some s'" by (auto simp: bind_eq_Some_conv)
  then show ?case using Cons.IH vwrite8_cpu by metis
qed simp

lemma vmemcpy_cpu:
  "vmemcpy d r n s = Some s' \<Longrightarrow> same_cpu s s'"
  unfolding vmemcpy_def
  by (auto split: if_splits elim!: for_each_cpu [rotated] simp: bind_eq_Some_conv dest!: vwrite8_cpu)

end
