(* ===== verification/Kernel_State.thy ===== *)
theory Kernel_State
  imports User_Memory Queue Ring_Buffer Descriptors Ports
begin

text \<open>
  \<^verbatim>\<open>kernel/include/sched.h\<close> and the globals of \<^verbatim>\<open>thread.c\<close>, \<^verbatim>\<open>process.c\<close> and \<^verbatim>\<open>sched.c\<close>: threads,
  processes and the state of the scheduler on top of the heap and the page tables.

  A \<^verbatim>\<open>process_t *\<close> is \<open>Idle\<close>, the static \<^verbatim>\<open>idle_process\<close>, or \<open>Proc a\<close>, the structure in the heap block
  with data address \<open>a\<close>; \<^verbatim>\<open>&p->threads[i]\<close> is the pair \<open>(p, i)\<close>.  The structures live in stores of
  their own, keyed by these references: the process (\<open>procs\<close>, undefined once the block is freed), its
  threads (\<open>threads\<close>), their queue nodes and the queues (\<open>queues\<close>).  The heap block that holds a process
  is allocated and freed by the heap of the model, its bytes are not used.  Saved contexts are kept by
  the address they lie at on a kernel stack (\<open>contexts\<close>).
\<close>

section \<open>Threads and processes\<close>

datatype pref = Idle | Proc u32

type_synonym tref = "pref \<times> nat"

datatype thread_state =
  THREAD_RUNNING | THREAD_READY | THREAD_BLOCKED | THREAD_ZOMBIE | THREAD_SLEEPING | THREAD_FREE

datatype process_state = PROCESS_NORMAL | PROCESS_DYING

record thread =
  t_stack :: u32
  t_sp :: u32
  t_stack0 :: u32
  t_sp0 :: u32
  t_process :: "pref option"
  t_state :: thread_state
  t_exit_code :: u32
  t_wake_tick :: u32

text \<open>The mailbox's \<^verbatim>\<open>data\<close> is the storage inside \<open>p_ring\<close>, its \<^verbatim>\<open>waiters\<close> the queue \<open>Waiters p\<close>.\<close>

record process =
  p_ring :: ring_buffer
  p_prev :: "pref option"
  p_next :: "pref option"
  p_dad :: "pref option"
  p_cr3 :: u32
  p_state :: process_state
  p_pid :: u32
  p_num_threads :: u8

datatype qref = Ready | Blocked | Zombie | Sleep | Waiters pref

text \<open>What \<^verbatim>\<open>memset\<close> to 0 makes of the structures.\<close>

definition zero_thread :: thread where
  "zero_thread = \<lparr>t_stack = 0, t_sp = 0, t_stack0 = 0, t_sp0 = 0, t_process = None,
     t_state = THREAD_RUNNING, t_exit_code = 0, t_wake_tick = 0\<rparr>"

definition zero_node :: "(tref, qref) queue_node" where
  "zero_node = \<lparr>nd_prev = None, nd_next = None, nd_q = None\<rparr>"

definition zero_process :: process where
  "zero_process = \<lparr>p_ring = \<lparr>rb_buf = [], rb_elem_size = 0, rb_capacity = 0, rb_head = 0, rb_tail = 0, rb_count = 0\<rparr>,
     p_prev = None, p_next = None, p_dad = None, p_cr3 = 0, p_state = PROCESS_NORMAL, p_pid = 0, p_num_threads = 0\<rparr>"

section \<open>The kernel\<close>

text \<open>The handlers the kernel installs.\<close>

datatype handler = Timer_Handler | Schedule | Syscall_Handler | Exception_Handler

text \<open>What a thread that waits inside \<open>ipc_receive\<close> still has on its kernel stack: the context of the
  system call and the arguments \<^verbatim>\<open>sender_pid\<close>, \<^verbatim>\<open>buffer\<close> and \<^verbatim>\<open>size\<close>.\<close>

record receive_frame =
  rf_ctx :: u32
  rf_sender :: u32
  rf_buffer :: u32
  rf_size :: u32

record kernel = heap_state +
  queues :: "(tref, qref) qstore"
  threads :: "tref \<Rightarrow> thread"
  procs :: "pref \<rightharpoonup> process"
  contexts :: "u32 \<Rightarrow> interrupt_context"
  receiving :: "tref \<Rightarrow> receive_frame option"
  current_thread :: "tref option"
  current_process :: "pref option"
  first_process :: "pref option"
  current_pid :: u32
  ticks :: u32
  timer_frequency :: u16
  ms_per_tick :: u32
  tss :: tss_entry
  ports :: io_trace
  kidt :: "handler idt_state"

text \<open>Dereferencing: a freed process, and a thread of one, is a wild access.\<close>

definition thread_at :: "tref \<Rightarrow> kernel \<Rightarrow> thread option" where
  "thread_at t s = (if procs s (fst t) \<noteq> None \<and> snd t < 8 then Some (threads s t) else None)"

definition set_thread :: "tref \<Rightarrow> (thread \<Rightarrow> thread) \<Rightarrow> kernel \<Rightarrow> kernel option" where
  "set_thread t f s = map_option (\<lambda>th. s\<lparr>threads := (threads s)(t := f th)\<rparr>) (thread_at t s)"

definition set_process :: "pref \<Rightarrow> (process \<Rightarrow> process) \<Rightarrow> kernel \<Rightarrow> kernel option" where
  "set_process p f s = map_option (\<lambda>pr. s\<lparr>procs := (procs s)(p \<mapsto> f pr)\<rparr>) (procs s p)"

text \<open>\<^verbatim>\<open>disable_interrupts\<close> and \<^verbatim>\<open>write_flags\<close>; \<^verbatim>\<open>read_flags\<close> is the field.\<close>

definition disable_interrupts :: "kernel \<Rightarrow> kernel" where
  "disable_interrupts s = s\<lparr>cpu_flags := cpu_flags s AND NOT 0x200\<rparr>"

definition write_flags :: "u32 \<Rightarrow> kernel \<Rightarrow> kernel" where
  "write_flags flags s = s\<lparr>cpu_flags := flags\<rparr>"

text \<open>
  How a piece of kernel code ends: it returns to its caller; or \<^verbatim>\<open>restore_context\<close> loads a saved
  context and the caller is left behind on its stack; or it stays in an endless loop around \<^verbatim>\<open>hlt\<close>, the
  value \<open>Halted\<close>.  That is for good only when the state has the interrupt flag clear; with the flag set
  an interrupt is still taken, and the loop goes on when its handler returns.
\<close>

datatype control = Returned | Restored interrupt_context | Halted

end
