(* ===== verification/Scheduler.thy ===== *)
theory Scheduler
  imports Kernel_State
begin

text \<open>
  \<^verbatim>\<open>kernel/src/sched.c\<close> and the queue operations of \<^verbatim>\<open>thread.c\<close>.  A pointer to a context is its address,
  0 is \<^verbatim>\<open>NULL\<close>.  Messages are left out.
\<close>

section \<open>Moving threads between queues\<close>

text \<open>
  The body the four functions share: with interrupts disabled, the node leaves its queue and is
  pushed to \<open>q\<close>, and the state is set.
\<close>

definition enqueue :: "qref \<Rightarrow> thread_state \<Rightarrow> tref option \<Rightarrow> kernel \<Rightarrow> kernel option" where
  "enqueue q st thread s =
     (case thread of None \<Rightarrow> Some s
      | Some t \<Rightarrow> do {
          let flags = cpu_flags s;
          let s = disable_interrupts s;
          qs \<leftarrow> queue_remove (Some t) (queues s);
          qs \<leftarrow> queue_push (Some q) (Some t) qs;
          s \<leftarrow> set_thread t (\<lambda>th. th\<lparr>t_state := st\<rparr>) (s\<lparr>queues := qs\<rparr>);
          Some (write_flags flags s) })"

definition sched_ready :: "tref option \<Rightarrow> kernel \<Rightarrow> kernel option" where
  "sched_ready = enqueue Ready THREAD_READY"

definition sched_blocked :: "tref option \<Rightarrow> kernel \<Rightarrow> kernel option" where
  "sched_blocked = enqueue Blocked THREAD_BLOCKED"

definition sched_zombie :: "tref option \<Rightarrow> kernel \<Rightarrow> kernel option" where
  "sched_zombie = enqueue Zombie THREAD_ZOMBIE"

definition sched_sleep :: "tref option \<Rightarrow> kernel \<Rightarrow> kernel option" where
  "sched_sleep = enqueue Sleep THREAD_SLEEPING"

section \<open>Switching\<close>

text \<open>
  \<^verbatim>\<open>restore_context\<close> pops the saved registers and ends in \<^verbatim>\<open>iret\<close>, which loads the flags.
\<close>

definition restore_context :: "u32 \<Rightarrow> kernel \<Rightarrow> control \<times> kernel" where
  "restore_context sp0 s =
     (Restored (contexts s sp0), s\<lparr>cpu_flags := c_eflags (contexts s sp0)\<rparr>)"

definition switch_context :: "tref option \<Rightarrow> kernel \<Rightarrow> (control \<times> kernel) option" where
  "switch_context new s =
     (case (current_thread s, new) of
        (Some _, Some new) \<Rightarrow> do {
          th \<leftarrow> thread_at new s;
          case t_process th of
            None \<Rightarrow> Some (Halted, disable_interrupts s)
          | Some p \<Rightarrow> do {
              let s = s\<lparr>current_thread := Some new\<rparr>;
              let s = (if new \<noteq> (Idle, 0) then s\<lparr>tss := tss_set_sp0 (t_stack0 th + 0x1000) 0x10 (tss s)\<rparr> else s);
              pr \<leftarrow> procs s p;
              let s = (if Some p \<noteq> current_process s then s\<lparr>cr3 := p_cr3 pr\<rparr> else s);
              let s = s\<lparr>current_process := Some p\<rparr>;
              s \<leftarrow> set_thread new (\<lambda>th. th\<lparr>t_state := THREAD_RUNNING\<rparr>) s;
              Some (restore_context (t_sp0 th) s) } }
      | _ \<Rightarrow> Some (Returned, s))"

definition schedule :: "u32 \<Rightarrow> kernel \<Rightarrow> (control \<times> kernel) option" where
  "schedule ctx s =
     (if queue_empty (Some Ready) (queues s) then Some (Returned, s)
      else do {
        cur \<leftarrow> current_thread s;
        s \<leftarrow> (if ctx \<noteq> 0 then set_thread cur (\<lambda>th. th\<lparr>t_sp0 := ctx\<rparr>) s else Some s);
        th \<leftarrow> thread_at cur s;
        qs \<leftarrow> (if t_state th = THREAD_RUNNING then queue_push (Some Ready) (Some cur) (queues s)
              else Some (queues s));
        let (n, qs) = queue_pop (Some Ready) qs;
        let s = s\<lparr>queues := qs\<rparr>;
        new_thread \<leftarrow> n;
        if new_thread = cur then Some (Returned, s)
        else do {
          th' \<leftarrow> thread_at new_thread s;
          p \<leftarrow> t_process th';
          pr \<leftarrow> procs s p;
          if p_state pr = PROCESS_DYING then Some (Returned, s)
          else switch_context (Some new_thread) s } })"

text \<open>
  \<^verbatim>\<open>sys_yield\<close>, that is \<^verbatim>\<open>int 0x81\<close> from kernel code: the processor pushes the context \<open>c\<close> at \<open>a\<close> and the
  gate disables interrupts until \<^verbatim>\<open>iret\<close>.
\<close>

definition push_context :: "u32 \<Rightarrow> interrupt_context \<Rightarrow> kernel \<Rightarrow> kernel" where
  "push_context a c s =
     disable_interrupts (s\<lparr>contexts := (contexts s)(a := c\<lparr>c_eflags := cpu_flags s\<rparr>)\<rparr>)"

definition sys_yield :: "u32 \<times> interrupt_context \<Rightarrow> kernel \<Rightarrow> (control \<times> kernel) option" where
  "sys_yield frame s = do {
     let flags = cpu_flags s;
     (ctl, s) \<leftarrow> schedule (fst frame) (push_context (fst frame) (snd frame) s);
     Some (ctl, if ctl = Returned then write_flags flags s else s) }"

section \<open>The timer\<close>

text \<open>The loop over the sleep queue; the next node is read before the thread is moved.\<close>

partial_function (option) wake_sleepers :: "tref option \<Rightarrow> kernel \<Rightarrow> kernel option" where
  "wake_sleepers n s =
     (case n of None \<Rightarrow> Some s
      | Some t \<Rightarrow> do {
          let nxt = nd_next (qnode (queues s) t);
          th \<leftarrow> thread_at t s;
          s \<leftarrow> (if ticks s \<ge> t_wake_tick th then sched_ready (Some t) s else Some s);
          wake_sleepers nxt s })"

definition timer_handler :: "u32 \<Rightarrow> kernel \<Rightarrow> (control \<times> kernel) option" where
  "timer_handler ctx s = do {
     let s = s\<lparr>ticks := ticks s + 1\<rparr>;
     let s = s\<lparr>ports := pic_send_eoi 0 (ports s)\<rparr>;
     s \<leftarrow> wake_sleepers (q_next (qhead (queues s) Sleep)) s;
     schedule ctx s }"

definition sched_get_ticks :: "kernel \<Rightarrow> u32" where "sched_get_ticks s = ticks s"

definition sched_get_ms_per_tick :: "kernel \<Rightarrow> u32" where "sched_get_ms_per_tick s = ms_per_tick s"

section \<open>Initialisation\<close>

text \<open>The interrupt table shares the processor's flags.\<close>

definition with_idt :: "(handler idt_state \<Rightarrow> handler idt_state) \<Rightarrow> kernel \<Rightarrow> kernel" where
  "with_idt f s =
     (let t = f ((kidt s)\<lparr>eflags := cpu_flags s\<rparr>) in s\<lparr>kidt := t, cpu_flags := eflags t\<rparr>)"

definition sched_init :: "device \<Rightarrow> u16 \<Rightarrow> kernel \<Rightarrow> (int \<times> kernel) option" where
  "sched_init dev frequency s = do {
     let frequency = (if frequency \<le> 18 then 100 else frequency);
     let s = s\<lparr>timer_frequency := frequency\<rparr>;
     let s = s\<lparr>ms_per_tick := 1000 div ucast (timer_frequency s)\<rparr>;
     let s = with_idt (idt_set_handler 32 (Some Timer_Handler)) s;
     tr \<leftarrow> pit_set_frequency dev 0 (timer_frequency s) 6 (ports s);
     let s = s\<lparr>ports := tr\<rparr>;
     s \<leftarrow> set_process Idle (\<lambda>pr. pr\<lparr>p_pid := current_pid s, p_cr3 := kernel_cr3 s, p_num_threads := 1\<rparr>) s;
     let s = s\<lparr>current_pid := current_pid s + 1\<rparr>;
     let s = s\<lparr>queues := queue_init (Some Sleep) (queue_init (Some Zombie) (queue_init (Some Blocked)
                 (queue_init (Some Ready) (queues s))))\<rparr>;
     let s = s\<lparr>current_thread := Some (Idle, 0)\<rparr>;
     s \<leftarrow> set_thread (Idle, 0) (\<lambda>th. th\<lparr>t_process := Some Idle\<rparr>) s;
     s \<leftarrow> set_process Idle (\<lambda>pr. pr\<lparr>p_prev := None, p_next := None, p_dad := None\<rparr>) s;
     let s = s\<lparr>current_process := Some Idle\<rparr>;
     let s = s\<lparr>first_process := Some Idle\<rparr>;
     let s = with_idt (idt_set_handler 0x81 (Some Schedule)) s;
     let s = with_idt (idt_set_dpl 0x81 3) s;
     Some (0, s) }"

end
