(* ===== verification/Thread.thy ===== *)
theory Thread
  imports Scheduler
begin

text \<open>
  \<^verbatim>\<open>kernel/src/thread.c\<close>: creating and destroying threads, leaving the current one, putting it to sleep.
  A kernel stack is a page of the heap, a user stack 16 pages below \<^verbatim>\<open>USER_STACK_TOP\<close>, one page apart
  from the next.  Messages are left out.
\<close>

definition sched_get_current_thread :: "kernel \<Rightarrow> tref option" where
  "sched_get_current_thread s = current_thread s"

section \<open>Destroying\<close>

definition sched_destroy_thread :: "tref option \<Rightarrow> kernel \<Rightarrow> kernel option" where
  "sched_destroy_thread thread s =
     (case thread of None \<Rightarrow> Some s
      | Some t \<Rightarrow> do {
          th \<leftarrow> thread_at t s;
          case t_process th of None \<Rightarrow> Some s
          | Some p \<Rightarrow>
              if t_state th = THREAD_FREE then Some s
              else if Some t = current_thread s then Some s
              else do {
                pr \<leftarrow> procs s p;
                let flags = cpu_flags s;
                let s = disable_interrupts s;
                s \<leftarrow> (if t_stack th \<noteq> 0
                     then map_option snd (vmm_free_pages_in (p_cr3 pr) 16 (t_stack th) s) else Some s);
                s \<leftarrow> (if t_stack0 th \<noteq> 0 then heap_free (t_stack0 th) s else Some s);
                qs \<leftarrow> queue_remove (Some t) (queues s);
                let s = s\<lparr>queues := qs\<rparr>;
                s \<leftarrow> set_process p (\<lambda>pr. pr\<lparr>p_num_threads := p_num_threads pr - 1\<rparr>) s;
                s \<leftarrow> set_thread t (\<lambda>th. th\<lparr>t_state := THREAD_FREE\<rparr>) s;
                Some (write_flags flags s) } })"

section \<open>Creating\<close>

text \<open>The first of the eight slots whose \<^verbatim>\<open>process\<close> is \<^verbatim>\<open>NULL\<close>.\<close>

definition thread_slot :: "pref \<Rightarrow> kernel \<Rightarrow> nat option" where
  "thread_slot p s = List.find (\<lambda>i. t_process (threads s (p, i)) = None) [0 ..< 8]"

text \<open>\<^verbatim>\<open>memset(t, 0, sizeof(*t))\<close> clears the queue node as well.\<close>

definition clear_thread :: "tref \<Rightarrow> kernel \<Rightarrow> kernel" where
  "clear_thread t s =
     s\<lparr>threads := (threads s)(t := zero_thread), queues := upd_node t (\<lambda>_. zero_node) (queues s)\<rparr>"

text \<open>The context the new thread starts from.\<close>

definition first_context :: "pref \<Rightarrow> u32 \<Rightarrow> u32 \<Rightarrow> interrupt_context" where
  "first_context p loc sp =
     (let user = p \<noteq> Idle; ds = (if user then 0x23 else 0x10)
      in \<lparr>c_gs = ds, c_fs = ds, c_es = ds, c_ds = ds, c_esi = 0, c_edi = 0, c_ebp = 0, c_edx = 0, c_ecx = 0,
          c_ebx = 0, c_eax = 0, c_int_num = 0, c_error_code = 0, c_eip = loc,
          c_cs = (if user then 0x1B else 0x08), c_eflags = 0x202,
          c_esp = (if user then sp else 0), c_ss = ds\<rparr>)"

text \<open>The top of the user stack of slot \<open>idx\<close>.\<close>

definition user_sp :: "nat \<Rightarrow> u32" where
  "user_sp idx = 0xBFFFF000 - of_nat idx * (16 * PAGE_SIZE + PAGE_SIZE)"

text \<open>The end of \<open>sched_create_thread\<close>, once both stacks are there.\<close>

definition prepare_thread :: "tref \<Rightarrow> u32 \<Rightarrow> u32 \<Rightarrow> kernel \<Rightarrow> kernel option" where
  "prepare_thread t loc stack0 s = do {
     let p = fst t;
     let sp = user_sp (snd t);
     let stack = sp - 16 * PAGE_SIZE;
     let sp0 = stack0 + 0x1000 - 72;
     s \<leftarrow> zero_pt stack0 s;
     let flags = cpu_flags s;
     let s = disable_interrupts s;
     let s = s\<lparr>contexts := (contexts s)(sp0 := first_context p loc sp)\<rparr>;
     s \<leftarrow> set_thread t (\<lambda>th. th\<lparr>t_process := Some p,
            t_sp := (if p \<noteq> Idle then sp else t_sp th),
            t_stack := (if p \<noteq> Idle then stack else t_stack th),
            t_sp0 := sp0, t_stack0 := stack0\<rparr>) s;
     s \<leftarrow> set_process p (\<lambda>pr. pr\<lparr>p_num_threads := p_num_threads pr + 1\<rparr>) s;
     Some (write_flags flags s) }"

text \<open>The pages of the user stack; threads of the idle process have none.\<close>

definition map_user_stack :: "pref \<Rightarrow> u32 \<Rightarrow> nat \<Rightarrow> kernel \<Rightarrow> (bool \<times> kernel) option" where
  "map_user_stack p c idx s =
     (if p \<noteq> Idle
      then map_option (\<lambda>(r, s). (r \<noteq> 0, s))
             (vmm_alloc_pages_region_in c 16 (1 OR 2 OR 4) (user_sp idx - 16 * PAGE_SIZE) (user_sp idx) s)
      else Some (True, s))"

definition sched_create_thread :: "u32 \<Rightarrow> pref option \<Rightarrow> kernel \<Rightarrow> (tref option \<times> kernel) option" where
  "sched_create_thread loc proc s =
     (case proc of None \<Rightarrow> Some (None, s)
      | Some p \<Rightarrow>
        if loc = 0 then Some (None, s)
        else do {
          pr \<leftarrow> procs s p;
          if p_num_threads pr \<ge> 8 then Some (None, s)
          else case thread_slot p s of
            None \<Rightarrow> Some (None, s)
          | Some idx \<Rightarrow> do {
              (stack0, s) \<leftarrow> heap_alloc 0x1000 (clear_thread (p, idx) s);
              if stack0 = 0 then Some (None, s)
              else do {
                (ok, s) \<leftarrow> map_user_stack p (p_cr3 pr) idx s;
                if \<not> ok then do { s \<leftarrow> heap_free stack0 s; Some (None, s) }
                else do { s \<leftarrow> prepare_thread (p, idx) loc stack0 s; Some (Some (p, idx), s) } } } })"

section \<open>Leaving the processor\<close>

text \<open>After \<open>schedule\<close> has returned, the thread restores its flags and loops around \<^verbatim>\<open>hlt\<close>; whether an interrupt
  can end the halt is in the flags restored.\<close>

definition sched_exit_current_thread :: "u32 \<Rightarrow> u32 \<Rightarrow> kernel \<Rightarrow> (control \<times> kernel) option" where
  "sched_exit_current_thread ctx status s = do {
     cur \<leftarrow> current_thread s;
     th \<leftarrow> thread_at cur s;
     if t_process th = Some Idle then Some (Returned, s)
     else do {
       let flags = cpu_flags s;
       let s = disable_interrupts s;
       s \<leftarrow> set_thread cur (\<lambda>th. th\<lparr>t_exit_code := status\<rparr>) s;
       s \<leftarrow> sched_zombie (Some cur) s;
       (ctl, s) \<leftarrow> schedule ctx s;
       Some (if ctl = Returned then (Halted, write_flags flags s) else (ctl, s)) } }"

definition sched_thread_sleep :: "u32 \<Rightarrow> u32 \<Rightarrow> kernel \<Rightarrow> (control \<times> kernel) option" where
  "sched_thread_sleep ctx wake_tick s =
     (case current_thread s of None \<Rightarrow> Some (Returned, s)
      | Some cur \<Rightarrow>
        if wake_tick \<le> sched_get_ticks s then Some (Returned, s)
        else if cur = (Idle, 0) then Some (Returned, s)
        else do {
          let flags = cpu_flags s;
          let s = disable_interrupts s;
          s \<leftarrow> set_thread cur (\<lambda>th. th\<lparr>t_wake_tick := wake_tick\<rparr>) s;
          s \<leftarrow> sched_sleep (Some cur) s;
          (ctl, s) \<leftarrow> schedule ctx s;
          Some (ctl, if ctl = Returned then write_flags flags s else s) })"

end
