(* ===== verification/Process.thy ===== *)
theory Process
  imports Thread
begin

text \<open>
  \<^verbatim>\<open>kernel/src/process.c\<close>: the list of processes, creating one, destroying one, and marking the current
  one as dying.  A list of processes that does not end makes the loops diverge, the value \<^term>\<open>None\<close>.
  Messages are left out.
\<close>

section \<open>Looking up\<close>

partial_function (option) find_process :: "u32 \<Rightarrow> pref option \<Rightarrow> kernel \<Rightarrow> pref option option" where
  "find_process pid q s =
     (case q of None \<Rightarrow> Some None
      | Some p \<Rightarrow> do {
          pr \<leftarrow> procs s p;
          if p_pid pr = pid then Some (Some p) else find_process pid (p_next pr) s })"

definition sched_get_process :: "u32 \<Rightarrow> kernel \<Rightarrow> pref option option" where
  "sched_get_process pid s = find_process pid (first_process s) s"

definition sched_get_current_process :: "kernel \<Rightarrow> pref option option" where
  "sched_get_current_process s =
     (case current_thread s of None \<Rightarrow> Some None
      | Some cur \<Rightarrow> map_option t_process (thread_at cur s))"

definition sched_get_current_pid :: "kernel \<Rightarrow> u32 option" where
  "sched_get_current_pid s = do {
     p \<leftarrow> sched_get_current_process s;
     case p of None \<Rightarrow> Some 0 | Some p \<Rightarrow> map_option p_pid (procs s p) }"

definition sched_get_current_ppid :: "kernel \<Rightarrow> u32 option" where
  "sched_get_current_ppid s = do {
     p \<leftarrow> sched_get_current_process s;
     case p of None \<Rightarrow> Some 0
     | Some p \<Rightarrow> do {
         pr \<leftarrow> procs s p;
         case p_dad pr of None \<Rightarrow> Some 0 | Some d \<Rightarrow> map_option p_pid (procs s d) } }"

section \<open>Creating\<close>

text \<open>\<^verbatim>\<open>memset(proc, 0, sizeof(*proc))\<close>: the process, its threads with their nodes, and its queue.\<close>

definition clear_process :: "pref \<Rightarrow> kernel \<Rightarrow> kernel" where
  "clear_process p s = s\<lparr>
     procs := (procs s)(p \<mapsto> zero_process),
     threads := (\<lambda>t. if fst t = p then zero_thread else threads s t),
     queues := \<lparr>qnode = (\<lambda>t. if fst t = p then zero_node else qnode (queues s) t),
                qhead = (qhead (queues s))(Waiters p := \<lparr>q_prev = None, q_next = None, q_size = 0\<rparr>)\<rparr>\<rparr>"

text \<open>The new process gets its number, its father and its mailbox, and goes to the front of the list;
  \<^verbatim>\<open>sizeof(ipc_message_t)\<close> is 76.\<close>

definition setup_process :: "pref \<Rightarrow> kernel \<Rightarrow> kernel option" where
  "setup_process p s = do {
     s \<leftarrow> set_process p (\<lambda>pr. pr\<lparr>p_num_threads := 0, p_pid := current_pid s\<rparr>) s;
     let s = s\<lparr>current_pid := current_pid s + 1\<rparr>;
     cur \<leftarrow> current_thread s;
     th \<leftarrow> thread_at cur s;
     s \<leftarrow> set_process p (\<lambda>pr. pr\<lparr>p_dad := t_process th\<rparr>) s;
     pr \<leftarrow> procs s p;
     ring \<leftarrow> ring_buffer_init (Some (p_ring pr)) (Some (replicate (16 * 76) 0)) 76 16;
     s \<leftarrow> set_process p (\<lambda>pr. pr\<lparr>p_ring := ring\<rparr>) s;
     let s = s\<lparr>queues := queue_init (Some (Waiters p)) (queues s)\<rparr>;
     s \<leftarrow> set_process p (\<lambda>pr. pr\<lparr>p_next := first_process s\<rparr>) s;
     s \<leftarrow> (case first_process s of None \<Rightarrow> Some s
          | Some q \<Rightarrow> set_process q (\<lambda>pr. pr\<lparr>p_prev := Some p\<rparr>) s);
     Some (s\<lparr>first_process := Some p\<rparr>) }"

text \<open>\<^verbatim>\<open>sizeof(process_t)\<close> is 1636.\<close>

definition sched_create_process :: "kernel \<Rightarrow> (pref option \<times> kernel) option" where
  "sched_create_process s = do {
     (a, s) \<leftarrow> heap_alloc 1636 s;
     if a = 0 then Some (None, s)
     else do {
       let p = Proc a;
       (c, s) \<leftarrow> vmm_clone (clear_process p s);
       s \<leftarrow> set_process p (\<lambda>pr. pr\<lparr>p_cr3 := c\<rparr>) s;
       if c = 0 then do {
         s \<leftarrow> heap_free a s;
         Some (None, s\<lparr>procs := (procs s)(p := None)\<rparr>) }
       else do {
         s \<leftarrow> setup_process p s;
         Some (Some p, s) } } }"

section \<open>Destroying\<close>

partial_function (option) reparent :: "pref \<Rightarrow> pref option \<Rightarrow> kernel \<Rightarrow> kernel option" where
  "reparent proc q s =
     (case q of None \<Rightarrow> Some s
      | Some p \<Rightarrow> do {
          pr \<leftarrow> procs s p;
          s \<leftarrow> (if p_dad pr = Some proc
               then do { d \<leftarrow> procs s proc; set_process p (\<lambda>pr. pr\<lparr>p_dad := p_dad d\<rparr>) s }
               else Some s);
          pr \<leftarrow> procs s p;
          reparent proc (p_next pr) s })"

text \<open>
  The block of a process goes back to the heap; \<^verbatim>\<open>idle_process\<close> is no heap block, so \<open>heap_free\<close>
  would find none.
\<close>

definition free_process :: "pref \<Rightarrow> kernel \<Rightarrow> kernel option" where
  "free_process p s =
     (case p of Idle \<Rightarrow> Some s
      | Proc a \<Rightarrow> do { s \<leftarrow> heap_free a s; Some (s\<lparr>procs := (procs s)(p := None)\<rparr>) })"

definition sched_destroy_process :: "pref option \<Rightarrow> kernel \<Rightarrow> kernel option" where
  "sched_destroy_process proc s =
     (case proc of None \<Rightarrow> Some s
      | Some p \<Rightarrow> do {
          pr \<leftarrow> procs s p;
          if cr3 s = p_cr3 pr then Some s
          else do {
            s \<leftarrow> reparent p (first_process s) s;
            s \<leftarrow> for_each (\<lambda>i. sched_destroy_thread (Some (p, i))) [0 ..< 8] s;
            pr \<leftarrow> procs s p;
            s \<leftarrow> vmm_destroy (p_cr3 pr) s;
            s \<leftarrow> (if p_cr3 pr \<noteq> 0 then pmm_free_page (p_cr3 pr) s else Some s);
            s \<leftarrow> (case p_prev pr of None \<Rightarrow> Some s
                 | Some q \<Rightarrow> set_process q (\<lambda>r. r\<lparr>p_next := p_next pr\<rparr>) s);
            pr \<leftarrow> procs s p;
            s \<leftarrow> (case p_next pr of None \<Rightarrow> Some s
                 | Some q \<Rightarrow> set_process q (\<lambda>r. r\<lparr>p_prev := p_prev pr\<rparr>) s);
            pr \<leftarrow> procs s p;
            let s = (if first_process s = Some p then s\<lparr>first_process := p_next pr\<rparr> else s);
            free_process p s } })"

text \<open>The node of a thread that is in no queue is left alone by \<open>queue_remove\<close>.\<close>

definition unqueue :: "tref \<Rightarrow> kernel \<Rightarrow> kernel option" where
  "unqueue t s = do { qs \<leftarrow> queue_remove (Some t) (queues s); Some (s\<lparr>queues := qs\<rparr>) }"

definition sched_destroy_current_process :: "u32 \<times> interrupt_context \<Rightarrow> kernel \<Rightarrow> (control \<times> kernel) option" where
  "sched_destroy_current_process frame s = do {
     proc \<leftarrow> sched_get_current_process s;
     case proc of None \<Rightarrow> Some (Returned, s)
     | Some p \<Rightarrow> do {
         let flags = cpu_flags s;
         let s = disable_interrupts s;
         s \<leftarrow> for_each (\<lambda>i. unqueue (p, i)) [0 ..< 8] s;
         s \<leftarrow> set_process p (\<lambda>pr. pr\<lparr>p_state := PROCESS_DYING\<rparr>) s;
         sys_yield frame (write_flags flags s) } }"

end
