(* ===== verification/Ipc.thy ===== *)
theory Ipc
  imports Process
begin

text \<open>
  \<^verbatim>\<open>kernel/src/ipc.c\<close>: messages between processes.  Every process has a mailbox, a ring buffer of 16
  messages of 76 bytes and a queue of threads that wait for one.  The local \<^verbatim>\<open>ipc_message_t msg\<close> of
  \<open>ipc_send\<close> is not initialised: the bytes the sender does not fill are the parameter \<open>junk\<close>.
\<close>

section \<open>Messages\<close>

record ipc_message =
  m_sender :: u32
  m_type :: u32
  m_size :: u32
  m_data :: "u8 list"

definition message_bytes :: "ipc_message \<Rightarrow> u8 list" where
  "message_bytes m = bytes_of_u32 (m_sender m) @ bytes_of_u32 (m_type m) @ bytes_of_u32 (m_size m) @ m_data m"

definition message_of :: "u8 list \<Rightarrow> ipc_message" where
  "message_of bs = \<lparr>
     m_sender = u32_of_bytes (bs ! 0) (bs ! 1) (bs ! 2) (bs ! 3),
     m_type = u32_of_bytes (bs ! 4) (bs ! 5) (bs ! 6) (bs ! 7),
     m_size = u32_of_bytes (bs ! 8) (bs ! 9) (bs ! 10) (bs ! 11), m_data = drop 12 bs\<rparr>"

lemma message_of_bytes: "message_of (message_bytes m) = m"
  by (simp add: message_of_def message_bytes_def bytes_of_u32_def)

section \<open>Sending\<close>

text \<open>The end of \<open>ipc_send\<close>: the first thread that waits for a message becomes ready.\<close>

definition wake_waiter :: "pref \<Rightarrow> kernel \<Rightarrow> (int \<times> kernel) option" where
  "wake_waiter p s =
     (if queue_empty (Some (Waiters p)) (queues s) then Some (0, s)
      else do {
        let (n, qs) = queue_pop (Some (Waiters p)) (queues s);
        let s = s\<lparr>queues := qs\<rparr>;
        case n of None \<Rightarrow> Some (1, s)
        | Some t \<Rightarrow> do { s \<leftarrow> sched_ready (Some t) s; Some (0, s) } })"

definition ipc_send :: "u8 list \<Rightarrow> u32 \<Rightarrow> u32 \<Rightarrow> u32 \<Rightarrow> u32 \<Rightarrow> kernel \<Rightarrow> (int \<times> kernel) option" where
  "ipc_send junk pid ty data sz s =
     (if data = 0 \<or> sz = 0 \<or> sz > 64 then Some (1, s)
      else do {
        p \<leftarrow> sched_get_process pid s;
        case p of None \<Rightarrow> Some (1, s)
        | Some p \<Rightarrow> do {
            pr \<leftarrow> procs s p;
            if p_state pr = PROCESS_DYING then Some (1, s)
            else do {
              bytes \<leftarrow> vload data (unat sz) s;
              msg_data \<leftarrow> blit junk 0 bytes;
              sender \<leftarrow> sched_get_current_pid s;
              let msg = \<lparr>m_sender = sender, m_type = ty, m_size = sz, m_data = msg_data\<rparr>;
              (ret, ring) \<leftarrow> ring_buffer_push (Some (p_ring pr)) (Some (message_bytes msg));
              ring \<leftarrow> ring;
              s \<leftarrow> set_process p (\<lambda>pr. pr\<lparr>p_ring := ring\<rparr>) s;
              if ret \<noteq> 0 then Some (1, s)
              else wake_waiter p s } } })"

section \<open>Receiving\<close>

text \<open>The second half of \<open>ipc_receive\<close>: take the oldest message and copy it out.  What \<^verbatim>\<open>msg\<close> held
  before is overwritten as a whole.\<close>

definition receive_message :: "pref \<Rightarrow> u32 \<Rightarrow> u32 \<Rightarrow> u32 \<Rightarrow> kernel \<Rightarrow> (int \<times> kernel) option" where
  "receive_message p sender_pid buffer sz s = do {
     pr \<leftarrow> procs s p;
     (ret, out, ring) \<leftarrow> ring_buffer_pop (Some (p_ring pr)) (Some (replicate 76 0));
     bs \<leftarrow> out;
     ring \<leftarrow> ring;
     s \<leftarrow> set_process p (\<lambda>pr. pr\<lparr>p_ring := ring\<rparr>) s;
     if ret \<noteq> 0 then Some (1, s)
     else do {
       let msg = message_of bs;
       s \<leftarrow> vstore sender_pid (bytes_of_u32 (m_sender msg)) s;
       let copy_size = (if sz < m_size msg then sz else m_size msg);
       bytes \<leftarrow> obj_read (m_data msg) 0 (unat copy_size);
       s \<leftarrow> vstore buffer bytes s;
       Some (0, s) } }"

text \<open>
  \<open>ipc_receive\<close> for the system call whose context is at \<open>ctx\<close>.  On an empty mailbox the thread joins
  the waiters and yields; when the yield leaves through \<^verbatim>\<open>restore_context\<close> the thread is left inside
  \<open>ipc_receive\<close>, the value \<^term>\<open>Inr\<close>, and goes on with \<open>receive_message\<close> once its context is restored.
  When the yield returns it goes on at once.
\<close>

definition ipc_receive ::
  "u32 \<times> interrupt_context \<Rightarrow> u32 \<Rightarrow> u32 \<Rightarrow> u32 \<Rightarrow> u32 \<Rightarrow> kernel \<Rightarrow> ((int + control) \<times> kernel) option" where
  "ipc_receive frame ctx sender_pid buffer sz s =
     (if sender_pid = 0 \<or> buffer = 0 \<or> sz = 0 \<or> sz > 64 then Some (Inl 1, s)
      else do {
        p \<leftarrow> sched_get_current_process s;
        case p of None \<Rightarrow> Some (Inl 1, s)
        | Some p \<Rightarrow> do {
            pr \<leftarrow> procs s p;
            if ring_buffer_empty (Some (p_ring pr)) then do {
              t \<leftarrow> sched_get_current_thread s;
              let flags = cpu_flags s;
              let s = disable_interrupts s;
              s \<leftarrow> set_thread t (\<lambda>th. th\<lparr>t_state := THREAD_BLOCKED\<rparr>) s;
              qs \<leftarrow> queue_remove (Some t) (queues s);
              qs \<leftarrow> queue_push (Some (Waiters p)) (Some t) qs;
              let s = write_flags flags (s\<lparr>queues := qs\<rparr>);
              let rf = \<lparr>rf_ctx = ctx, rf_sender = sender_pid, rf_buffer = buffer, rf_size = sz\<rparr>;
              (ctl, s) \<leftarrow> sys_yield frame (s\<lparr>receiving := (receiving s)(t \<mapsto> rf)\<rparr>);
              if ctl \<noteq> Returned then Some (Inr ctl, s)
              else do {
                let s = s\<lparr>receiving := (receiving s)(t := None)\<rparr>;
                (ret, s) \<leftarrow> receive_message p sender_pid buffer sz s;
                Some (Inl ret, s) } }
            else do {
              (ret, s) \<leftarrow> receive_message p sender_pid buffer sz s;
              Some (Inl ret, s) } } })"

end
