(* ===== verification/Syscall.thy ===== *)
theory Syscall
  imports Ipc
begin

text \<open>
  \<^verbatim>\<open>kernel/src/arch/i686/syscall.c\<close>, \<^verbatim>\<open>exception.c\<close> and the dispatch of interrupts: the entries into
  the kernel.  A handler gets the address of the context the processor and the stub pushed; its
  parameters \<open>junk\<close> and \<open>frame\<close> are those of \<open>ipc_send\<close> and \<open>sys_yield\<close>.
\<close>

section \<open>System calls\<close>

text \<open>The result \<^verbatim>\<open>eax\<close> of a call that returns, or how control left the kernel.\<close>

type_synonym syscall_result = "((u32 + control) \<times> kernel) option"

definition sys_exit_impl :: "u32 \<Rightarrow> kernel \<Rightarrow> syscall_result" where
  "sys_exit_impl ctx s = do {
     (ctl, s) \<leftarrow> sched_exit_current_thread ctx (c_ebx (contexts s ctx)) s;
     Some (if ctl = Returned then Inl 0 else Inr ctl, s) }"

definition sys_getpid_impl :: "kernel \<Rightarrow> syscall_result" where
  "sys_getpid_impl s = map_option (\<lambda>r. (Inl r, s)) (sched_get_current_pid s)"

definition sys_getppid_impl :: "kernel \<Rightarrow> syscall_result" where
  "sys_getppid_impl s = map_option (\<lambda>r. (Inl r, s)) (sched_get_current_ppid s)"

text \<open>Dividing by \<^verbatim>\<open>ms_per_tick\<close> faults when it is 0.\<close>

definition sys_sleep_impl :: "u32 \<Rightarrow> kernel \<Rightarrow> syscall_result" where
  "sys_sleep_impl ctx s =
     (if sched_get_ms_per_tick s = 0 then None
      else do {
        (ctl, s) \<leftarrow> sched_thread_sleep ctx
          (sched_get_ticks s + c_ebx (contexts s ctx) div sched_get_ms_per_tick s) s;
        Some (if ctl = Returned then Inl 0 else Inr ctl, s) })"

definition sys_nthread_impl :: "u32 \<Rightarrow> kernel \<Rightarrow> syscall_result" where
  "sys_nthread_impl ctx s = do {
     p \<leftarrow> sched_get_current_process s;
     if p = None then Some (Inl (- 1), s)
     else do {
       (t, s) \<leftarrow> sched_create_thread (c_ebx (contexts s ctx)) p s;
       if t = None then Some (Inl (- 1), s)
       else do { s \<leftarrow> sched_ready t s; Some (Inl 0, s) } } }"

text \<open>The code of a new process is copied from the kernel's buffer while its address space is loaded.\<close>

definition copy_image :: "u32 \<Rightarrow> u32 \<Rightarrow> u32 \<Rightarrow> kernel \<Rightarrow> kernel option" where
  "copy_image c data n s = do {
     let flags = cpu_flags s;
     let s = disable_interrupts s;
     let old_cr3 = cr3 s;
     s \<leftarrow> vmemcpy 0x400000 data n (s\<lparr>cr3 := c\<rparr>);
     Some (write_flags flags (s\<lparr>cr3 := old_cr3\<rparr>)) }"

text \<open>From the new process on: its pages, its first thread, its code.\<close>

definition start_process :: "pref \<Rightarrow> u32 \<Rightarrow> u32 \<Rightarrow> kernel \<Rightarrow> syscall_result" where
  "start_process p data n s = do {
     let pages = align_up n PAGE_SIZE div PAGE_SIZE;
     pr \<leftarrow> procs s p;
     (r, s) \<leftarrow> vmm_alloc_pages_region_in (p_cr3 pr) pages (1 OR 2 OR 4) 0x400000 (0x400000 + pages * PAGE_SIZE) s;
     if r = 0 then do {
       s \<leftarrow> heap_free data s;
       s \<leftarrow> sched_destroy_process (Some p) s;
       Some (Inl 0, s) }
     else do {
       (t, s) \<leftarrow> sched_create_thread 0x400000 (Some p) s;
       if t = None then do {
         (r, s) \<leftarrow> vmm_free_pages_in (p_cr3 pr) pages 0x400000 s;
         s \<leftarrow> heap_free data s;
         s \<leftarrow> sched_destroy_process (Some p) s;
         Some (Inl 0, s) }
       else do {
         s \<leftarrow> copy_image (p_cr3 pr) data n s;
         s \<leftarrow> heap_free data s;
         s \<leftarrow> sched_ready t s;
         pr \<leftarrow> procs s p;
         Some (Inl (p_pid pr), s) } } }"

definition sys_nprocess_impl :: "u32 \<Rightarrow> kernel \<Rightarrow> syscall_result" where
  "sys_nprocess_impl ctx s = (
     let entry = c_ebx (contexts s ctx); n = c_ecx (contexts s ctx)
     in if entry = 0 \<or> n = 0 then Some (Inl 0, s)
     else do {
       (data, s) \<leftarrow> heap_alloc n s;
       if data = 0 then Some (Inl 0, s)
       else do {
         s \<leftarrow> vmemcpy data entry n s;
         (p, s) \<leftarrow> sched_create_process s;
         case p of None \<Rightarrow> do { s \<leftarrow> heap_free data s; Some (Inl 0, s) }
         | Some p \<Rightarrow> start_process p data n s } })"

definition sys_send_impl :: "u8 list \<Rightarrow> u32 \<Rightarrow> kernel \<Rightarrow> syscall_result" where
  "sys_send_impl junk ctx s = (
     let c = contexts s ctx
     in map_option (\<lambda>(r, s). (Inl (of_int r), s)) (ipc_send junk (c_ebx c) (c_ecx c) (c_esi c) (c_edx c) s))"

definition sys_receive_impl :: "u32 \<times> interrupt_context \<Rightarrow> u32 \<Rightarrow> kernel \<Rightarrow> syscall_result" where
  "sys_receive_impl frame ctx s = (
     let c = contexts s ctx
     in map_option (\<lambda>(r, s). (map_sum of_int id r, s)) (ipc_receive frame ctx (c_esi c) (c_edi c) (c_ebx c) s))"

definition set_eax :: "u32 \<Rightarrow> u32 \<Rightarrow> kernel \<Rightarrow> kernel" where
  "set_eax ctx v s = s\<lparr>contexts := (contexts s)(ctx := (contexts s ctx)\<lparr>c_eax := v\<rparr>)\<rparr>"

definition run_syscall ::
  "u8 list \<Rightarrow> u32 \<times> interrupt_context \<Rightarrow> u32 \<Rightarrow> kernel \<Rightarrow> syscall_result" where
  "run_syscall junk frame ctx s =
     (let n = c_eax (contexts s ctx)
      in if n = 0 then sys_exit_impl ctx s
        else if n = 1 then sys_getpid_impl s
        else if n = 2 then sys_getppid_impl s
        else if n = 5 then sys_sleep_impl ctx s
        else if n = 4 then sys_nthread_impl ctx s
        else if n = 3 then sys_nprocess_impl ctx s
        else if n = 6 then sys_send_impl junk ctx s
        else if n = 7 then sys_receive_impl frame ctx s
        else Some (Inl (- 1), s))"

definition syscall_handler ::
  "u8 list \<Rightarrow> u32 \<times> interrupt_context \<Rightarrow> u32 \<Rightarrow> kernel \<Rightarrow> (control \<times> kernel) option" where
  "syscall_handler junk frame ctx s = do {
     (r, s) \<leftarrow> run_syscall junk frame ctx s;
     case r of Inl ret \<Rightarrow> Some (Returned, set_eax ctx ret s) | Inr ctl \<Rightarrow> Some (ctl, s) }"

text \<open>
  A thread whose yield inside \<open>ipc_receive\<close> is over takes its message and finishes the system call.
\<close>

definition syscall_resume :: "kernel \<Rightarrow> kernel option" where
  "syscall_resume s = do {
     t \<leftarrow> current_thread s;
     rf \<leftarrow> receiving s t;
     (ret, s) \<leftarrow> receive_message (fst t) (rf_sender rf) (rf_buffer rf) (rf_size rf)
       (s\<lparr>receiving := (receiving s)(t := None)\<rparr>);
     let s = set_eax (rf_ctx rf) (of_int ret) s;
     Some (write_flags (c_eflags (contexts s (rf_ctx rf))) s) }"

definition syscall_init :: "kernel \<Rightarrow> kernel" where
  "syscall_init s = with_idt (idt_set_dpl 0x80 3) (with_idt (idt_set_handler 0x80 (Some Syscall_Handler)) s)"

section \<open>Exceptions\<close>

text \<open>
  \<open>exception_handler\<close> prints the 16 bytes of code at \<^verbatim>\<open>eip\<close>.  When they are not mapped the kernel
  itself faults; that exception comes from kernel code, so it stops the system.
\<close>

definition exception_handler :: "u32 \<times> interrupt_context \<Rightarrow> u32 \<Rightarrow> kernel \<Rightarrow> (control \<times> kernel) option" where
  "exception_handler frame ctx s = (
     let c = contexts s ctx; from_user = (c_cs c AND 3 = 3)
     in if c_int_num c \<ge> 32 then None
     else case vload (c_eip c) 16 s of
       None \<Rightarrow> Some (Halted, disable_interrupts s)
     | Some code \<Rightarrow>
         if from_user then sched_destroy_current_process frame s
         else Some (Halted, disable_interrupts s))"

definition exception_init :: "kernel \<Rightarrow> kernel" where
  "exception_init = with_idt (fold (\<lambda>i. idt_set_handler (of_nat i) (Some Exception_Handler)) [0 ..< 32])"

section \<open>Dispatch\<close>

definition run_handler ::
  "u8 list \<Rightarrow> u32 \<times> interrupt_context \<Rightarrow> handler \<Rightarrow> u32 \<Rightarrow> kernel \<Rightarrow> (control \<times> kernel) option" where
  "run_handler junk frame h ctx s =
     (case h of
        Timer_Handler \<Rightarrow> timer_handler ctx s
      | Schedule \<Rightarrow> schedule ctx s
      | Syscall_Handler \<Rightarrow> syscall_handler junk frame ctx s
      | Exception_Handler \<Rightarrow> exception_handler frame ctx s)"

text \<open>
  An interrupt from start to end: the context \<open>c\<close> is pushed at \<open>ctx\<close>, the handler of its vector runs
  (with interrupts disabled unless the vector is a trap gate), and if it returns the stub restores
  the context.
\<close>

definition enter_interrupt :: "u32 \<Rightarrow> interrupt_context \<Rightarrow> kernel \<Rightarrow> kernel" where
  "enter_interrupt ctx c s =
     (let gate = idt (kidt s) ! unat (c_int_num c); s' = push_context ctx c s
      in if i_attributes gate AND 0xF = 0xF then write_flags (cpu_flags s) s' else s')"

definition interrupt ::
  "u8 list \<Rightarrow> u32 \<times> interrupt_context \<Rightarrow> u32 \<Rightarrow> interrupt_context \<Rightarrow> kernel \<Rightarrow> (control \<times> kernel) option" where
  "interrupt junk frame ctx c s = do {
     let s = enter_interrupt ctx c s;
     (ctl, s) \<leftarrow> (case interrupt_handler (contexts s ctx) (kidt s) of
        None \<Rightarrow> Some (Returned, s)
      | Some h \<Rightarrow> run_handler junk frame h ctx s);
     Some (if ctl = Returned then restore_context ctx s else (ctl, s)) }"

end
