(* ===== verification/Sched_Inv.thy ===== *)
theory Sched_Inv
  imports Syscall
begin

text \<open>
  The invariant of the scheduler, and what \<open>schedule\<close> and the timer do under it.  It is stated on the
  lists \<open>Q\<close> of threads in the queues, as the queue component abstracts them.
\<close>

section \<open>The invariant\<close>

abbreviation idle :: tref where "idle \<equiv> (Idle, 0)"

text \<open>A thread that has been created, of a process that exists.\<close>

definition thread_ok :: "(tref \<Rightarrow> thread) \<Rightarrow> (pref \<rightharpoonup> process) \<Rightarrow> tref \<Rightarrow> bool" where
  "thread_ok T P t \<longleftrightarrow> P (fst t) \<noteq> None \<and> snd t < 8 \<and> t_process (T t) = Some (fst t)"

definition normal :: "(pref \<rightharpoonup> process) \<Rightarrow> tref \<Rightarrow> bool" where
  "normal P t \<longleftrightarrow> (\<forall>pr. P (fst t) = Some pr \<longrightarrow> p_state pr = PROCESS_NORMAL)"

text \<open>The states of the threads a queue holds; a thread that was preempted stays \<^verbatim>\<open>THREAD_RUNNING\<close>.\<close>

fun queue_states :: "qref \<Rightarrow> thread_state set" where
  "queue_states Ready = {THREAD_READY, THREAD_RUNNING}"
| "queue_states Blocked = {THREAD_BLOCKED}"
| "queue_states Zombie = {THREAD_ZOMBIE}"
| "queue_states Sleep = {THREAD_SLEEPING}"
| "queue_states (Waiters p) = {THREAD_BLOCKED}"

definition may_hold :: "qref \<Rightarrow> thread_state \<Rightarrow> tref \<Rightarrow> bool" where
  "may_hold q st t \<longleftrightarrow> st \<in> queue_states q \<and> (\<forall>p. q = Waiters p \<longrightarrow> fst t = p)"

text \<open>
  \<open>c\<close> is the current thread.  The idle thread is current or ready, in front of the current one if that
  is in the ready queue too.  A thread that is neither in a queue nor current and running is lost: only
  those in \<open>X\<close>, free ones and those of dying processes may be.
\<close>

definition sched_ok ::
  "tref set \<Rightarrow> (tref \<Rightarrow> thread) \<Rightarrow> (pref \<rightharpoonup> process) \<Rightarrow> tref \<Rightarrow> (qref \<Rightarrow> tref list) \<Rightarrow> bool" where
  "sched_ok X T P c Q \<longleftrightarrow>
     thread_ok T P c \<and> thread_ok T P idle \<and> normal P idle \<and>
     (\<forall>q. \<forall>t \<in> set (Q q). thread_ok T P t \<and> may_hold q (t_state (T t)) t) \<and>
     (\<forall>q. idle \<in> set (Q q) \<longrightarrow> q = Ready) \<and>
     (if c = idle then t_state (T c) = THREAD_RUNNING else idle \<in> set (takeWhile (\<lambda>x. x \<noteq> c) (Q Ready))) \<and>
     (\<forall>t. thread_ok T P t \<and> normal P t \<and> t_state (T t) \<noteq> THREAD_FREE \<and> t \<notin> X \<longrightarrow>
        t = c \<and> t_state (T t) = THREAD_RUNNING \<or> (\<exists>q. t \<in> set (Q q)))"

definition sched_inv :: "tref set \<Rightarrow> kernel \<Rightarrow> (qref \<Rightarrow> tref list) \<Rightarrow> bool" where
  "sched_inv X s Q \<longleftrightarrow> queues_ok (queues s) Q \<and>
     (\<exists>c pr. current_thread s = Some c \<and> current_process s = Some (fst c) \<and> procs s (fst c) = Some pr \<and>
       cr3 s = p_cr3 pr \<and> sched_ok X (threads s) (procs s) c Q)"

lemma sched_okD:
  assumes "sched_ok X T P c Q"
  shows "thread_ok T P c" "thread_ok T P idle" "normal P idle"
    "t \<in> set (Q q) \<Longrightarrow> thread_ok T P t \<and> may_hold q (t_state (T t)) t" "idle \<in> set (Q q) \<Longrightarrow> q = Ready"
    "c = idle \<Longrightarrow> t_state (T c) = THREAD_RUNNING"
    "c \<noteq> idle \<Longrightarrow> idle \<in> set (takeWhile (\<lambda>x. x \<noteq> c) (Q Ready))"
    "\<lbrakk> thread_ok T P t; normal P t; t_state (T t) \<noteq> THREAD_FREE; t \<notin> X \<rbrakk> \<Longrightarrow>
       t = c \<and> t_state (T t) = THREAD_RUNNING \<or> (\<exists>q. t \<in> set (Q q))"
proof -
  note a = assms [unfolded sched_ok_def]
  show "thread_ok T P c" "thread_ok T P idle" "normal P idle"
    "t \<in> set (Q q) \<Longrightarrow> thread_ok T P t \<and> may_hold q (t_state (T t)) t" "idle \<in> set (Q q) \<Longrightarrow> q = Ready"
    "\<lbrakk> thread_ok T P t; normal P t; t_state (T t) \<noteq> THREAD_FREE; t \<notin> X \<rbrakk> \<Longrightarrow>
       t = c \<and> t_state (T t) = THREAD_RUNNING \<or> (\<exists>q. t \<in> set (Q q))"
    using a by blast+
  have "if c = idle then t_state (T c) = THREAD_RUNNING else idle \<in> set (takeWhile (\<lambda>x. x \<noteq> c) (Q Ready))"
    using a by blast
  then show "c = idle \<Longrightarrow> t_state (T c) = THREAD_RUNNING"
    "c \<noteq> idle \<Longrightarrow> idle \<in> set (takeWhile (\<lambda>x. x \<noteq> c) (Q Ready))" by simp_all
qed

lemma sched_okI:
  assumes "thread_ok T P c" "thread_ok T P idle" "normal P idle"
    "\<And>q t. t \<in> set (Q q) \<Longrightarrow> thread_ok T P t \<and> may_hold q (t_state (T t)) t" "\<And>q. idle \<in> set (Q q) \<Longrightarrow> q = Ready"
    "c = idle \<Longrightarrow> t_state (T c) = THREAD_RUNNING"
    "c \<noteq> idle \<Longrightarrow> idle \<in> set (takeWhile (\<lambda>x. x \<noteq> c) (Q Ready))"
    "\<And>t. \<lbrakk> thread_ok T P t; normal P t; t_state (T t) \<noteq> THREAD_FREE; t \<notin> X \<rbrakk> \<Longrightarrow>
       t = c \<and> t_state (T t) = THREAD_RUNNING \<or> (\<exists>q. t \<in> set (Q q))"
  shows "sched_ok X T P c Q"
  unfolding sched_ok_def using assms by simp

lemma sched_invE:
  assumes "sched_inv X s Q"
  obtains c pr where "queues_ok (queues s) Q" "current_thread s = Some c" "current_process s = Some (fst c)"
    "procs s (fst c) = Some pr" "cr3 s = p_cr3 pr" "sched_ok X (threads s) (procs s) c Q"
  using assms by (auto simp: sched_inv_def)

lemma sched_ok_mono: "\<lbrakk> sched_ok X T P c Q; X \<subseteq> Y \<rbrakk> \<Longrightarrow> sched_ok Y T P c Q"
  unfolding sched_ok_def by blast

lemma sched_inv_mono: "\<lbrakk> sched_inv X s Q; X \<subseteq> Y \<rbrakk> \<Longrightarrow> sched_inv Y s Q"
  unfolding sched_inv_def using sched_ok_mono by blast

lemma thread_at_ok: "thread_ok (threads s) (procs s) t \<Longrightarrow> thread_at t s = Some (threads s t)"
  by (simp add: thread_ok_def thread_at_def)

lemma set_thread_ok:
  "thread_ok (threads s) (procs s) t \<Longrightarrow> set_thread t f s = Some (s\<lparr>threads := (threads s)(t := f (threads s t))\<rparr>)"
  by (simp add: set_thread_def thread_at_ok)

lemma thread_ok_cong:
  "t_process (T' t) = t_process (T t) \<Longrightarrow> thread_ok T' P t = thread_ok T P t"
  by (simp add: thread_ok_def)

text \<open>An update of threads that keeps processes and states keeps the invariant.\<close>

lemma sched_ok_update:
  assumes "sched_ok X T P c Q" and "\<And>t. t_process (T' t) = t_process (T t) \<and> t_state (T' t) = t_state (T t)"
  shows "sched_ok X T' P c Q"
proof -
  have e: "thread_ok T' P t = thread_ok T P t" "t_state (T' t) = t_state (T t)" for t
    using assms(2) by (simp_all add: thread_ok_def)
  show ?thesis using assms(1) unfolding sched_ok_def e .
qed

section \<open>Moving a thread\<close>

definition moved :: "qref \<Rightarrow> tref \<Rightarrow> (qref \<Rightarrow> tref list) \<Rightarrow> qref \<Rightarrow> tref list" where
  "moved q t Q = (\<lambda>r. removeAll t (Q r))(q := removeAll t (Q q) @ [t])"

lemma set_moved: "x \<in> set (moved q t Q r) \<longleftrightarrow> x \<noteq> t \<and> x \<in> set (Q r) \<or> x = t \<and> r = q"
  by (auto simp: moved_def)

lemma moved_from:
  assumes "queues_ok S Q" and "Q r = ws @ t # xs" and "q \<noteq> r"
  shows "moved q t Q = Q(r := ws @ xs, q := Q q @ [t])"
proof
  fix x
  have u: "t \<notin> set (Q y)" if "y \<noteq> r" for y using queues_okD(5) [OF assms(1), of t r y] assms(2) that by auto
  have d: "t \<notin> set ws" "t \<notin> set xs" using queues_okD(2) [OF assms(1), of r] assms(2) by auto
  show "moved q t Q x = (Q(r := ws @ xs, q := Q q @ [t])) x"
    using u [of x] u [of q] d assms(2,3) by (cases "x = r") (auto simp: moved_def)
qed

lemma takeWhile_removeAll: "t \<noteq> c \<Longrightarrow> takeWhile (\<lambda>x. x \<noteq> c) (removeAll t xs) = removeAll t (takeWhile (\<lambda>x. x \<noteq> c) xs)"
  by (induction xs) auto

lemma takeWhile_absent: "c \<notin> set xs \<Longrightarrow> takeWhile (\<lambda>x. x \<noteq> c) xs = xs"
  by (auto simp: takeWhile_eq_all_conv)

lemma set_takeWhile_append: "x \<in> set (takeWhile P xs) \<Longrightarrow> x \<in> set (takeWhile P (xs @ ys))"
  by (induction xs) (auto split: if_splits)

lemma idle_stays:
  assumes "idle \<in> set (takeWhile (\<lambda>x. x \<noteq> c) (Q Ready))" and "t \<noteq> idle"
  shows "idle \<in> set (takeWhile (\<lambda>x. x \<noteq> c) (moved q t Q Ready))"
proof -
  have "idle \<in> set (takeWhile (\<lambda>x. x \<noteq> c) (removeAll t (Q Ready)))"
  proof (cases "t = c")
    case True
    have "idle \<in> set (removeAll t (Q Ready))" using assms set_takeWhileD by fastforce
    moreover have "takeWhile (\<lambda>x. x \<noteq> c) (removeAll t (Q Ready)) = removeAll t (Q Ready)"
      by (rule takeWhile_absent) (simp add: True)
    ultimately show ?thesis by (simp only:)
  next
    case False
    then show ?thesis using assms by (simp add: takeWhile_removeAll)
  qed
  then show ?thesis by (simp add: moved_def set_takeWhile_append)
qed

lemma sched_ok_moved:
  assumes "sched_ok X T P c Q" and "thread_ok T P t" and "t \<noteq> idle" and "may_hold q st t"
    and T': "T' = T(t := (T t)\<lparr>t_state := st\<rparr>)"
  shows "sched_ok (X - {t}) T' P c (moved q t Q)"
proof (rule sched_okI)
  note o = sched_okD [OF assms(1)]
  have ok: "thread_ok T' P x = thread_ok T P x" for x by (rule thread_ok_cong) (simp add: T')
  show "thread_ok T' P c" "thread_ok T' P idle" "normal P idle" using o(1-3) ok by simp_all
  show "thread_ok T' P x \<and> may_hold r (t_state (T' x)) x" if "x \<in> set (moved q t Q r)" for r x
    using that o(4) [of x r] assms(2,4) unfolding ok by (auto simp: set_moved T')
  show "r = Ready" if "idle \<in> set (moved q t Q r)" for r using that o(5) [of r] assms(3) by (auto simp: set_moved)
  show "t_state (T' c) = THREAD_RUNNING" if "c = idle" using o(6) that assms(3) by (simp add: T')
  show "idle \<in> set (takeWhile (\<lambda>x. x \<noteq> c) (moved q t Q Ready))" if "c \<noteq> idle"
    using idle_stays [where Q = Q and c = c and t = t and q = q] o(7) [OF that] assms(3) by simp
  show "x = c \<and> t_state (T' x) = THREAD_RUNNING \<or> (\<exists>r. x \<in> set (moved q t Q r))"
    if "thread_ok T' P x" "normal P x" "t_state (T' x) \<noteq> THREAD_FREE" "x \<notin> X - {t}" for x
  proof (cases "x = t")
    case True
    then show ?thesis by (auto simp: set_moved)
  next
    case False
    then show ?thesis using o(8) [of x] that unfolding ok by (auto simp: set_moved T')
  qed
qed

lemma enqueue_ok:
  assumes "sched_inv X s Q" and "thread_ok (threads s) (procs s) t" and "t \<noteq> idle" and "may_hold q st t"
  obtains qs where "enqueue q st (Some t) s =
      Some (s\<lparr>queues := qs, threads := (threads s)(t := (threads s t)\<lparr>t_state := st\<rparr>)\<rparr>)"
    "queues_ok qs (moved q t Q)"
    "sched_inv (X - {t}) (s\<lparr>queues := qs, threads := (threads s)(t := (threads s t)\<lparr>t_state := st\<rparr>)\<rparr>) (moved q t Q)"
proof -
  obtain c pr where c: "queues_ok (queues s) Q" "current_thread s = Some c" "current_process s = Some (fst c)"
    "procs s (fst c) = Some pr" "cr3 s = p_cr3 pr" "sched_ok X (threads s) (procs s) c Q"
    by (rule sched_invE [OF assms(1)])
  obtain q1 where q1: "queue_remove (Some t) (queues s) = Some q1" "queues_ok q1 (\<lambda>r. removeAll t (Q r))"
    using queue_remove_refines [OF c(1)] by blast
  obtain q2 where q2: "queue_push (Some q) (Some t) q1 = Some q2"
    "queues_ok q2 ((\<lambda>r. removeAll t (removeAll t (Q r)))(q := removeAll t (removeAll t (Q q)) @ [t]))"
    using queue_push_refines [OF q1(2)] by blast
  have m: "queues_ok q2 (moved q t Q)" using q2(2) by (simp add: moved_def)
  have "enqueue q st (Some t) s =
      Some (s\<lparr>queues := q2, threads := (threads s)(t := (threads s t)\<lparr>t_state := st\<rparr>)\<rparr>)"
    using assms(2) by (simp add: enqueue_def disable_interrupts_def write_flags_def q1 q2 set_thread_ok)
  moreover have "sched_ok (X - {t}) ((threads s)(t := (threads s t)\<lparr>t_state := st\<rparr>)) (procs s) c (moved q t Q)"
    by (rule sched_ok_moved [OF c(6) assms(2-4) refl])
  ultimately show thesis using that m c(2-5) by (simp add: sched_inv_def)
qed


lemma enqueue_inv:
  assumes "sched_inv X s Q" and "thread_ok (threads s) (procs s) t" and "t \<noteq> idle" and "may_hold q st t"
  shows "\<exists>s'. enqueue q st (Some t) s = Some s' \<and> sched_inv (X - {t}) s' (moved q t Q)"
proof -
  obtain qs where "enqueue q st (Some t) s =
      Some (s\<lparr>queues := qs, threads := (threads s)(t := (threads s t)\<lparr>t_state := st\<rparr>)\<rparr>)"
    "sched_inv (X - {t}) (s\<lparr>queues := qs, threads := (threads s)(t := (threads s t)\<lparr>t_state := st\<rparr>)\<rparr>) (moved q t Q)"
    by (rule enqueue_ok [OF assms])
  then show ?thesis by blast
qed

end
