(* ===== verification/Sched_Run.thy ===== *)
theory Sched_Run
  imports Sched_Inv
begin

text \<open>
  \<open>schedule\<close> and the timer under the invariant: they never fault, which thread they choose, and the
  invariant afterwards.
\<close>

section \<open>Switching to a thread\<close>

definition run_thread :: "tref \<Rightarrow> kernel \<Rightarrow> control \<times> kernel" where
  "run_thread n s =
     (let th = threads s n; ctx = contexts s (t_sp0 th)
      in (Restored ctx, s\<lparr>threads := (threads s)(n := th\<lparr>t_state := THREAD_RUNNING\<rparr>), current_thread := Some n,
            tss := (if n \<noteq> idle then tss_set_sp0 (t_stack0 th + 0x1000) 0x10 (tss s) else tss s),
            cr3 := p_cr3 (the (procs s (fst n))), current_process := Some (fst n), cpu_flags := c_eflags ctx\<rparr>))"

lemma switch_context_ok:
  assumes "current_thread s = Some c" and "current_process s = Some (fst c)" and "procs s (fst c) = Some pr"
    and "cr3 s = p_cr3 pr" and "thread_ok (threads s) (procs s) n"
  shows "switch_context (Some n) s = Some (run_thread n s)"
proof -
  obtain pr' where n: "procs s (fst n) = Some pr'" "snd n < 8" "t_process (threads s n) = Some (fst n)"
    using assms(5) by (auto simp: thread_ok_def)
  have th: "thread_at n s = Some (threads s n)" by (rule thread_at_ok [OF assms(5)])
  show ?thesis
    using assms(1-4) n th
    by (cases "n = idle"; cases "fst n = fst c")
      (simp_all add: switch_context_def run_thread_def restore_context_def set_thread_def thread_at_def Let_def)
qed

section \<open>schedule\<close>

definition saved :: "u32 \<Rightarrow> tref \<Rightarrow> (tref \<Rightarrow> thread) \<Rightarrow> tref \<Rightarrow> thread" where
  "saved ctx c T = (if ctx \<noteq> 0 then T(c := (T c)\<lparr>t_sp0 := ctx\<rparr>) else T)"

lemma saved_same [simp]:
  "t_process (saved ctx c T t) = t_process (T t)" "t_state (saved ctx c T t) = t_state (T t)"
  "t_stack0 (saved ctx c T t) = t_stack0 (T t)" "t_wake_tick (saved ctx c T t) = t_wake_tick (T t)"
  "thread_ok (saved ctx c T) P t = thread_ok T P t"
  "t_sp0 (saved ctx c T t) = (if t = c \<and> ctx \<noteq> 0 then ctx else t_sp0 (T t))"
  by (auto simp: saved_def thread_ok_def)

text \<open>The ready queue \<open>schedule\<close> chooses from: a running thread goes to its end first.\<close>

definition offered :: "(tref \<Rightarrow> thread) \<Rightarrow> tref \<Rightarrow> (qref \<Rightarrow> tref list) \<Rightarrow> qref \<Rightarrow> tref list" where
  "offered T c Q = (if t_state (T c) = THREAD_RUNNING then moved Ready c Q else Q)"

definition dying :: "tref \<Rightarrow> kernel \<Rightarrow> bool" where
  "dying t s \<longleftrightarrow> (\<exists>pr. procs s (fst t) = Some pr \<and> p_state pr = PROCESS_DYING)"

lemma dying_iff: "procs s (fst t) \<noteq> None \<Longrightarrow> dying t s \<longleftrightarrow> \<not> normal (procs s) t"
  using process_state.exhaust by (auto simp: dying_def normal_def)

lemma schedule_empty:
  "\<lbrakk> queues_ok (queues s) Q; Q Ready = [] \<rbrakk> \<Longrightarrow> schedule ctx s = Some (Returned, s)"
  by (simp add: schedule_def queue_empty_iff)

lemma offered_nonempty:
  "Q Ready \<noteq> [] \<Longrightarrow> offered T c Q Ready \<noteq> []"
  by (auto simp: offered_def moved_def)

lemma set_offered: "t \<in> set (offered T c Q q) \<longleftrightarrow>
    (if t_state (T c) = THREAD_RUNNING then t \<noteq> c \<and> t \<in> set (Q q) \<or> t = c \<and> q = Ready else t \<in> set (Q q))"
  by (simp add: offered_def set_moved)

lemma schedule_pop:
  assumes inv: "sched_inv X s Q" and c: "current_thread s = Some c" and ne: "Q Ready \<noteq> []"
    and off: "offered (threads s) c Q Ready = n # xs"
  obtains qs where "queues_ok qs ((offered (threads s) c Q)(Ready := xs))"
    "\<And>q. n \<notin> set (((offered (threads s) c Q)(Ready := xs)) q)" "thread_ok (threads s) (procs s) n"
    "schedule ctx s = Some (let s' = s\<lparr>threads := saved ctx c (threads s), queues := qs\<rparr>
       in if n = c \<or> dying n s then (Returned, s') else run_thread n s')"
proof -
  obtain pr where i: "queues_ok (queues s) Q" "current_process s = Some (fst c)" "procs s (fst c) = Some pr"
    "cr3 s = p_cr3 pr" "sched_ok X (threads s) (procs s) c Q"
    using inv c by (auto simp: sched_inv_def)
  have cok: "thread_ok (threads s) (procs s) c" by (rule sched_okD(1) [OF i(5)])
  have "\<exists>q1. (if t_state (threads s c) = THREAD_RUNNING then queue_push (Some Ready) (Some c) (queues s)
      else Some (queues s)) = Some q1 \<and> queues_ok q1 (offered (threads s) c Q)"
    using kq.push_law [OF i(1), of Ready c] i(1) by (simp add: offered_def moved_def)
  then obtain q1 where q1: "(if t_state (threads s c) = THREAD_RUNNING then queue_push (Some Ready) (Some c) (queues s)
      else Some (queues s)) = Some q1" "queues_ok q1 (offered (threads s) c Q)" by blast
  obtain qs where qs: "queue_pop (Some Ready) q1 = (Some n, qs)" "queues_ok qs ((offered (threads s) c Q)(Ready := xs))"
    by (rule queue_pop_refines [OF q1(2) off])
  have "n = c \<or> n \<in> set (Q Ready)"
    using set_offered [of n "threads s" c Q Ready] unfolding off by (auto split: if_splits)
  then have nok: "thread_ok (threads s) (procs s) n" using cok sched_okD(4) [OF i(5)] by blast
  define s1 where "s1 = s\<lparr>threads := saved ctx c (threads s)\<rparr>"
  have save: "(if ctx \<noteq> 0 then set_thread c (\<lambda>th. th\<lparr>t_sp0 := ctx\<rparr>) s else Some s) = Some s1"
    using cok by (simp add: set_thread_ok saved_def s1_def)
  have s1: "thread_at c s1 = Some (threads s1 c)" "t_state (threads s1 c) = t_state (threads s c)" "queues s1 = queues s"
    using cok by (simp_all add: s1_def thread_at_ok)
  obtain prn where prn: "procs s (fst n) = Some prn" using nok by (auto simp: thread_ok_def)
  have sw: "switch_context (Some n) (s1\<lparr>queues := qs\<rparr>) = Some (run_thread n (s1\<lparr>queues := qs\<rparr>))"
    by (rule switch_context_ok [of _ c pr]) (use i c nok in \<open>simp_all add: s1_def\<close>)
  have n1: "thread_at n (s1\<lparr>queues := qs\<rparr>) = Some (threads s1 n)" "t_process (threads s1 n) = Some (fst n)"
    "procs s1 (fst n) = Some prn"
    using nok prn by (auto simp: s1_def thread_at_def thread_ok_def)
  have "schedule ctx s = Some (if n = c \<or> dying n s then (Returned, s1\<lparr>queues := qs\<rparr>) else run_thread n (s1\<lparr>queues := qs\<rparr>))"
    using i(1) ne c prn
    using q1(1)
    by (cases "t_state (threads s c) = THREAD_RUNNING")
      (simp_all add: schedule_def queue_empty_iff save s1 qs(1) n1 sw dying_def Let_def)
  moreover have "n \<notin> set (((offered (threads s) c Q)(Ready := xs)) q)" for q
    using queues_okD(2) [OF q1(2), of Ready] queues_okD(5) [OF q1(2), of n Ready q] off by (cases "q = Ready") auto
  ultimately show thesis using that qs(2) nok by (simp add: s1_def Let_def)
qed

text \<open>The effect on the invariant.\<close>

lemma offered_head:
  assumes "sched_ok X T P c Q" and "offered T c Q Ready = n # xs"
  shows "c \<noteq> idle \<Longrightarrow> n \<noteq> c" "n \<noteq> c \<Longrightarrow> n \<noteq> idle \<Longrightarrow> c \<noteq> idle \<Longrightarrow> idle \<in> set (takeWhile (\<lambda>x. x \<noteq> c) xs)"
proof -
  have a: "idle \<in> set (takeWhile (\<lambda>x. x \<noteq> c) (offered T c Q Ready))" if "c \<noteq> idle"
    using idle_stays [where Q = Q and c = c and t = c and q = Ready] sched_okD(7) [OF assms(1) that] that
    by (simp add: offered_def)
  then show "c \<noteq> idle \<Longrightarrow> n \<noteq> c"
    "n \<noteq> c \<Longrightarrow> n \<noteq> idle \<Longrightarrow> c \<noteq> idle \<Longrightarrow> idle \<in> set (takeWhile (\<lambda>x. x \<noteq> c) xs)"
    using assms(2) by (auto split: if_splits)
qed

lemma popped_member:
  assumes "offered T c Q Ready = n # xs" and "\<And>q. n \<notin> set (((offered T c Q)(Ready := xs)) q)"
  shows "t \<in> set (((offered T c Q)(Ready := xs)) q) \<longleftrightarrow> t \<noteq> n \<and> t \<in> set (offered T c Q q)"
  using assms(1) assms(2) [of q] by (cases "q = Ready") auto

lemma offered_member:
  assumes "sched_ok X T P c Q" and "t \<in> set (offered T c Q q)"
  shows "thread_ok T P t \<and> may_hold q (t_state (T t)) t" "t = idle \<Longrightarrow> q = Ready"
  using assms(2) sched_okD(1,5) [OF assms(1)] sched_okD(4) [OF assms(1), of t q]
  by (auto simp: set_offered may_hold_def split: if_splits)

lemma offered_keeps: "t \<in> set (Q q) \<Longrightarrow> \<exists>r. t \<in> set (offered T c Q r)"
  by (auto simp: set_offered)

lemma sched_ok_popped:
  assumes o: "sched_ok X T P c Q" and off: "offered T c Q Ready = n # xs"
    and nn: "\<And>q. n \<notin> set (((offered T c Q)(Ready := xs)) q)" and "n = c \<or> \<not> normal P n"
  shows "sched_ok X T P c ((offered T c Q)(Ready := xs))"
proof (rule sched_okI)
  note m = popped_member [OF off nn] and d = sched_okD [OF o]
  show "thread_ok T P c" "thread_ok T P idle" "normal P idle" by (rule d)+
  show "thread_ok T P t \<and> may_hold q (t_state (T t)) t" if "t \<in> set (((offered T c Q)(Ready := xs)) q)" for t q
    using that offered_member(1) [OF o] unfolding m by blast
  show "q = Ready" if "idle \<in> set (((offered T c Q)(Ready := xs)) q)" for q
    using that offered_member(2) [OF o] unfolding m by blast
  show "c = idle \<Longrightarrow> t_state (T c) = THREAD_RUNNING" by (rule d(6))
  show "idle \<in> set (takeWhile (\<lambda>x. x \<noteq> c) (((offered T c Q)(Ready := xs)) Ready))" if "c \<noteq> idle"
  proof -
    have "n \<noteq> c" by (rule offered_head(1) [OF o off that])
    moreover have "n \<noteq> idle" using assms(4) \<open>n \<noteq> c\<close> d(3) by auto
    ultimately show ?thesis using offered_head(2) [OF o off] that by simp
  qed
  show "t = c \<and> t_state (T t) = THREAD_RUNNING \<or> (\<exists>q. t \<in> set (((offered T c Q)(Ready := xs)) q))"
    if t: "thread_ok T P t" "normal P t" "t_state (T t) \<noteq> THREAD_FREE" "t \<notin> X" for t
  proof (cases "t = n")
    case True
    then have "n = c" using assms(4) t(2) by blast
    then have "c = idle" using offered_head(1) [OF o off] by blast
    then show ?thesis using d(6) True \<open>n = c\<close> by blast
  next
    case False
    then show ?thesis using d(8) [OF t] offered_keeps [of t Q _ T c] unfolding m by blast
  qed
qed

lemma sched_ok_switched:
  assumes o: "sched_ok X T P c Q" and off: "offered T c Q Ready = n # xs"
    and nn: "\<And>q. n \<notin> set (((offered T c Q)(Ready := xs)) q)"
    and T': "T' = T(n := (T n)\<lparr>t_state := THREAD_RUNNING\<rparr>)"
  shows "sched_ok X T' P n ((offered T c Q)(Ready := xs))"
proof (rule sched_okI)
  note m = popped_member [OF off nn] and d = sched_okD [OF o]
  have ok: "thread_ok T' P t = thread_ok T P t" for t by (rule thread_ok_cong) (simp add: T')
  have st: "t_state (T' t) = t_state (T t)" if "t \<noteq> n" for t using that by (simp add: T')
  have "n \<in> set (offered T c Q Ready)" using off by simp
  then show "thread_ok T' P n" using offered_member(1) [OF o] ok by blast
  show "thread_ok T' P idle" "normal P idle" using d(2,3) ok by simp_all
  show "thread_ok T' P t \<and> may_hold q (t_state (T' t)) t" if "t \<in> set (((offered T c Q)(Ready := xs)) q)" for t q
    using that offered_member(1) [OF o, of t q] st [of t] unfolding m ok by auto
  show "q = Ready" if "idle \<in> set (((offered T c Q)(Ready := xs)) q)" for q
    using that offered_member(2) [OF o] unfolding m by blast
  show "t_state (T' n) = THREAD_RUNNING" by (simp add: T')
  show "idle \<in> set (takeWhile (\<lambda>x. x \<noteq> n) (((offered T c Q)(Ready := xs)) Ready))" if "n \<noteq> idle"
  proof -
    have "idle \<in> set (offered T c Q Ready)"
    proof (cases "c = idle")
      case True
      then show ?thesis using d(6) by (simp add: set_offered)
    next
      case False
      then have "idle \<in> set (Q Ready)" using d(7) set_takeWhileD by fastforce
      then show ?thesis using False by (simp add: set_offered)
    qed
    then have "idle \<in> set xs" using off that by simp
    moreover have "n \<notin> set xs" using nn [of Ready] by simp
    ultimately show ?thesis by (simp add: takeWhile_absent)
  qed
  show "t = n \<and> t_state (T' t) = THREAD_RUNNING \<or> (\<exists>q. t \<in> set (((offered T c Q)(Ready := xs)) q))"
    if t: "thread_ok T' P t" "normal P t" "t_state (T' t) \<noteq> THREAD_FREE" "t \<notin> X" for t
  proof (cases "t = n")
    case True
    then show ?thesis by (simp add: T')
  next
    case False
    have "t = c \<and> t_state (T t) = THREAD_RUNNING \<or> (\<exists>q. t \<in> set (Q q))" using t d(8) [of t] st [OF False] ok by simp
    then have "\<exists>q. t \<in> set (offered T c Q q)" using offered_keeps [of t Q _ T c] by (auto simp: set_offered)
    then show ?thesis using False unfolding m by blast
  qed
qed


text \<open>\<open>schedule\<close> never faults, and keeps the invariant; it returns exactly in the three cases below.\<close>

lemma schedule_ok:
  assumes inv: "sched_inv X s Q" and c: "current_thread s = Some c"
  obtains (empty) "Q Ready = []" "schedule ctx s = Some (Returned, s)"
  | (stay) n xs qs where "offered (threads s) c Q Ready = n # xs" "n = c \<or> dying n s"
      "schedule ctx s = Some (Returned, s\<lparr>threads := saved ctx c (threads s), queues := qs\<rparr>)"
      "sched_inv X (s\<lparr>threads := saved ctx c (threads s), queues := qs\<rparr>) ((offered (threads s) c Q)(Ready := xs))"
  | (switch) n xs qs where "offered (threads s) c Q Ready = n # xs" "n \<noteq> c" "\<not> dying n s"
      "thread_ok (threads s) (procs s) n"
      "schedule ctx s = Some (run_thread n (s\<lparr>threads := saved ctx c (threads s), queues := qs\<rparr>))"
      "sched_inv X (snd (run_thread n (s\<lparr>threads := saved ctx c (threads s), queues := qs\<rparr>)))
         ((offered (threads s) c Q)(Ready := xs))"
proof (cases "Q Ready")
  case Nil
  then show thesis using inv schedule_empty by (intro empty) (auto simp: sched_inv_def)
next
  case (Cons a as)
  obtain pr where i: "queues_ok (queues s) Q" "current_process s = Some (fst c)" "procs s (fst c) = Some pr"
    "cr3 s = p_cr3 pr" "sched_ok X (threads s) (procs s) c Q"
    using inv c by (auto simp: sched_inv_def)
  obtain n xs where off: "offered (threads s) c Q Ready = n # xs"
    using offered_nonempty [of Q "threads s" c] Cons by (auto simp: neq_Nil_conv)
  obtain qs where q: "queues_ok qs ((offered (threads s) c Q)(Ready := xs))"
    "\<And>q. n \<notin> set (((offered (threads s) c Q)(Ready := xs)) q)" "thread_ok (threads s) (procs s) n"
    "schedule ctx s = Some (let s' = s\<lparr>threads := saved ctx c (threads s), queues := qs\<rparr>
       in if n = c \<or> dying n s then (Returned, s') else run_thread n s')"
    by (rule schedule_pop [OF inv c _ off]) (use Cons in auto)
  have saved_off: "offered (saved ctx c (threads s)) c Q = offered (threads s) c Q" by (simp add: offered_def)
  have o: "sched_ok X (saved ctx c (threads s)) (procs s) c Q" by (rule sched_ok_update [OF i(5)]) simp
  have prn: "procs s (fst n) \<noteq> None" using q(3) by (simp add: thread_ok_def)
  note off' = off [folded saved_off] and q2 = q(2) [folded saved_off]
  show thesis
  proof (cases "n = c \<or> dying n s")
    case True
    then have "n = c \<or> \<not> normal (procs s) n" using dying_iff [of s n] prn by blast
    from sched_ok_popped [OF o off' q2 this]
    have "sched_inv X (s\<lparr>threads := saved ctx c (threads s), queues := qs\<rparr>) ((offered (threads s) c Q)(Ready := xs))"
      unfolding saved_off using i(2-4) c q(1) by (simp add: sched_inv_def)
    then show thesis using True q(4) by (intro stay [OF off True]) (simp add: Let_def)
  next
    case False
    from sched_ok_switched [OF o off' q2 refl]
    have "sched_inv X (snd (run_thread n (s\<lparr>threads := saved ctx c (threads s), queues := qs\<rparr>)))
         ((offered (threads s) c Q)(Ready := xs))"
      unfolding saved_off using q(1) prn by (auto simp: sched_inv_def run_thread_def Let_def)
    then show thesis using False q(3,4) by (intro switch [OF off]) (simp_all add: Let_def)
  qed
qed

lemma schedule_inv:
  assumes "sched_inv X s Q"
  shows "\<exists>r s' Q'. schedule ctx s = Some (r, s') \<and> sched_inv X s' Q'"
proof -
  obtain c where c: "current_thread s = Some c" using assms by (auto simp: sched_inv_def)
  show ?thesis
  proof (rule schedule_ok [OF assms c, of ctx])
    fix n xs qs
    assume "schedule ctx s = Some (run_thread n (s\<lparr>threads := saved ctx c (threads s), queues := qs\<rparr>))"
      "sched_inv X (snd (run_thread n (s\<lparr>threads := saved ctx c (threads s), queues := qs\<rparr>)))
         ((offered (threads s) c Q)(Ready := xs))"
    then show ?thesis by (metis prod.collapse)
  qed (use assms in blast)+
qed

section \<open>The timer\<close>

definition due :: "kernel \<Rightarrow> tref \<Rightarrow> bool" where
  "due s t \<longleftrightarrow> t_wake_tick (threads s t) \<le> ticks s"

definition woken :: "tref set \<Rightarrow> (tref \<Rightarrow> thread) \<Rightarrow> tref \<Rightarrow> thread" where
  "woken W T = (\<lambda>t. if t \<in> W then (T t)\<lparr>t_state := THREAD_READY\<rparr> else T t)"

lemma wake_sleepers_ok:
  assumes "sched_inv X s Q" and "Q Sleep = ws @ xs"
  obtains qs where "wake_sleepers (first_or xs None) s =
      Some (s\<lparr>queues := qs, threads := woken {t \<in> set xs. due s t} (threads s)\<rparr>)"
    "sched_inv X (s\<lparr>queues := qs, threads := woken {t \<in> set xs. due s t} (threads s)\<rparr>)
      (Q(Sleep := ws @ filter (\<lambda>t. \<not> due s t) xs, Ready := Q Ready @ filter (due s) xs))"
proof -
  have "\<exists>qs. wake_sleepers (first_or xs None) s =
      Some (s\<lparr>queues := qs, threads := woken {t \<in> set xs. due s t} (threads s)\<rparr>) \<and>
    sched_inv X (s\<lparr>queues := qs, threads := woken {t \<in> set xs. due s t} (threads s)\<rparr>)
      (Q(Sleep := ws @ filter (\<lambda>t. \<not> due s t) xs, Ready := Q Ready @ filter (due s) xs))"
    using assms
  proof (induction xs arbitrary: s Q ws)
    case Nil
    have "wake_sleepers None s = Some s" by (simp add: wake_sleepers.simps)
    moreover have "Q(Sleep := ws, Ready := Q Ready) = Q" using Nil by auto
    moreover have "woken {} (threads s) = threads s" by (simp add: woken_def)
    ultimately show ?case using Nil by (intro exI [of _ "queues s"]) (simp del: fun_upd_apply)
  next
    case (Cons t xs)
    obtain c where i: "queues_ok (queues s) Q" "sched_ok X (threads s) (procs s) c Q"
      using Cons.prems(1) by (auto simp: sched_inv_def)
    have dl: "queue_ok (queues s) Sleep (ws @ t # xs)" "distinct (ws @ t # xs)"
      using queues_okD(1,2) [OF i(1), of Sleep] Cons.prems(2) by simp_all
    then have nx: "nd_next (qnode (queues s) t) = first_or xs None" by (simp add: queue_ok_def dll_append)
    have tq: "t \<in> set (Q Sleep)" using Cons.prems(2) by simp
    have tok: "thread_ok (threads s) (procs s) t" using sched_okD(4) [OF i(2) tq] by simp
    have ti: "t \<noteq> idle" using sched_okD(5) [OF i(2), of Sleep] tq by auto
    note at = thread_at_ok [OF tok]
    show ?case
    proof (cases "due s t")
      case False
      then have "wake_sleepers (first_or (t # xs) None) s = wake_sleepers (first_or xs None) s"
        by (simp add: wake_sleepers.simps [of "Some t"] nx at due_def)
      moreover have "{u \<in> set (t # xs). due s u} = {u \<in> set xs. due s u}" using False by auto
      ultimately show ?thesis using Cons.IH [OF Cons.prems(1), of "ws @ [t]"] Cons.prems(2) False by simp
    next
      case True
      have mh: "may_hold Ready THREAD_READY t" by (simp add: may_hold_def)
      define T1 where "T1 = (threads s)(t := (threads s t)\<lparr>t_state := THREAD_READY\<rparr>)"
      obtain qs where q: "enqueue Ready THREAD_READY (Some t) s = Some (s\<lparr>queues := qs, threads := T1\<rparr>)"
        "sched_inv (X - {t}) (s\<lparr>queues := qs, threads := T1\<rparr>) (moved Ready t Q)"
        unfolding T1_def by (rule enqueue_ok [OF Cons.prems(1) tok ti mh])
      define s1 where "s1 = s\<lparr>queues := qs, threads := T1\<rparr>"
      define Q1 where "Q1 = Q(Sleep := ws @ xs, Ready := Q Ready @ [t])"
      have mv: "moved Ready t Q = Q1" unfolding Q1_def by (rule moved_from [OF i(1) Cons.prems(2)]) simp
      have inv1: "sched_inv X s1 Q1" using sched_inv_mono [OF q(2), of X] unfolding mv s1_def by blast
      have Q1: "Q1 Sleep = ws @ xs" "Q1 Ready = Q Ready @ [t]" by (simp_all add: Q1_def)
      obtain qs' where q': "wake_sleepers (first_or xs None) s1 =
          Some (s1\<lparr>queues := qs', threads := woken {u \<in> set xs. due s1 u} (threads s1)\<rparr>)"
        "sched_inv X (s1\<lparr>queues := qs', threads := woken {u \<in> set xs. due s1 u} (threads s1)\<rparr>)
           (Q1(Sleep := ws @ filter (\<lambda>u. \<not> due s1 u) xs, Ready := Q1 Ready @ filter (due s1) xs))"
        using Cons.IH [OF inv1 Q1(1)] by blast
      have du: "due s1 = due s" by (simp add: due_def s1_def T1_def fun_eq_iff)
      have wk: "woken {u \<in> set xs. due s u} (threads s1) = woken {u \<in> set (t # xs). due s u} (threads s)"
        using True by (auto simp: woken_def fun_eq_iff s1_def T1_def)
      have st: "s1\<lparr>queues := qs', threads := V\<rparr> = s\<lparr>queues := qs', threads := V\<rparr>" for V by (simp add: s1_def)
      have "wake_sleepers (first_or (t # xs) None) s = wake_sleepers (first_or xs None) s1"
        using True by (simp add: wake_sleepers.simps [of "Some t"] nx at due_def sched_ready_def q(1) s1_def)
      moreover have "Q1(Sleep := ws @ filter (\<lambda>u. \<not> due s u) xs, Ready := Q1 Ready @ filter (due s) xs) =
          Q(Sleep := ws @ filter (\<lambda>u. \<not> due s u) (t # xs), Ready := Q Ready @ filter (due s) (t # xs))"
        using True unfolding Q1(2) by (simp add: Q1_def fun_eq_iff)
      ultimately show ?thesis using q' unfolding du wk st by (intro exI [of _ qs'] conjI) (simp_all only:)
    qed
  qed
  then show thesis using that by blast
qed


lemma sched_inv_clock: "sched_inv X (s\<lparr>ticks := k, ports := tr\<rparr>) Q = sched_inv X s Q"
  by (simp add: sched_inv_def)

lemma timer_handler_ok:
  assumes inv: "sched_inv X s Q"
  obtains qs where "timer_handler ctx s = schedule ctx (s\<lparr>ticks := ticks s + 1, ports := pic_send_eoi 0 (ports s),
       queues := qs, threads := woken {t \<in> set (Q Sleep). t_wake_tick (threads s t) \<le> ticks s + 1} (threads s)\<rparr>)"
    "sched_inv X (s\<lparr>ticks := ticks s + 1, ports := pic_send_eoi 0 (ports s),
       queues := qs, threads := woken {t \<in> set (Q Sleep). t_wake_tick (threads s t) \<le> ticks s + 1} (threads s)\<rparr>)
     (Q(Sleep := filter (\<lambda>t. \<not> t_wake_tick (threads s t) \<le> ticks s + 1) (Q Sleep),
        Ready := Q Ready @ filter (\<lambda>t. t_wake_tick (threads s t) \<le> ticks s + 1) (Q Sleep)))"
proof -
  define s0 where "s0 = s\<lparr>ticks := ticks s + 1, ports := pic_send_eoi 0 (ports s)\<rparr>"
  have i0: "sched_inv X s0 Q" unfolding s0_def sched_inv_clock by (rule inv)
  have "queues_ok (queues s) Q" using inv by (auto simp: sched_inv_def)
  then have hd: "q_next (qhead (queues s) Sleep) = first_or (Q Sleep) None" "queues s0 = queues s"
    using queues_okD(1) [of "queues s" Q Sleep] by (simp_all add: s0_def queue_ok_def)
  have du: "due s0 = (\<lambda>t. t_wake_tick (threads s t) \<le> ticks s + 1)" "threads s0 = threads s"
    by (simp_all add: due_def fun_eq_iff s0_def)
  have up: "s0\<lparr>queues := qs, threads := T\<rparr> = s\<lparr>ticks := ticks s + 1, ports := pic_send_eoi 0 (ports s), queues := qs, threads := T\<rparr>" for qs T
    by (simp add: s0_def)
  obtain qs where q: "wake_sleepers (first_or (Q Sleep) None) s0 =
      Some (s0\<lparr>queues := qs, threads := woken {t \<in> set (Q Sleep). due s0 t} (threads s0)\<rparr>)"
    "sched_inv X (s0\<lparr>queues := qs, threads := woken {t \<in> set (Q Sleep). due s0 t} (threads s0)\<rparr>)
      (Q(Sleep := [] @ filter (\<lambda>t. \<not> due s0 t) (Q Sleep), Ready := Q Ready @ filter (due s0) (Q Sleep)))"
    by (rule wake_sleepers_ok [OF i0, of "[]" "Q Sleep"]) simp
  have "timer_handler ctx s = do { s \<leftarrow> wake_sleepers (first_or (Q Sleep) None) s0; schedule ctx s }"
    unfolding timer_handler_def by (simp add: s0_def [symmetric] hd)
  then show thesis using that [of qs] q unfolding du up append_Nil by simp
qed

end
