(* ===== verification/Kernel_Frame.thy ===== *)
theory Kernel_Frame
  imports Sched_Run
begin

text \<open>
  Frames: the memory operations the scheduler's code calls leave the state of the scheduler alone,
  and how the invariant passes through the updates of threads and processes.
\<close>

section \<open>Memory operations\<close>

text \<open>The heap writes memory and maps pages; \<^verbatim>\<open>cr3\<close>, the flags and the state of its callers stay.\<close>

lemma set_block_cpu:
  "set_size b v s = Some s' \<Longrightarrow> same_cpu s s'" "set_used b u s = Some s' \<Longrightarrow> same_cpu s s'"
  "set_prev b v s = Some s' \<Longrightarrow> same_cpu s s'" "set_next b v s = Some s' \<Longrightarrow> same_cpu s s'"
  by (auto simp: set_size_def set_used_def set_prev_def set_next_def bind_eq_Some_conv dest!: vwrite_cpu)

lemma init_block_cpu: "init_block b n p x s = Some s' \<Longrightarrow> same_cpu s s'"
  by (auto simp: init_block_def bind_eq_Some_conv dest!: set_block_cpu)

lemma region_same_cpu: "vmm_alloc_pages_region n fl a b s = Some (r, s') \<Longrightarrow> same_cpu s s'"
  using region_cpu unfolding keeps_cpu_def by blast

lemma heap_expand_cpu: "heap_expand n s = Some (r, s') \<Longrightarrow> same_cpu s s'"
  by (auto simp: heap_expand_def bind_eq_Some_conv Let_def split: if_splits
      dest!: region_same_cpu init_block_cpu set_block_cpu)

lemma heap_split_cpu: "heap_split_block b n s = Some s' \<Longrightarrow> same_cpu s s'"
  by (auto simp: heap_split_block_def bind_eq_Some_conv Let_def split: if_splits dest!: init_block_cpu set_block_cpu)

lemma heap_alloc_cpu: "heap_alloc n s = Some (r, s') \<Longrightarrow> same_cpu s s'"
  by (auto simp: heap_alloc_def bind_eq_Some_conv Let_def split: if_splits
      dest!: heap_expand_cpu heap_split_cpu set_block_cpu)

lemma merge_cpu:
  "merge_prev b s = Some (r, s') \<Longrightarrow> same_cpu s s'" "merge_next b s = Some s' \<Longrightarrow> same_cpu s s'"
  by (auto simp: merge_prev_def merge_next_def bind_eq_Some_conv Let_def split: if_splits dest!: set_block_cpu)

lemma heap_free_cpu: "heap_free p s = Some s' \<Longrightarrow> same_cpu s s'"
  by (auto simp: heap_free_def heap_merge_free_blocks_def bind_eq_Some_conv split: if_splits
      dest!: set_block_cpu merge_cpu)

lemma region_in_cpu: "vmm_alloc_pages_region_in c n fl a b s = Some (r, s') \<Longrightarrow> same_cpu s s'"
  unfolding vmm_alloc_pages_region_in_def by (erule with_cr3_restores) (rule region_cpu)

lemma free_pages_in_cpu: "vmm_free_pages_in c n v s = Some (r, s') \<Longrightarrow> same_cpu s s'"
  unfolding vmm_free_pages_in_def by (erule with_cr3_restores) (rule keeps_cpu_map_option [OF in_space_cpu(3)])

lemma alloc_pages_cpu: "vmm_alloc_pages n fl s = Some (r, s') \<Longrightarrow> same_cpu s s'"
  using in_space_cpu(4) unfolding keeps_cpu_def by blast

lemma copy_upper_cpu: "copy_upper a s = Some s' \<Longrightarrow> same_cpu s s'"
  unfolding copy_upper_def by (erule for_each_cpu [rotated]) (auto simp: bind_eq_Some_conv dest!: vwrite_cpu)

lemma clone_cpu: "vmm_clone s = Some (r, s') \<Longrightarrow> same_cpu s s'"
  by (auto simp: vmm_clone_def bind_eq_Some_conv split: if_splits
      dest!: alloc_pages_cpu copy_upper_cpu vwrite_cpu zero_pt_cpu vmm_unmap_cpu)

lemma destroy_entry_cpu: "destroy_entry pt j s = Some s' \<Longrightarrow> same_cpu s s'"
  by (auto simp: destroy_entry_def bind_eq_Some_conv split: if_splits dest!: pmm_cpu vwrite_cpu)

lemma destroy_entries_cpu: "for_each (destroy_entry pt) is s = Some s' \<Longrightarrow> same_cpu s s'"
  by (rule for_each_cpu [OF destroy_entry_cpu])

lemma destroy_table_cpu: "destroy_table i s = Some s' \<Longrightarrow> same_cpu s s'"
  by (auto simp: destroy_table_def bind_eq_Some_conv Let_def split: if_splits
      dest!: pmm_cpu vwrite_cpu destroy_entries_cpu)

lemma destroy_tables_cpu: "for_each destroy_table is s = Some s' \<Longrightarrow> same_cpu s s'"
  by (rule for_each_cpu [OF destroy_table_cpu])

lemma destroy_cpu: "vmm_destroy c s = Some s' \<Longrightarrow> same_cpu s s'"
  by (auto simp: vmm_destroy_def bind_eq_Some_conv Let_def split: if_splits dest!: destroy_tables_cpu)

lemmas memory_cpu = heap_alloc_cpu heap_free_cpu region_in_cpu free_pages_in_cpu clone_cpu destroy_cpu
  zero_pt_cpu vstore_cpu vmemcpy_cpu pmm_cpu

text \<open>Everything of the scheduler.\<close>

definition same_sched :: "kernel \<Rightarrow> kernel \<Rightarrow> bool" where
  "same_sched s s' \<longleftrightarrow> cr3 s' = cr3 s \<and> cpu_flags s' = cpu_flags s \<and> queues s' = queues s \<and> threads s' = threads s \<and>
     procs s' = procs s \<and> contexts s' = contexts s \<and> receiving s' = receiving s \<and>
     current_thread s' = current_thread s \<and> current_process s' = current_process s \<and>
     first_process s' = first_process s \<and> current_pid s' = current_pid s \<and> ticks s' = ticks s \<and>
     timer_frequency s' = timer_frequency s \<and> ms_per_tick s' = ms_per_tick s \<and> tss s' = tss s \<and>
     ports s' = ports s \<and> kidt s' = kidt s"

lemma same_schedI: "same_cpu s s' \<Longrightarrow> same_sched s s'"
  by (cases s; cases s') (auto simp: same_sched_def)

lemma sched_inv_same: "same_sched s s' \<Longrightarrow> sched_inv X s' Q = sched_inv X s Q"
  by (simp add: same_sched_def sched_inv_def)

lemma same_sched_refl [simp]: "same_sched s s"
  by (simp add: same_sched_def)

lemma same_sched_trans: "\<lbrakk> same_sched s t; same_sched t u \<rbrakk> \<Longrightarrow> same_sched s u"
  by (simp add: same_sched_def)

lemmas memory_same = memory_cpu [THEN same_schedI]

section \<open>Passing the invariant on\<close>

lemma sched_ok_cong:
  assumes "sched_ok X T P c Q" and "\<And>t. thread_ok T' P' t = thread_ok T P t"
    and "\<And>t. thread_ok T P t \<Longrightarrow> t_state (T' t) = t_state (T t) \<and> normal P' t = normal P t"
  shows "sched_ok X T' P' c Q"
proof (rule sched_okI)
  note d = sched_okD [OF assms(1)]
  show "thread_ok T' P' c" "thread_ok T' P' idle" "normal P' idle" using d(1-3) assms(2,3) by simp_all
  show "thread_ok T' P' t \<and> may_hold q (t_state (T' t)) t" if "t \<in> set (Q q)" for q t
    using d(4) [OF that] assms(2,3) by simp
  show "idle \<in> set (Q q) \<Longrightarrow> q = Ready" for q by (rule d(5))
  show "t_state (T' c) = THREAD_RUNNING" if "c = idle" using d(6) [OF that] d(1) assms(3) by simp
  show "c \<noteq> idle \<Longrightarrow> idle \<in> set (takeWhile (\<lambda>x. x \<noteq> c) (Q Ready))" by (rule d(7))
  show "t = c \<and> t_state (T' t) = THREAD_RUNNING \<or> (\<exists>q. t \<in> set (Q q))"
    if "thread_ok T' P' t" "normal P' t" "t_state (T' t) \<noteq> THREAD_FREE" "t \<notin> X" for t
    using d(8) [of t] that assms(2,3) by simp
qed

lemma sched_ok_insert:
  "\<lbrakk> sched_ok X T P c Q \<rbrakk> \<Longrightarrow> sched_ok (insert t X) T P c Q"
  by (rule sched_ok_mono) auto

lemma not_queued:
  assumes "sched_ok X T P c Q" and "\<not> thread_ok T P t \<or> t_state (T t) = THREAD_FREE"
  shows "t \<notin> set (Q q)"
proof
  assume "t \<in> set (Q q)"
  from sched_okD(4) [OF assms(1) this] assms(2) show False by (cases q) (auto simp: may_hold_def)
qed

text \<open>Clearing the node of a thread that is in no queue.\<close>

lemma queues_ok_clear:
  assumes ok: "queues_ok S Q" and "\<And>t. t \<in> N \<Longrightarrow> \<forall>q. t \<notin> set (Q q)"
    and node: "\<And>t. qnode S' t = (if t \<in> N then zero_node else qnode S t)"
    and head: "\<And>q. qhead S' q = qhead S q \<or> Q q = [] \<and> qhead S' q = \<lparr>q_prev = None, q_next = None, q_size = 0\<rparr>"
  shows "queues_ok S' Q"
proof -
  have "queue_ok S' q (Q q)" for q
  proof (cases "qhead S' q = qhead S q")
    case True
    show ?thesis
    proof (rule queue_ok_frame [OF queues_okD(1) [OF ok] True])
      fix x assume "x \<in> set (Q q)"
      then have "x \<notin> N" using assms(2) by blast
      then show "nd_prev (qnode S' x) = nd_prev (qnode S x) \<and> nd_next (qnode S' x) = nd_next (qnode S x)"
        by (simp add: node)
    qed
  next
    case False
    then have "Q q = []" "qhead S' q = \<lparr>q_prev = None, q_next = None, q_size = 0\<rparr>" using head [of q] by simp_all
    then show ?thesis by (simp add: queue_ok_def)
  qed
  moreover have "nd_q (qnode S' t) = Some q \<longleftrightarrow> t \<in> set (Q q)" for t q
    using queues_okD(3,4) [OF ok, of t q] assms(2) [of t] by (auto simp: node zero_node_def)
  ultimately show ?thesis using queues_okD(2) [OF ok] unfolding queues_ok_def by blast
qed

lemma remove_everywhere:
  assumes "\<And>q. t \<notin> set (Q q)"
  shows "(\<lambda>q. removeAll t (Q q)) = Q"
  using assms by (simp add: fun_eq_iff)

text \<open>Taking a thread other than the idle one out of its queue.\<close>

lemma sched_ok_removed:
  assumes "sched_ok X T P c Q" and "t \<noteq> idle"
  shows "sched_ok (insert t X) T P c (\<lambda>q. removeAll t (Q q))"
proof (rule sched_okI)
  note d = sched_okD [OF assms(1)]
  show "thread_ok T P c" "thread_ok T P idle" "normal P idle" by (rule d)+
  show "thread_ok T P u \<and> may_hold q (t_state (T u)) u" if "u \<in> set (removeAll t (Q q))" for q u using that d(4) [of u q] by simp
  show "q = Ready" if "idle \<in> set (removeAll t (Q q))" for q using that d(5) by simp
  show "c = idle \<Longrightarrow> t_state (T c) = THREAD_RUNNING" by (rule d(6))
  show "idle \<in> set (takeWhile (\<lambda>x. x \<noteq> c) (removeAll t (Q Ready)))" if "c \<noteq> idle"
  proof (cases "t = c")
    case True
    have "takeWhile (\<lambda>x. x \<noteq> c) (removeAll t (Q Ready)) = removeAll t (Q Ready)"
      by (rule takeWhile_absent) (simp add: True)
    moreover have "idle \<in> set (removeAll t (Q Ready))" using d(7) [OF that] assms(2) set_takeWhileD by fastforce
    ultimately show ?thesis by (simp only:)
  next
    case False
    then show ?thesis using d(7) [OF that] assms(2) by (simp add: takeWhile_removeAll)
  qed
  show "u = c \<and> t_state (T u) = THREAD_RUNNING \<or> (\<exists>q. u \<in> set (removeAll t (Q q)))"
    if "thread_ok T P u" "normal P u" "t_state (T u) \<noteq> THREAD_FREE" "u \<notin> insert t X" for u
    using d(8) [of u] that by auto
qed

end
