(* ===== verification/Kernel_Ops.thy ===== *)
theory Kernel_Ops
  imports Kernel_Frame
begin

text \<open>
  Every operation of the threads, the processes, the messages and the system calls keeps the invariant
  of the scheduler.
\<close>

section \<open>Updates\<close>

lemma sched_inv_cpu [simp]:
  "sched_inv X (disable_interrupts s) Q = sched_inv X s Q"
  "sched_inv X (write_flags f s) Q = sched_inv X s Q"
  "sched_inv X (push_context a c s) Q = sched_inv X s Q"
  "sched_inv X (s\<lparr>receiving := r\<rparr>) Q = sched_inv X s Q"
  "sched_inv X (s\<lparr>contexts := k\<rparr>) Q = sched_inv X s Q"
  "sched_inv X (set_eax a v s) Q = sched_inv X s Q"
  by (simp_all add: sched_inv_def disable_interrupts_def write_flags_def push_context_def set_eax_def)

lemma control_state [simp]:
  "current_thread (disable_interrupts s) = current_thread s" "current_thread (write_flags f s) = current_thread s"
  "current_thread (push_context a c s) = current_thread s" "current_thread (set_eax a v s) = current_thread s"
  "threads (disable_interrupts s) = threads s" "threads (write_flags f s) = threads s"
  "procs (disable_interrupts s) = procs s" "procs (write_flags f s) = procs s"
  "queues (disable_interrupts s) = queues s" "queues (write_flags f s) = queues s"
  by (simp_all add: disable_interrupts_def write_flags_def push_context_def set_eax_def)

lemma sched_inv_current:
  assumes "sched_inv X s Q" and "current_thread s = Some c"
  shows "thread_ok (threads s) (procs s) c" "thread_at c s = Some (threads s c)"
    "t_process (threads s c) = Some (fst c)" "sched_ok X (threads s) (procs s) c Q"
    "sched_get_current_process s = Some (Some (fst c))" "procs s (fst c) \<noteq> None" "queues_ok (queues s) Q"
proof -
  show o: "sched_ok X (threads s) (procs s) c Q" and "queues_ok (queues s) Q"
    using assms by (auto simp: sched_inv_def)
  show ok: "thread_ok (threads s) (procs s) c" by (rule sched_okD(1) [OF o])
  then show at: "thread_at c s = Some (threads s c)" and p: "t_process (threads s c) = Some (fst c)"
    and "procs s (fst c) \<noteq> None" by (auto simp: thread_at_ok thread_ok_def)
  show "sched_get_current_process s = Some (Some (fst c))"
    using assms(2) at p by (simp add: sched_get_current_process_def)
qed

lemma sched_inv_threads:
  assumes "sched_inv X s Q" and "\<And>th. t_process (f th) = t_process th \<and> t_state (f th) = t_state th"
  shows "sched_inv X (s\<lparr>threads := (threads s)(t := f (threads s t))\<rparr>) Q"
proof -
  obtain c pr where c: "queues_ok (queues s) Q" "current_thread s = Some c" "current_process s = Some (fst c)"
    "procs s (fst c) = Some pr" "cr3 s = p_cr3 pr" "sched_ok X (threads s) (procs s) c Q"
    by (rule sched_invE [OF assms(1)])
  have "sched_ok X ((threads s)(t := f (threads s t))) (procs s) c Q"
    by (rule sched_ok_update [OF c(6)]) (use assms(2) in simp)
  then show ?thesis using c(1-5) by (simp add: sched_inv_def)
qed

lemma sched_inv_set_process:
  assumes inv: "sched_inv X s Q" and sp: "set_process p f s = Some s'"
    and f: "\<And>pr. procs s p = Some pr \<Longrightarrow> p_state (f pr) = p_state pr \<and>
      (current_process s = Some p \<longrightarrow> p_cr3 (f pr) = p_cr3 pr)"
  shows "sched_inv X s' Q" "s' = s\<lparr>procs := (procs s)(p \<mapsto> f (the (procs s p)))\<rparr>" "procs s p \<noteq> None"
proof -
  obtain c pr where c: "queues_ok (queues s) Q" "current_thread s = Some c" "current_process s = Some (fst c)"
    "procs s (fst c) = Some pr" "cr3 s = p_cr3 pr" "sched_ok X (threads s) (procs s) c Q"
    by (rule sched_invE [OF inv])
  obtain r where r: "procs s p = Some r" "s' = s\<lparr>procs := (procs s)(p \<mapsto> f r)\<rparr>"
    using sp by (auto simp: set_process_def)
  then show "s' = s\<lparr>procs := (procs s)(p \<mapsto> f (the (procs s p)))\<rparr>" "procs s p \<noteq> None" by simp_all
  have "sched_ok X (threads s) ((procs s)(p \<mapsto> f r)) c Q"
    by (rule sched_ok_cong [OF c(6)]) (use r f [OF r(1)] in \<open>auto simp: thread_ok_def normal_def\<close>)
  then show "sched_inv X s' Q" using c r f [OF r(1)] by (auto simp: sched_inv_def)
qed

section \<open>Sleeping, leaving, yielding\<close>

lemma enqueue_current:
  assumes "sched_inv X s Q" and "current_thread s = Some c" and "c \<noteq> idle" and "may_hold q st c"
  shows "\<exists>s1 r s2 Q'. enqueue q st (Some c) s = Some s1 \<and> schedule ctx s1 = Some (r, s2) \<and> sched_inv X s2 Q'"
proof -
  obtain qs where e: "enqueue q st (Some c) s =
      Some (s\<lparr>queues := qs, threads := (threads s)(c := (threads s c)\<lparr>t_state := st\<rparr>)\<rparr>)"
    "sched_inv (X - {c}) (s\<lparr>queues := qs, threads := (threads s)(c := (threads s c)\<lparr>t_state := st\<rparr>)\<rparr>) (moved q c Q)"
    by (rule enqueue_ok [OF assms(1) sched_inv_current(1) [OF assms(1,2)] assms(3,4)])
  have "sched_inv X (s\<lparr>queues := qs, threads := (threads s)(c := (threads s c)\<lparr>t_state := st\<rparr>)\<rparr>) (moved q c Q)"
    by (rule sched_inv_mono [OF e(2)]) auto
  from schedule_inv [OF this, of ctx] e(1) show ?thesis by blast
qed

lemma sched_thread_sleep_inv:
  assumes "sched_inv X s Q"
  shows "\<exists>r s' Q'. sched_thread_sleep ctx w s = Some (r, s') \<and> sched_inv X s' Q'"
proof -
  obtain c where c: "current_thread s = Some c" using assms by (auto simp: sched_inv_def)
  note cur = sched_inv_current [OF assms c]
  show ?thesis
  proof (cases "w \<le> ticks s \<or> c = idle")
    case True
    then show ?thesis using assms c by (auto simp: sched_thread_sleep_def sched_get_ticks_def)
  next
    case False
    let ?s = "disable_interrupts s"
    let ?s1 = "?s\<lparr>threads := (threads s)(c := (threads s c)\<lparr>t_wake_tick := w\<rparr>)\<rparr>"
    have st: "set_thread c (\<lambda>th. th\<lparr>t_wake_tick := w\<rparr>) ?s = Some ?s1"
      using cur(1) by (simp add: set_thread_ok)
    have i1: "sched_inv X ?s1 Q" using sched_inv_threads [of X ?s Q "\<lambda>th. th\<lparr>t_wake_tick := w\<rparr>" c] assms by simp
    obtain s1 r s2 Q' where e: "enqueue Sleep THREAD_SLEEPING (Some c) ?s1 = Some s1" "schedule ctx s1 = Some (r, s2)"
      "sched_inv X s2 Q'"
      using enqueue_current [OF i1, of c Sleep THREAD_SLEEPING ctx] c False by (auto simp: may_hold_def)
    have "sched_thread_sleep ctx w s = Some (r, if r = Returned then write_flags (cpu_flags s) s2 else s2)"
      using c False st e(1,2) by (simp add: sched_thread_sleep_def sched_get_ticks_def sched_sleep_def Let_def)
    then show ?thesis using e(3) by auto
  qed
qed

lemma sched_exit_inv:
  assumes "sched_inv X s Q"
  shows "\<exists>r s' Q'. sched_exit_current_thread ctx v s = Some (r, s') \<and> sched_inv X s' Q'"
proof -
  obtain c where c: "current_thread s = Some c" using assms by (auto simp: sched_inv_def)
  note cur = sched_inv_current [OF assms c]
  show ?thesis
  proof (cases "fst c = Idle")
    case True
    then show ?thesis using assms c cur by (auto simp: sched_exit_current_thread_def)
  next
    case False
    then have ci: "c \<noteq> idle" by auto
    let ?s = "disable_interrupts s"
    let ?s1 = "?s\<lparr>threads := (threads s)(c := (threads s c)\<lparr>t_exit_code := v\<rparr>)\<rparr>"
    have st: "set_thread c (\<lambda>th. th\<lparr>t_exit_code := v\<rparr>) ?s = Some ?s1"
      using cur(1) by (simp add: set_thread_ok)
    have i1: "sched_inv X ?s1 Q" using sched_inv_threads [of X ?s Q "\<lambda>th. th\<lparr>t_exit_code := v\<rparr>" c] assms by simp
    obtain s1 r s2 Q' where e: "enqueue Zombie THREAD_ZOMBIE (Some c) ?s1 = Some s1" "schedule ctx s1 = Some (r, s2)"
      "sched_inv X s2 Q'"
      using enqueue_current [OF i1, of c Zombie THREAD_ZOMBIE ctx] c ci by (auto simp: may_hold_def)
    have "sched_exit_current_thread ctx v s =
        Some (if r = Returned then (Halted, write_flags (cpu_flags s) s2) else (r, s2))"
      using c cur(2,3) False st e(1,2) by (simp add: sched_exit_current_thread_def sched_zombie_def Let_def)
    then show ?thesis using e(3) by auto
  qed
qed

lemma sys_yield_inv:
  assumes "sched_inv X s Q"
  shows "\<exists>r s' Q'. sys_yield frame s = Some (r, s') \<and> sched_inv X s' Q'"
proof -
  have "sched_inv X (push_context (fst frame) (snd frame) s) Q" using assms by simp
  from schedule_inv [OF this, of "fst frame"] obtain r s1 Q' where
    "schedule (fst frame) (push_context (fst frame) (snd frame) s) = Some (r, s1)" "sched_inv X s1 Q'" by blast
  then show ?thesis by (auto simp: sys_yield_def Let_def)
qed

section \<open>The timer\<close>

lemma timer_handler_inv:
  assumes "sched_inv X s Q"
  shows "\<exists>r s' Q'. timer_handler ctx s = Some (r, s') \<and> sched_inv X s' Q'"
proof -
  obtain s1 Q1 where "timer_handler ctx s = schedule ctx s1" "sched_inv X s1 Q1"
    by (rule timer_handler_ok [OF assms, of ctx]) blast
  then show ?thesis using schedule_inv [of X s1 Q1 ctx] by simp
qed

section \<open>Dying\<close>

lemma unqueue_all:
  assumes "sched_inv X s Q" and "p \<noteq> Idle"
  shows "\<exists>qs. for_each (\<lambda>i. unqueue (p, i)) is s = Some (s\<lparr>queues := qs\<rparr>) \<and>
    sched_inv (X \<union> Pair p ` set is) (s\<lparr>queues := qs\<rparr>) (\<lambda>q. filter (\<lambda>t. t \<notin> Pair p ` set is) (Q q))"
  using assms
proof (induction "is" arbitrary: s Q X)
  case Nil
  then show ?case by (intro exI [of _ "queues s"]) simp
next
  case (Cons i "is")
  obtain c pr where c: "queues_ok (queues s) Q" "current_thread s = Some c" "current_process s = Some (fst c)"
    "procs s (fst c) = Some pr" "cr3 s = p_cr3 pr" "sched_ok X (threads s) (procs s) c Q"
    by (rule sched_invE [OF Cons.prems(1)])
  obtain q1 where q1: "queue_remove (Some (p, i)) (queues s) = Some q1" "queues_ok q1 (\<lambda>r. removeAll (p, i) (Q r))"
    using queue_remove_refines [OF c(1)] by blast
  have "sched_ok (insert (p, i) X) (threads s) (procs s) c (\<lambda>r. removeAll (p, i) (Q r))"
    by (rule sched_ok_removed [OF c(6)]) (simp add: Cons.prems(2))
  then have "sched_inv (insert (p, i) X) (s\<lparr>queues := q1\<rparr>) (\<lambda>r. removeAll (p, i) (Q r))"
    using q1(2) c(2-5) by (simp add: sched_inv_def)
  from Cons.IH [OF this Cons.prems(2)] obtain qs where
    "for_each (\<lambda>i. unqueue (p, i)) is (s\<lparr>queues := q1\<rparr>) = Some (s\<lparr>queues := qs\<rparr>)"
    "sched_inv (insert (p, i) X \<union> Pair p ` set is) (s\<lparr>queues := qs\<rparr>)
       (\<lambda>q. filter (\<lambda>t. t \<notin> Pair p ` set is) (removeAll (p, i) (Q q)))" by auto
  moreover have "filter (\<lambda>t. t \<notin> Pair p ` set is) (removeAll (p, i) (Q q)) =
      filter (\<lambda>t. t \<notin> Pair p ` set (i # is)) (Q q)" for q
    by (auto simp: removeAll_filter_not_eq intro!: filter_cong)
  moreover have "unqueue (p, i) s = Some (s\<lparr>queues := q1\<rparr>)" by (simp add: unqueue_def q1(1))
  ultimately show ?case by (intro exI [of _ qs]) simp
qed

text \<open>The state in which \<open>sched_destroy_current_process\<close> yields: no thread of the process is queued.\<close>

lemma sched_destroy_current_yields:
  assumes inv: "sched_inv X s Q" and c: "current_thread s = Some c" and p: "fst c \<noteq> Idle"
  obtains s2 pr where "sched_inv X s2 (\<lambda>q. filter (\<lambda>t. fst t \<noteq> fst c) (Q q))" "current_thread s2 = Some c"
    "procs s (fst c) = Some pr" "procs s2 = (procs s)(fst c \<mapsto> pr\<lparr>p_state := PROCESS_DYING\<rparr>)" "threads s2 = threads s"
    "sched_destroy_current_process frame s = sys_yield frame s2"
proof -
  note cur = sched_inv_current [OF inv c]
  have i0: "sched_inv X (disable_interrupts s) Q" using inv by simp
  obtain qs where q: "for_each (\<lambda>i. unqueue (fst c, i)) [0..<8] (disable_interrupts s) =
      Some ((disable_interrupts s)\<lparr>queues := qs\<rparr>)"
    "sched_inv (X \<union> Pair (fst c) ` set [0..<8]) ((disable_interrupts s)\<lparr>queues := qs\<rparr>)
      (\<lambda>q. filter (\<lambda>t. t \<notin> Pair (fst c) ` set [0..<8]) (Q q))"
    using unqueue_all [OF i0 p, of "[0..<8]"] by blast
  define s1 where "s1 = (disable_interrupts s)\<lparr>queues := qs\<rparr>"
  define Q1 where "Q1 = (\<lambda>q. filter (\<lambda>t. t \<notin> Pair (fst c) ` set [0..<8]) (Q q))"
  obtain pr where pr: "procs s (fst c) = Some pr" using cur(6) by blast
  define s2 where "s2 = s1\<lparr>procs := (procs s)(fst c \<mapsto> pr\<lparr>p_state := PROCESS_DYING\<rparr>)\<rparr>"
  have sp: "set_process (fst c) (\<lambda>pr. pr\<lparr>p_state := PROCESS_DYING\<rparr>) s1 = Some s2"
    using pr by (simp add: set_process_def s1_def s2_def)
  have s1: "queues s1 = qs" "threads s1 = threads s" "procs s1 = procs s" "current_thread s1 = Some c"
    using c by (simp_all add: s1_def)
  have i1: "sched_inv (X \<union> Pair (fst c) ` set [0..<8]) s1 Q1" using q(2) by (simp add: s1_def Q1_def)
  obtain qo: "queues_ok qs Q1" and o: "sched_ok (X \<union> Pair (fst c) ` set [0..<8]) (threads s) (procs s) c Q1"
    and cp: "current_process s1 = Some (fst c)" and c3: "cr3 s1 = p_cr3 pr"
    using i1 s1 pr by (auto simp: sched_inv_def)
  have "sched_ok X (threads s) ((procs s)(fst c \<mapsto> pr\<lparr>p_state := PROCESS_DYING\<rparr>)) c Q1"
  proof (rule sched_okI)
    note d = sched_okD [OF o]
    have ok: "thread_ok (threads s) ((procs s)(fst c \<mapsto> pr\<lparr>p_state := PROCESS_DYING\<rparr>)) t = thread_ok (threads s) (procs s) t" for t
      using pr by (auto simp: thread_ok_def)
    show "thread_ok (threads s) ((procs s)(fst c \<mapsto> pr\<lparr>p_state := PROCESS_DYING\<rparr>)) c"
      "thread_ok (threads s) ((procs s)(fst c \<mapsto> pr\<lparr>p_state := PROCESS_DYING\<rparr>)) idle"
      using d(1,2) ok by simp_all
    show "normal ((procs s)(fst c \<mapsto> pr\<lparr>p_state := PROCESS_DYING\<rparr>)) idle" using d(3) p by (simp add: normal_def)
    show "thread_ok (threads s) ((procs s)(fst c \<mapsto> pr\<lparr>p_state := PROCESS_DYING\<rparr>)) t \<and> may_hold q (t_state (threads s t)) t"
      if "t \<in> set (Q1 q)" for q t using d(4) [OF that] ok by simp
    show "\<And>q. idle \<in> set (Q1 q) \<Longrightarrow> q = Ready" by (rule d(5))
    show "c = idle \<Longrightarrow> t_state (threads s c) = THREAD_RUNNING" by (rule d(6))
    show "c \<noteq> idle \<Longrightarrow> idle \<in> set (takeWhile (\<lambda>x. x \<noteq> c) (Q1 Ready))" by (rule d(7))
    show "t = c \<and> t_state (threads s t) = THREAD_RUNNING \<or> (\<exists>q. t \<in> set (Q1 q))"
      if t: "thread_ok (threads s) ((procs s)(fst c \<mapsto> pr\<lparr>p_state := PROCESS_DYING\<rparr>)) t"
        "normal ((procs s)(fst c \<mapsto> pr\<lparr>p_state := PROCESS_DYING\<rparr>)) t" "t_state (threads s t) \<noteq> THREAD_FREE" "t \<notin> X" for t
    proof -
      have f: "fst t \<noteq> fst c" using t(2) by (auto simp: normal_def)
      then have "t \<notin> X \<union> Pair (fst c) ` set [0..<8]" using t(4) by auto
      moreover have "normal (procs s) t" using t(2) f by (simp add: normal_def)
      ultimately show ?thesis using d(8) t(1,3) ok by blast
    qed
  qed
  then have "sched_inv X s2 Q1"
    using qo s1 cp c3 unfolding s2_def by (simp add: sched_inv_def)
  then have i2: "sched_inv X (write_flags (cpu_flags s) s2) Q1" by simp
  have "Q1 = (\<lambda>q. filter (\<lambda>t. fst t \<noteq> fst c) (Q q))"
  proof
    fix q
    have "t \<in> Pair (fst c) ` set [0..<8] \<longleftrightarrow> fst t = fst c" if "t \<in> set (Q q)" for t
      using sched_okD(4) [OF cur(4) that] by (cases t) (auto simp: thread_ok_def)
    then show "Q1 q = filter (\<lambda>t. fst t \<noteq> fst c) (Q q)" unfolding Q1_def by (intro filter_cong) auto
  qed
  note i2 = i2 [unfolded this]
  show thesis
    by (rule that [OF i2 _ pr]) (use cur(5) q(1) sp s1 in
      \<open>simp_all add: s2_def sched_destroy_current_process_def s1_def [symmetric] Let_def\<close>)
qed

lemma sched_destroy_current_inv:
  assumes "sched_inv X s Q" and "current_thread s = Some c" and "fst c \<noteq> Idle"
  shows "\<exists>r s' Q'. sched_destroy_current_process frame s = Some (r, s') \<and> sched_inv X s' Q'"
proof (rule sched_destroy_current_yields [OF assms, of frame])
  fix s2 pr
  assume "sched_inv X s2 (\<lambda>q. filter (\<lambda>t. fst t \<noteq> fst c) (Q q))" "sched_destroy_current_process frame s = sys_yield frame s2"
  then show ?thesis using sys_yield_inv by metis
qed

end
