(* ===== verification/Kernel_Calls.thy ===== *)
theory Kernel_Calls
  imports Kernel_Ops
begin

text \<open>
  Messages, creation and destruction of threads and processes, and the system calls: whenever they do
  not fault they keep the invariant of the scheduler.
\<close>

section \<open>Messages\<close>

text \<open>The queues once the first thread that waits at \<open>p\<close>'s mailbox is ready.\<close>

definition wakes :: "pref \<Rightarrow> (qref \<Rightarrow> tref list) \<Rightarrow> qref \<Rightarrow> tref list" where
  "wakes p Q = (case Q (Waiters p) of [] \<Rightarrow> Q | t # ts \<Rightarrow> Q(Waiters p := ts, Ready := Q Ready @ [t]))"

lemma ready_popped:
  assumes inv: "sched_inv X s Q" and q: "Q (Waiters p) = t # xs"
  obtains qs qs' where "queue_pop (Some (Waiters p)) (queues s) = (Some t, qs)"
    "sched_ready (Some t) (s\<lparr>queues := qs\<rparr>) = Some (s\<lparr>queues := qs', threads := woken {t} (threads s)\<rparr>)"
    "sched_inv X (s\<lparr>queues := qs', threads := woken {t} (threads s)\<rparr>) (Q(Waiters p := xs, Ready := Q Ready @ [t]))"
proof -
  obtain c pr where c: "queues_ok (queues s) Q" "current_thread s = Some c" "current_process s = Some (fst c)"
    "procs s (fst c) = Some pr" "cr3 s = p_cr3 pr" "sched_ok X (threads s) (procs s) c Q"
    by (rule sched_invE [OF inv])
  obtain qs where qs: "queue_pop (Some (Waiters p)) (queues s) = (Some t, qs)" "queues_ok qs (Q(Waiters p := xs))"
    by (rule queue_pop_refines [OF c(1) q])
  have t: "t \<in> set (Q (Waiters p))" using q by simp
  have ti: "t \<noteq> idle" using sched_okD(5) [OF c(6), of "Waiters p"] t by auto
  have tok: "thread_ok (threads s) (procs s) t" using sched_okD(4) [OF c(6) t] by simp
  have e: "(\<lambda>r. removeAll t (Q r)) = Q(Waiters p := xs)"
  proof
    fix r
    show "removeAll t (Q r) = (Q(Waiters p := xs)) r"
    proof (cases "r = Waiters p")
      case True
      have "distinct (t # xs)" using queues_okD(2) [OF c(1), of "Waiters p"] q by simp
      then show ?thesis using True q by simp
    next
      case False
      then have "t \<notin> set (Q r)" using queues_okD(5) [OF c(1) t, of r] by blast
      then show ?thesis using False by simp
    qed
  qed
  then have "sched_ok (insert t X) (threads s) (procs s) c (Q(Waiters p := xs))"
    using sched_ok_removed [OF c(6) ti] by simp
  then have i1: "sched_inv (insert t X) (s\<lparr>queues := qs\<rparr>) (Q(Waiters p := xs))"
    using qs(2) c(2-5) by (simp add: sched_inv_def)
  have mh: "may_hold Ready THREAD_READY t" by (simp add: may_hold_def)
  have tok1: "thread_ok (threads (s\<lparr>queues := qs\<rparr>)) (procs (s\<lparr>queues := qs\<rparr>)) t" using tok by simp
  obtain qs' where qs': "enqueue Ready THREAD_READY (Some t) (s\<lparr>queues := qs\<rparr>) =
      Some (s\<lparr>queues := qs\<rparr>\<lparr>queues := qs', threads := (threads s)(t := (threads s t)\<lparr>t_state := THREAD_READY\<rparr>)\<rparr>)"
    "sched_inv (insert t X - {t})
      (s\<lparr>queues := qs\<rparr>\<lparr>queues := qs', threads := (threads s)(t := (threads s t)\<lparr>t_state := THREAD_READY\<rparr>)\<rparr>)
      (moved Ready t (Q(Waiters p := xs)))"
    using enqueue_ok [OF i1 tok1 ti mh] by auto
  have w: "(threads s)(t := (threads s t)\<lparr>t_state := THREAD_READY\<rparr>) = woken {t} (threads s)"
    by (auto simp: woken_def fun_eq_iff)
  have q1: "t \<notin> set ((Q(Waiters p := xs)) r)" for r by (simp only: fun_cong [OF e, symmetric]) simp
  then have m: "moved Ready t (Q(Waiters p := xs)) = Q(Waiters p := xs, Ready := Q Ready @ [t])"
    using e by (auto simp: moved_def fun_eq_iff)
  have "sched_inv X (s\<lparr>queues := qs', threads := woken {t} (threads s)\<rparr>) (Q(Waiters p := xs, Ready := Q Ready @ [t]))"
    by (rule sched_inv_mono [where X = "insert t X - {t}"]) (use qs'(2) in \<open>auto simp: w m\<close>)
  then show thesis using that qs(1) qs'(1) by (simp add: sched_ready_def w)
qed

lemma wake_waiter_ok:
  assumes "sched_inv X s Q"
  obtains qs where "wake_waiter p s = Some (0, s\<lparr>queues := qs, threads := woken (set (take 1 (Q (Waiters p)))) (threads s)\<rparr>)"
    "sched_inv X (s\<lparr>queues := qs, threads := woken (set (take 1 (Q (Waiters p)))) (threads s)\<rparr>) (wakes p Q)"
proof -
  have q: "queues_ok (queues s) Q" using assms by (auto simp: sched_inv_def)
  show thesis
  proof (cases "Q (Waiters p)")
    case Nil
    have "s\<lparr>queues := queues s, threads := woken {} (threads s)\<rparr> = s" by (simp add: woken_def)
    then show thesis using that [of "queues s"] assms Nil queue_empty_iff [OF q, of "Waiters p"]
      by (simp add: wake_waiter_def wakes_def)
  next
    case (Cons t xs)
    obtain qs qs' where w: "queue_pop (Some (Waiters p)) (queues s) = (Some t, qs)"
      "sched_ready (Some t) (s\<lparr>queues := qs\<rparr>) = Some (s\<lparr>queues := qs', threads := woken {t} (threads s)\<rparr>)"
      "sched_inv X (s\<lparr>queues := qs', threads := woken {t} (threads s)\<rparr>) (Q(Waiters p := xs, Ready := Q Ready @ [t]))"
      by (rule ready_popped [OF assms Cons])
    then show thesis using that [of qs'] Cons queue_empty_iff [OF q, of "Waiters p"]
      by (simp add: wake_waiter_def wakes_def)
  qed
qed

lemma wake_waiter_inv:
  assumes "sched_inv X s Q"
  shows "\<exists>s' Q'. wake_waiter p s = Some (0, s') \<and> sched_inv X s' Q'"
  by (rule wake_waiter_ok [OF assms, of p]) blast

lemma ipc_send_inv:
  assumes inv: "sched_inv X s Q" and r: "ipc_send junk pid ty data sz s = Some (r, s')"
  shows "\<exists>Q'. sched_inv X s' Q'"
proof -
  have "s' = s \<or> (\<exists>p ring s1. set_process p (\<lambda>pr. pr\<lparr>p_ring := ring\<rparr>) s = Some s1 \<and>
      (s' = s1 \<or> wake_waiter p s1 = Some (r, s')))"
    using r unfolding ipc_send_def by (auto simp: bind_eq_Some_conv split: if_splits option.splits)
  then show ?thesis
  proof (elim disjE exE conjE)
    fix p ring s1 assume sp: "set_process p (\<lambda>pr. pr\<lparr>p_ring := ring\<rparr>) s = Some s1"
    have i1: "sched_inv X s1 Q" by (rule sched_inv_set_process(1) [OF inv sp]) simp
    then show "s' = s1 \<Longrightarrow> ?thesis" by blast
    show "wake_waiter p s1 = Some (r, s') \<Longrightarrow> ?thesis" using wake_waiter_inv [OF i1, of p] by auto
  qed (use inv in blast)
qed

lemma receive_message_inv:
  assumes inv: "sched_inv X s Q" and r: "receive_message p a b n s = Some (r, s')"
  shows "sched_inv X s' Q" "receiving s' = receiving s"
proof -
  obtain ring s1 where sp: "set_process p (\<lambda>pr. pr\<lparr>p_ring := ring\<rparr>) s = Some s1"
    and rest: "s' = s1 \<or> (\<exists>s2 x y. vstore a x s1 = Some s2 \<and> vstore b y s2 = Some s')"
    using r unfolding receive_message_def by (auto simp: bind_eq_Some_conv Let_def split: if_splits)
  have i1: "sched_inv X s1 Q" by (rule sched_inv_set_process(1) [OF inv sp]) simp
  have r1: "receiving s1 = receiving s" using sp by (auto simp: set_process_def)
  have "same_sched s1 s'"
    using rest memory_same(8) same_sched_trans by (elim disjE exE conjE) (simp add: same_sched_def, blast)
  then show "sched_inv X s' Q" "receiving s' = receiving s"
    using i1 r1 by (simp_all add: sched_inv_same) (simp add: same_sched_def)
qed

lemma ipc_receive_inv:
  assumes inv: "sched_inv X s Q" and c: "current_thread s = Some c" "c \<noteq> idle"
    and r: "ipc_receive frame ctx a b n s = Some (r, s')"
  shows "\<exists>Q'. sched_inv X s' Q'"
proof -
  note cur = sched_inv_current [OF inv c(1)]
  obtain pr where pr: "procs s (fst c) = Some pr" using cur(6) by blast
  consider "s' = s" | ret where "receive_message (fst c) a b n s = Some (ret, s')"
    | "\<not> (a = 0 \<or> b = 0 \<or> n = 0 \<or> n > 64)" "ring_buffer_empty (Some (p_ring pr))"
    using r cur(5) pr unfolding ipc_receive_def by (auto simp: bind_eq_Some_conv split: if_splits)
  then show ?thesis
  proof cases
    case 3
    let ?T = "(threads s)(c := (threads s c)\<lparr>t_state := THREAD_BLOCKED\<rparr>)"
    have qok: "queues_ok (queues s) Q" by (rule cur(7))
    obtain q1 where q1: "queue_remove (Some c) (queues s) = Some q1" "queues_ok q1 (\<lambda>r. removeAll c (Q r))"
      using queue_remove_refines [OF qok] by blast
    obtain q2 where q2: "queue_push (Some (Waiters (fst c))) (Some c) q1 = Some q2"
      "queues_ok q2 ((\<lambda>r. removeAll c (removeAll c (Q r)))(Waiters (fst c) := removeAll c (removeAll c (Q (Waiters (fst c)))) @ [c]))"
      using queue_push_refines [OF q1(2)] by blast
    have q2': "queues_ok q2 (moved (Waiters (fst c)) c Q)" using q2(2) by (simp add: moved_def)
    have "sched_ok (X - {c}) ?T (procs s) c (moved (Waiters (fst c)) c Q)"
      by (rule sched_ok_moved [OF cur(4,1) c(2) _ refl]) (simp add: may_hold_def)
    then have o: "sched_ok X ?T (procs s) c (moved (Waiters (fst c)) c Q)" by (rule sched_ok_mono) auto
    define s1 where "s1 = s\<lparr>threads := ?T, queues := q2,
      receiving := (receiving s)(c \<mapsto> \<lparr>rf_ctx = ctx, rf_sender = a, rf_buffer = b, rf_size = n\<rparr>)\<rparr>"
    have i1: "sched_inv X s1 (moved (Waiters (fst c)) c Q)"
      using o q2' inv c(1) by (auto simp: sched_inv_def s1_def)
    obtain ctl s2 Q2 where y: "sys_yield frame s1 = Some (ctl, s2)" "sched_inv X s2 Q2"
      using sys_yield_inv [OF i1, of frame] by blast
    have st: "set_thread c (\<lambda>th. th\<lparr>t_state := THREAD_BLOCKED\<rparr>) (disable_interrupts s) =
        Some ((disable_interrupts s)\<lparr>threads := ?T\<rparr>)" using cur(1) by (simp add: set_thread_ok)
    have e: "write_flags (cpu_flags s) ((disable_interrupts s)\<lparr>threads := ?T, queues := q2\<rparr>)\<lparr>receiving :=
       (receiving s)(c \<mapsto> \<lparr>rf_ctx = ctx, rf_sender = a, rf_buffer = b, rf_size = n\<rparr>)\<rparr> = s1"
      "receiving (write_flags (cpu_flags s) ((disable_interrupts s)\<lparr>threads := ?T, queues := q2\<rparr>)) = receiving s"
      by (simp_all add: s1_def write_flags_def disable_interrupts_def)
    have "ipc_receive frame ctx a b n s = (if ctl \<noteq> Returned then Some (Inr ctl, s2)
        else do { (ret, s) \<leftarrow> receive_message (fst c) a b n (s2\<lparr>receiving := (receiving s2)(c := None)\<rparr>); Some (Inl ret, s) })"
      using 3 cur(5) pr c(1) q1(1) q2(1) st y(1)
      by (simp add: ipc_receive_def sched_get_current_thread_def e Let_def)
    with r have "(if ctl \<noteq> Returned then Some (Inr ctl, s2)
        else do { (ret, s) \<leftarrow> receive_message (fst c) a b n (s2\<lparr>receiving := (receiving s2)(c := None)\<rparr>); Some (Inl ret, s) }) = Some (r, s')"
      by (simp only:)
    then have "s' = s2 \<or> (\<exists>ret. receive_message (fst c) a b n (s2\<lparr>receiving := (receiving s2)(c := None)\<rparr>) = Some (ret, s'))"
      by (cases "ctl = Returned") (auto simp: bind_eq_Some_conv)
    then show ?thesis
    proof
      assume "\<exists>ret. receive_message (fst c) a b n (s2\<lparr>receiving := (receiving s2)(c := None)\<rparr>) = Some (ret, s')"
      then obtain ret where m: "receive_message (fst c) a b n (s2\<lparr>receiving := (receiving s2)(c := None)\<rparr>) = Some (ret, s')" ..
      have "sched_inv X (s2\<lparr>receiving := (receiving s2)(c := None)\<rparr>) Q2" using y(2) by simp
      from receive_message_inv(1) [OF this m] show ?thesis by blast
    qed (use y(2) in blast)
  qed (use inv receive_message_inv(1) [OF inv] in blast)+
qed

section \<open>Creating threads\<close>

lemma clear_thread_inv:
  assumes inv: "sched_inv X s Q" and t: "\<not> thread_ok (threads s) (procs s) t"
  shows "sched_inv X (clear_thread t s) Q"
proof -
  obtain c pr where c: "queues_ok (queues s) Q" "current_thread s = Some c" "current_process s = Some (fst c)"
    "procs s (fst c) = Some pr" "cr3 s = p_cr3 pr" "sched_ok X (threads s) (procs s) c Q"
    by (rule sched_invE [OF inv])
  have nq: "t \<notin> set (Q q)" for q by (rule not_queued [OF c(6)]) (use t in blast)
  have "queues_ok (upd_node t (\<lambda>_. zero_node) (queues s)) Q"
    by (rule queues_ok_clear [OF c(1), of "{t}"]) (use nq in \<open>auto simp: queue_simps\<close>)
  moreover have "sched_ok X ((threads s)(t := zero_thread)) (procs s) c Q"
    by (rule sched_ok_cong [OF c(6)]) (use t in \<open>auto simp: thread_ok_def zero_thread_def\<close>)
  ultimately show ?thesis using c(2-5) by (simp add: sched_inv_def clear_thread_def)
qed

lemma thread_slot_free:
  assumes "thread_slot p s = Some i"
  shows "i < 8" "t_process (threads s (p, i)) = None" "\<And>j. j < i \<Longrightarrow> t_process (threads s (p, j)) \<noteq> None"
proof -
  obtain k where k: "k < length [0..<8]" "[0..<8] ! k = i" "t_process (threads s (p, i)) = None"
    "\<And>j. j < k \<Longrightarrow> t_process (threads s (p, [0..<8] ! j)) \<noteq> None"
    using assms unfolding thread_slot_def by (auto simp: find_Some_iff)
  have "i = k" using k(1,2) by simp
  then show "i < 8" "t_process (threads s (p, i)) = None" "\<And>j. j < i \<Longrightarrow> t_process (threads s (p, j)) \<noteq> None"
    using k by auto
qed

text \<open>
  What \<open>sched_create_thread\<close> makes of the scheduler when it returns a thread: a new one, in no queue yet.
\<close>

definition new_thread_state :: "tref \<Rightarrow> u32 \<Rightarrow> u32 \<Rightarrow> thread" where
  "new_thread_state t sp stack0 = zero_thread\<lparr>t_process := Some (fst t),
     t_sp := (if fst t \<noteq> Idle then sp else 0), t_stack := (if fst t \<noteq> Idle then sp - 16 * PAGE_SIZE else 0),
     t_sp0 := stack0 + 0x1000 - 72, t_stack0 := stack0\<rparr>"

lemma create_thread_cases:
  assumes r: "sched_create_thread loc proc s = Some (res, s')"
  obtains (none) "res = None" "s' = s"
  | (failed) p idx where "proc = Some p" "thread_slot p s = Some idx" "res = None" "same_sched (clear_thread (p, idx) s) s'"
  | (created) p pr idx s1 stack0 where "proc = Some p" "procs s p = Some pr" "loc \<noteq> 0" "p_num_threads pr < 8"
      "thread_slot p s = Some idx" "res = Some (p, idx)" "stack0 \<noteq> 0" "same_sched (clear_thread (p, idx) s) s1"
      "s' = s1\<lparr>contexts := (contexts s1)(stack0 + 0x1000 - 72 := first_context p loc (user_sp idx)),
         threads := (threads s1)((p, idx) := new_thread_state (p, idx) (user_sp idx) stack0),
         procs := (procs s1)(p \<mapsto> pr\<lparr>p_num_threads := p_num_threads pr + 1\<rparr>)\<rparr>"
proof (cases "proc = None \<or> loc = 0")
  case True
  then have "sched_create_thread loc proc s = Some (None, s)"
    by (cases proc) (simp_all add: sched_create_thread_def)
  then show thesis using r none by simp
next
  case False
  then obtain p where p: "proc = Some p" "loc \<noteq> 0" by auto
  then obtain pr where pr: "procs s p = Some pr" using r by (auto simp: sched_create_thread_def bind_eq_Some_conv)
  show thesis
  proof (cases "p_num_threads pr \<ge> 8 \<or> thread_slot p s = None")
    case True
    then have "sched_create_thread loc proc s = Some (None, s)"
      using p pr by (cases "p_num_threads pr \<ge> 8") (simp_all add: sched_create_thread_def)
    then show thesis using r none by simp
  next
    case small: False
    then obtain idx where idx: "thread_slot p s = Some idx" by auto
    let ?s = "clear_thread (p, idx) s"
    have sc: "procs ?s = procs s" "threads ?s (p, idx) = zero_thread" by (simp_all add: clear_thread_def)
    obtain stack0 s1 where a: "heap_alloc 0x1000 ?s = Some (stack0, s1)"
      using r p pr small idx by (auto simp: sched_create_thread_def bind_eq_Some_conv Let_def)
    have k1: "same_sched ?s s1" by (rule memory_same(1) [OF a])
    show thesis
    proof (cases "stack0 = 0")
      case True
      then show thesis using r p pr small idx a k1 by (intro failed [of p idx]) (auto simp: sched_create_thread_def Let_def)
    next
      case st: False
      have rr: "do { (ok, s) \<leftarrow> map_user_stack p (p_cr3 pr) idx s1;
          if \<not> ok then do { s \<leftarrow> heap_free stack0 s; Some (None, s) }
          else do { s \<leftarrow> prepare_thread (p, idx) loc stack0 s; Some (Some (p, idx), s) } } = Some (res, s')"
        using r p pr small idx a st by (simp add: sched_create_thread_def)
      then obtain ok s2 where s2: "map_user_stack p (p_cr3 pr) idx s1 = Some (ok, s2)" by (auto simp: bind_eq_Some_conv)
      have "same_sched s1 s2"
        using s2 memory_same(3) unfolding map_user_stack_def by (auto split: if_splits)
      then have k2: "same_sched ?s s2" by (rule same_sched_trans [OF k1])
      show thesis
      proof (cases ok)
        case False
        then obtain s3 where s3: "heap_free stack0 s2 = Some s3" "res = None" "s' = s3"
          using rr s2 by (auto simp: bind_eq_Some_conv)
        then show thesis using same_sched_trans [OF k2 memory_same(2) [OF s3(1)]] failed p idx by blast
      next
        case True
        then have pt: "prepare_thread (p, idx) loc stack0 s2 = Some s'" and res: "res = Some (p, idx)"
          using rr s2 by (auto simp: bind_eq_Some_conv)
        then obtain s3 where s3: "zero_pt stack0 s2 = Some s3"
          unfolding prepare_thread_def Let_def by (auto simp: bind_eq_Some_conv)
        have k3: "same_sched ?s s3" by (rule same_sched_trans [OF k2 memory_same(7) [OF s3]])
        then have f: "procs s3 p = Some pr" "threads s3 (p, idx) = zero_thread" "idx < 8"
          using pr sc thread_slot_free(1) [OF idx] by (simp_all add: same_sched_def)
        have "s' = s3\<lparr>contexts := (contexts s3)(stack0 + 0x1000 - 72 := first_context p loc (user_sp idx)),
           threads := (threads s3)((p, idx) := new_thread_state (p, idx) (user_sp idx) stack0),
           procs := (procs s3)(p \<mapsto> pr\<lparr>p_num_threads := p_num_threads pr + 1\<rparr>)\<rparr>"
          using pt s3 f
          by (cases "p = Idle") (simp_all add: prepare_thread_def set_thread_def set_process_def thread_at_def
              disable_interrupts_def write_flags_def new_thread_state_def zero_thread_def Let_def)
        then show thesis using created [OF p(1) pr p(2) _ idx res st k3] small by (simp add: not_le)
      qed
    qed
  qed
qed


lemma sched_create_thread_inv:
  assumes inv: "sched_inv X s Q" and r: "sched_create_thread loc proc s = Some (res, s')"
  shows "sched_inv (case res of None \<Rightarrow> X | Some t \<Rightarrow> insert t X) s' Q \<and>
    (\<forall>t. res = Some t \<longrightarrow> proc = Some (fst t) \<and> thread_ok (threads s') (procs s') t \<and> t \<noteq> idle)"
  using r
proof (cases rule: create_thread_cases)
  case none
  then show ?thesis using inv by simp
next
  case (failed p idx)
  have "\<not> thread_ok (threads s) (procs s) (p, idx)"
    using thread_slot_free(2) [OF failed(2)] by (simp add: thread_ok_def)
  then show ?thesis using clear_thread_inv [OF inv] failed(3,4) sched_inv_same by auto
next
  case (created p pr idx s1 stack0)
  let ?t = "(p, idx)"
  have nt: "\<not> thread_ok (threads s) (procs s) ?t"
    using thread_slot_free(2) [OF created(5)] by (simp add: thread_ok_def)
  have i1: "sched_inv X s1 Q" using clear_thread_inv [OF inv nt] created(8) sched_inv_same by auto
  obtain c prc where c: "queues_ok (queues s1) Q" "current_thread s1 = Some c" "current_process s1 = Some (fst c)"
    "procs s1 (fst c) = Some prc" "cr3 s1 = p_cr3 prc" "sched_ok X (threads s1) (procs s1) c Q"
    by (rule sched_invE [OF i1])
  have f: "procs s1 = procs s" "threads s1 ?t = zero_thread" "idx < 8"
    using created(8) thread_slot_free(1) [OF created(5)] by (simp_all add: same_sched_def clear_thread_def)
  have nt1: "\<not> thread_ok (threads s1) (procs s1) ?t" using f by (simp add: thread_ok_def zero_thread_def)
  have ti: "?t \<noteq> idle" using sched_okD(2) [OF c(6)] nt1 by metis
  define T where "T = (threads s1)(?t := new_thread_state ?t (user_sp idx) stack0)"
  define P where "P = (procs s1)(p \<mapsto> pr\<lparr>p_num_threads := p_num_threads pr + 1\<rparr>)"
  have tok: "thread_ok T P ?t" using f(3) by (simp add: thread_ok_def T_def P_def new_thread_state_def)
  have oth: "thread_ok T P u = thread_ok (threads s1) (procs s1) u" "normal P u = normal (procs s1) u" if "u \<noteq> ?t" for u
    using that f(1) created(2) by (auto simp: thread_ok_def normal_def T_def P_def)
  have "sched_ok (insert ?t X) T P c Q"
  proof (rule sched_okI)
    note d = sched_okD [OF c(6)]
    have ct: "c \<noteq> ?t" using d(1) nt1 by auto
    show "thread_ok T P c" "thread_ok T P idle" "normal P idle" using d(1-3) oth ct ti by metis+
    show "thread_ok T P u \<and> may_hold q (t_state (T u)) u" if "u \<in> set (Q q)" for q u
    proof -
      have "u \<noteq> ?t" using not_queued [OF c(6), of ?t q] nt1 that by blast
      then show ?thesis using d(4) [OF that] oth(1) by (simp add: T_def)
    qed
    show "\<And>q. idle \<in> set (Q q) \<Longrightarrow> q = Ready" by (rule d(5))
    show "t_state (T c) = THREAD_RUNNING" if "c = idle"
      unfolding T_def fun_upd_other [OF ct] by (rule d(6) [OF that])
    show "c \<noteq> idle \<Longrightarrow> idle \<in> set (takeWhile (\<lambda>x. x \<noteq> c) (Q Ready))" by (rule d(7))
    show "u = c \<and> t_state (T u) = THREAD_RUNNING \<or> (\<exists>q. u \<in> set (Q q))"
      if "thread_ok T P u" "normal P u" "t_state (T u) \<noteq> THREAD_FREE" "u \<notin> insert ?t X" for u
      using d(8) [of u] oth [of u] that by (simp add: T_def)
  qed
  then have "sched_inv (insert ?t X) s' Q"
    using c(1-5) f(1) created(2) unfolding created(9) T_def [symmetric] P_def [symmetric]
    by (auto simp: sched_inv_def P_def)
  then show ?thesis using created(1,6) tok ti unfolding created(9) T_def P_def by simp
qed

end
