(* ===== verification/Kernel_Procs.thy ===== *)
theory Kernel_Procs
  imports Kernel_Calls
begin

text \<open>
  Creating and destroying processes keeps the invariant of the scheduler, provided the heap does not
  hand out the block of a process that still exists.
\<close>

section \<open>Creating\<close>

lemma process_not_current:
  assumes "sched_inv X s Q" and "procs s p = None"
  shows "current_process s \<noteq> Some p" "p \<noteq> Idle" "fst t = p \<Longrightarrow> \<not> thread_ok (threads s) (procs s) t"
proof -
  obtain c pr where c: "current_process s = Some (fst c)" "procs s (fst c) = Some pr" "sched_ok X (threads s) (procs s) c Q"
    using assms(1) by (auto simp: sched_inv_def)
  show "current_process s \<noteq> Some p" using c(1,2) assms(2) by auto
  show "p \<noteq> Idle" using sched_okD(2) [OF c(3)] assms(2) by (auto simp: thread_ok_def)
  show "fst t = p \<Longrightarrow> \<not> thread_ok (threads s) (procs s) t" using assms(2) by (auto simp: thread_ok_def)
qed

lemma clear_process_inv:
  assumes inv: "sched_inv X s Q" and p: "procs s p = None"
  shows "sched_inv X (clear_process p s) Q"
proof -
  obtain c pr where c: "queues_ok (queues s) Q" "current_thread s = Some c" "current_process s = Some (fst c)"
    "procs s (fst c) = Some pr" "cr3 s = p_cr3 pr" "sched_ok X (threads s) (procs s) c Q"
    by (rule sched_invE [OF inv])
  note nc = process_not_current [OF inv p]
  have nq: "t \<notin> set (Q q)" if "fst t = p" for t q by (rule not_queued [OF c(6)]) (use nc(3) [OF that] in blast)
  have "Q (Waiters p) = []"
  proof (rule ccontr)
    assume "Q (Waiters p) \<noteq> []"
    then have t: "hd (Q (Waiters p)) \<in> set (Q (Waiters p))" by simp
    then have "fst (hd (Q (Waiters p))) = p" using sched_okD(4) [OF c(6) t] by (simp add: may_hold_def)
    with nq t show False by blast
  qed
  then have "queues_ok (queues (clear_process p s)) Q"
    by (intro queues_ok_clear [OF c(1), of "{t. fst t = p}"]) (use nq in \<open>auto simp: clear_process_def\<close>)
  moreover have "sched_ok X (threads (clear_process p s)) (procs (clear_process p s)) c Q"
    by (rule sched_ok_cong [OF c(6)])
      (use p in \<open>auto simp: clear_process_def thread_ok_def normal_def zero_thread_def\<close>)
  ultimately show ?thesis using c(2-5) p by (auto simp: sched_inv_def clear_process_def)
qed

lemma drop_process_inv:
  assumes inv: "sched_inv X s Q" and p: "current_process s \<noteq> Some p" "p \<noteq> Idle"
    and nq: "\<And>t q. t \<in> set (Q q) \<Longrightarrow> fst t \<noteq> p"
  shows "sched_inv X (s\<lparr>procs := (procs s)(p := None)\<rparr>) Q"
proof -
  obtain c pr where c: "queues_ok (queues s) Q" "current_thread s = Some c" "current_process s = Some (fst c)"
    "procs s (fst c) = Some pr" "cr3 s = p_cr3 pr" "sched_ok X (threads s) (procs s) c Q"
    by (rule sched_invE [OF inv])
  let ?P = "(procs s)(p := None)"
  have pc: "fst c \<noteq> p" using p(1) c(3) by auto
  have oth: "thread_ok (threads s) ?P t = thread_ok (threads s) (procs s) t" "normal ?P t = normal (procs s) t" if "fst t \<noteq> p" for t
    using that by (auto simp: thread_ok_def normal_def)
  have "sched_ok X (threads s) ?P c Q"
  proof (rule sched_okI)
    note d = sched_okD [OF c(6)]
    show "thread_ok (threads s) ?P c" "thread_ok (threads s) ?P idle" "normal ?P idle"
      using d(1-3) oth pc p(2) by simp_all
    show "thread_ok (threads s) ?P t \<and> may_hold q (t_state (threads s t)) t" if "t \<in> set (Q q)" for q t
      using d(4) [OF that] oth(1) [OF nq [OF that]] by simp
    show "\<And>q. idle \<in> set (Q q) \<Longrightarrow> q = Ready" by (rule d(5))
    show "c = idle \<Longrightarrow> t_state (threads s c) = THREAD_RUNNING" by (rule d(6))
    show "c \<noteq> idle \<Longrightarrow> idle \<in> set (takeWhile (\<lambda>x. x \<noteq> c) (Q Ready))" by (rule d(7))
    show "t = c \<and> t_state (threads s t) = THREAD_RUNNING \<or> (\<exists>q. t \<in> set (Q q))"
      if "thread_ok (threads s) ?P t" "normal ?P t" "t_state (threads s t) \<noteq> THREAD_FREE" "t \<notin> X" for t
    proof -
      have "fst t \<noteq> p" using that(1) by (auto simp: thread_ok_def)
      then show ?thesis using d(8) [of t] oth [of t] that by simp
    qed
  qed
  then show ?thesis using c(1-5) pc by (auto simp: sched_inv_def)
qed

lemma queue_init_empty:
  fixes S :: "(tref, qref) qstore"
  assumes "queues_ok S Q" and "Q q = []"
  shows "queues_ok (queue_init (Some q) S) Q"
  by (rule queues_ok_clear [OF assms(1), of "{}"]) (use assms(2) in \<open>auto simp: queue_init_def queue_simps\<close>)

lemma setup_process_inv:
  assumes inv: "sched_inv X s Q" and q: "Q (Waiters p) = []" and r: "setup_process p s = Some s'"
  shows "sched_inv X s' Q"
proof -
  obtain s1 and th :: thread and s2 ring s3 s4 s5 where
    1: "set_process p (\<lambda>pr. pr\<lparr>p_num_threads := 0, p_pid := current_pid s\<rparr>) s = Some s1" and
    2: "set_process p (\<lambda>pr. pr\<lparr>p_dad := t_process th\<rparr>) (s1\<lparr>current_pid := current_pid s1 + 1\<rparr>) = Some s2" and
    3: "set_process p (\<lambda>pr. pr\<lparr>p_ring := ring\<rparr>) s2 = Some s3" and
    4: "set_process p (\<lambda>pr. pr\<lparr>p_next := first_process (s3\<lparr>queues := queue_init (Some (Waiters p)) (queues s3)\<rparr>)\<rparr>)
         (s3\<lparr>queues := queue_init (Some (Waiters p)) (queues s3)\<rparr>) = Some s4" and
    5: "(case first_process s4 of None \<Rightarrow> Some s4
          | Some q \<Rightarrow> set_process q (\<lambda>pr. pr\<lparr>p_prev := Some p\<rparr>) s4) = Some s5" and
    6: "s' = s5\<lparr>first_process := Some p\<rparr>"
    using r unfolding setup_process_def Let_def bind_eq_Some_conv
    by (elim exE conjE) (rule that, assumption+, simp)
  have "sched_inv X s1 Q" by (rule sched_inv_set_process(1) [OF inv 1]) simp
  then have "sched_inv X (s1\<lparr>current_pid := current_pid s1 + 1\<rparr>) Q" by (simp add: sched_inv_def)
  then have "sched_inv X s2 Q" by (rule sched_inv_set_process(1) [OF _ 2]) simp
  then have "sched_inv X s3 Q" by (rule sched_inv_set_process(1) [OF _ 3]) simp
  then have "sched_inv X (s3\<lparr>queues := queue_init (Some (Waiters p)) (queues s3)\<rparr>) Q"
    using queue_init_empty [of "queues s3" Q "Waiters p"] q by (auto simp: sched_inv_def)
  then have i4: "sched_inv X s4 Q" by (rule sched_inv_set_process(1) [OF _ 4]) simp
  have "sched_inv X s5 Q"
  proof (cases "first_process s4")
    case None
    then show ?thesis using 5 i4 by simp
  next
    case (Some q)
    then have "set_process q (\<lambda>pr. pr\<lparr>p_prev := Some p\<rparr>) s4 = Some s5" using 5 by simp
    then show ?thesis by (rule sched_inv_set_process(1) [OF i4]) simp
  qed
  then show ?thesis by (simp add: sched_inv_def 6)
qed

definition heap_fresh :: "kernel \<Rightarrow> bool" where
  "heap_fresh s \<longleftrightarrow> (\<forall>a s1. heap_alloc 1636 s = Some (a, s1) \<longrightarrow> procs s (Proc a) = None)"

lemma sched_create_process_inv:
  assumes inv: "sched_inv X s Q" and fr: "heap_fresh s" and r: "sched_create_process s = Some (res, s')"
  shows "sched_inv X s' Q"
proof -
  obtain a s1 where a: "heap_alloc 1636 s = Some (a, s1)" using r by (auto simp: sched_create_process_def bind_eq_Some_conv)
  have k1: "same_sched s s1" by (rule memory_same(1) [OF a])
  have i1: "sched_inv X s1 Q" using inv sched_inv_same [OF k1] by simp
  show ?thesis
  proof (cases "a = 0")
    case True
    then show ?thesis using r a i1 by (auto simp: sched_create_process_def)
  next
    case False
    let ?p = "Proc a"
    have pn: "procs s1 ?p = None" using fr a k1 by (auto simp: heap_fresh_def same_sched_def)
    obtain c s2 where c: "vmm_clone (clear_process ?p s1) = Some (c, s2)"
      using r a False by (auto simp: sched_create_process_def bind_eq_Some_conv Let_def)
    have k2: "same_sched (clear_process ?p s1) s2" by (rule memory_same(5) [OF c])
    have i2: "sched_inv X s2 Q" using clear_process_inv [OF i1 pn] sched_inv_same [OF k2] by simp
    have cp: "current_process s2 \<noteq> Some ?p"
      using process_not_current(1) [OF i1 pn] k2 by (simp add: same_sched_def clear_process_def)
    have noth: "t_process (threads s2 t) = None" if "fst t = ?p" for t
      using k2 that by (simp add: same_sched_def clear_process_def zero_thread_def)
    have nq: "fst t \<noteq> ?p" if "t \<in> set (Q q)" for t q
    proof -
      obtain d where "sched_ok X (threads s2) (procs s2) d Q" using i2 by (auto simp: sched_inv_def)
      from sched_okD(4) [OF this that] show ?thesis using noth [of t] by (auto simp: thread_ok_def)
    qed
    have wq: "Q (Waiters ?p) = []"
    proof (rule ccontr)
      assume "Q (Waiters ?p) \<noteq> []"
      then have t: "hd (Q (Waiters ?p)) \<in> set (Q (Waiters ?p))" by simp
      obtain d where "sched_ok X (threads s2) (procs s2) d Q" using i2 by (auto simp: sched_inv_def)
      from sched_okD(4) [OF this t] show False using nq [OF t] by (auto simp: may_hold_def)
    qed
    obtain s3 where s3: "set_process ?p (\<lambda>pr. pr\<lparr>p_cr3 := c\<rparr>) s2 = Some s3"
      using r a False c by (auto simp: sched_create_process_def bind_eq_Some_conv Let_def)
    have i3: "sched_inv X s3 Q" by (rule sched_inv_set_process(1) [OF i2 s3]) (use cp in simp)
    show ?thesis
    proof (cases "c = 0")
      case True
      then obtain s4 where s4: "heap_free a s3 = Some s4" "s' = s4\<lparr>procs := (procs s4)(?p := None)\<rparr>"
        using r a False c s3 by (auto simp: sched_create_process_def bind_eq_Some_conv Let_def)
      have k4: "same_sched s3 s4" by (rule memory_same(2) [OF s4(1)])
      have i4: "sched_inv X s4 Q" using i3 sched_inv_same [OF k4] by simp
      have "current_process s4 \<noteq> Some ?p" using cp k4 s3 by (auto simp: same_sched_def set_process_def)
      from drop_process_inv [OF i4 this _ nq] show ?thesis unfolding s4(2) by simp
    next
      case c0: False
      then have "setup_process ?p s3 = Some s'"
        using r a False c s3 by (auto simp: sched_create_process_def bind_eq_Some_conv Let_def)
      then show ?thesis by (rule setup_process_inv [OF i3 wq])
    qed
  qed
qed


section \<open>Destroying\<close>

text \<open>Updates of processes that keep what the invariant reads.\<close>

definition same_role :: "(pref \<rightharpoonup> process) \<Rightarrow> (pref \<rightharpoonup> process) \<Rightarrow> bool" where
  "same_role P P' \<longleftrightarrow> (\<forall>q. map_option (\<lambda>r. (p_state r, p_cr3 r)) (P' q) = map_option (\<lambda>r. (p_state r, p_cr3 r)) (P q))"

lemma same_role_refl [simp]: "same_role P P"
  by (simp add: same_role_def)

lemma same_role_trans: "\<lbrakk> same_role P P'; same_role P' P'' \<rbrakk> \<Longrightarrow> same_role P P''"
  by (simp add: same_role_def)

lemma same_role_upd:
  "\<lbrakk> P p = Some r; p_state r' = p_state r; p_cr3 r' = p_cr3 r \<rbrakk> \<Longrightarrow> same_role P (P(p \<mapsto> r'))"
  by (simp add: same_role_def)

lemma same_roleD:
  assumes "same_role P P'"
  shows "P p = Some r \<Longrightarrow> \<exists>r'. P' p = Some r' \<and> p_state r' = p_state r \<and> p_cr3 r' = p_cr3 r"
    "thread_ok T P' t = thread_ok T P t" "normal P' t = normal P t" "P' p = None \<longleftrightarrow> P p = None"
proof -
  have a: "map_option (\<lambda>r. (p_state r, p_cr3 r)) (P' q) = map_option (\<lambda>r. (p_state r, p_cr3 r)) (P q)" for q
    using assms by (simp add: same_role_def)
  show "P p = Some r \<Longrightarrow> \<exists>r'. P' p = Some r' \<and> p_state r' = p_state r \<and> p_cr3 r' = p_cr3 r"
    using a [of p] by (cases "P' p") auto
  have n: "P' q = None \<longleftrightarrow> P q = None" for q using a [of q] by (cases "P q"; cases "P' q") auto
  then show "P' p = None \<longleftrightarrow> P p = None" .
  show "thread_ok T P' t = thread_ok T P t" using n by (simp add: thread_ok_def)
  show "normal P' t = normal P t"
    using a [of "fst t"] by (cases "P (fst t)"; cases "P' (fst t)") (auto simp: normal_def)
qed

lemma sched_inv_role:
  assumes inv: "sched_inv X s Q" and "same_role (procs s) P"
  shows "sched_inv X (s\<lparr>procs := P\<rparr>) Q"
proof -
  obtain c pr where c: "queues_ok (queues s) Q" "current_thread s = Some c" "current_process s = Some (fst c)"
    "procs s (fst c) = Some pr" "cr3 s = p_cr3 pr" "sched_ok X (threads s) (procs s) c Q"
    by (rule sched_invE [OF inv])
  have "sched_ok X (threads s) P c Q"
    by (rule sched_ok_cong [OF c(6)]) (simp_all add: same_roleD [OF assms(2)])
  then show ?thesis using c(1-5) same_roleD(1) [OF assms(2) c(4)] by (auto simp: sched_inv_def)
qed

lemma reparent_frame:
  assumes "reparent proc q s = Some s'"
  shows "\<exists>P. s' = s\<lparr>procs := P\<rparr> \<and> same_role (procs s) P"
proof (rule reparent.raw_induct [where P = "\<lambda>proc q s s'. \<exists>P. s' = s\<lparr>procs := P\<rparr> \<and> same_role (procs s) P", OF _ assms])
  fix f :: "pref \<Rightarrow> pref option \<Rightarrow> kernel \<Rightarrow> kernel option" and proc q s s'
  assume ih: "\<And>proc q s s'. f proc q s = Some s' \<Longrightarrow> \<exists>P. s' = s\<lparr>procs := P\<rparr> \<and> same_role (procs s) P"
    and body: "(case q of None \<Rightarrow> Some s
      | Some p \<Rightarrow> do {
          pr \<leftarrow> procs s p;
          s \<leftarrow> (if p_dad pr = Some proc
               then do { d \<leftarrow> procs s proc; set_process p (\<lambda>pr. pr\<lparr>p_dad := p_dad d\<rparr>) s }
               else Some s);
          pr \<leftarrow> procs s p;
          f proc (p_next pr) s }) = Some s'"
  show "\<exists>P. s' = s\<lparr>procs := P\<rparr> \<and> same_role (procs s) P"
  proof (cases q)
    case None
    then have "s' = s" using body by simp
    then show ?thesis by (intro exI [of _ "procs s"]) simp
  next
    case (Some p)
    obtain pr s1 pr1 where p: "procs s p = Some pr"
      "(if p_dad pr = Some proc then do { d \<leftarrow> procs s proc; set_process p (\<lambda>pr. pr\<lparr>p_dad := p_dad d\<rparr>) s } else Some s) = Some s1"
      "procs s1 p = Some pr1" "f proc (p_next pr1) s1 = Some s'"
      using body Some by (auto simp: bind_eq_Some_conv)
    have "\<exists>P. s1 = s\<lparr>procs := P\<rparr> \<and> same_role (procs s) P"
    proof (cases "p_dad pr = Some proc")
      case True
      then obtain d :: process where "s1 = s\<lparr>procs := (procs s)(p \<mapsto> pr\<lparr>p_dad := p_dad d\<rparr>)\<rparr>"
        using p(1,2) by (auto simp: bind_eq_Some_conv set_process_def)
      moreover have "same_role (procs s) ((procs s)(p \<mapsto> pr\<lparr>p_dad := p_dad d\<rparr>))"
        by (rule same_role_upd [of "procs s" p pr]) (use p(1) in simp_all)
      ultimately show ?thesis by blast
    next
      case False
      then have "s1 = s" using p(2) by simp
      then show ?thesis by (intro exI [of _ "procs s"]) simp
    qed
    then obtain P where P: "s1 = s\<lparr>procs := P\<rparr>" "same_role (procs s) P" by blast
    obtain P' where P': "s' = s1\<lparr>procs := P'\<rparr>" "same_role (procs s1) P'" using ih [OF p(4)] by blast
    have "s' = s\<lparr>procs := P'\<rparr>" using P P' by simp
    moreover have "same_role (procs s) P'" using same_role_trans [OF P(2)] P P'(2) by simp
    ultimately show ?thesis by blast
  qed
qed

text \<open>\<open>sched_destroy_thread\<close> on a thread that does not run: it leaves its queue and becomes free.\<close>

definition same_but_count :: "(pref \<rightharpoonup> process) \<Rightarrow> (pref \<rightharpoonup> process) \<Rightarrow> bool" where
  "same_but_count P P' \<longleftrightarrow> (\<forall>q. map_option (\<lambda>r. r\<lparr>p_num_threads := 0\<rparr>) (P' q) = map_option (\<lambda>r. r\<lparr>p_num_threads := 0\<rparr>) (P q))"

lemma same_but_countD:
  assumes "same_but_count P P'" and "P p = Some r"
  shows "\<exists>r'. P' p = Some r' \<and> r'\<lparr>p_num_threads := 0\<rparr> = r\<lparr>p_num_threads := 0\<rparr>"
  using assms(1) [unfolded same_but_count_def, rule_format, of p] assms(2) by auto

lemma same_but_count_role: "same_but_count P P' \<Longrightarrow> same_role P P'"
  unfolding same_role_def
proof
  fix q assume "same_but_count P P'"
  then have "map_option (\<lambda>r. r\<lparr>p_num_threads := 0\<rparr>) (P' q) = map_option (\<lambda>r. r\<lparr>p_num_threads := 0\<rparr>) (P q)"
    by (simp add: same_but_count_def)
  then have "map_option (\<lambda>r. (p_state r, p_cr3 r)) (map_option (\<lambda>r. r\<lparr>p_num_threads := 0\<rparr>) (P' q)) =
      map_option (\<lambda>r. (p_state r, p_cr3 r)) (map_option (\<lambda>r. r\<lparr>p_num_threads := 0\<rparr>) (P q))" by (simp only:)
  then show "map_option (\<lambda>r. (p_state r, p_cr3 r)) (P' q) = map_option (\<lambda>r. (p_state r, p_cr3 r)) (P q)"
    by (simp add: option.map_comp comp_def)
qed

definition destroy_frame :: "kernel \<Rightarrow> kernel \<Rightarrow> bool" where
  "destroy_frame s s' \<longleftrightarrow> cr3 s' = cr3 s \<and> cpu_flags s' = cpu_flags s \<and> current_thread s' = current_thread s \<and>
     current_process s' = current_process s \<and> first_process s' = first_process s \<and>
     same_but_count (procs s) (procs s')"

lemma destroy_frame_refl [simp]: "destroy_frame s s"
  by (simp add: destroy_frame_def same_but_count_def)

lemma destroy_frame_trans: "\<lbrakk> destroy_frame s t; destroy_frame t u \<rbrakk> \<Longrightarrow> destroy_frame s u"
  by (simp add: destroy_frame_def same_but_count_def)

lemma sched_destroy_thread_inv:
  assumes inv: "sched_inv X s Q" and r: "sched_destroy_thread (Some t) s = Some s'"
    and cur: "current_process s \<noteq> Some (fst t)" and p: "fst t \<noteq> Idle"
  shows "sched_inv X s' (\<lambda>q. removeAll t (Q q)) \<and> destroy_frame s s'"
proof -
  obtain c pr where c: "queues_ok (queues s) Q" "current_thread s = Some c" "current_process s = Some (fst c)"
    "procs s (fst c) = Some pr" "cr3 s = p_cr3 pr" "sched_ok X (threads s) (procs s) c Q"
    by (rule sched_invE [OF inv])
  have tc: "t \<noteq> c" using c(3) cur by auto
  have ti: "t \<noteq> idle" using p by auto
  have at: "thread_at t s = Some (threads s t)" "procs s (fst t) \<noteq> None" "snd t < 8"
    using r by (auto simp: sched_destroy_thread_def thread_at_def split: if_splits)
  show ?thesis
  proof (cases "t_process (threads s t) = None \<or> t_state (threads s t) = THREAD_FREE")
    case True
    then have "sched_destroy_thread (Some t) s = Some s"
      using at(1) by (cases "t_process (threads s t)") (auto simp: sched_destroy_thread_def)
    then have "s' = s" using r by simp
    moreover have "t \<notin> set (Q q)" for q
      by (rule not_queued [OF c(6)]) (use True in \<open>auto simp: thread_ok_def\<close>)
    then have "(\<lambda>q. removeAll t (Q q)) = Q" by (rule remove_everywhere)
    ultimately show ?thesis using inv by simp
  next
    case False
    then obtain p' where p': "t_process (threads s t) = Some p'" by auto
    have ctl: "\<not> Some t = current_thread s" using tc c(2) by simp
    obtain pr' s1 s2 qs s3 s4 where o: "procs s p' = Some pr'"
      "(if t_stack (threads s t) \<noteq> 0
                     then map_option snd (vmm_free_pages_in (p_cr3 pr') 16 (t_stack (threads s t)) (disable_interrupts s))
                     else Some (disable_interrupts s)) = Some s1"
      "(if t_stack0 (threads s t) \<noteq> 0 then heap_free (t_stack0 (threads s t)) s1 else Some s1) = Some s2"
      "queue_remove (Some t) (queues s2) = Some qs"
      "set_process p' (\<lambda>pr. pr\<lparr>p_num_threads := p_num_threads pr - 1\<rparr>) (s2\<lparr>queues := qs\<rparr>) = Some s3"
      "set_thread t (\<lambda>th. th\<lparr>t_state := THREAD_FREE\<rparr>) s3 = Some s4" "s' = write_flags (cpu_flags s) s4"
      using r at(1) p' False ctl unfolding sched_destroy_thread_def Let_def
      by (simp add: bind_eq_Some_conv) blast
    have "same_sched (disable_interrupts s) s1"
      using o(2) memory_same(4) by (auto split: if_splits)
    moreover have "same_sched s1 s2" using o(3) memory_same(2) by (auto split: if_splits)
    ultimately have k: "same_sched (disable_interrupts s) s2" by (rule same_sched_trans)
    have i2: "sched_inv X s2 Q" using inv sched_inv_same [OF k] by simp
    have f2: "threads s2 = threads s" "procs s2 = procs s" "current_thread s2 = Some c" "current_process s2 = Some (fst c)"
      "cr3 s2 = cr3 s" "first_process s2 = first_process s" "queues s2 = queues s"
      using k c(2,3) by (simp_all add: same_sched_def disable_interrupts_def)
    obtain qs' where qs': "queue_remove (Some t) (queues s) = Some qs'" "queues_ok qs' (\<lambda>r. removeAll t (Q r))"
      using queue_remove_refines [OF c(1)] by blast
    have q: "queues_ok qs (\<lambda>r. removeAll t (Q r))" using qs' o(4) f2(7) by simp
    have s3: "s3 = s2\<lparr>queues := qs, procs := (procs s)(p' \<mapsto> pr'\<lparr>p_num_threads := p_num_threads pr' - 1\<rparr>)\<rparr>"
      using o(1,5) f2(2) by (auto simp: set_process_def)
    define P where "P = (procs s)(p' \<mapsto> pr'\<lparr>p_num_threads := p_num_threads pr' - 1\<rparr>)"
    have cnt: "same_but_count (procs s) P" using o(1) by (simp add: same_but_count_def P_def)
    note role = same_roleD [OF same_but_count_role [OF cnt]]
    define T where "T = (threads s)(t := (threads s t)\<lparr>t_state := THREAD_FREE\<rparr>)"
    have s4: "s4 = s2\<lparr>queues := qs, procs := P, threads := T\<rparr>"
      using o(6) f2(1) by (auto simp: set_thread_def thread_at_def s3 P_def T_def split: if_splits)
    have ok: "thread_ok T P u = thread_ok (threads s) (procs s) u" for u
      using role(2) by (simp add: thread_ok_def T_def)
    have o1: "sched_ok (insert t X) (threads s) (procs s) c (\<lambda>r. removeAll t (Q r))"
      by (rule sched_ok_removed [OF c(6) ti])
    have "sched_ok X T P c (\<lambda>r. removeAll t (Q r))"
    proof (rule sched_okI)
      note d = sched_okD [OF o1]
      show "thread_ok T P c" "thread_ok T P idle" "normal P idle" using d(1-3) ok role(3) by simp_all
      show "thread_ok T P u \<and> may_hold r (t_state (T u)) u" if "u \<in> set (removeAll t (Q r))" for r u
        using d(4) [OF that] that ok by (simp add: T_def)
      show "r = Ready" if "idle \<in> set (removeAll t (Q r))" for r by (rule d(5) [OF that])
      show "c = idle \<Longrightarrow> t_state (T c) = THREAD_RUNNING" using d(6) tc by (auto simp: T_def)
      show "c \<noteq> idle \<Longrightarrow> idle \<in> set (takeWhile (\<lambda>x. x \<noteq> c) (removeAll t (Q Ready)))" by (rule d(7))
      show "u = c \<and> t_state (T u) = THREAD_RUNNING \<or> (\<exists>r. u \<in> set (removeAll t (Q r)))"
        if "thread_ok T P u" "normal P u" "t_state (T u) \<noteq> THREAD_FREE" "u \<notin> X" for u
      proof -
        have "u \<noteq> t" using that(3) by (auto simp: T_def)
        then show ?thesis using d(8) [of u] that ok role(3) by (simp add: T_def)
      qed
    qed
    moreover obtain prc where "P (fst c) = Some prc" "p_cr3 prc = cr3 s" using role(1) [OF c(4)] c(5) by auto
    ultimately have "sched_inv X s4 (\<lambda>r. removeAll t (Q r))"
      using q f2 unfolding s4 by (auto simp: sched_inv_def)
    moreover have "destroy_frame s s'"
      using f2 cnt c(2,3) by (simp add: destroy_frame_def o(7) s4 write_flags_def)
    ultimately show ?thesis by (simp add: o(7))
  qed
qed

lemma destroy_threads_inv:
  assumes "sched_inv X s Q" and "for_each (\<lambda>i. sched_destroy_thread (Some (p, i))) is s = Some s'"
    and "current_process s \<noteq> Some p" and "p \<noteq> Idle"
  shows "sched_inv X s' (\<lambda>q. filter (\<lambda>t. t \<notin> Pair p ` set is) (Q q)) \<and> destroy_frame s s'"
  using assms
proof (induction "is" arbitrary: s Q)
  case (Cons i "is")
  obtain s1 where s1: "sched_destroy_thread (Some (p, i)) s = Some s1"
    "for_each (\<lambda>i. sched_destroy_thread (Some (p, i))) is s1 = Some s'"
    using Cons.prems(2) by (auto simp: bind_eq_Some_conv)
  from sched_destroy_thread_inv [OF Cons.prems(1) s1(1)] Cons.prems(3,4)
  have i1: "sched_inv X s1 (\<lambda>q. removeAll (p, i) (Q q))" "destroy_frame s s1" by simp_all
  have "current_process s1 \<noteq> Some p" using i1(2) Cons.prems(3) by (simp add: destroy_frame_def)
  from Cons.IH [OF i1(1) s1(2) this Cons.prems(4)]
  have "sched_inv X s' (\<lambda>q. filter (\<lambda>t. t \<notin> Pair p ` set is) (removeAll (p, i) (Q q)))" "destroy_frame s1 s'" by simp_all
  moreover have "filter (\<lambda>t. t \<notin> Pair p ` set is) (removeAll (p, i) (Q q)) =
      filter (\<lambda>t. t \<notin> Pair p ` set (i # is)) (Q q)" for q
    by (auto simp: removeAll_filter_not_eq intro!: filter_cong)
  ultimately show ?case using destroy_frame_trans [OF i1(2)] by simp
qed simp


lemma set_process_opt_inv:
  assumes "sched_inv X s Q" and "(case q of None \<Rightarrow> Some s | Some q \<Rightarrow> set_process q f s) = Some s'"
    and "\<And>pr. p_state (f pr) = p_state pr \<and> p_cr3 (f pr) = p_cr3 pr"
  shows "sched_inv X s' Q" "current_process s' = current_process s" "first_process s' = first_process s"
proof -
  have "sched_inv X s' Q \<and> current_process s' = current_process s \<and> first_process s' = first_process s"
  proof (cases q)
    case None
    then show ?thesis using assms(1,2) by simp
  next
    case (Some q')
    then have sp: "set_process q' f s = Some s'" using assms(2) by simp
    have "sched_inv X s' Q" by (rule sched_inv_set_process(1) [OF assms(1) sp]) (use assms(3) in simp)
    then show ?thesis using sp by (auto simp: set_process_def)
  qed
  then show "sched_inv X s' Q" "current_process s' = current_process s" "first_process s' = first_process s" by simp_all
qed

lemma sched_destroy_process_inv:
  assumes inv: "sched_inv X s Q" and r: "sched_destroy_process (Some p) s = Some s'" and p: "p \<noteq> Idle"
  shows "sched_inv X s' Q \<and> s' = s \<or> sched_inv X s' (\<lambda>q. filter (\<lambda>t. fst t \<noteq> p) (Q q)) \<and> procs s' p = None"
proof -
  obtain c prc where c: "queues_ok (queues s) Q" "current_thread s = Some c" "current_process s = Some (fst c)"
    "procs s (fst c) = Some prc" "cr3 s = p_cr3 prc" "sched_ok X (threads s) (procs s) c Q"
    by (rule sched_invE [OF inv])
  obtain pr where pr: "procs s p = Some pr" using r by (auto simp: sched_destroy_process_def bind_eq_Some_conv)
  obtain a where a: "p = Proc a" using p by (cases p) auto
  show ?thesis
  proof (cases "cr3 s = p_cr3 pr")
    case True
    then show ?thesis using r pr inv by (simp add: sched_destroy_process_def)
  next
    case False
    have pc: "current_process s \<noteq> Some p" using False c(3-5) pr by auto
    obtain s1 s2 s3 s4 s5 s6 and pr2 pr5 pr6 :: process where o:
      "reparent p (first_process s) s = Some s1"
      "for_each (\<lambda>i. sched_destroy_thread (Some (p, i))) [0 ..< 8] s1 = Some s2"
      "procs s2 p = Some pr2" "vmm_destroy (p_cr3 pr2) s2 = Some s3"
      "(if p_cr3 pr2 \<noteq> 0 then pmm_free_page (p_cr3 pr2) s3 else Some s3) = Some s4"
      "(case p_prev pr2 of None \<Rightarrow> Some s4 | Some q \<Rightarrow> set_process q (\<lambda>r. r\<lparr>p_next := p_next pr2\<rparr>) s4) = Some s5"
      "procs s5 p = Some pr5"
      "(case p_next pr5 of None \<Rightarrow> Some s5 | Some q \<Rightarrow> set_process q (\<lambda>r. r\<lparr>p_prev := p_prev pr5\<rparr>) s5) = Some s6"
      "procs s6 p = Some pr6"
      "free_process p (if first_process s6 = Some p then s6\<lparr>first_process := p_next pr6\<rparr> else s6) = Some s'"
      using r pr False unfolding sched_destroy_process_def option.case bind_eq_Some_conv Let_def
      by (elim exE conjE) (simp add: bind_eq_Some_conv, elim exE conjE, rule that, assumption+)
    let ?Q = "\<lambda>q. filter (\<lambda>t. t \<notin> Pair p ` set [0..<8]) (Q q)"
    obtain P where P: "s1 = s\<lparr>procs := P\<rparr>" "same_role (procs s) P" using reparent_frame [OF o(1)] by blast
    have i1: "sched_inv X s1 Q" unfolding P(1) by (rule sched_inv_role [OF inv P(2)])
    have "current_process s1 \<noteq> Some p" using P(1) pc by simp
    from destroy_threads_inv [OF i1 o(2) this p] have i2: "sched_inv X s2 ?Q" "destroy_frame s1 s2" by blast+
    have c2: "current_process s2 \<noteq> Some p" using i2(2) P(1) pc by (simp add: destroy_frame_def)
    have k4: "same_sched s2 s4"
    proof (rule same_sched_trans [OF memory_same(6) [OF o(4)]])
      show "same_sched s3 s4" using o(5) memory_same(11) by (auto split: if_splits)
    qed
    have i4: "sched_inv X s4 ?Q" using i2(1) sched_inv_same [OF k4] by simp
    have i5: "sched_inv X s5 ?Q" "current_process s5 = current_process s4"
      using set_process_opt_inv [OF i4 o(6)] by simp_all
    have i6: "sched_inv X s6 ?Q" "current_process s6 = current_process s5"
      using set_process_opt_inv [OF i5(1) o(8)] by simp_all
    define s7 where "s7 = (if first_process s6 = Some p then s6\<lparr>first_process := p_next pr6\<rparr> else s6)"
    have i7: "sched_inv X s7 ?Q" using i6(1) by (simp add: s7_def sched_inv_def)
    have fp: "free_process p s7 = Some s'" using o(10) by (simp only: s7_def)
    obtain s8 where s8: "heap_free a s7 = Some s8" "s' = s8\<lparr>procs := (procs s8)(p := None)\<rparr>"
      using fp unfolding a free_process_def by (auto simp: bind_eq_Some_conv)
    have k8: "same_sched s7 s8" by (rule memory_same(2) [OF s8(1)])
    have i8: "sched_inv X s8 ?Q" using i7 sched_inv_same [OF k8] by simp
    have c8: "current_process s8 \<noteq> Some p"
      using k8 i6(2) i5(2) k4 c2 by (simp add: same_sched_def s7_def)
    have mem: "fst t \<noteq> p" if "t \<in> set (?Q q)" for t q
    proof
      assume "fst t = p"
      obtain d where "sched_ok X (threads s8) (procs s8) d ?Q" using i8 by (auto simp: sched_inv_def)
      from sched_okD(4) [OF this that] have "snd t < 8" by (simp add: thread_ok_def)
      then have "t \<in> Pair p ` set [0..<8]" using \<open>fst t = p\<close> by (cases t) auto
      then show False using that by simp
    qed
    have "sched_inv X s' ?Q" unfolding s8(2) by (rule drop_process_inv [OF i8 c8 p mem])
    moreover have "?Q = (\<lambda>q. filter (\<lambda>t. fst t \<noteq> p) (Q q))"
    proof
      fix q show "?Q q = filter (\<lambda>t. fst t \<noteq> p) (Q q)"
        using mem [of _ q] by (intro filter_cong) auto
    qed
    ultimately show ?thesis using s8(2) by simp
  qed
qed

end
