(* ===== verification/Process_List.thy ===== *)
theory Process_List
  imports Kernel_Procs
begin

text \<open>
  The list of processes: the processes that exist, doubly linked from \<^verbatim>\<open>first_process\<close>, newest first.
  A father stands behind its children, so the fathers form a tree whose root is the idle process.
  Searching the list and reparenting end, and reparenting and unlinking keep the list in shape.
\<close>

section \<open>Segments of the list\<close>

text \<open>\<open>pseg P a ps e D\<close>: the processes \<open>ps\<close> are linked, in front of them is \<open>a\<close>, behind them \<open>e\<close> and the
  processes \<open>D\<close>.\<close>

fun pseg :: "(pref \<rightharpoonup> process) \<Rightarrow> pref option \<Rightarrow> pref list \<Rightarrow> pref option \<Rightarrow> pref set \<Rightarrow> bool" where
  "pseg P a [] e D = True"
| "pseg P a (p # ps) e D = (\<exists>pr. P p = Some pr \<and> p_prev pr = a \<and> p_next pr = first_or ps e \<and>
     (case p_dad pr of None \<Rightarrow> p = Idle | Some d \<Rightarrow> p \<noteq> Idle \<and> d \<in> set ps \<union> D) \<and> pseg P (Some p) ps e D)"

definition plist :: "(pref \<rightharpoonup> process) \<Rightarrow> pref option \<Rightarrow> pref list \<Rightarrow> bool" where
  "plist P f ps \<longleftrightarrow> f = first_or ps None \<and> distinct ps \<and> dom P = set ps \<and> pseg P None ps None {}"

text \<open>What the list reads of a process.\<close>

definition links :: "process \<Rightarrow> pref option \<times> pref option \<times> pref option" where
  "links r = (p_prev r, p_next r, p_dad r)"

lemma links_eq:
  assumes "map_option links (P' p) = map_option links (P p)" and "P p = Some r"
  obtains r' where "P' p = Some r'" "p_prev r' = p_prev r" "p_next r' = p_next r" "p_dad r' = p_dad r"
  using assms by (cases "P' p") (auto simp: links_def)

lemma pseg_cong:
  assumes "pseg P a ps e D" and "\<And>p. p \<in> set ps \<Longrightarrow> map_option links (P' p) = map_option links (P p)"
  shows "pseg P' a ps e D"
  using assms
proof (induction ps arbitrary: a)
  case (Cons p ps)
  obtain r where r: "P p = Some r" "p_prev r = a" "p_next r = first_or ps e"
    "case p_dad r of None \<Rightarrow> p = Idle | Some d \<Rightarrow> p \<noteq> Idle \<and> d \<in> set ps \<union> D" "pseg P (Some p) ps e D"
    using Cons.prems(1) by auto
  obtain r' where "P' p = Some r'" "p_prev r' = p_prev r" "p_next r' = p_next r" "p_dad r' = p_dad r"
    by (rule links_eq [of P' p P r]) (use Cons.prems(2) r(1) in auto)
  moreover have "pseg P' (Some p) ps e D" using Cons.IH [OF r(5)] Cons.prems(2) by simp
  ultimately show ?case using r by simp
qed simp

lemma pseg_append:
  "pseg P a (ps @ qs) e D \<longleftrightarrow> pseg P a ps (first_or qs e) (set qs \<union> D) \<and> pseg P (last_or ps a) qs e D"
  by (induction ps arbitrary: a) (auto split: option.splits)

lemma pseg_exists: "pseg P a ps e D \<Longrightarrow> p \<in> set ps \<Longrightarrow> P p \<noteq> None"
  by (induction ps arbitrary: a) auto

lemma pseg_dad:
  "\<lbrakk> pseg P a ps e D; p \<in> set ps; P p = Some r; p_dad r = Some d \<rbrakk> \<Longrightarrow> d \<in> set ps \<union> D"
  by (induction ps arbitrary: a) auto

lemma pseg_weaken:
  assumes "pseg P a ps e D" and "\<And>p r d. \<lbrakk> p \<in> set ps; P p = Some r; p_dad r = Some d; d \<in> D \<rbrakk> \<Longrightarrow> d \<in> D'"
  shows "pseg P a ps e D'"
  using assms
proof (induction ps arbitrary: a)
  case (Cons p ps)
  then obtain r where r: "P p = Some r" "p_prev r = a" "p_next r = first_or ps e"
    "case p_dad r of None \<Rightarrow> p = Idle | Some d \<Rightarrow> p \<noteq> Idle \<and> d \<in> set ps \<union> D" "pseg P (Some p) ps e D" by auto
  have "pseg P (Some p) ps e D'"
    by (rule Cons.IH [OF r(5)]) (rule Cons.prems(2), auto)
  then show ?case using r Cons.prems(2) [of p r] by (auto split: option.splits)
qed simp

lemma plist_cong:
  assumes "plist P f ps" and "\<And>p. map_option links (P' p) = map_option links (P p)"
  shows "plist P' f ps"
proof -
  have "P' p = None \<longleftrightarrow> P p = None" for p using assms(2) [of p] by (cases "P p"; cases "P' p") auto
  then have "dom P' = dom P" by (auto simp: dom_def)
  moreover have "pseg P' None ps None {}" using pseg_cong [of P None ps None "{}" P'] assms by (simp add: plist_def)
  ultimately show ?thesis using assms(1) by (simp add: plist_def)
qed

lemma plist_idle: "plist P f ps \<Longrightarrow> ps \<noteq> [] \<Longrightarrow> last ps = Idle"
proof -
  assume a: "plist P f ps" "ps \<noteq> []"
  then obtain qs p where ps: "ps = qs @ [p]" by (metis append_butlast_last_id)
  then show ?thesis using a by (auto simp: plist_def pseg_append split: option.splits)
qed

section \<open>Searching\<close>

lemma find_process_seg:
  assumes "pseg (procs s) a ps None D"
  shows "find_process pid (first_or ps None) s = Some (List.find (\<lambda>p. p_pid (the (procs s p)) = pid) ps)"
  using assms
proof (induction ps arbitrary: a)
  case Nil
  then show ?case by (simp add: find_process.simps)
next
  case (Cons p ps)
  then show ?case by (auto simp: find_process.simps [of pid "Some p"])
qed

section \<open>Reparenting\<close>

definition adopt :: "pref \<Rightarrow> pref option \<Rightarrow> pref set \<Rightarrow> (pref \<rightharpoonup> process) \<Rightarrow> pref \<rightharpoonup> process" where
  "adopt p d C P = (\<lambda>q. map_option (\<lambda>r. if q \<in> C \<and> p_dad r = Some p then r\<lparr>p_dad := d\<rparr> else r) (P q))"

lemma reparent_seg:
  assumes "pseg (procs s) a ps None D" and "procs s p = Some pr" and "p_dad pr \<noteq> Some p" and "distinct ps"
  shows "reparent p (first_or ps None) s = Some (s\<lparr>procs := adopt p (p_dad pr) (set ps) (procs s)\<rparr>)"
  using assms
proof (induction ps arbitrary: a s)
  case Nil
  have "adopt p (p_dad pr) {} (procs s) = procs s" by (simp add: adopt_def fun_eq_iff option.map_ident)
  then show ?case by (simp add: reparent.simps)
next
  case (Cons q ps)
  obtain r where r: "procs s q = Some r" "p_next r = first_or ps None" "pseg (procs s) (Some q) ps None D"
    using Cons.prems(1) by auto
  define r' where "r' = (if p_dad r = Some p then r\<lparr>p_dad := p_dad pr\<rparr> else r)"
  define s1 where "s1 = s\<lparr>procs := (procs s)(q \<mapsto> r')\<rparr>"
  have e: "reparent p (Some q) s = reparent p (first_or ps None) s1"
  proof (cases "p_dad r = Some p")
    case True
    then show ?thesis using r(1,2) Cons.prems(2)
      by (simp add: reparent.simps [of p "Some q"] set_process_def s1_def r'_def)
  next
    case False
    then have "s1 = s" using r(1) by (simp add: s1_def r'_def fun_upd_idem)
    then show ?thesis using False r(1,2) by (simp add: reparent.simps [of p "Some q"])
  qed
  have sg: "pseg (procs s1) (Some q) ps None D"
    by (rule pseg_cong [OF r(3)]) (use Cons.prems(4) in \<open>auto simp: s1_def\<close>)
  have pp: "procs s1 p = Some pr"
    using Cons.prems(2,3) r(1) by (auto simp: s1_def r'_def)
  have "adopt p (p_dad pr) (set ps) (procs s1) = adopt p (p_dad pr) (set (q # ps)) (procs s)"
    using r(1) Cons.prems(4) by (auto simp: adopt_def fun_eq_iff s1_def r'_def)
  moreover have "s1\<lparr>procs := R\<rparr> = s\<lparr>procs := R\<rparr>" for R by (simp add: s1_def)
  ultimately show ?case using Cons.IH [OF sg pp Cons.prems(3)] Cons.prems(4) e by simp
qed

lemma plist_not_own_dad:
  assumes "plist P f ps" and "P p = Some pr"
  shows "p_dad pr \<noteq> Some p"
proof
  assume own: "p_dad pr = Some p"
  have d: "distinct ps" "dom P = set ps" "pseg P None ps None {}" using assms(1) by (simp_all add: plist_def)
  have "p \<in> set ps" using assms(2) d(2) by auto
  then obtain ys zs where ps: "ps = ys @ p # zs" by (auto simp: in_set_conv_decomp)
  then have "pseg P (last_or ys None) (p # zs) None {}" using d(3) unfolding ps pseg_append by simp
  then show False using assms(2) own d(1) ps by (auto split: option.splits)
qed

lemma reparent_listed:
  assumes "plist (procs s) (first_process s) ps" and "procs s p = Some pr"
  shows "reparent p (first_process s) s = Some (s\<lparr>procs := adopt p (p_dad pr) (set ps) (procs s)\<rparr>)"
proof -
  have d: "first_process s = first_or ps None" "distinct ps" "pseg (procs s) None ps None {}"
    using assms(1) by (simp_all add: plist_def)
  show ?thesis unfolding d(1) by (rule reparent_seg [OF d(3) assms(2) plist_not_own_dad [OF assms] d(2)])
qed

section \<open>Unlinking\<close>

definition unlink :: "pref \<Rightarrow> process \<Rightarrow> (pref \<rightharpoonup> process) \<Rightarrow> pref \<rightharpoonup> process" where
  "unlink p pr P = (
     let P = (case p_prev pr of None \<Rightarrow> P | Some q \<Rightarrow> P(q := map_option (\<lambda>r. r\<lparr>p_next := p_next pr\<rparr>) (P q)));
         P = (case p_next pr of None \<Rightarrow> P | Some q \<Rightarrow> P(q := map_option (\<lambda>r. r\<lparr>p_prev := p_prev pr\<rparr>) (P q)))
     in P(p := None))"

lemma pseg_new_end:
  assumes "pseg P a (ps @ [p]) e D" and "p \<notin> set ps"
  shows "pseg (P(p := map_option (\<lambda>r. r\<lparr>p_next := e'\<rparr>) (P p))) a (ps @ [p]) e' D"
proof -
  let ?P = "P(p := map_option (\<lambda>r. r\<lparr>p_next := e'\<rparr>) (P p))"
  have "pseg P a ps (Some p) (insert p D)" "pseg P (last_or ps a) [p] e D"
    using assms(1) unfolding pseg_append by simp_all
  moreover have "pseg ?P a ps (Some p) (insert p D)"
    by (rule pseg_cong [OF calculation(1)]) (use assms(2) in auto)
  ultimately show ?thesis unfolding pseg_append by (auto split: option.splits)
qed

lemma pseg_new_front:
  assumes "pseg P a (p # ps) e D" and "p \<notin> set ps"
  shows "pseg (P(p := map_option (\<lambda>r. r\<lparr>p_prev := a'\<rparr>) (P p))) a' (p # ps) e D"
proof -
  let ?P = "P(p := map_option (\<lambda>r. r\<lparr>p_prev := a'\<rparr>) (P p))"
  obtain r where r: "P p = Some r" "p_next r = first_or ps e"
    "case p_dad r of None \<Rightarrow> p = Idle | Some d \<Rightarrow> p \<noteq> Idle \<and> d \<in> set ps \<union> D" "pseg P (Some p) ps e D"
    using assms(1) by auto
  have "pseg ?P (Some p) ps e D" by (rule pseg_cong [OF r(4)]) (use assms(2) in auto)
  then show ?thesis using r by simp
qed

lemma pseg_unlink:
  assumes l: "pseg P None (ps @ p # qs) None {}" and d: "distinct (ps @ p # qs)" and pr: "P p = Some pr"
    and nd: "\<And>q r. P q = Some r \<Longrightarrow> p_dad r \<noteq> Some p"
  shows "pseg (unlink p pr P) None (ps @ qs) None {}"
proof -
  have s: "pseg P None ps (Some p) (insert p (set qs))" "p_prev pr = last_or ps None" "p_next pr = first_or qs None"
    "pseg P (Some p) qs None {}"
    using l pr unfolding pseg_append by (auto split: option.splits)
  define P1 where "P1 = (case p_prev pr of None \<Rightarrow> P | Some q \<Rightarrow> P(q := map_option (\<lambda>r. r\<lparr>p_next := p_next pr\<rparr>) (P q)))"
  define P2 where "P2 = (case p_next pr of None \<Rightarrow> P1 | Some q \<Rightarrow> P1(q := map_option (\<lambda>r. r\<lparr>p_prev := p_prev pr\<rparr>) (P1 q)))"
  have u: "unlink p pr P = P2(p := None)" by (simp only: unlink_def P1_def P2_def Let_def)
  have "pseg P None ps (Some p) (set qs)" by (rule pseg_weaken [OF s(1)]) (use nd in auto)
  then have 1: "pseg P1 None ps (first_or qs None) (set qs)"
  proof (cases ps rule: rev_cases)
    case (snoc ps' y)
    then show ?thesis using pseg_new_end [of P None ps' y "Some p" "set qs" "first_or qs None"] d s(2,3)
        \<open>pseg P None ps (Some p) (set qs)\<close> by (simp add: P1_def)
  qed simp
  have e1: "P1 x = P x" if "x \<notin> set ps" for x
    using that s(2) by (cases ps rule: rev_cases) (auto simp: P1_def)
  have "\<And>x. x \<in> set qs \<Longrightarrow> x \<notin> set ps" using d by auto
  then have 2: "pseg P1 (Some p) qs None {}" by (intro pseg_cong [OF s(4)]) (simp add: e1)
  have e2: "P2 x = P1 x" if "x \<notin> set qs" for x
    using that s(3) by (cases qs) (auto simp: P2_def)
  have "pseg P2 (last_or ps None) qs None {}"
  proof (cases qs)
    case (Cons z zs)
    then show ?thesis using pseg_new_front [of P1 "Some p" z zs None "{}" "last_or ps None"] 2 d s(2,3)
      by (simp add: P2_def)
  qed simp
  then have 4: "pseg (P2(p := None)) (last_or ps None) qs None {}"
    by (rule pseg_cong) (use d in auto)
  have 3: "pseg (P2(p := None)) None ps (first_or qs None) (set qs)"
  proof (rule pseg_cong [OF 1])
    fix x assume "x \<in> set ps"
    then have "x \<noteq> p" "x \<notin> set qs" using d by auto
    then show "map_option links ((P2(p := None)) x) = map_option links (P1 x)" by (simp add: e2)
  qed
  show ?thesis unfolding u pseg_append using 3 4 by simp
qed

lemma adopt_dad:
  assumes "d \<noteq> Some p" and "\<And>q. q \<notin> C \<Longrightarrow> P q = None"
  shows "adopt p d C P q = Some r \<Longrightarrow> p_dad r \<noteq> Some p"
  using assms by (cases "P q") (auto simp: adopt_def split: if_splits)

lemma pseg_adopt:
  assumes "pseg P a ps e D" and "p \<in> D" and "d \<in> D"
  shows "pseg (adopt p (Some d) C P) a ps e D"
  using assms
proof (induction ps arbitrary: a)
  case (Cons q ps)
  obtain r where r: "P q = Some r" "p_prev r = a" "p_next r = first_or ps e"
    "case p_dad r of None \<Rightarrow> q = Idle | Some d \<Rightarrow> q \<noteq> Idle \<and> d \<in> set ps \<union> D" "pseg P (Some q) ps e D"
    using Cons.prems(1) by auto
  define r' where "r' = (if q \<in> C \<and> p_dad r = Some p then r\<lparr>p_dad := Some d\<rparr> else r)"
  have "adopt p (Some d) C P q = Some r'" using r(1) by (simp add: adopt_def r'_def)
  moreover have "p_prev r' = a" "p_next r' = first_or ps e" using r by (simp_all add: r'_def)
  moreover have "case p_dad r' of None \<Rightarrow> q = Idle | Some d \<Rightarrow> q \<noteq> Idle \<and> d \<in> set ps \<union> D"
    using r(4) assms(3) by (auto simp: r'_def)
  moreover have "pseg (adopt p (Some d) C P) (Some q) ps e D" by (rule Cons.IH [OF r(5) assms(2,3)])
  ultimately show ?case by simp
qed simp

text \<open>What is left of the list once \<open>p\<close> is out of it and its father has adopted its children.\<close>

lemma plist_removed:
  assumes l: "plist P f (ps @ p # qs)" and p: "p \<noteq> Idle" and pr: "P p = Some pr"
    and P': "\<And>x. map_option links (P' x) = map_option links (adopt p (p_dad pr) (set (ps @ p # qs)) P x)"
    and pr': "P' p = Some pr'"
  shows "plist (unlink p pr' P') (first_or (ps @ qs) None) (ps @ qs)"
proof -
  let ?A = "adopt p (p_dad pr) (set (ps @ p # qs)) P"
  have d: "distinct (ps @ p # qs)" "dom P = set (ps @ p # qs)" using l by (simp_all add: plist_def)
  have s: "pseg P None ps (Some p) (insert p (set qs))" "pseg P (last_or ps None) (p # qs) None {}"
    using l unfolding plist_def pseg_append by simp_all
  obtain d' where d': "p_dad pr = Some d'" "d' \<in> set qs" using s(2) pr p by (auto split: option.splits)
  then have dp: "d' \<noteq> p" using d(1) by auto
  have "pseg ?A None ps (Some p) (insert p (set qs))"
    unfolding d'(1) by (rule pseg_adopt [OF s(1)]) (use d' in auto)
  moreover have "pseg ?A (last_or ps None) (p # qs) None {}"
  proof (rule pseg_cong [OF s(2)])
    fix x assume x: "x \<in> set (p # qs)"
    then obtain r where r: "P x = Some r" using pseg_exists [OF s(2)] by auto
    have "p_dad r \<noteq> Some p"
    proof (cases "x = p")
      case True
      then show ?thesis using r pr d' dp by simp
    next
      case False
      have "pseg P (Some p) qs None {}" using s(2) by auto
      then show ?thesis using pseg_dad [of P "Some p" qs None "{}" x r p] x False r d(1) by auto
    qed
    then show "map_option links (?A x) = map_option links (P x)" using r by (simp add: adopt_def)
  qed
  ultimately have "pseg ?A None (ps @ p # qs) None {}" unfolding pseg_append by simp
  then have g: "pseg P' None (ps @ p # qs) None {}" by (rule pseg_cong) (use P' in simp)
  have nd: "p_dad r \<noteq> Some p" if r: "P' x = Some r" for x r
  proof -
    obtain r0 where "?A x = Some r0" "p_dad r0 = p_dad r" by (rule links_eq [where P = P' and p = x and P' = ?A, OF P' [of x, symmetric] r])
    moreover have "p_dad r0 \<noteq> Some p"
      by (rule adopt_dad [OF _ _ calculation(1)]) (use d'(1) dp d(2) in auto)
    ultimately show ?thesis by simp
  qed
  have dom: "dom P' = set (ps @ p # qs)"
  proof -
    have "P' x = None \<longleftrightarrow> P x = None" for x
      using P' [of x] by (cases "P x"; cases "P' x") (auto simp: adopt_def)
    then show ?thesis using d(2) by (auto simp: dom_def)
  qed
  have "dom (unlink p pr' P') = dom P' - {p}"
  proof -
    have e: "p_prev pr' = last_or ps None" "p_next pr' = first_or qs None"
      using g pr' unfolding pseg_append by (auto split: option.splits)
    have in1: "last_or ps None = Some x \<Longrightarrow> x \<in> dom P'" "first_or qs None = Some x \<Longrightarrow> x \<in> dom P'" for x
      using dom by (auto simp: last_or_def first_or_def split: if_splits list.splits)
    then show ?thesis unfolding unlink_def e Let_def by (auto split: option.splits)
  qed
  then show ?thesis using pseg_unlink [OF g d(1) pr' nd] d(1) dom by (auto simp: plist_def)
qed

end
