(* ===== verification/Process_Table.thy ===== *)
theory Process_Table
  imports Process_List
begin

text \<open>
  The invariant of the process table: the list of processes is well linked, no process points to one
  that is gone, and every mailbox is a ring of 16 messages of at most 64 bytes, except the idle
  process's, which is never initialised and stays empty.
\<close>

section \<open>The invariant\<close>

definition mailbox_ok :: "pref \<Rightarrow> ring_buffer \<Rightarrow> bool" where
  "mailbox_ok p rb \<longleftrightarrow> (if p = Idle then rb_capacity rb = 0 \<and> rb_count rb = 0
     else rb_sized 76 16 rb \<and> (\<forall>b \<in> set (rb_list rb). m_size (message_of b) \<le> 64))"

definition table_inv :: "kernel \<Rightarrow> pref list \<Rightarrow> bool" where
  "table_inv s ps \<longleftrightarrow> plist (procs s) (first_process s) ps \<and>
     (\<forall>p r. procs s p = Some r \<longrightarrow> mailbox_ok p (p_ring r))"

text \<open>What the invariant reads of a process.\<close>

definition entry :: "process \<Rightarrow> (pref option \<times> pref option \<times> pref option) \<times> ring_buffer \<times> u32" where
  "entry r = (links r, p_ring r, p_pid r)"

definition same_table :: "kernel \<Rightarrow> kernel \<Rightarrow> bool" where
  "same_table s s' \<longleftrightarrow> first_process s' = first_process s \<and>
     (\<forall>p. map_option entry (procs s' p) = map_option entry (procs s p))"

lemma same_table_refl [simp]: "same_table s s"
  by (simp add: same_table_def)

lemma same_table_trans: "\<lbrakk> same_table s t; same_table t u \<rbrakk> \<Longrightarrow> same_table s u"
  by (simp add: same_table_def)

lemma same_tableI [intro]: "\<lbrakk> procs s' = procs s; first_process s' = first_process s \<rbrakk> \<Longrightarrow> same_table s s'"
  by (simp add: same_table_def)

lemma same_table_sched: "same_sched s s' \<Longrightarrow> same_table s s'"
  by (simp add: same_table_def same_sched_def)

lemma same_table_links:
  assumes "same_table s s'"
  shows "map_option links (procs s' p) = map_option links (procs s p)"
proof -
  have "map_option entry (procs s' p) = map_option entry (procs s p)" using assms by (simp add: same_table_def)
  then have "map_option fst (map_option entry (procs s' p)) = map_option fst (map_option entry (procs s p))" by simp
  then show ?thesis by (simp add: option.map_comp comp_def entry_def)
qed

lemma same_table_ring:
  assumes "same_table s s'" and "procs s' p = Some r'"
  obtains r where "procs s p = Some r" "p_ring r' = p_ring r"
proof -
  have "map_option entry (procs s' p) = map_option entry (procs s p)" using assms(1) by (simp add: same_table_def)
  then show thesis using that assms(2) by (cases "procs s p") (auto simp: entry_def)
qed

lemma table_inv_same:
  assumes "table_inv s ps" and "same_table s s'"
  shows "table_inv s' ps"
proof -
  have "plist (procs s') (first_process s) ps"
    by (rule plist_cong [of "procs s"]) (use assms in \<open>auto simp: table_inv_def same_table_links\<close>)
  moreover have "mailbox_ok p (p_ring r')" if "procs s' p = Some r'" for p r'
    by (rule same_table_ring [OF assms(2) that]) (use assms(1) in \<open>auto simp: table_inv_def\<close>)
  ultimately show ?thesis using assms(2) by (simp add: table_inv_def same_table_def)
qed

section \<open>Operations that leave the table alone\<close>

lemma set_thread_table: "set_thread t f s = Some s' \<Longrightarrow> same_table s s'"
  by (auto simp: set_thread_def)

lemma set_process_table:
  assumes "set_process p f s = Some s'" and "\<And>pr. entry (f pr) = entry pr"
  shows "same_table s s'"
  using assms by (auto simp: set_process_def same_table_def)

lemma enqueue_table: "enqueue q st t s = Some s' \<Longrightarrow> same_table s s'"
  by (cases t) (auto simp: enqueue_def disable_interrupts_def write_flags_def set_thread_def Let_def bind_eq_Some_conv)

lemma switch_context_table:
  assumes "switch_context t s = Some (r, s')"
  shows "same_table s s'"
proof (cases "t = None \<or> current_thread s = None")
  case True
  then have "switch_context t s = Some (Returned, s)"
    by (cases "current_thread s") (auto simp: switch_context_def)
  then show ?thesis using assms by simp
next
  case False
  then obtain n c where n: "t = Some n" "current_thread s = Some c" by auto
  obtain th where th: "thread_at n s = Some th" using assms n by (auto simp: switch_context_def bind_eq_Some_conv)
  show ?thesis
  proof (cases "t_process th")
    case None
    then show ?thesis using assms n th by (auto simp: switch_context_def same_table_def disable_interrupts_def)
  next
    case (Some p)
    then show ?thesis using assms n th
      by (cases "n = (Idle, 0)"; cases "current_process s = Some p")
        (auto simp: switch_context_def set_thread_def restore_context_def same_table_def bind_eq_Some_conv Let_def)
  qed
qed

lemma schedule_table:
  assumes "schedule ctx s = Some (r, s')"
  shows "same_table s s'"
proof (cases "queue_empty (Some Ready) (queues s)")
  case True
  then show ?thesis using assms by (simp add: schedule_def)
next
  case False
  obtain c s1 th qs0 where o: "(if ctx \<noteq> 0 then set_thread c (\<lambda>th. th\<lparr>t_sp0 := ctx\<rparr>) s else Some s) = Some s1"
    and rest: "(let (n, qs) = queue_pop (Some Ready) qs0; s = s1\<lparr>queues := qs\<rparr>
        in do { new_thread \<leftarrow> n;
          if new_thread = c then Some (Returned, s)
          else do {
            th' \<leftarrow> thread_at new_thread s;
            p \<leftarrow> t_process th';
            pr \<leftarrow> procs s p;
            if p_state pr = PROCESS_DYING then Some (Returned, s) else switch_context (Some new_thread) s } }) = Some (r, s')"
    using assms False unfolding schedule_def by (simp add: bind_eq_Some_conv) blast
  obtain n qs where q: "queue_pop (Some Ready) qs0 = (n, qs)" by (metis surj_pair)
  have o2: "(r, s') = (Returned, s1\<lparr>queues := qs\<rparr>) \<or> (\<exists>n. switch_context (Some n) (s1\<lparr>queues := qs\<rparr>) = Some (r, s'))"
    using rest unfolding q by (auto simp: bind_eq_Some_conv Let_def split: if_splits)
  have "same_table s s1" using o set_thread_table by (auto split: if_splits)
  moreover have "same_table s1 (s1\<lparr>queues := qs\<rparr>)" by auto
  moreover have "same_table (s1\<lparr>queues := qs\<rparr>) s'" using o2 switch_context_table by auto
  ultimately show ?thesis using same_table_trans by blast
qed

lemma wake_sleepers_table:
  assumes "wake_sleepers n s = Some s'"
  shows "same_table s s'"
proof (rule wake_sleepers.raw_induct [where P = "\<lambda>n s s'. same_table s s'", OF _ assms])
  fix f :: "tref option \<Rightarrow> kernel \<Rightarrow> kernel option" and n s s'
  assume ih: "\<And>n s s'. f n s = Some s' \<Longrightarrow> same_table s s'"
    and body: "(case n of None \<Rightarrow> Some s
      | Some t \<Rightarrow> do {
          let nxt = nd_next (qnode (queues s) t);
          th \<leftarrow> thread_at t s;
          s \<leftarrow> (if ticks s \<ge> t_wake_tick th then sched_ready (Some t) s else Some s);
          f nxt s }) = Some s'"
  show "same_table s s'"
  proof (cases n)
    case None
    then show ?thesis using body by simp
  next
    case (Some t)
    obtain th :: thread and s1 nxt where o: "(if ticks s \<ge> t_wake_tick th then sched_ready (Some t) s else Some s) = Some s1"
      "f nxt s1 = Some s'" using body unfolding Some option.case Let_def bind_eq_Some_conv
      by (elim exE conjE) (rule that, assumption, assumption)
    have "same_table s s1" using o(1) enqueue_table by (auto simp: sched_ready_def split: if_splits)
    then show ?thesis using ih [OF o(2)] same_table_trans by blast
  qed
qed

lemma timer_handler_table:
  assumes "timer_handler ctx s = Some (r, s')"
  shows "same_table s s'"
proof -
  define s0 where "s0 = s\<lparr>ticks := ticks s + 1, ports := pic_send_eoi 0 (ports s)\<rparr>"
  obtain s1 n where o: "wake_sleepers n s0 = Some s1" "schedule ctx s1 = Some (r, s')"
    using assms by (auto simp: timer_handler_def bind_eq_Some_conv s0_def Let_def)
  have "same_table s s0" by (auto simp: s0_def)
  then show ?thesis using wake_sleepers_table [OF o(1)] schedule_table [OF o(2)] same_table_trans by blast
qed

lemma control_table [simp]:
  "same_table (disable_interrupts s) s' = same_table s s'" "same_table s (disable_interrupts s') = same_table s s'"
  "same_table (write_flags f s) s' = same_table s s'" "same_table s (write_flags f s') = same_table s s'"
  "same_table (push_context a c s) s' = same_table s s'" "same_table s (set_eax a v s') = same_table s s'"
  "same_table (s\<lparr>receiving := rc\<rparr>) s' = same_table s s'" "same_table (s\<lparr>queues := qs\<rparr>) s' = same_table s s'"
  "same_table s (s'\<lparr>queues := qs\<rparr>) = same_table s s'"
  by (simp_all add: same_table_def disable_interrupts_def write_flags_def push_context_def set_eax_def)

lemma sys_yield_table: "sys_yield f s = Some (r, s') \<Longrightarrow> same_table s s'"
  by (auto simp: sys_yield_def bind_eq_Some_conv Let_def dest!: schedule_table split: if_splits)

lemma sched_exit_table:
  assumes "sched_exit_current_thread ctx v s = Some (r, s')"
  shows "same_table s s'"
proof -
  obtain c th where c: "current_thread s = Some c" "thread_at c s = Some th"
    using assms by (auto simp: sched_exit_current_thread_def bind_eq_Some_conv)
  show ?thesis
  proof (cases "t_process th = Some Idle")
    case True
    then show ?thesis using assms c by (simp add: sched_exit_current_thread_def)
  next
    case False
    obtain s1 s2 s3 ctl where o: "set_thread c (\<lambda>th. th\<lparr>t_exit_code := v\<rparr>) (disable_interrupts s) = Some s1"
      "sched_zombie (Some c) s1 = Some s2" "schedule ctx s2 = Some (ctl, s3)"
      "(r, s') = (if ctl = Returned then (Halted, write_flags (cpu_flags s) s3) else (ctl, s3))"
      using assms c False by (auto simp: sched_exit_current_thread_def Let_def bind_eq_Some_conv)
    note 1 = set_thread_table [OF o(1), unfolded control_table]
    have "same_table s s3"
      by (rule same_table_trans [OF 1 same_table_trans [OF enqueue_table [OF o(2) [unfolded sched_zombie_def]] schedule_table [OF o(3)]]])
    then show ?thesis using o(4) by (auto split: if_splits)
  qed
qed

lemma sched_sleep_table:
  assumes "sched_thread_sleep ctx w s = Some (r, s')"
  shows "same_table s s'"
proof (cases "current_thread s")
  case None
  then show ?thesis using assms by (simp add: sched_thread_sleep_def)
next
  case (Some c)
  show ?thesis
  proof (cases "w \<le> sched_get_ticks s \<or> c = (Idle, 0)")
    case True
    then have "sched_thread_sleep ctx w s = Some (Returned, s)" using Some by (auto simp: sched_thread_sleep_def)
    then show ?thesis using assms by simp
  next
    case False
    obtain s1 s2 s3 where o: "set_thread c (\<lambda>th. th\<lparr>t_wake_tick := w\<rparr>) (disable_interrupts s) = Some s1"
      "sched_sleep (Some c) s1 = Some s2" "schedule ctx s2 = Some (r, s3)"
      "s' = (if r = Returned then write_flags (cpu_flags s) s3 else s3)"
      using assms Some False by (auto simp: sched_thread_sleep_def Let_def bind_eq_Some_conv)
    note 1 = set_thread_table [OF o(1), unfolded control_table]
    have "same_table s s3"
      by (rule same_table_trans [OF 1 same_table_trans [OF enqueue_table [OF o(2) [unfolded sched_sleep_def]] schedule_table [OF o(3)]]])
    then show ?thesis using o(4) by (auto split: if_splits)
  qed
qed

lemma unqueue_table: "for_each (\<lambda>i. unqueue (p, i)) is s = Some s' \<Longrightarrow> same_table s s'"
proof (induction "is" arbitrary: s)
  case (Cons i "is")
  then obtain s1 where "unqueue (p, i) s = Some s1" "same_table s1 s'" by (auto simp: bind_eq_Some_conv)
  then show ?case by (auto simp: unqueue_def bind_eq_Some_conv)
qed simp

lemma destroy_current_table:
  assumes "sched_destroy_current_process frame s = Some (r, s')"
  shows "same_table s s'"
proof -
  obtain q where q: "sched_get_current_process s = Some q" using assms by (auto simp: sched_destroy_current_process_def bind_eq_Some_conv)
  show ?thesis
  proof (cases q)
    case None
    then show ?thesis using assms q by (simp add: sched_destroy_current_process_def)
  next
    case (Some p)
    obtain s1 s2 where o: "for_each (\<lambda>i. unqueue (p, i)) [0 ..< 8] (disable_interrupts s) = Some s1"
      "set_process p (\<lambda>pr. pr\<lparr>p_state := PROCESS_DYING\<rparr>) s1 = Some s2"
      "sys_yield frame (write_flags (cpu_flags s) s2) = Some (r, s')"
      using assms q Some by (auto simp: sched_destroy_current_process_def Let_def bind_eq_Some_conv)
    have "same_table s1 s2" by (rule set_process_table [OF o(2)]) (simp add: entry_def links_def)
    then show ?thesis using unqueue_table [OF o(1)] sys_yield_table [OF o(3)] same_table_trans by (metis control_table)
  qed
qed

lemma create_thread_table:
  assumes "sched_create_thread loc proc s = Some (res, s')"
  shows "same_table s s'"
  using assms
proof (cases rule: create_thread_cases)
  case (failed p idx)
  then show ?thesis using same_table_sched [OF failed(4)] by (simp add: same_table_def clear_thread_def)
next
  case (created p pr idx s1 stack0)
  have "same_table s s1" using same_table_sched [OF created(8)] by (simp add: same_table_def clear_thread_def)
  moreover have "procs s1 p = Some pr" using created(2,8) by (simp add: same_sched_def clear_thread_def)
  then have "same_table s1 s'" unfolding created(9) by (simp add: same_table_def entry_def links_def)
  ultimately show ?thesis by (rule same_table_trans)
qed simp

lemma destroy_frame_table:
  assumes "destroy_frame s s'"
  shows "same_table s s'"
proof -
  have "map_option entry (procs s' p) = map_option entry (procs s p)" for p
  proof -
    have "map_option (\<lambda>r. r\<lparr>p_num_threads := 0\<rparr>) (procs s' p) = map_option (\<lambda>r. r\<lparr>p_num_threads := 0\<rparr>) (procs s p)"
      using assms by (simp add: destroy_frame_def same_but_count_def)
    then have "map_option entry (map_option (\<lambda>r. r\<lparr>p_num_threads := 0\<rparr>) (procs s' p)) =
        map_option entry (map_option (\<lambda>r. r\<lparr>p_num_threads := 0\<rparr>) (procs s p))" by (simp only:)
    then show ?thesis unfolding option.map_comp comp_def by (simp add: entry_def [abs_def] links_def)
  qed
  then show ?thesis using assms by (simp add: same_table_def destroy_frame_def)
qed

end
