(* ===== verification/Mailbox.thy ===== *)
theory Mailbox
  imports Process_Table
begin

text \<open>
  Messages under the invariants: a mailbox is a bounded queue of messages, \<open>ipc_send\<close> appends one and
  makes the first waiting thread ready, \<open>ipc_receive\<close> takes the oldest one.
\<close>

section \<open>A mailbox as a queue of messages\<close>

definition msg_ok :: "ipc_message \<Rightarrow> bool" where
  "msg_ok m \<longleftrightarrow> length (m_data m) = 64 \<and> m_size m \<le> 64"

definition mail_inv :: "ring_buffer \<Rightarrow> bool" where
  "mail_inv rb \<longleftrightarrow> rb_sized 76 16 rb \<and> (\<forall>b \<in> set (rb_list rb). m_size (message_of b) \<le> 64)"

definition mail_of :: "ring_buffer \<Rightarrow> ipc_message list" where
  "mail_of rb = map message_of (rb_list rb)"

definition mail_put :: "ipc_message \<Rightarrow> ring_buffer \<Rightarrow> (int \<times> ring_buffer) option" where
  "mail_put m rb = ring_put (message_bytes m) rb"

definition mail_fetch :: "ipc_message \<Rightarrow> ring_buffer \<Rightarrow> (int \<times> ipc_message \<times> ring_buffer) option" where
  "mail_fetch m rb = map_option (\<lambda>(r, b, rb). (r, message_of b, rb)) (ring_fetch (message_bytes m) rb)"

lemma message_bytes_length [simp]: "length (message_bytes m) = 12 + length (m_data m)"
  by (simp add: message_bytes_def bytes_of_u32_def)

lemma rb_list_element:
  assumes "rb_inv rb" and "e \<in> set (rb_list rb)"
  shows "length e = unat (rb_elem_size rb)"
proof -
  obtain k where "e = rb_slot rb (rb_index rb k)" using assms(2) by (auto simp: rb_list_def)
  moreover have "rb_index rb k < unat (rb_capacity rb)" using rb_invD(1) [OF assms(1)] by (simp add: rb_index_def)
  moreover have "length (rb_buf rb) = unat (rb_capacity rb) * unat (rb_elem_size rb)" using assms(1) by (simp add: rb_inv_def)
  ultimately show ?thesis using slot_in_object [of "rb_index rb k" rb] by (simp add: rb_slot_def)
qed

lemma mail_message:
  assumes "mail_inv rb" and "m \<in> set (mail_of rb)"
  shows "msg_ok m"
proof -
  obtain b where b: "b \<in> set (rb_list rb)" "m = message_of b" using assms(2) by (auto simp: mail_of_def)
  have "length b = 76" using rb_list_element [of rb b] b(1) assms(1) by (simp add: mail_inv_def rb_sized_def)
  then show ?thesis using b assms(1) by (auto simp: msg_ok_def mail_inv_def message_of_def)
qed

interpretation mail: bounded_fifo mail_inv mail_of msg_ok 16 mail_put mail_fetch
proof unfold_locales
  fix rb m
  assume rb: "mail_inv rb"
  then have rs: "rb_sized 76 16 rb" by (simp add: mail_inv_def)
  show "length (mail_of rb) \<le> 16" using ring.bounded [OF rs] by (simp add: mail_of_def)
  show "mail_put m rb = Some (1, rb)" if "length (mail_of rb) = 16"
    using ring.put_full [OF rs, of "message_bytes m"] that by (simp add: mail_put_def mail_of_def)
  show "mail_fetch m rb = Some (1, m, rb)" if "mail_of rb = []"
    using ring.fetch_empty [OF rs, of "message_bytes m"] that
    by (simp add: mail_fetch_def mail_of_def message_of_bytes)
  show "\<exists>rb'. mail_put m rb = Some (0, rb') \<and> mail_inv rb' \<and> mail_of rb' = mail_of rb @ [m]"
    if ok: "msg_ok m" and room: "length (mail_of rb) < 16"
  proof -
    obtain rb' where "ring_put (message_bytes m) rb = Some (0, rb')" "rb_sized 76 16 rb'"
      "rb_list rb' = rb_list rb @ [message_bytes m]"
      using ring.put_room [OF rs, of "message_bytes m"] ok room by (auto simp: msg_ok_def mail_of_def)
    then show ?thesis using rb ok by (auto simp: mail_put_def mail_of_def mail_inv_def message_of_bytes msg_ok_def)
  qed
  show "\<exists>rb'. mail_fetch out rb = Some (0, m', rb') \<and> mail_inv rb' \<and> mail_of rb' = ms"
    if ok: "msg_ok out" and front: "mail_of rb = m' # ms" for out m' ms
  proof -
    obtain e es where e: "rb_list rb = e # es" "m' = message_of e" "ms = map message_of es"
      using front by (auto simp: mail_of_def Cons_eq_map_conv)
    obtain rb' where "ring_fetch (message_bytes out) rb = Some (0, e, rb')" "rb_sized 76 16 rb'" "rb_list rb' = es"
      using ring.fetch_front [OF rs _ e(1), of "message_bytes out"] ok by (auto simp: msg_ok_def)
    then show ?thesis using rb e by (auto simp: mail_fetch_def mail_of_def mail_inv_def)
  qed
qed

lemma mailbox_ok_iff: "mailbox_ok p rb \<longleftrightarrow> (if p = Idle then rb_capacity rb = 0 \<and> rb_count rb = 0 else mail_inv rb)"
  by (simp add: mailbox_ok_def mail_inv_def)

text \<open>What the two calls of the ring buffer do to a mailbox.\<close>

lemma push_mail:
  assumes "mailbox_ok p rb" and "msg_ok m"
  obtains rb' where "ring_buffer_push (Some rb) (Some (message_bytes m)) =
      Some (if p \<noteq> Idle \<and> length (mail_of rb) < 16 then 0 else 1, Some rb')" "mailbox_ok p rb'"
    "mail_of rb' = (if p \<noteq> Idle \<and> length (mail_of rb) < 16 then mail_of rb @ [m] else mail_of rb)"
    "\<not> (p \<noteq> Idle \<and> length (mail_of rb) < 16) \<longrightarrow> rb' = rb"
proof (cases "p = Idle")
  case True
  then have "ring_buffer_push (Some rb) (Some (message_bytes m)) = Some (1, Some rb)"
    using assms(1) by (simp add: mailbox_ok_def ring_buffer_push_def ring_buffer_full_def)
  then show thesis using that [of rb] assms(1) True by simp
next
  case False
  then have mi: "mail_inv rb" using assms(1) by (simp add: mailbox_ok_iff)
  have e: "ring_buffer_push (Some rb) (Some (message_bytes m)) = Some (r, Some rb')" if "mail_put m rb = Some (r, rb')" for r rb'
    using that by (auto simp: mail_put_def ring_put_def bind_eq_Some_conv)
  show thesis
  proof (cases "length (mail_of rb) < 16")
    case True
    then obtain rb' where "mail_put m rb = Some (0, rb')" "mail_inv rb'" "mail_of rb' = mail_of rb @ [m]"
      using mail.put_room [OF mi assms(2)] by auto
    then show thesis using that [of rb'] e False True by (simp add: mailbox_ok_iff)
  next
    case full: False
    then have "mail_put m rb = Some (1, rb)" using mail.put_full [OF mi] mail.bounded [OF mi] by simp
    then show thesis using that [of rb] e assms(1) full by simp
  qed
qed

lemma pop_mail:
  assumes "mailbox_ok p rb" and "mail_of rb = m # ms"
  obtains b rb' where "ring_buffer_pop (Some rb) (Some (replicate 76 0)) = Some (0, Some b, Some rb')" "message_of b = m"
    "mailbox_ok p rb'" "mail_of rb' = ms"
proof -
  have p: "p \<noteq> Idle" using assms by (auto simp: mailbox_ok_def mail_of_def rb_list_def)
  then have mi: "mail_inv rb" using assms(1) by (simp add: mailbox_ok_iff)
  then have rs: "rb_sized 76 16 rb" by (simp add: mail_inv_def)
  obtain e es where e: "rb_list rb = e # es" "m = message_of e" "ms = map message_of es"
    using assms(2) by (auto simp: mail_of_def Cons_eq_map_conv)
  obtain rb' where r: "ring_fetch (replicate 76 0) rb = Some (0, e, rb')" "rb_sized 76 16 rb'" "rb_list rb' = es"
    using ring.fetch_front [OF rs _ e(1), of "replicate 76 0"] by auto
  have "ring_buffer_pop (Some rb) (Some (replicate 76 0)) = Some (0, Some e, Some rb')"
    using r(1) by (auto simp: ring_fetch_def bind_eq_Some_conv)
  moreover have "mailbox_ok p rb'" using r mi p e(1) by (auto simp: mailbox_ok_iff mail_inv_def)
  ultimately show thesis using that e r(3) by (auto simp: mail_of_def)
qed

lemma pop_no_mail:
  assumes "mailbox_ok p rb" and "mail_of rb = []"
  shows "ring_buffer_pop (Some rb) (Some out) = Some (1, Some out, Some rb)"
proof -
  have "rb_list rb = []" using assms(2) by (simp add: mail_of_def)
  then show ?thesis by (simp add: ring_buffer_pop_def ring_buffer_peek_empty)
qed

lemma mail_empty: "ring_buffer_empty (Some rb) \<longleftrightarrow> mail_of rb = []"
  by (simp add: ring_buffer_empty_iff mail_of_def)

section \<open>The table after a change of one mailbox\<close>

abbreviation mailbox :: "kernel \<Rightarrow> pref \<Rightarrow> ipc_message list" where
  "mailbox s p \<equiv> mail_of (p_ring (the (procs s p)))"

lemma table_inv_ring:
  assumes "table_inv s ps" and "procs s p = Some pr" and "mailbox_ok p rb"
    and "procs s' = (procs s)(p \<mapsto> pr\<lparr>p_ring := rb\<rparr>)" and "first_process s' = first_process s"
  shows "table_inv s' ps"
proof -
  have "plist (procs s') (first_process s) ps"
    by (rule plist_cong [of "procs s"]) (use assms in \<open>auto simp: table_inv_def links_def\<close>)
  moreover have "\<forall>q r. procs s' q = Some r \<longrightarrow> mailbox_ok q (p_ring r)"
    using assms by (auto simp: table_inv_def)
  ultimately show ?thesis using assms(5) by (simp add: table_inv_def)
qed

lemma table_mailbox: "\<lbrakk> table_inv s ps; procs s p = Some pr \<rbrakk> \<Longrightarrow> mailbox_ok p (p_ring pr)"
  by (auto simp: table_inv_def)

section \<open>Sending\<close>

definition sent_message :: "kernel \<Rightarrow> u8 list \<Rightarrow> u32 \<Rightarrow> u32 \<Rightarrow> u8 list \<Rightarrow> ipc_message" where
  "sent_message s junk ty sz bytes =
     \<lparr>m_sender = p_pid (the (procs s (fst (the (current_thread s))))), m_type = ty, m_size = sz,
      m_data = bytes @ drop (unat sz) junk\<rparr>"

lemma vload_length: "vload a n s = Some bs \<Longrightarrow> length bs = n"
  by (induction n arbitrary: a bs) (auto simp: bind_eq_Some_conv)

lemma sched_get_current_pid_ok:
  assumes "sched_inv X s Q" and "current_thread s = Some c"
  shows "sched_get_current_pid s = Some (p_pid (the (procs s (fst c))))"
proof -
  note cur = sched_inv_current [OF assms]
  obtain pr where "procs s (fst c) = Some pr" using cur(6) by blast
  then show ?thesis using cur(5) by (simp add: sched_get_current_pid_def)
qed

lemma ipc_send_ok:
  assumes inv: "sched_inv X s Q" and tab: "table_inv s ps"
    and arg: "data \<noteq> 0" "0 < sz" "sz \<le> 64" "vload data (unat sz) s = Some bytes" "length junk = 64"
    and to: "sched_get_process pid s = Some (Some p)" "procs s p = Some pr" "p_state pr = PROCESS_NORMAL"
  obtains (full) "\<not> (p \<noteq> Idle \<and> length (mailbox s p) < 16)" "ipc_send junk pid ty data sz s = Some (1, s)"
  | (sent) rb qs where "p \<noteq> Idle" "length (mailbox s p) < 16"
      "ipc_send junk pid ty data sz s = Some (0, s\<lparr>procs := (procs s)(p \<mapsto> pr\<lparr>p_ring := rb\<rparr>), queues := qs,
         threads := woken (set (take 1 (Q (Waiters p)))) (threads s)\<rparr>)"
      "mailbox_ok p rb" "mail_of rb = mailbox s p @ [sent_message s junk ty sz bytes]"
      "sched_inv X (s\<lparr>procs := (procs s)(p \<mapsto> pr\<lparr>p_ring := rb\<rparr>), queues := qs,
         threads := woken (set (take 1 (Q (Waiters p)))) (threads s)\<rparr>) (wakes p Q)"
proof -
  define m where "m = sent_message s junk ty sz bytes"
  obtain c where c: "current_thread s = Some c" using inv by (auto simp: sched_inv_def)
  have len: "length bytes = unat sz" by (rule vload_length [OF arg(4)])
  have sz64: "unat sz \<le> 64" using arg(3) by (simp add: word_le_nat_alt)
  have b: "blit junk 0 bytes = Some (bytes @ drop (unat sz) junk)" using len sz64 arg(5) by (simp add: blit_def)
  have mok: "msg_ok m" using len sz64 arg(3,5) by (simp add: msg_ok_def m_def sent_message_def)
  have mb: "mailbox_ok p (p_ring pr)" by (rule table_mailbox [OF tab to(2)])
  obtain rb :: ring_buffer where rb: "ring_buffer_push (Some (p_ring pr)) (Some (message_bytes m)) =
      Some (if p \<noteq> Idle \<and> length (mail_of (p_ring pr)) < 16 then 0 else 1, Some rb)" "mailbox_ok p rb"
    "mail_of rb = (if p \<noteq> Idle \<and> length (mail_of (p_ring pr)) < 16 then mail_of (p_ring pr) @ [m] else mail_of (p_ring pr))"
    "\<not> (p \<noteq> Idle \<and> length (mail_of (p_ring pr)) < 16) \<longrightarrow> rb = p_ring pr"
    by (rule push_mail [OF mb mok])
  define s1 where "s1 = s\<lparr>procs := (procs s)(p \<mapsto> pr\<lparr>p_ring := rb\<rparr>)\<rparr>"
  have sp: "set_process p (\<lambda>pr. pr\<lparr>p_ring := rb\<rparr>) s = Some s1" using to(2) by (simp add: set_process_def s1_def)
  have i1: "sched_inv X s1 Q" by (rule sched_inv_set_process(1) [OF inv sp]) simp
  have "\<not> (data = 0 \<or> sz = 0 \<or> sz > 64)" using arg by auto
  then have e: "ipc_send junk pid ty data sz s =
      (if p \<noteq> Idle \<and> length (mail_of (p_ring pr)) < 16 then wake_waiter p s1 else Some (1, s1))"
    using arg(4) to b sched_get_current_pid_ok [OF inv c] rb(1) sp c
    by (simp add: ipc_send_def m_def [unfolded sent_message_def, symmetric] m_def sent_message_def Let_def)
  show thesis
  proof (cases "p \<noteq> Idle \<and> length (mail_of (p_ring pr)) < 16")
    case False
    have "s1 = s" using rb(4) False to(2) by (simp add: s1_def fun_upd_idem)
    then show thesis using full e False to(2) by simp
  next
    case True
    obtain qs where "wake_waiter p s1 = Some (0, s1\<lparr>queues := qs, threads := woken (set (take 1 (Q (Waiters p)))) (threads s1)\<rparr>)"
      "sched_inv X (s1\<lparr>queues := qs, threads := woken (set (take 1 (Q (Waiters p)))) (threads s1)\<rparr>) (wakes p Q)"
      by (rule wake_waiter_ok [OF i1, of p])
    then show thesis using sent [where rb = rb and qs = qs] e True rb to(2) by (simp add: s1_def m_def)
  qed
qed

section \<open>Receiving\<close>

lemma receive_message_empty:
  assumes "mailbox_ok p (p_ring pr)" and "procs s p = Some pr" and "mailbox s p = []"
  shows "receive_message p a b n s = Some (1, s)"
proof -
  have "s\<lparr>procs := (procs s)(p \<mapsto> pr\<lparr>p_ring := p_ring pr\<rparr>)\<rparr> = s" using assms(2) by (simp add: fun_upd_idem)
  then show ?thesis using pop_no_mail [OF assms(1)] assms(2,3)
    by (simp add: receive_message_def set_process_def)
qed

lemma receive_message_ok:
  assumes tab: "table_inv s ps" and pr: "procs s p = Some pr" and m: "mailbox s p = m # ms"
  obtains rb where "mailbox_ok p rb" "mail_of rb = ms"
    "receive_message p a b n s = do {
       s \<leftarrow> vstore a (bytes_of_u32 (m_sender m)) (s\<lparr>procs := (procs s)(p \<mapsto> pr\<lparr>p_ring := rb\<rparr>)\<rparr>);
       s \<leftarrow> vstore b (take (unat (min n (m_size m))) (m_data m)) s;
       Some (0, s) }"
proof -
  have mb: "mailbox_ok p (p_ring pr)" by (rule table_mailbox [OF tab pr])
  obtain bs rb where rb: "ring_buffer_pop (Some (p_ring pr)) (Some (replicate 76 0)) = Some (0, Some bs, Some rb)"
    "message_of bs = m" "mailbox_ok p rb" "mail_of rb = ms"
    by (rule pop_mail [OF mb]) (use m pr in simp)
  have pi: "p \<noteq> Idle" using m pr mb by (auto simp: mailbox_ok_def mail_of_def rb_list_def)
  then have mok: "msg_ok m" using mail_message [of "p_ring pr" m] mb m pr by (simp add: mailbox_ok_iff)
  then have "unat (m_size m) \<le> 64" by (simp add: msg_ok_def word_le_nat_alt)
  then have le: "unat (min n (m_size m)) \<le> length (m_data m)" using mok by (auto simp: msg_ok_def min_def word_le_nat_alt)
  have mn: "(if n < m_size m then n else m_size m) = min n (m_size m)" by (auto simp: min_def)
  have rd: "obj_read (m_data m) 0 (unat (if n < m_size m then n else m_size m)) =
      Some (take (unat (min n (m_size m))) (m_data m))"
    unfolding mn using le by (simp add: obj_read_def)
  show thesis
    by (rule that [OF rb(3,4)]) (simp only: receive_message_def pr rb(1,2) set_process_def rd Let_def
        Option.bind.bind_lunit option.map prod.case not_True_eq_False if_False refl simp_thms)
qed

section \<open>The table after a message\<close>

lemma wake_waiter_table: "wake_waiter p s = Some (r, s') \<Longrightarrow> same_table s s'"
  by (auto simp: wake_waiter_def sched_ready_def bind_eq_Some_conv Let_def dest!: enqueue_table
      split: if_splits prod.splits option.splits)

lemma ipc_send_table:
  assumes tab: "table_inv s ps" and j: "length junk = 64" and r: "ipc_send junk pid ty data sz s = Some (r, s')"
  shows "table_inv s' ps"
proof (cases "s' = s")
  case False
  obtain p pr bytes md sender ret ring s1 where o: "procs s p = Some pr" "\<not> sz > 64" "vload data (unat sz) s = Some bytes"
    "blit junk 0 bytes = Some md"
    "ring_buffer_push (Some (p_ring pr)) (Some (message_bytes \<lparr>m_sender = sender, m_type = ty, m_size = sz, m_data = md\<rparr>)) =
       Some (ret, Some ring)"
    "set_process p (\<lambda>pr. pr\<lparr>p_ring := ring\<rparr>) s = Some s1" "s' = s1 \<or> wake_waiter p s1 = Some (r, s')"
    using r False unfolding ipc_send_def by (auto simp: bind_eq_Some_conv Let_def split: if_splits option.splits)
  have "length md = 64" using o(4) j by (auto simp: blit_def split: if_splits)
  then have mok: "msg_ok \<lparr>m_sender = sender, m_type = ty, m_size = sz, m_data = md\<rparr>" using o(2) by (simp add: msg_ok_def not_less)
  have mb: "mailbox_ok p ring" using push_mail [OF table_mailbox [OF tab o(1)] mok] o(5) by auto
  have s1: "s1 = s\<lparr>procs := (procs s)(p \<mapsto> pr\<lparr>p_ring := ring\<rparr>)\<rparr>" using o(1,6) by (simp add: set_process_def)
  have "table_inv s1 ps" by (rule table_inv_ring [OF tab o(1) mb]) (simp_all add: s1)
  then show ?thesis using o(7) table_inv_same wake_waiter_table by blast
qed (use tab in simp)

lemma receive_message_table:
  assumes tab: "table_inv s ps" and r: "receive_message p a b n s = Some (ret, s')"
  shows "table_inv s' ps"
proof -
  obtain pr where pr: "procs s p = Some pr" using r by (auto simp: receive_message_def bind_eq_Some_conv)
  note mb = table_mailbox [OF tab pr]
  show ?thesis
  proof (cases "mailbox s p")
    case Nil
    then show ?thesis using receive_message_empty [OF mb pr, of a b n] r tab by simp
  next
    case (Cons m ms)
    obtain rb where rb: "mailbox_ok p rb" "mail_of rb = ms" "receive_message p a b n s = do {
       s \<leftarrow> vstore a (bytes_of_u32 (m_sender m)) (s\<lparr>procs := (procs s)(p \<mapsto> pr\<lparr>p_ring := rb\<rparr>)\<rparr>);
       s \<leftarrow> vstore b (take (unat (min n (m_size m))) (m_data m)) s;
       Some (0, s) }" by (rule receive_message_ok [OF tab pr Cons])
    define s1 where "s1 = s\<lparr>procs := (procs s)(p \<mapsto> pr\<lparr>p_ring := rb\<rparr>)\<rparr>"
    have t1: "table_inv s1 ps" by (rule table_inv_ring [OF tab pr rb(1)]) (simp_all add: s1_def)
    obtain s2 where "vstore a (bytes_of_u32 (m_sender m)) s1 = Some s2"
      "vstore b (take (unat (min n (m_size m))) (m_data m)) s2 = Some s'"
      using r rb(3) by (auto simp: bind_eq_Some_conv s1_def)
    then have "same_sched s1 s'" using memory_same(8) same_sched_trans by blast
    then show ?thesis using table_inv_same [OF t1 same_table_sched] by blast
  qed
qed

lemma ipc_receive_table:
  assumes tab: "table_inv s ps" and r: "ipc_receive frame ctx a b n s = Some (r, s')"
  shows "table_inv s' ps"
proof (cases "s' = s")
  case ne: False
  obtain p where p: "sched_get_current_process s = Some (Some p)"
    using r ne by (auto simp: ipc_receive_def bind_eq_Some_conv split: if_splits option.splits)
  obtain pr where pr: "procs s p = Some pr" using r ne p by (auto simp: ipc_receive_def bind_eq_Some_conv split: if_splits)
  show ?thesis
  proof (cases "ring_buffer_empty (Some (p_ring pr))")
    case False
    then obtain ret where "receive_message p a b n s = Some (ret, s')"
      using r ne p pr by (auto simp: ipc_receive_def bind_eq_Some_conv split: if_splits)
    then show ?thesis by (rule receive_message_table [OF tab])
  next
    case True
    obtain t s1 q2 rcv ctl s2 where o: "set_thread t (\<lambda>th. th\<lparr>t_state := THREAD_BLOCKED\<rparr>) (disable_interrupts s) = Some s1"
      "sys_yield frame (write_flags (cpu_flags s) (s1\<lparr>queues := q2\<rparr>)\<lparr>receiving := rcv\<rparr>) = Some (ctl, s2)"
      "s' = s2 \<or> (\<exists>ret. receive_message p a b n (s2\<lparr>receiving := (receiving s2)(t := None)\<rparr>) = Some (ret, s'))"
      using r ne p pr True by (auto simp: ipc_receive_def bind_eq_Some_conv Let_def split: if_splits)
    have "same_table s s1" using set_thread_table [OF o(1)] by simp
    then have "same_table s s2" using sys_yield_table [OF o(2)] same_table_trans by simp
    then have t2: "table_inv s2 ps" by (rule table_inv_same [OF tab])
    moreover have "table_inv (s2\<lparr>receiving := (receiving s2)(t := None)\<rparr>) ps" by (rule table_inv_same [OF t2]) auto
    ultimately show ?thesis using o(3) receive_message_table by blast
  qed
qed (use tab in simp)

end
