(* ===== verification/Process_Life.thy ===== *)
theory Process_Life
  imports Mailbox
begin

text \<open>
  Creating and destroying processes under the invariants: a new process goes to the front of the list,
  a child of the current one, with an empty mailbox; a destroyed one leaves the list, and its father
  adopts its children.
\<close>

section \<open>Creating\<close>

lemma new_mailbox:
  obtains rb where "ring_buffer_init (Some r) (Some (replicate (16 * 76) 0)) 76 16 = Some rb" "mail_inv rb" "mail_of rb = []"
proof -
  obtain rb where rb: "ring_buffer_init (Some r) (Some (replicate (16 * 76) 0)) 76 16 = Some rb"
    "rb_inv rb" "rb_list rb = []" "rb_elem_size rb = 76" "rb_capacity rb = 16"
    by (rule ring_buffer_init_ok [of 16 76 "replicate (16 * 76) 0" r]) auto
  then show thesis using that by (simp add: mail_inv_def rb_sized_def mail_of_def)
qed

lemma setup_process_result:
  assumes "procs s p = Some r0" and "current_thread s = Some c" and "thread_at c s = Some (threads s c)"
    and "t_process (threads s c) = Some (fst c)" and "first_process s = Some q" and "q \<noteq> p" and "procs s q = Some rq"
    and "setup_process p s = Some s'"
  obtains r where "procs s' = (procs s)(p \<mapsto> r, q \<mapsto> rq\<lparr>p_prev := Some p\<rparr>)" "first_process s' = Some p"
    "p_prev r = p_prev r0" "p_next r = Some q" "p_dad r = Some (fst c)" "mail_inv (p_ring r)" "mail_of (p_ring r) = []"
    "p_pid r = current_pid s" "p_num_threads r = 0" "p_cr3 r = p_cr3 r0" "p_state r = p_state r0"
    "current_pid s' = current_pid s + 1" "threads s' = threads s" "current_thread s' = current_thread s"
proof -
  obtain rb where rb: "ring_buffer_init (Some (p_ring r0)) (Some (replicate (16 * 76) 0)) 76 16 = Some rb"
    "mail_inv rb" "mail_of rb = []" by (rule new_mailbox)
  have at: "thread_at c (s\<lparr>procs := (procs s)(p \<mapsto> x), current_pid := y\<rparr>) = Some (threads s c)" for x y
    using assms(3) by (auto simp: thread_at_def split: if_splits)
  define r where "r = r0\<lparr>p_num_threads := 0, p_pid := current_pid s, p_dad := Some (fst c), p_ring := rb, p_next := Some q\<rparr>"
  have "setup_process p s = Some (s\<lparr>current_pid := current_pid s + 1,
      queues := queue_init (Some (Waiters p)) (queues s),
      procs := (procs s)(p \<mapsto> r, q \<mapsto> rq\<lparr>p_prev := Some p\<rparr>), first_process := Some p\<rparr>)"
    using assms(1-7) rb(1) at unfolding setup_process_def
    by (simp add: set_process_def Let_def r_def)
  then have "s' = s\<lparr>current_pid := current_pid s + 1, queues := queue_init (Some (Waiters p)) (queues s),
      procs := (procs s)(p \<mapsto> r, q \<mapsto> rq\<lparr>p_prev := Some p\<rparr>), first_process := Some p\<rparr>"
    using assms(8) by simp
  then show thesis using rb(2,3) by (intro that [of r]) (simp_all add: r_def)
qed

lemma plist_front:
  assumes l: "plist P f ps" and p: "P p = None" "p \<noteq> Idle" and q: "f = Some q" "P q = Some rq"
    and r: "p_prev r = None" "p_next r = Some q" "p_dad r = Some d" "P d \<noteq> None"
  shows "plist (P(p \<mapsto> r, q \<mapsto> rq\<lparr>p_prev := Some p\<rparr>)) (Some p) (p # ps)"
proof -
  obtain qs where ps: "ps = q # qs" using l q(1) by (cases ps) (auto simp: plist_def)
  have d: "distinct ps" "dom P = set ps" "pseg P None ps None {}" using l by (simp_all add: plist_def)
  have qp: "q \<noteq> p" "p \<notin> set ps" using p(1) q(2) d(2) by auto
  let ?P = "P(p \<mapsto> r, q \<mapsto> rq\<lparr>p_prev := Some p\<rparr>)"
  have "pseg (P(q := map_option (\<lambda>r. r\<lparr>p_prev := Some p\<rparr>) (P q))) (Some p) ps None {}"
    using pseg_new_front [of P None q qs None "{}" "Some p"] d ps by simp
  then have "pseg ?P (Some p) ps None {}" by (rule pseg_cong) (use qp q(2) in auto)
  moreover have "d \<in> set ps" using r(4) d(2) by auto
  ultimately have "pseg ?P None (p # ps) None {}" using r(1-3) p(2) qp(1) ps by simp
  moreover have "dom ?P = set (p # ps)" using d(2) ps by auto
  ultimately show ?thesis using d(1) qp(2) by (simp add: plist_def)
qed

lemma create_process_result:
  assumes inv: "sched_inv X s Q" and fr: "heap_fresh s" and tab: "table_inv s ps"
    and r: "sched_create_process s = Some (res, s')"
  obtains (failed) "res = None" "same_table s s'"
  | (created) p r where "res = Some p" "procs s p = None" "procs s' p = Some r" "table_inv s' (p # ps)"
      "p_dad r = Some (fst (the (current_thread s)))" "p_pid r = current_pid s" "mail_of (p_ring r) = []"
      "p_num_threads r = 0" "p_cr3 r \<noteq> 0" "p_state r = PROCESS_NORMAL" "p_prev r = None" "p_next r = first_process s"
      "current_pid s' = current_pid s + 1"
proof -
  obtain c where c: "current_thread s = Some c" using inv by (auto simp: sched_inv_def)
  note cur = sched_inv_current [OF inv c]
  obtain a s1 where a: "heap_alloc 1636 s = Some (a, s1)" using r by (auto simp: sched_create_process_def bind_eq_Some_conv)
  have k1: "same_sched s s1" by (rule memory_same(1) [OF a])
  show thesis
  proof (cases "a = 0")
    case True
    then show thesis using r a same_table_sched [OF k1] by (intro failed) (auto simp: sched_create_process_def)
  next
    case False
    define p where "p = Proc a"
    have pn: "procs s p = None" using fr a by (auto simp: heap_fresh_def p_def)
    have pI: "p \<noteq> Idle" by (simp add: p_def)
    obtain x s2 where x: "vmm_clone (clear_process p s1) = Some (x, s2)"
      using r a False by (auto simp: sched_create_process_def bind_eq_Some_conv Let_def p_def)
    have k2: "same_sched (clear_process p s1) s2" by (rule memory_same(5) [OF x])
    have f2: "procs s2 = (procs s)(p \<mapsto> zero_process)" "first_process s2 = first_process s" "current_pid s2 = current_pid s"
      "current_thread s2 = Some c" "\<And>t. fst t \<noteq> p \<Longrightarrow> threads s2 t = threads s t"
      using k1 k2 c by (simp_all add: same_sched_def clear_process_def)
    obtain s3 where s3: "set_process p (\<lambda>pr. pr\<lparr>p_cr3 := x\<rparr>) s2 = Some s3"
      using r a False x by (auto simp: sched_create_process_def bind_eq_Some_conv Let_def p_def)
    have e3: "s3 = s2\<lparr>procs := (procs s)(p \<mapsto> zero_process\<lparr>p_cr3 := x\<rparr>)\<rparr>"
      using s3 f2(1) by (auto simp: set_process_def)
    show thesis
    proof (cases "x = 0")
      case True
      then obtain s4 where s4: "heap_free a s3 = Some s4" "s' = s4\<lparr>procs := (procs s4)(p := None)\<rparr>" "res = None"
        using r a False x s3 by (auto simp: sched_create_process_def bind_eq_Some_conv Let_def p_def)
      have "same_sched s3 s4" by (rule memory_same(2) [OF s4(1)])
      then have "procs s' = procs s" "first_process s' = first_process s"
        using pn f2(2) by (auto simp: same_sched_def s4(2) e3 fun_eq_iff)
      then show thesis using failed s4(3) by blast
    next
      case x0: False
      then have su: "setup_process p s3 = Some s'" and res: "res = Some p"
        using r a False x s3 by (auto simp: sched_create_process_def bind_eq_Some_conv Let_def p_def)
      have pl: "plist (procs s) (first_process s) ps" using tab by (simp add: table_inv_def)
      have "Idle \<in> dom (procs s)" using sched_okD(2) [OF cur(4)] by (auto simp: thread_ok_def)
      then obtain q qs where ps: "ps = q # qs" using pl by (cases ps) (auto simp: plist_def)
      then have q: "first_process s = Some q" "q \<in> dom (procs s)" using pl by (simp_all add: plist_def)
      then obtain rq where rq: "procs s q = Some rq" by auto
      have qp: "q \<noteq> p" "fst c \<noteq> p" using rq pn cur(6) by auto
      have at: "thread_at c s3 = Some (threads s3 c)" "t_process (threads s3 c) = Some (fst c)"
        using cur(1,6) f2(5) qp(2) by (auto simp: e3 thread_at_def thread_ok_def)
      have h: "procs s3 p = Some (zero_process\<lparr>p_cr3 := x\<rparr>)" "current_thread s3 = Some c" "first_process s3 = Some q"
        "procs s3 q = Some rq" using f2 q rq qp(1) by (simp_all add: e3)
      obtain r' where r': "procs s' = (procs s3)(p \<mapsto> r', q \<mapsto> rq\<lparr>p_prev := Some p\<rparr>)" "first_process s' = Some p"
        "p_prev r' = None" "p_next r' = Some q" "p_dad r' = Some (fst c)" "mail_inv (p_ring r')" "mail_of (p_ring r') = []"
        "p_pid r' = current_pid s3" "p_num_threads r' = 0" "p_cr3 r' = x" "p_state r' = PROCESS_NORMAL"
        "current_pid s' = current_pid s3 + 1"
        by (rule setup_process_result [OF h(1,2) at h(3) qp(1) h(4) su]) (simp add: zero_process_def)
      have e: "procs s' = (procs s)(p \<mapsto> r', q \<mapsto> rq\<lparr>p_prev := Some p\<rparr>)" using r'(1) by (simp add: e3)
      have "plist (procs s') (first_process s') (p # ps)" unfolding e r'(2)
        by (rule plist_front [OF pl pn pI q(1) rq r'(3-5)]) (use cur(6) in simp)
      moreover have "mailbox_ok y (p_ring ry)" if y: "procs s' y = Some ry" for y ry
      proof -
        consider "y = p" "ry = r'" | "y = q" "ry = rq\<lparr>p_prev := Some p\<rparr>" | "procs s y = Some ry"
          using y qp(1) unfolding e by (cases "y = q"; cases "y = p") auto
        then show ?thesis
        proof cases
          case 1
          then show ?thesis using r'(6) pI by (simp add: mailbox_ok_iff)
        next
          case 2
          then show ?thesis using table_mailbox [OF tab rq] by simp
        next
          case 3
          then show ?thesis by (rule table_mailbox [OF tab])
        qed
      qed
      ultimately have t: "table_inv s' (p # ps)" by (simp add: table_inv_def)
      have "procs s' p = Some r'" using qp(1) unfolding e by simp
      then show thesis using created [OF res pn _ t] r' x0 c q(1) f2(3) by (simp add: e3)
    qed
  qed
qed

section \<open>Destroying\<close>

lemma adopt_ring: "adopt p d C P x = Some r' \<Longrightarrow> \<exists>r. P x = Some r \<and> p_ring r' = p_ring r"
  by (auto simp: adopt_def split: if_splits)

lemma unlink_ring: "unlink p pr P x = Some r' \<Longrightarrow> \<exists>r. P x = Some r \<and> p_ring r' = p_ring r"
  by (auto simp: unlink_def Let_def split: if_splits option.splits)

lemma set_process_prev:
  "(case q of None \<Rightarrow> Some s | Some q \<Rightarrow> set_process q f s) = Some s' \<Longrightarrow>
     s' = s\<lparr>procs := (case q of None \<Rightarrow> procs s | Some q \<Rightarrow> (procs s)(q := map_option f (procs s q)))\<rparr>"
  by (auto simp: set_process_def split: option.splits)

lemma destroy_process_result:
  assumes inv: "sched_inv X s Q" and tab: "table_inv s ps" and p: "p \<noteq> Idle"
    and pr: "procs s p = Some pr" and nc: "cr3 s \<noteq> p_cr3 pr" and r: "sched_destroy_process (Some p) s = Some s'"
  obtains P pr' where "\<And>x. map_option entry (P x) = map_option entry (adopt p (p_dad pr) (set ps) (procs s) x)"
    "P p = Some pr'" "procs s' = unlink p pr' P" "table_inv s' (remove1 p ps)"
proof -
  obtain a where a: "p = Proc a" using p by (cases p) auto
  obtain c prc where c: "current_thread s = Some c" "current_process s = Some (fst c)"
    "procs s (fst c) = Some prc" "cr3 s = p_cr3 prc" using inv by (auto simp: sched_inv_def)
  have pc: "current_process s \<noteq> Some p" using nc c pr by auto
  have pl: "plist (procs s) (first_process s) ps" using tab by (simp add: table_inv_def)
  then have d: "distinct ps" "dom (procs s) = set ps" "first_process s = first_or ps None" "pseg (procs s) None ps None {}"
    by (simp_all add: plist_def)
  have "p \<in> set ps" using pr d(2) by auto
  then obtain ys zs where ps: "ps = ys @ p # zs" by (auto simp: in_set_conv_decomp)
  have pd: "p_dad pr \<noteq> Some p" by (rule plist_not_own_dad [OF pl pr])
  obtain s1 s2 s3 s4 s5 s6 and pr2 pr5 pr6 :: process where o:
    "reparent p (first_process s) s = Some s1"
    "for_each (\<lambda>i. sched_destroy_thread (Some (p, i))) [0 ..< 8] s1 = Some s2"
    "procs s2 p = Some pr2" "vmm_destroy (p_cr3 pr2) s2 = Some s3"
    "(if p_cr3 pr2 \<noteq> 0 then pmm_free_page (p_cr3 pr2) s3 else Some s3) = Some s4"
    "(case p_prev pr2 of None \<Rightarrow> Some s4 | Some q \<Rightarrow> set_process q (\<lambda>r. r\<lparr>p_next := p_next pr2\<rparr>) s4) = Some s5"
    "procs s5 p = Some pr5"
    "(case p_next pr5 of None \<Rightarrow> Some s5 | Some q \<Rightarrow> set_process q (\<lambda>r. r\<lparr>p_prev := p_prev pr5\<rparr>) s5) = Some s6"
    "procs s6 p = Some pr6"
    "free_process p (if first_process s6 = Some p then s6\<lparr>first_process := p_next pr6\<rparr> else s6) = Some s'"
    using r pr nc unfolding sched_destroy_process_def option.case bind_eq_Some_conv Let_def
    by (elim exE conjE) (simp add: bind_eq_Some_conv, elim exE conjE, rule that, assumption+)
  let ?A = "adopt p (p_dad pr) (set ps) (procs s)"
  have s1: "s1 = s\<lparr>procs := ?A\<rparr>" using o(1) reparent_listed [OF pl pr] by simp
  obtain P1 where P1: "s1 = s\<lparr>procs := P1\<rparr>" "same_role (procs s) P1" using reparent_frame [OF o(1)] by blast
  have i1: "sched_inv X s1 Q" unfolding P1(1) by (rule sched_inv_role [OF inv P1(2)])
  have "current_process s1 \<noteq> Some p" using s1 pc by simp
  from destroy_threads_inv [OF i1 o(2) this p] have t2: "same_table s1 s2" using destroy_frame_table by blast
  have "same_sched s2 s4"
  proof (rule same_sched_trans [OF memory_same(6) [OF o(4)]])
    show "same_sched s3 s4" using o(5) memory_same(11) by (auto split: if_splits)
  qed
  then have f4: "procs s4 = procs s2" "first_process s4 = first_process s"
    using t2 by (simp_all add: same_sched_def same_table_def s1)
  have ent: "map_option entry (procs s2 x) = map_option entry (?A x)" for x using t2 by (simp add: same_table_def s1)
  have lnk: "map_option links (procs s2 x) = map_option links (adopt p (p_dad pr) (set (ys @ p # zs)) (procs s) x)" for x
    using same_table_links [OF t2, of x] by (simp add: s1 ps)
  note pl' = plist_removed [OF pl [unfolded ps] p pr lnk o(3)]
  have dl: "p \<notin> set ys" "p \<notin> set zs" using d(1) ps by auto
  have lp: "p_prev pr2 = last_or ys None" "p_next pr2 = first_or zs None"
  proof -
    have "?A p = Some pr" using pr pd by (simp add: adopt_def)
    then obtain r' where "procs s2 p = Some r'" "p_prev r' = p_prev pr" "p_next r' = p_next pr" "p_dad r' = p_dad pr"
      by (rule links_eq [where P' = "procs s2" and P = ?A and p = p, OF lnk [of p, folded ps]])
    then have "p_prev pr2 = p_prev pr" "p_next pr2 = p_next pr" using o(3) by simp_all
    then show "p_prev pr2 = last_or ys None" "p_next pr2 = first_or zs None"
      using d(4) pr unfolding ps pseg_append by (auto split: option.splits)
  qed
  have n1: "p_prev pr2 \<noteq> Some p" "p_next pr2 \<noteq> Some p"
    using dl unfolding lp by (auto simp: last_or_def first_or_def split: if_splits list.splits)
  note e5 = set_process_prev [OF o(6)] and e6 = set_process_prev [OF o(8)]
  have p5: "procs s5 p = procs s2 p" using n1(1) by (subst e5) (auto simp: f4 split: option.splits)
  have "pr5 = pr2" using o(3,7) p5 by simp
  note e6 = e6 [unfolded this]
  have p6: "procs s6 p = procs s5 p" using n1(2) by (subst e6) (auto split: option.splits)
  have pr6: "pr6 = pr2" using o(3,9) p5 p6 by simp
  have ff: "first_process s6 = first_process s" by (subst e6, subst e5) (simp add: f4)
  define s7 where "s7 = (if first_process s6 = Some p then s6\<lparr>first_process := p_next pr6\<rparr> else s6)"
  obtain s8 where s8: "heap_free a s7 = Some s8" "s' = s8\<lparr>procs := (procs s8)(p := None)\<rparr>"
    using o(10) unfolding a free_process_def s7_def by (auto simp: bind_eq_Some_conv)
  have k8: "same_sched s7 s8" by (rule memory_same(2) [OF s8(1)])
  have e: "procs s' = unlink p pr2 (procs s2)"
  proof -
    have "procs s' = (procs s6)(p := None)" using k8 by (simp add: s8(2) same_sched_def s7_def)
    moreover have "procs s6 = (case p_next pr2 of None \<Rightarrow> procs s5
        | Some q \<Rightarrow> (procs s5)(q := map_option (\<lambda>r. r\<lparr>p_prev := p_prev pr2\<rparr>) (procs s5 q)))"
      by (subst e6) simp
    moreover have "procs s5 = (case p_prev pr2 of None \<Rightarrow> procs s2
        | Some q \<Rightarrow> (procs s2)(q := map_option (\<lambda>r. r\<lparr>p_next := p_next pr2\<rparr>) (procs s2 q)))"
      using arg_cong [OF e5, of procs] unfolding f4(1) by simp
    ultimately show ?thesis unfolding unlink_def Let_def by (simp only:)
  qed
  have f': "first_process s' = first_or (ys @ zs) None"
  proof -
    have "first_process s' = (if first_process s = Some p then p_next pr2 else first_process s)"
      using k8 by (simp add: s8(2) same_sched_def s7_def ff pr6)
    then show ?thesis using dl lp(2) d(3) by (cases ys) (auto simp: ps)
  qed
  have rm: "remove1 p ps = ys @ zs" using dl by (simp add: ps remove1_append)
  have "mailbox_ok x (p_ring rx)" if x: "procs s' x = Some rx" for x rx
  proof -
    obtain r2 where r2: "procs s2 x = Some r2" "p_ring rx = p_ring r2" using unlink_ring x unfolding e by blast
    obtain r1 where "procs s1 x = Some r1" "p_ring r2 = p_ring r1" by (rule same_table_ring [OF t2 r2(1)])
    then obtain r0 where "procs s x = Some r0" "p_ring r1 = p_ring r0" using adopt_ring unfolding s1 by fastforce
    then show ?thesis using table_mailbox [OF tab] r2(2) \<open>p_ring r2 = p_ring r1\<close> by simp
  qed
  then have "table_inv s' (remove1 p ps)" using pl' by (simp add: table_inv_def e f' rm)
  then show thesis by (rule that [OF ent o(3) e])
qed

end
