(* ===== verification/Heap_Intact.thy ===== *)
theory Heap_Intact
  imports Kernel_Procs Heap_Clients
begin

text \<open>
  Why \<open>sched_create_process\<close> gets a block of its own.  When the block list of the heap is sound and every
  process lies in a used block of it, the copy of the program into the region allocated for it leaves the
  headers alone, and the block the heap hands out for the new process is none of those in use.
\<close>

section \<open>Stores into a block\<close>

lemma seg_outside:
  assumes "seg p a (L1 @ (m, u) # L2) e M" and "a + extent L1 + 16 \<le> w" and "w < a + extent L1 + 16 + m"
  shows "seg p a (L1 @ (m, u) # L2) e (M(w := v))"
proof -
  let ?M = "M(w := v)"
  have 1: "seg p a L1 (a + extent L1) ?M = seg p a L1 (a + extent L1) M"
    by (rule seg_cong) (use assms(2) in simp)
  have 2: "seg (a + extent L1) (a + extent L1 + 16 + m) L2 e ?M = seg (a + extent L1) (a + extent L1 + 16 + m) L2 e M"
    by (rule seg_cong) (use assms(3) in simp)
  show ?thesis using assms(1) 1 2 assms(2) unfolding seg_append by auto
qed

text \<open>A byte address and the word it lies in.\<close>

lemma word_of_byte:
  fixes a b m :: nat
  assumes "4 dvd b" and "4 dvd m" and "b \<le> a" and "a < b + m"
  shows "b \<le> a div 4 * 4" "a div 4 * 4 < b + m" "a div 4 * 4 mod 4096 div 4 = a mod 4096 div 4"
    "a div 4 * 4 div 4096 = a div 4096"
proof -
  show "b \<le> a div 4 * 4" using assms(1,3) by (metis div_le_mono dvd_div_mult_self mult_le_mono1)
  show "a div 4 * 4 < b + m" using assms(4) div_times_less_eq_dividend [of a 4] by (rule order.strict_trans1 [rotated])
  show "a div 4 * 4 div 4096 = a div 4096" by (simp add: div_mult2_eq [of _ 4 1024, simplified])
  have "a div 4 * 4 mod 4096 = a div 4 mod 1024 * 4" using mult_mod_right [of 4 "a div 4" 1024] by (simp add: mult.commute)
  moreover have "a mod 4096 div 4 = a div 4 mod 1024"
    using mod_mult2_eq [of a 4 1024] by simp
  ultimately show "a div 4 * 4 mod 4096 div 4 = a mod 4096 div 4" by simp
qed

lemma vwrite8_block:
  fixes s :: "'z heap_state_scheme"
  assumes inv: "heap_inv s L" and L: "L = L1 @ (m, u) # L2"
    and a: "heap_base + extent L1 + 16 \<le> a" "a < heap_base + extent L1 + 16 + m"
    and r: "vwrite8 (of_nat a) x s = Some s'"
  shows "heap_inv s' L"
proof -
  obtain M n where n: "heap_rep n s M L" "n = heap_pages L" "heap_start s = of_nat heap_base"
    by (rule heap_invE [OF inv])
  have v: "heap_view n s M" and sg: "seg 0 heap_base L 0 M" and rest: "extent L = n * 4096" "\<forall>x \<in> set L. 4 dvd fst x" "L \<noteq> []"
    using n(1) by (simp_all add: heap_rep_def)
  note f = rep_block [OF n(1) L refl]
  define w where "w = a div 4 * 4"
  have b4: "4 dvd heap_base + extent L1 + 16" using dvd_add [OF f(8), of 16] by simp
  note wa = word_of_byte [OF b4 f(7) a, folded w_def]
  have ih: "in_heap n w"
    using wa(1,2) f(6) by (simp add: in_heap_def w_def)
  have m: "heap_mapped n s" using v by (simp add: heap_view_def)
  obtain i where i: "i < n" "w div 4096 = 0xE0000 + i" by (rule in_heap_page [OF m ih])
  have a32: "a < 2 ^ 32" using a(2) f(9) by simp
  then have ua: "unat (of_nat a :: u32) = a" by (simp add: unat_of_nat_small)
  have "lookup s (0xE0000 + i) \<noteq> None" using m i(1) by (simp add: heap_mapped_def)
  moreover have "a div 4096 = 0xE0000 + i" using wa(4) i(2) by simp
  ultimately have t: "translate (of_nat a) s = Some (heap_frame s i, a mod 4096 div 4)"
    by (auto simp: translate_lookup heap_frame_def ua)
  let ?v = "put_byte (a mod 4) x (pmem s (heap_frame s i) (a mod 4096 div 4))"
  have s': "s' = hput w ?v s"
    using r t ua wa(3) i(2) by (simp add: vwrite8_def hput_def)
  have st: "hstep n s s' (M(w := ?v))" unfolding s' by (rule hstep_put [OF hstep_refl [OF v] ih])
  have "seg 0 heap_base L 0 (M(w := ?v))"
    using sg unfolding L by (rule seg_outside) (use wa(1,2) in simp_all)
  then have "heap_rep n s' (M(w := ?v)) L" using hstep_view [OF st] rest by (simp add: heap_rep_def)
  then show ?thesis by (rule hstep_inv [OF st _ n(3)])
qed

lemma vmemcpy_block:
  fixes s :: "'z heap_state_scheme"
  assumes "heap_inv s L" and "(unat dst, m) \<in> live L" and "unat k \<le> m" and "vmemcpy dst src k s = Some s'"
  shows "heap_inv s' L"
proof -
  obtain L1 L2 where L: "L = L1 @ (m, True) # L2" "unat dst = heap_base + extent L1 + 16"
    using live_elem [of "unat dst" m heap_base L] assms(2) by (auto simp: live_def)
  have d: "dst + of_nat i = of_nat (unat dst + i)" for i by simp
  have loop: "heap_inv t' L"
    if "for_each (\<lambda>i s. do { b \<leftarrow> vread8 (src + of_nat i) s; vwrite8 (dst + of_nat i) b s }) js t = Some t'"
      "heap_inv t L" "\<forall>i \<in> set js. i < m" for js and t t' :: "'z heap_state_scheme"
    using that
  proof (induction js arbitrary: t)
    case (Cons i js)
    then obtain b t1 where t1: "vwrite8 (of_nat (unat dst + i)) b t = Some t1"
      "for_each (\<lambda>i s. do { b \<leftarrow> vread8 (src + of_nat i) s; vwrite8 (dst + of_nat i) b s }) js t1 = Some t'"
      by (auto simp: bind_eq_Some_conv d simp del: of_nat_add)
    have "heap_inv t1 L"
      by (rule vwrite8_block [OF Cons.prems(2) L(1) _ _ t1(1)]) (use L(2) Cons.prems(3) in simp_all)
    then show ?case using Cons.IH [OF t1(2)] Cons.prems(3) by simp
  qed simp
  show ?thesis
  proof (cases "dst = 0 \<or> src = 0")
    case True
    then show ?thesis using assms(1,4) by (simp add: vmemcpy_def)
  next
    case False
    then have "for_each (\<lambda>i s. do { b \<leftarrow> vread8 (src + of_nat i) s; vwrite8 (dst + of_nat i) b s }) [0 ..< unat k] s = Some s'"
      using assms(4) by (simp add: vmemcpy_def)
    then show ?thesis by (rule loop [OF _ assms(1)]) (use assms(3) in simp)
  qed
qed

section \<open>The heap of a kernel with processes\<close>

text \<open>Every process but the static idle one lies in a used block large enough for a \<^verbatim>\<open>process_t\<close>.\<close>

definition process_blocks :: "kernel \<Rightarrow> blk list \<Rightarrow> bool" where
  "process_blocks s L \<longleftrightarrow> (\<forall>a. procs s (Proc a) \<noteq> None \<longrightarrow> (\<exists>m \<ge> 1636. (unat a, m) \<in> live L))"

text \<open>
  What \<open>sys_nprocess_impl\<close> needs of the heap for a program of \<open>n\<close> bytes: its block list is sound and holds the
  processes, and neither the request for the program nor the following one for the process meets a sliver.
\<close>

definition heap_intact :: "u32 \<Rightarrow> kernel \<Rightarrow> bool" where
  "heap_intact n s \<longleftrightarrow> (\<exists>L. heap_inv s L \<and> process_blocks s L) \<and>
     serviceable heap_alloc heap_free heap_request [Request n, Request 1636] (s, [])"

lemma heap_fresh_intact:
  assumes inv: "heap_inv s L" and pb: "process_blocks s L" and rq: "heap_request 1636 s"
  shows "heap_fresh s"
  unfolding heap_fresh_def
proof (intro allI impI)
  fix a s1 assume al: "heap_alloc 1636 s = Some (a, s1)"
  show "procs s (Proc a) = None"
  proof (rule ccontr)
    assume "procs s (Proc a) \<noteq> None"
    then obtain m where m: "1636 \<le> m" "(unat a, m) \<in> live L" using pb by (auto simp: process_blocks_def)
    then have a0: "a \<noteq> 0" using live_from_range [of 0 m heap_base L] by (auto simp: live_def)
    have reg: "heap_regions s (live L)" using inv by (auto simp: heap_regions_def)
    obtain k where k: "1636 \<le> k" "(unat a, k) \<notin> live L" "heap_regions s1 (insert (unat a, k) (live L))"
      using heap_alloc_fresh [OF reg rq] al a0 by auto
    have "apart (unat a, k) (unat a, m)" by (rule heap_live_apart [OF k(3)]) (use m k in auto)
    then show False using m(1) k(1) by (simp add: apart_def)
  qed
qed

text \<open>The heap in which the process is created, after the program has been allocated and copied.\<close>

lemma heap_intact_fresh:
  assumes ok: "heap_intact n s" and al: "heap_alloc n s = Some (data, s1)" and dz: "data \<noteq> 0"
    and cp: "vmemcpy data src n s1 = Some s2" and pr: "procs s1 = procs s" "procs s2 = procs s1"
  shows "heap_fresh s2"
proof -
  obtain L where L: "heap_inv s L" "process_blocks s L" using ok by (auto simp: heap_intact_def)
  have rq: "heap_request n s" "heap_request 1636 s1" using ok al by (simp_all add: heap_intact_def)
  have reg: "heap_regions s (live L)" using L(1) by (auto simp: heap_regions_def)
  obtain m where m1: "unat n \<le> m" "heap_regions s1 (insert (unat data, m) (live L))"
    using heap_alloc_fresh [OF reg rq(1)] al dz by auto
  then obtain L1 where m: "unat n \<le> m" "heap_inv s1 L1" "live L1 = insert (unat data, m) (live L)"
    unfolding heap_regions_def by metis
  have i2: "heap_inv s2 L1" by (rule vmemcpy_block [OF m(2) _ m(1) cp]) (simp add: m(3))
  have "process_blocks s2 L1" unfolding process_blocks_def pr m(3) using L(2) by (auto simp: process_blocks_def)
  moreover have "heap_request 1636 s2"
    using rq(2) sliver_free_iff [OF m(2)] sliver_free_iff [OF i2] by (simp add: heap_request_def)
  ultimately show ?thesis by (rule heap_fresh_intact [OF i2])
qed

end
