(* ===== verification/Kernel_Step.thy ===== *)
theory Kernel_Step
  imports Process_Life Heap_Intact
begin

text \<open>
  The system calls and interrupts keep the invariants of the scheduler and of the process table, whenever
  they do not fault.
\<close>

section \<open>System calls\<close>

lemma sys_nthread_inv:
  assumes inv: "sched_inv X s Q" and r: "sys_nthread_impl ctx s = Some (res, s')"
  shows "\<exists>Q'. sched_inv X s' Q'"
proof -
  obtain p where p: "sched_get_current_process s = Some p" using r by (auto simp: sys_nthread_impl_def bind_eq_Some_conv)
  show ?thesis
  proof (cases p)
    case None
    then show ?thesis using r p inv by (auto simp: sys_nthread_impl_def)
  next
    case (Some p')
    then obtain t s1 where t: "sched_create_thread (c_ebx (contexts s ctx)) p s = Some (t, s1)"
      "(if t = None then Some (Inl (- 1), s1) else do { s \<leftarrow> sched_ready t s1; Some (Inl 0, s) }) = Some (res, s')"
      using r p by (auto simp: sys_nthread_impl_def bind_eq_Some_conv)
    note c = sched_create_thread_inv [OF inv t(1)]
    show ?thesis
    proof (cases t)
      case None
      then show ?thesis using c t(2) by auto
    next
      case (Some t')
      have i1: "sched_inv (insert t' X) s1 Q" and tok: "thread_ok (threads s1) (procs s1) t'" and ti: "t' \<noteq> idle"
        using c Some by simp_all
      have mh: "may_hold Ready THREAD_READY t'" by (simp add: may_hold_def)
      obtain s2 where s2: "sched_ready (Some t') s1 = Some s2" "sched_inv (insert t' X - {t'}) s2 (moved Ready t' Q)"
        using enqueue_inv [OF i1 tok ti mh] unfolding sched_ready_def by blast
      have "sched_inv X s2 (moved Ready t' Q)" by (rule sched_inv_mono [OF s2(2)]) auto
      moreover have "s' = s2" using t(2) Some s2(1) by simp
      ultimately show ?thesis by blast
    qed
  qed
qed

lemma copy_image_same: "copy_image c data n s = Some s' \<Longrightarrow> same_sched s s'"
  by (auto simp: copy_image_def bind_eq_Some_conv Let_def same_sched_def disable_interrupts_def write_flags_def
      dest!: memory_same(9))

lemma created_process_heap: "sched_create_process s = Some (Some p, s') \<Longrightarrow> p \<noteq> Idle"
  by (auto simp: sched_create_process_def bind_eq_Some_conv Let_def split: if_splits)

lemma start_process_inv:
  assumes inv: "sched_inv X s Q" and ph: "p \<noteq> Idle" and r: "start_process p data n s = Some (res, s')"
  shows "\<exists>Q'. sched_inv X s' Q'"
proof -
  define pages where "pages = align_up n PAGE_SIZE div PAGE_SIZE"
  note defs = start_process_def Let_def pages_def [symmetric]
  obtain pr ra s4 where a: "procs s p = Some pr"
    "vmm_alloc_pages_region_in (p_cr3 pr) pages (1 OR 2 OR 4) 0x400000 (0x400000 + pages * PAGE_SIZE) s = Some (ra, s4)"
    using r unfolding defs by (auto simp: bind_eq_Some_conv)
  have i4: "sched_inv X s4 Q" using inv sched_inv_same [OF memory_same(3) [OF a(2)]] by simp
  have undo: "\<exists>Q'. sched_inv X s' Q'" if "heap_free data u = Some u1" "sched_destroy_process (Some p) u1 = Some s'"
    "sched_inv X u Q2" for u u1 Q2
  proof -
    have "sched_inv X u1 Q2" using that(3) sched_inv_same [OF memory_same(2) [OF that(1)]] by simp
    from sched_destroy_process_inv [OF this that(2) ph] show ?thesis by blast
  qed
  show ?thesis
  proof (cases "ra = 0")
    case True
    then obtain u1 where "heap_free data s4 = Some u1" "sched_destroy_process (Some p) u1 = Some s'"
      using r a unfolding defs by (auto simp: bind_eq_Some_conv)
    then show ?thesis using undo i4 by blast
  next
    case raz: False
    obtain t s5 where t: "sched_create_thread 0x400000 (Some p) s4 = Some (t, s5)"
      using r a raz unfolding defs by (auto simp: bind_eq_Some_conv)
    note c = sched_create_thread_inv [OF i4 t]
    show ?thesis
    proof (cases t)
      case None
      then obtain rb u u1 where u: "vmm_free_pages_in (p_cr3 pr) pages 0x400000 s5 = Some (rb, u)"
        "heap_free data u = Some u1" "sched_destroy_process (Some p) u1 = Some s'"
        using r a raz t unfolding defs by (auto simp: bind_eq_Some_conv)
      have "sched_inv X u Q" using c None sched_inv_same [OF memory_same(4) [OF u(1)]] by simp
      then show ?thesis using undo u(2,3) by blast
    next
      case t': (Some t')
      obtain s6 s7 where o: "copy_image (p_cr3 pr) data n s5 = Some s6" "heap_free data s6 = Some s7"
        "sched_ready (Some t') s7 = Some s'"
        using r a raz t t' unfolding defs by (auto simp: bind_eq_Some_conv)
      have k: "same_sched s5 s7" by (rule same_sched_trans [OF copy_image_same [OF o(1)] memory_same(2) [OF o(2)]])
      have i7: "sched_inv (insert t' X) s7 Q" using c t' sched_inv_same [OF k] by simp
      have tok: "thread_ok (threads s7) (procs s7) t'" using c t' k by (simp add: same_sched_def)
      have mh: "may_hold Ready THREAD_READY t'" by (simp add: may_hold_def)
      have ti: "t' \<noteq> idle" using c t' by simp
      have i8: "sched_inv (insert t' X - {t'}) s' (moved Ready t' Q)"
        using enqueue_inv [OF i7 tok ti mh] o(3) unfolding sched_ready_def by auto
      have "sched_inv X s' (moved Ready t' Q)" by (rule sched_inv_mono [OF i8]) auto
      then show ?thesis by blast
    qed
  qed
qed

lemma sys_nprocess_inv:
  assumes inv: "sched_inv X s Q" and fr: "heap_intact (c_ecx (contexts s ctx)) s" and r: "sys_nprocess_impl ctx s = Some (res, s')"
  shows "\<exists>Q'. sched_inv X s' Q'"
proof -
  define entry where "entry = c_ebx (contexts s ctx)"
  define n where "n = c_ecx (contexts s ctx)"
  note defs = sys_nprocess_impl_def Let_def entry_def [symmetric] n_def [symmetric]
  show ?thesis
  proof (cases "entry = 0 \<or> n = 0")
    case True
    then show ?thesis using r inv unfolding defs by auto
  next
    case nz: False
    obtain data s1 where d: "heap_alloc n s = Some (data, s1)" using r nz unfolding defs by (auto simp: bind_eq_Some_conv)
    have i1: "sched_inv X s1 Q" using inv sched_inv_same [OF memory_same(1) [OF d]] by simp
    show ?thesis
    proof (cases "data = 0")
      case True
      then show ?thesis using r nz d i1 unfolding defs by auto
    next
      case dz: False
      obtain s2 where s2: "vmemcpy data entry n s1 = Some s2" using r nz d dz unfolding defs by (auto simp: bind_eq_Some_conv)
      have i2: "sched_inv X s2 Q" using i1 sched_inv_same [OF memory_same(9) [OF s2]] by simp
      have "procs s1 = procs s" "procs s2 = procs s1"
        using memory_same(1) [OF d] memory_same(9) [OF s2] by (simp_all add: same_sched_def)
      then have fr2: "heap_fresh s2" by (rule heap_intact_fresh [OF fr [folded n_def] d dz s2])
      obtain p s3 where p: "sched_create_process s2 = Some (p, s3)" using r nz d dz s2 unfolding defs by (auto simp: bind_eq_Some_conv)
      have i3: "sched_inv X s3 Q" by (rule sched_create_process_inv [OF i2 fr2 p])
      show ?thesis
      proof (cases p)
        case None
        then have f: "heap_free data s3 = Some s'"
          using r nz d dz s2 p unfolding defs by (auto simp: bind_eq_Some_conv)
        then show ?thesis using i3 sched_inv_same [OF memory_same(2) [OF f]] by blast
      next
        case (Some p')
        have ph: "p' \<noteq> Idle" using created_process_heap p Some by blast
        have "start_process p' data n s3 = Some (res, s')"
          using r nz d dz s2 p Some unfolding defs by simp
        then show ?thesis by (rule start_process_inv [OF i3 ph])
      qed
    qed
  qed
qed

text \<open>The process table after these calls.\<close>

lemma sys_nthread_table:
  assumes r: "sys_nthread_impl ctx s = Some (res, s')"
  shows "same_table s s'"
proof -
  obtain p where p: "sched_get_current_process s = Some p" using r by (auto simp: sys_nthread_impl_def bind_eq_Some_conv)
  show ?thesis
  proof (cases p)
    case None
    then show ?thesis using r p by (simp add: sys_nthread_impl_def)
  next
    case (Some p')
    then obtain t s1 where t: "sched_create_thread (c_ebx (contexts s ctx)) p s = Some (t, s1)"
      "s' = s1 \<or> sched_ready t s1 = Some s'"
      using r p by (auto simp: sys_nthread_impl_def bind_eq_Some_conv split: if_splits)
    then show ?thesis using create_thread_table enqueue_table same_table_trans unfolding sched_ready_def by blast
  qed
qed

lemma destroy_process_table:
  assumes inv: "sched_inv X s Q" and tab: "table_inv s ps" and p: "p \<noteq> Idle"
    and r: "sched_destroy_process (Some p) s = Some s'"
  shows "\<exists>ps'. table_inv s' ps'"
proof -
  obtain pr where pr: "procs s p = Some pr" using r by (auto simp: sched_destroy_process_def bind_eq_Some_conv)
  show ?thesis
  proof (cases "cr3 s = p_cr3 pr")
    case True
    then show ?thesis using r pr tab by (auto simp: sched_destroy_process_def)
  next
    case False
    then show ?thesis using destroy_process_result [OF inv tab p pr False r] by blast
  qed
qed

lemma start_process_table:
  assumes inv: "sched_inv X s Q" and tab: "table_inv s ps" and ph: "p \<noteq> Idle" and r: "start_process p data n s = Some (res, s')"
  shows "\<exists>ps'. table_inv s' ps'"
proof -
  define pages where "pages = align_up n PAGE_SIZE div PAGE_SIZE"
  note defs = start_process_def Let_def pages_def [symmetric]
  obtain pr ra s4 where a: "procs s p = Some pr"
    "vmm_alloc_pages_region_in (p_cr3 pr) pages (1 OR 2 OR 4) 0x400000 (0x400000 + pages * PAGE_SIZE) s = Some (ra, s4)"
    using r unfolding defs by (auto simp: bind_eq_Some_conv)
  have k4: "same_sched s s4" by (rule memory_same(3) [OF a(2)])
  have i4: "sched_inv X s4 Q" "table_inv s4 ps"
    using inv sched_inv_same [OF k4] table_inv_same [OF tab same_table_sched [OF k4]] by simp_all
  have undo: "\<exists>ps'. table_inv s' ps'" if "heap_free data u = Some u1" "sched_destroy_process (Some p) u1 = Some s'"
    "sched_inv X u Q2" "table_inv u ps" for u u1 Q2
  proof -
    note k = memory_same(2) [OF that(1)]
    have "sched_inv X u1 Q2" "table_inv u1 ps"
      using that(3) sched_inv_same [OF k] table_inv_same [OF that(4) same_table_sched [OF k]] by simp_all
    from destroy_process_table [OF this ph that(2)] show ?thesis .
  qed
  show ?thesis
  proof (cases "ra = 0")
    case True
    then obtain u1 where "heap_free data s4 = Some u1" "sched_destroy_process (Some p) u1 = Some s'"
      using r a unfolding defs by (auto simp: bind_eq_Some_conv)
    then show ?thesis using undo i4 by blast
  next
    case raz: False
    obtain t s5 where t: "sched_create_thread 0x400000 (Some p) s4 = Some (t, s5)"
      using r a raz unfolding defs by (auto simp: bind_eq_Some_conv)
    have t5: "table_inv s5 ps" by (rule table_inv_same [OF i4(2) create_thread_table [OF t]])
    show ?thesis
    proof (cases t)
      case None
      then obtain rb u u1 where u: "vmm_free_pages_in (p_cr3 pr) pages 0x400000 s5 = Some (rb, u)"
        "heap_free data u = Some u1" "sched_destroy_process (Some p) u1 = Some s'"
        using r a raz t unfolding defs by (auto simp: bind_eq_Some_conv)
      note k = memory_same(4) [OF u(1)]
      have "sched_inv X u Q" "table_inv u ps"
        using sched_create_thread_inv [OF i4(1) t] None sched_inv_same [OF k] table_inv_same [OF t5 same_table_sched [OF k]]
        by simp_all
      then show ?thesis using undo u(2,3) by blast
    next
      case t': (Some t')
      obtain s6 s7 where o: "copy_image (p_cr3 pr) data n s5 = Some s6" "heap_free data s6 = Some s7"
        "sched_ready (Some t') s7 = Some s'"
        using r a raz t t' unfolding defs by (auto simp: bind_eq_Some_conv)
      have k: "same_sched s5 s7" by (rule same_sched_trans [OF copy_image_same [OF o(1)] memory_same(2) [OF o(2)]])
      have "same_table s5 s'"
        using same_table_trans [OF same_table_sched [OF k] enqueue_table [OF o(3) [unfolded sched_ready_def]]] .
      then show ?thesis using table_inv_same [OF t5] by blast
    qed
  qed
qed

lemma sys_nprocess_table:
  assumes inv: "sched_inv X s Q" and tab: "table_inv s ps" and fr: "heap_intact (c_ecx (contexts s ctx)) s"
    and r: "sys_nprocess_impl ctx s = Some (res, s')"
  shows "\<exists>ps'. table_inv s' ps'"
proof -
  define entry where "entry = c_ebx (contexts s ctx)"
  define n where "n = c_ecx (contexts s ctx)"
  note defs = sys_nprocess_impl_def Let_def entry_def [symmetric] n_def [symmetric]
  consider "s' = s" | data s1 where "entry \<noteq> 0" "n \<noteq> 0" "heap_alloc n s = Some (data, s1)"
    using r unfolding defs by (cases "entry = 0 \<or> n = 0") (auto simp: bind_eq_Some_conv)
  then show ?thesis
  proof cases
    case (2 data s1)
    have k1: "same_sched s s1" by (rule memory_same(1) [OF 2(3)])
    show ?thesis
    proof (cases "data = 0")
      case True
      then have "s' = s1" using r 2 unfolding defs by auto
      then show ?thesis using table_inv_same [OF tab same_table_sched [OF k1]] by blast
    next
      case dz: False
      obtain s2 p s3 where s2: "vmemcpy data entry n s1 = Some s2" and p: "sched_create_process s2 = Some (p, s3)"
        using r 2 dz unfolding defs by (auto simp: bind_eq_Some_conv)
      have k2: "same_sched s s2" by (rule same_sched_trans [OF k1 memory_same(9) [OF s2]])
      have i2: "sched_inv X s2 Q" "table_inv s2 ps"
        using inv sched_inv_same [OF k2] table_inv_same [OF tab same_table_sched [OF k2]] by simp_all
      have "procs s1 = procs s" "procs s2 = procs s1"
        using k1 memory_same(9) [OF s2] by (simp_all add: same_sched_def)
      then have fr2: "heap_fresh s2" by (rule heap_intact_fresh [OF fr [folded n_def] 2(3) dz s2])
      have i3: "sched_inv X s3 Q" by (rule sched_create_process_inv [OF i2(1) fr2 p])
      obtain ps3 where t3: "table_inv s3 ps3"
        using create_process_result [OF i2(1) fr2 i2(2) p] table_inv_same [OF i2(2)] by metis
      show ?thesis
      proof (cases p)
        case None
        then have f: "heap_free data s3 = Some s'"
          using r 2 dz s2 p unfolding defs by (auto simp: bind_eq_Some_conv)
        then show ?thesis using table_inv_same [OF t3 same_table_sched [OF memory_same(2) [OF f]]] by blast
      next
        case (Some p')
        have ph: "p' \<noteq> Idle" using created_process_heap p Some by blast
        have "start_process p' data n s3 = Some (res, s')"
          using r 2 dz s2 p Some unfolding defs by simp
        then show ?thesis by (rule start_process_table [OF i3 t3 ph])
      qed
    qed
  qed (use tab in blast)
qed

text \<open>What the code of the callers guarantees: the idle thread makes no \<^verbatim>\<open>SYS_RECEIVE\<close>.\<close>

lemma syscall_handler_inv:
  assumes inv: "sched_inv X s Q" and r: "syscall_handler junk frame ctx s = Some (ctl, s')"
    and fr: "c_eax (contexts s ctx) = 3 \<Longrightarrow> heap_intact (c_ecx (contexts s ctx)) s"
    and ni: "c_eax (contexts s ctx) = 7 \<Longrightarrow> current_thread s \<noteq> Some idle"
  shows "\<exists>Q'. sched_inv X s' Q'"
proof -
  define n where "n = c_eax (contexts s ctx)"
  obtain res s1 where rs: "run_syscall junk frame ctx s = Some (res, s1)"
    using r unfolding syscall_handler_def by (auto simp: bind_eq_Some_conv)
  then have s': "s' = s1 \<or> (\<exists>v. s' = set_eax ctx v s1)"
    using r by (cases res) (auto simp: syscall_handler_def)
  note o = rs [unfolded run_syscall_def Let_def, folded n_def]
  have "\<exists>Q'. sched_inv X s1 Q'"
  proof -
    consider "n = 0" | "n = 5" | "n = 4" | "n = 3" | "n = 6" | "n = 7" | "s1 = s"
      using o by (auto simp: sys_getpid_impl_def sys_getppid_impl_def split: if_splits)
    then show ?thesis
    proof cases
      case 1
      then obtain v where "sched_exit_current_thread ctx (c_ebx (contexts s ctx)) s = Some (v, s1)"
        using o by (auto simp: sys_exit_impl_def bind_eq_Some_conv)
      then show ?thesis using sched_exit_inv [OF inv, of ctx "c_ebx (contexts s ctx)"] by auto
    next
      case 2
      then obtain v where "sched_thread_sleep ctx
          (sched_get_ticks s + c_ebx (contexts s ctx) div sched_get_ms_per_tick s) s = Some (v, s1)"
        using o by (auto simp: sys_sleep_impl_def bind_eq_Some_conv split: if_splits)
      then show ?thesis
        using sched_thread_sleep_inv [OF inv, of ctx "sched_get_ticks s + c_ebx (contexts s ctx) div sched_get_ms_per_tick s"] by auto
    next
      case 3
      then show ?thesis using o sys_nthread_inv [OF inv] by auto
    next
      case 4
      then show ?thesis using o sys_nprocess_inv [OF inv fr] by (auto simp: n_def)
    next
      case 5
      then show ?thesis using o ipc_send_inv [OF inv] by (auto simp: sys_send_impl_def Let_def)
    next
      case 6
      then obtain v where v: "ipc_receive frame ctx (c_esi (contexts s ctx)) (c_edi (contexts s ctx)) (c_ebx (contexts s ctx)) s = Some (v, s1)"
        using o by (auto simp: sys_receive_impl_def Let_def)
      obtain c where "current_thread s = Some c" using inv by (auto simp: sched_inv_def)
      moreover have "c \<noteq> idle" using ni 6 calculation by (auto simp: n_def)
      ultimately show ?thesis using ipc_receive_inv [OF inv _ _ v] by blast
    qed (use inv in blast)
  qed
  then show ?thesis using s' by auto
qed

lemma syscall_resume_inv:
  assumes inv: "sched_inv X s Q" and r: "syscall_resume s = Some s'"
  shows "sched_inv X s' Q"
proof -
  obtain t and rf :: receive_frame and ret s1 where o: "receive_message (fst t) (rf_sender rf) (rf_buffer rf) (rf_size rf)
       (s\<lparr>receiving := (receiving s)(t := None)\<rparr>) = Some (ret, s1)"
    "s' = write_flags (c_eflags (contexts (set_eax (rf_ctx rf) (of_int ret) s1) (rf_ctx rf))) (set_eax (rf_ctx rf) (of_int ret) s1)"
    using r by (auto simp: syscall_resume_def bind_eq_Some_conv Let_def)
  have "sched_inv X (s\<lparr>receiving := (receiving s)(t := None)\<rparr>) Q" using inv by simp
  from receive_message_inv(1) [OF this o(1)] show ?thesis by (simp add: o(2))
qed

lemma syscall_handler_table:
  assumes inv: "sched_inv X s Q" and tab: "table_inv s ps" and r: "syscall_handler junk frame ctx s = Some (ctl, s')"
    and fr: "c_eax (contexts s ctx) = 3 \<Longrightarrow> heap_intact (c_ecx (contexts s ctx)) s" and j: "length junk = 64"
  shows "\<exists>ps'. table_inv s' ps'"
proof -
  define n where "n = c_eax (contexts s ctx)"
  obtain res s1 where rs: "run_syscall junk frame ctx s = Some (res, s1)"
    using r unfolding syscall_handler_def by (auto simp: bind_eq_Some_conv)
  then have s': "same_table s1 s'"
    using r by (cases res) (auto simp: syscall_handler_def)
  note o = rs [unfolded run_syscall_def Let_def, folded n_def]
  consider (exit) v where "sched_exit_current_thread ctx (c_ebx (contexts s ctx)) s = Some (v, s1)"
    | (sleep) v w where "sched_thread_sleep ctx w s = Some (v, s1)"
    | (nthread) "sys_nthread_impl ctx s = Some (res, s1)"
    | (nprocess) "n = 3" "sys_nprocess_impl ctx s = Some (res, s1)"
    | (send) v a b c d where "ipc_send junk a b c d s = Some (v, s1)"
    | (receive) v a b c where "ipc_receive frame ctx a b c s = Some (v, s1)"
    | (other) "s1 = s"
    using o
    by (auto simp: sys_exit_impl_def sys_sleep_impl_def sys_send_impl_def sys_receive_impl_def
        sys_getpid_impl_def sys_getppid_impl_def bind_eq_Some_conv Let_def split: if_splits)
  then have "\<exists>ps'. table_inv s1 ps'"
  proof cases
    case nprocess
    then show ?thesis using sys_nprocess_table [OF inv tab fr] by (simp add: n_def)
  next
    case send
    then show ?thesis using ipc_send_table [OF tab j] by blast
  next
    case receive
    then show ?thesis using ipc_receive_table [OF tab] by blast
  qed (use tab table_inv_same [OF tab] sched_exit_table sched_sleep_table sys_nthread_table in blast)+
  then show ?thesis using s' table_inv_same by blast
qed

lemma syscall_resume_table:
  assumes tab: "table_inv s ps" and r: "syscall_resume s = Some s'"
  shows "table_inv s' ps"
proof -
  obtain t and rf :: receive_frame and ret s1 where o: "receive_message (fst t) (rf_sender rf) (rf_buffer rf) (rf_size rf)
       (s\<lparr>receiving := (receiving s)(t := None)\<rparr>) = Some (ret, s1)"
    "s' = write_flags (c_eflags (contexts (set_eax (rf_ctx rf) (of_int ret) s1) (rf_ctx rf))) (set_eax (rf_ctx rf) (of_int ret) s1)"
    using r by (auto simp: syscall_resume_def bind_eq_Some_conv Let_def)
  have "table_inv (s\<lparr>receiving := (receiving s)(t := None)\<rparr>) ps" by (rule table_inv_same [OF tab]) auto
  then have "table_inv s1 ps" by (rule receive_message_table [OF _ o(1)])
  then show ?thesis by (rule table_inv_same) (simp add: o(2))
qed

section \<open>Interrupts\<close>

text \<open>
  What holds of an interrupt with context \<open>c\<close> pushed at \<open>ctx\<close>: threads of the idle process run kernel
  code, the idle thread itself makes no \<^verbatim>\<open>SYS_RECEIVE\<close> (\<^verbatim>\<open>kmain\<close> only halts), and a \<^verbatim>\<open>SYS_NPROCESS\<close> is made
  while the heap is intact.  The last condition excludes runs of the code: a kernel whose heap a wrong split
  or a store through an unchecked pointer has corrupted may put a new process over an existing one.
\<close>

definition admissible :: "u32 \<Rightarrow> interrupt_context \<Rightarrow> kernel \<Rightarrow> bool" where
  "admissible ctx c s \<longleftrightarrow> (\<forall>t. current_thread s = Some t \<longrightarrow>
     (c_cs c AND 3 = 3 \<longrightarrow> fst t \<noteq> Idle) \<and>
     (interrupt_handler c (kidt s) = Some Syscall_Handler \<longrightarrow>
        (c_eax c = 7 \<longrightarrow> t \<noteq> idle) \<and>
        (c_eax c = 3 \<longrightarrow> heap_intact (c_ecx c) (enter_interrupt ctx c s))))"

lemma run_handler_inv:
  assumes inv: "sched_inv X s Q" and r: "run_handler junk frame h ctx s = Some (ctl, s')"
    and sys: "h = Syscall_Handler \<Longrightarrow> (c_eax (contexts s ctx) = 3 \<longrightarrow> heap_intact (c_ecx (contexts s ctx)) s) \<and>
      (c_eax (contexts s ctx) = 7 \<longrightarrow> current_thread s \<noteq> Some idle)"
    and usr: "\<And>t. \<lbrakk> current_thread s = Some t; c_cs (contexts s ctx) AND 3 = 3 \<rbrakk> \<Longrightarrow> fst t \<noteq> Idle"
  shows "\<exists>Q'. sched_inv X s' Q'"
proof (cases h)
  case Timer_Handler
  then show ?thesis using r timer_handler_inv [OF inv, of ctx] by (auto simp: run_handler_def)
next
  case Schedule
  then show ?thesis using r schedule_inv [OF inv, of ctx] by (auto simp: run_handler_def)
next
  case Syscall_Handler
  then have "syscall_handler junk frame ctx s = Some (ctl, s')" using r by (simp add: run_handler_def)
  then show ?thesis using syscall_handler_inv [OF inv] sys Syscall_Handler by blast
next
  case Exception_Handler
  obtain c where c: "current_thread s = Some c" using inv by (auto simp: sched_inv_def)
  have "s' = disable_interrupts s \<or> (c_cs (contexts s ctx) AND 3 = 3 \<and> sched_destroy_current_process frame s = Some (ctl, s'))"
    using r Exception_Handler by (auto simp: run_handler_def exception_handler_def Let_def split: if_splits option.splits)
  then show ?thesis
    using sched_destroy_current_inv [OF inv c usr [OF c], of frame] inv by auto
qed

lemma interrupt_inv:
  assumes inv: "sched_inv X s Q" and ad: "admissible ctx c s"
    and r: "interrupt junk frame ctx c s = Some (ctl, s')"
  shows "\<exists>Q'. sched_inv X s' Q'"
proof -
  define s1 where "s1 = enter_interrupt ctx c s"
  have i1: "sched_inv X s1 Q" using inv by (simp add: s1_def enter_interrupt_def Let_def)
  have f: "contexts s1 ctx = c\<lparr>c_eflags := cpu_flags s\<rparr>" "current_thread s1 = current_thread s" "kidt s1 = kidt s"
    by (simp_all add: s1_def enter_interrupt_def push_context_def disable_interrupts_def write_flags_def Let_def)
  have ih: "interrupt_handler (contexts s1 ctx) (kidt s1) = interrupt_handler c (kidt s)"
    using f by (simp add: interrupt_handler_def)
  obtain s2 ctl2 where o: "(case interrupt_handler c (kidt s) of None \<Rightarrow> Some (Returned, s1)
      | Some h \<Rightarrow> run_handler junk frame h ctx s1) = Some (ctl2, s2)"
    "s' = s2 \<or> s' = snd (restore_context ctx s2)"
    using r unfolding interrupt_def Let_def s1_def [symmetric] ih
    by (auto simp: bind_eq_Some_conv split: if_splits)
  have "\<exists>Q'. sched_inv X s2 Q'"
  proof (cases "interrupt_handler c (kidt s)")
    case None
    then show ?thesis using o(1) i1 by auto
  next
    case (Some h)
    then have rh: "run_handler junk frame h ctx s1 = Some (ctl2, s2)" using o(1) by simp
    obtain t where t: "current_thread s = Some t" using inv by (auto simp: sched_inv_def)
    show ?thesis
      by (rule run_handler_inv [OF i1 rh]) (use ad Some f t in \<open>simp_all add: admissible_def s1_def\<close>)
  qed
  moreover have "sched_inv X (snd (restore_context ctx s2)) Q' = sched_inv X s2 Q'" for Q'
    by (simp add: restore_context_def sched_inv_def)
  ultimately show ?thesis using o(2) by auto
qed

lemma exception_handler_cases:
  assumes "exception_handler frame ctx s = Some (ctl, s')"
  shows "s' = disable_interrupts s \<or> (c_cs (contexts s ctx) AND 3 = 3 \<and> sched_destroy_current_process frame s = Some (ctl, s'))"
  using assms by (auto simp: exception_handler_def Let_def split: if_splits option.splits)

lemma interrupt_table:
  assumes inv: "sched_inv X s Q" and tab: "table_inv s ps" and ad: "admissible ctx c s" and j: "length junk = 64"
    and r: "interrupt junk frame ctx c s = Some (ctl, s')"
  shows "\<exists>ps'. table_inv s' ps'"
proof -
  define s1 where "s1 = enter_interrupt ctx c s"
  have i1: "sched_inv X s1 Q" using inv by (simp add: s1_def enter_interrupt_def Let_def)
  have t1: "table_inv s1 ps" by (rule table_inv_same [OF tab]) (auto simp: s1_def enter_interrupt_def Let_def
      push_context_def disable_interrupts_def write_flags_def)
  have f: "contexts s1 ctx = c\<lparr>c_eflags := cpu_flags s\<rparr>" "kidt s1 = kidt s"
    by (simp_all add: s1_def enter_interrupt_def push_context_def disable_interrupts_def write_flags_def Let_def)
  have ih: "interrupt_handler (contexts s1 ctx) (kidt s1) = interrupt_handler c (kidt s)"
    using f by (simp add: interrupt_handler_def)
  obtain s2 ctl2 where o: "(case interrupt_handler c (kidt s) of None \<Rightarrow> Some (Returned, s1)
      | Some h \<Rightarrow> run_handler junk frame h ctx s1) = Some (ctl2, s2)"
    "s' = s2 \<or> s' = snd (restore_context ctx s2)"
    using r unfolding interrupt_def Let_def s1_def [symmetric] ih
    by (auto simp: bind_eq_Some_conv split: if_splits)
  obtain t where t: "current_thread s = Some t" using inv by (auto simp: sched_inv_def)
  have "\<exists>ps'. table_inv s2 ps'"
  proof (cases "interrupt_handler c (kidt s)")
    case None
    then show ?thesis using o(1) t1 by auto
  next
    case (Some h)
    then have rh: "run_handler junk frame h ctx s1 = Some (ctl2, s2)" using o(1) by simp
    show ?thesis
    proof (cases h)
      case Syscall_Handler
      then have "syscall_handler junk frame ctx s1 = Some (ctl2, s2)" using rh by (simp add: run_handler_def)
      then show ?thesis
        by (rule syscall_handler_table [OF i1 t1 _ _ j])
          (use ad Some t Syscall_Handler f in \<open>simp add: admissible_def s1_def\<close>)
    next
      case Exception_Handler
      then have "s2 = disable_interrupts s1 \<or> sched_destroy_current_process frame s1 = Some (ctl2, s2)"
        using exception_handler_cases [of frame ctx s1 ctl2 s2] rh Exception_Handler by (simp add: run_handler_def) blast
      then have "same_table s1 s2" by (elim disjE) (simp, rule destroy_current_table)
      then show ?thesis using table_inv_same [OF t1] by blast
    next
      case Timer_Handler
      then have "timer_handler ctx s1 = Some (ctl2, s2)" using rh by (simp add: run_handler_def)
      then show ?thesis using table_inv_same [OF t1 timer_handler_table] by blast
    next
      case Schedule
      then have "schedule ctx s1 = Some (ctl2, s2)" using rh by (simp add: run_handler_def)
      then show ?thesis using table_inv_same [OF t1 schedule_table] by blast
    qed
  qed
  moreover have "same_table s2 (snd (restore_context ctx s2))" by (simp add: restore_context_def same_table_def)
  ultimately show ?thesis using o(2) table_inv_same by blast
qed

end
