(* ===== verification/Kernel_Reach.thy ===== *)
theory Kernel_Reach
  imports Kernel_Step Kernel_Heap
begin

text \<open>
  The kernel as a transition system, from \<open>sched_init\<close> on, and its invariant.  A step is an interrupt
  with its whole handler; the rest of a system call whose thread waited inside \<open>ipc_receive\<close>; a turn of
  the reaper over one process; or a store of the running thread.  What \<^verbatim>\<open>kmain\<close> and the other kernel
  threads do besides is to enable interrupts, to halt until the next one and to make system calls.
  The reaper is one step although interrupts are enabled while it runs.
\<close>

section \<open>Steps\<close>

text \<open>\<open>reaper_visit p\<close> is the body of the loop of \<^verbatim>\<open>reaper_thread\<close>.\<close>

definition reaper_visit :: "pref \<Rightarrow> kernel \<Rightarrow> kernel option" where
  "reaper_visit p s = do {
     pr \<leftarrow> procs s p;
     if p_state pr = PROCESS_DYING then sched_destroy_process (Some p) s else Some s }"

definition irq_allowed :: "interrupt_context \<Rightarrow> kernel \<Rightarrow> bool" where
  "irq_allowed c s \<longleftrightarrow> (32 \<le> c_int_num c \<and> c_int_num c < 48 \<longrightarrow> cpu_flags s AND 0x200 \<noteq> 0)"

inductive kernel_step :: "kernel \<Rightarrow> kernel \<Rightarrow> bool" where
  interrupt_step: "\<lbrakk> current_thread s = Some t; receiving s t = None; irq_allowed c s; admissible ctx c s; length junk = 64;
     interrupt junk frame ctx c s = Some (ctl, s') \<rbrakk> \<Longrightarrow> kernel_step s s'"
| resume_step: "\<lbrakk> current_thread s = Some t; receiving s t \<noteq> None; syscall_resume s = Some s' \<rbrakk> \<Longrightarrow> kernel_step s s'"
| reaper_step: "\<lbrakk> current_process s = Some Idle; reaper_visit p s = Some s' \<rbrakk> \<Longrightarrow> kernel_step s s'"
| store_step: "vstore a bs s = Some s' \<Longrightarrow> kernel_step s s'"
| enable_step: "current_process s = Some Idle \<Longrightarrow> kernel_step s (write_flags (cpu_flags s OR 0x200) s)"

inductive_cases kernel_stepE: "kernel_step s s'"

text \<open>Both invariants together.\<close>

definition kernel_ok :: "kernel \<Rightarrow> bool" where
  "kernel_ok s \<longleftrightarrow> (\<exists>Q. sched_inv {} s Q) \<and> (\<exists>ps. table_inv s ps)"

lemma kernel_step_ok:
  assumes "kernel_step s s'" and "kernel_ok s"
  shows "kernel_ok s'"
proof -
  obtain Q ps where inv: "sched_inv {} s Q" and tab: "table_inv s ps" using assms(2) by (auto simp: kernel_ok_def)
  show ?thesis
    using assms(1)
  proof cases
    case (interrupt_step t c ctx junk frame ctl)
    then show ?thesis using interrupt_inv [OF inv] interrupt_table [OF inv tab] unfolding kernel_ok_def by blast
  next
    case (resume_step t)
    then show ?thesis using syscall_resume_inv [OF inv] syscall_resume_table [OF tab] unfolding kernel_ok_def by blast
  next
    case (reaper_step p)
    have n: "normal (procs s) idle" using inv by (auto simp: sched_inv_def dest: sched_okD(3))
    obtain pr where pr: "procs s p = Some pr"
      "(if p_state pr = PROCESS_DYING then sched_destroy_process (Some p) s else Some s) = Some s'"
      using reaper_step(2) by (auto simp: reaper_visit_def bind_eq_Some_conv)
    show ?thesis
    proof (cases "p_state pr = PROCESS_DYING")
      case True
      then have "p \<noteq> Idle" "sched_destroy_process (Some p) s = Some s'" using n pr by (auto simp: normal_def)
      then show ?thesis using sched_destroy_process_inv [OF inv] destroy_process_table [OF inv tab]
        unfolding kernel_ok_def by blast
    qed (use pr inv tab in \<open>auto simp: kernel_ok_def\<close>)
  next
    case (store_step a bs)
    then have "same_sched s s'" by (rule memory_same(8))
    then show ?thesis using inv sched_inv_same table_inv_same [OF tab same_table_sched] unfolding kernel_ok_def by blast
  next
    case enable_step
    moreover have "table_inv (write_flags f s) ps" for f by (rule table_inv_same [OF tab]) simp
    ultimately show ?thesis using inv by (auto simp: kernel_ok_def)
  qed
qed

section \<open>Boot\<close>

text \<open>The kernel's globals before \<open>sched_init\<close>: static data is zero.\<close>

definition boot_kernel :: "kernel \<Rightarrow> bool" where
  "boot_kernel s \<longleftrightarrow> procs s = [Idle \<mapsto> zero_process] \<and> threads s = (\<lambda>_. zero_thread) \<and>
     queues s = \<lparr>qnode = (\<lambda>_. zero_node), qhead = (\<lambda>_. \<lparr>q_prev = None, q_next = None, q_size = 0\<rparr>)\<rparr> \<and>
     receiving s = (\<lambda>_. None) \<and> current_thread s = None \<and> current_process s = None \<and> first_process s = None \<and>
     current_pid s = 0 \<and> ticks s = 0 \<and> cr3 s = kernel_cr3 s"

lemma pit_irq0: "\<exists>tr'. pit_set_frequency dev 0 f m tr = Some tr'"
  by (auto simp: pit_set_frequency_def pic_irq_set_mask_def pic_irq_clear_mask_def irq_bit_def Let_def
      split: prod.splits)

lemma sched_init_ok:
  assumes "boot_kernel s"
  obtains s' where "sched_init dev f s = Some (0, s')" "sched_inv {} s' (\<lambda>_. [])" "table_inv s' [Idle]"
proof -
  define fr where "fr = (if f \<le> 18 then 100 else f)"
  obtain tr where tr: "pit_set_frequency dev 0 fr 6 (ports s) = Some tr" using pit_irq0 by blast
  note b = assms [unfolded boot_kernel_def]
  define s' where "s' = snd (the (sched_init dev f s))"
  have e: "sched_init dev f s = Some (0, s')"
    unfolding s'_def using tr b
    by (simp add: sched_init_def fr_def [symmetric] with_idt_def Let_def set_process_def set_thread_def thread_at_def)
  have q: "queues_ok (queues s') (\<lambda>_. [])"
    unfolding s'_def using tr b
    by (simp add: sched_init_def fr_def [symmetric] with_idt_def Let_def set_process_def set_thread_def thread_at_def
        queues_ok_def queue_ok_def queue_init_def queue_simps zero_node_def)
  have th: "threads s' = (\<lambda>_. zero_thread)(idle := zero_thread\<lparr>t_process := Some Idle\<rparr>)"
    "current_thread s' = Some idle" "current_process s' = Some Idle"
    unfolding s'_def using tr b
    by (simp_all add: sched_init_def fr_def [symmetric] with_idt_def Let_def set_process_def set_thread_def thread_at_def)
  define pr where "pr = the (procs s' Idle)"
  have pr: "procs s' = [Idle \<mapsto> pr]" "p_state pr = PROCESS_NORMAL" "p_cr3 pr = cr3 s'"
    "p_prev pr = None" "p_next pr = None" "p_dad pr = None" "rb_capacity (p_ring pr) = 0" "rb_count (p_ring pr) = 0"
    "first_process s' = Some Idle"
    unfolding pr_def s'_def using tr b
    by (simp_all add: sched_init_def fr_def [symmetric] with_idt_def Let_def set_process_def set_thread_def thread_at_def
        zero_process_def)
  have "sched_ok {} (threads s') (procs s') idle (\<lambda>_. [])"
    by (rule sched_okI) (auto simp: th pr thread_ok_def normal_def zero_thread_def split: if_splits)
  then have "sched_inv {} s' (\<lambda>_. [])" using q th pr by (simp add: sched_inv_def)
  moreover have "table_inv s' [Idle]"
    by (auto simp: table_inv_def plist_def pr mailbox_ok_def split: if_splits)
  ultimately show thesis using that e by blast
qed

inductive reachable :: "device \<Rightarrow> kernel \<Rightarrow> bool" for dev where
  boot: "\<lbrakk> boot_kernel s; sched_init dev f s = Some (r, s') \<rbrakk> \<Longrightarrow> reachable dev (syscall_init s')"
| step: "\<lbrakk> reachable dev s; kernel_step s s' \<rbrakk> \<Longrightarrow> reachable dev s'"

lemma with_idt_inv [simp]: "sched_inv X (with_idt f s) Q = sched_inv X s Q"
  by (simp add: with_idt_def Let_def sched_inv_def)

lemma with_idt_table [simp]: "table_inv (with_idt f s) ps = table_inv s ps"
  by (simp add: with_idt_def Let_def table_inv_def)

lemma reachable_ok: "reachable dev s \<Longrightarrow> kernel_ok s"
proof (induction rule: reachable.induct)
  case (boot s f r s')
  then have "sched_inv {} s' (\<lambda>_. [])" "table_inv s' [Idle]" using sched_init_ok [OF boot(1), of dev f] by auto
  then show ?case by (auto simp: syscall_init_def kernel_ok_def)
next
  case (step s s')
  then show ?case using kernel_step_ok by blast
qed

section \<open>A kernel to look at\<close>

definition demo_boot :: kernel where
  "demo_boot = heap_state.extend boot_machine
     \<lparr>queues = \<lparr>qnode = (\<lambda>_. zero_node), qhead = (\<lambda>_. \<lparr>q_prev = None, q_next = None, q_size = 0\<rparr>)\<rparr>,
      threads = (\<lambda>_. zero_thread), procs = [Idle \<mapsto> zero_process], contexts = (\<lambda>_. undefined), receiving = (\<lambda>_. None),
      current_thread = None, current_process = None, first_process = None, current_pid = 0, ticks = 0,
      timer_frequency = 0, ms_per_tick = 0, tss = tss_zero, ports = [],
      kidt = \<lparr>idt = replicate 256 (make_gate 0 0), handlers = replicate 256 None, eflags = 0\<rparr>\<rparr>"

lemma demo_boot_ok: "boot_kernel demo_boot"
  by (simp add: boot_kernel_def demo_boot_def heap_state.extend_def boot_machine_def)

end
