(* ===== verification/Kernel_Demo.thy ===== *)
theory Kernel_Demo
  imports Kernel_Reach
begin

text \<open>
  A small running kernel on which the properties can be seen at work: the idle process and one user
  process, whose threads are where an assignment of threads to queues puts them.  The address space of
  the idle process maps one page at \<^verbatim>\<open>0x400000\<close>, that of the user process none.
\<close>

section \<open>Queues\<close>

definition empty_queues :: "(tref, qref) qstore" where
  "empty_queues = \<lparr>qnode = (\<lambda>_. zero_node), qhead = (\<lambda>_. \<lparr>q_prev = None, q_next = None, q_size = 0\<rparr>)\<rparr>"

definition demo_queues :: "(tref \<times> qref) list \<Rightarrow> (tref, qref) qstore" where
  "demo_queues asg = fold (\<lambda>(t, q) S. the (queue_push (Some q) (Some t) S)) asg empty_queues"

definition members :: "(tref \<times> qref) list \<Rightarrow> qref \<Rightarrow> tref list" where
  "members asg q = map fst (filter (\<lambda>(t, r). r = q) asg)"

lemma set_members: "t \<in> set (members asg q) \<longleftrightarrow> (t, q) \<in> set asg"
  by (force simp: members_def)

lemma empty_queues_ok: "queues_ok empty_queues (\<lambda>_. [])"
  by (simp add: queues_ok_def queue_ok_def empty_queues_def zero_node_def)

lemma demo_queues_ok: "distinct (map fst asg) \<Longrightarrow> queues_ok (demo_queues asg) (members asg)"
proof (induction asg rule: rev_induct)
  case Nil
  then show ?case using empty_queues_ok by (simp add: demo_queues_def members_def [abs_def])
next
  case (snoc x asg)
  obtain t q where x: "x = (t, q)" by (cases x)
  have ih: "queues_ok (demo_queues asg) (members asg)" using snoc by simp
  obtain S where S: "queue_push (Some q) (Some t) (demo_queues asg) = Some S"
    "queues_ok S ((\<lambda>r. removeAll t (members asg r))(q := removeAll t (members asg q) @ [t]))"
    by (rule queue_push_refines [OF ih])
  have "t \<notin> set (members asg r)" for r using snoc.prems by (force simp: x set_members)
  then have "(\<lambda>r. removeAll t (members asg r))(q := removeAll t (members asg q) @ [t]) = members (asg @ [x])"
    by (auto simp: x members_def fun_eq_iff)
  moreover have "demo_queues (asg @ [x]) = S" using S(1) by (simp add: demo_queues_def x)
  ultimately show ?case using S(2) by simp
qed

section \<open>The kernel\<close>

abbreviation user :: pref where "user \<equiv> Proc 0xE0000010"

fun held_state :: "qref \<Rightarrow> thread_state" where
  "held_state Ready = THREAD_READY"
| "held_state Blocked = THREAD_BLOCKED"
| "held_state Zombie = THREAD_ZOMBIE"
| "held_state Sleep = THREAD_SLEEPING"
| "held_state (Waiters p) = THREAD_BLOCKED"

definition demo_thread :: "tref \<Rightarrow> thread_state \<Rightarrow> thread" where
  "demo_thread t st = zero_thread\<lparr>t_process := Some (fst t), t_state := st, t_sp0 := 0xE0001000 + of_nat (snd t), t_wake_tick := 7\<rparr>"

definition demo_threads :: "tref \<Rightarrow> (tref \<times> qref) list \<Rightarrow> tref \<Rightarrow> thread" where
  "demo_threads c asg t =
     (if t = c then demo_thread t THREAD_RUNNING
      else case map_of asg t of None \<Rightarrow> zero_thread | Some q \<Rightarrow> demo_thread t (held_state q))"

definition demo_ring :: ring_buffer where
  "demo_ring = \<lparr>rb_buf = replicate 1216 0, rb_elem_size = 76, rb_capacity = 16, rb_head = 0, rb_tail = 0, rb_count = 0\<rparr>"

definition demo_procs :: "process_state \<Rightarrow> pref \<rightharpoonup> process" where
  "demo_procs st = [
     Idle \<mapsto> zero_process\<lparr>p_prev := Some user, p_cr3 := 0x1000, p_num_threads := 3\<rparr>,
     user \<mapsto> zero_process\<lparr>p_ring := demo_ring, p_next := Some Idle, p_dad := Some Idle, p_cr3 := 0x5000,
       p_state := st, p_pid := 1, p_num_threads := 2\<rparr>]"

definition demo_memory :: "u32 \<Rightarrow> nat \<Rightarrow> u32" where
  "demo_memory f i =
     (if f = 0x1000 then if i = 1023 then 0x1003 else if i = 1 then 0x2007 else 0
      else if f = 0x2000 then if i = 0 then 0x3007 else 0
      else if f = 0x3000 then if i = 0 then 0x6D6D7547 else if i = 1 then 0x79 else 0
      else if f = 0x5000 \<and> i = 1023 then 0x5003 else 0)"

definition demo_context :: interrupt_context where
  "demo_context = first_context user 0x400000 0xBFFFF000"

definition demo :: "tref \<Rightarrow> process_state \<Rightarrow> (tref \<times> qref) list \<Rightarrow> kernel" where
  "demo c st asg = heap_state.extend
     (boot_machine\<lparr>pmem := demo_memory, cr3 := p_cr3 (the (demo_procs st (fst c)))\<rparr>)
     \<lparr>queues = demo_queues asg, threads = demo_threads c asg, procs = demo_procs st,
      contexts = (\<lambda>_. demo_context), receiving = (\<lambda>_. None),
      current_thread = Some c, current_process = Some (fst c), first_process = Some user, current_pid = 2, ticks = 6,
      timer_frequency = 100, ms_per_tick = 10, tss = tss_zero, ports = [],
      kidt = \<lparr>idt = replicate 256 (make_gate 0 0x8E), handlers = replicate 256 None, eflags = 0\<rparr>\<rparr>"

lemma demo_fields [simp]:
  "queues (demo c st asg) = demo_queues asg" "threads (demo c st asg) = demo_threads c asg"
  "procs (demo c st asg) = demo_procs st" "contexts (demo c st asg) = (\<lambda>_. demo_context)"
  "current_thread (demo c st asg) = Some c" "current_process (demo c st asg) = Some (fst c)"
  "first_process (demo c st asg) = Some user" "ticks (demo c st asg) = 6" "current_pid (demo c st asg) = 2"
  "cr3 (demo c st asg) = p_cr3 (the (demo_procs st (fst c)))" "pmem (demo c st asg) = demo_memory"
  "cpu_flags (demo c st asg) = 0x202" "receiving (demo c st asg) = (\<lambda>_. None)"
  by (simp_all add: demo_def heap_state.extend_def boot_machine_def)

definition demo_wf :: "tref \<Rightarrow> (tref \<times> qref) list \<Rightarrow> bool" where
  "demo_wf c asg \<longleftrightarrow> distinct (c # map fst asg) \<and> (c = idle \<or> (idle, Ready) \<in> set asg) \<and>
     (\<forall>(t, q) \<in> set ((c, Ready) # asg). fst t \<in> {Idle, user} \<and> snd t < 8 \<and> (\<forall>p. q = Waiters p \<longrightarrow> p = fst t) \<and>
       (t = idle \<longrightarrow> q = Ready))"

lemma demo_procs_simps [simp]:
  "demo_procs st Idle = Some (zero_process\<lparr>p_prev := Some user, p_cr3 := 0x1000, p_num_threads := 3\<rparr>)"
  "demo_procs st user = Some (zero_process\<lparr>p_ring := demo_ring, p_next := Some Idle, p_dad := Some Idle, p_cr3 := 0x5000,
       p_state := st, p_pid := 1, p_num_threads := 2\<rparr>)"
  by (simp_all add: demo_procs_def)

lemma demo_inv:
  assumes "demo_wf c asg"
  shows "sched_inv {} (demo c st asg) (members asg)"
proof -
  have d: "distinct (map fst asg)" "c \<notin> fst ` set asg" using assms by (simp_all add: demo_wf_def)
  have w: "fst t \<in> {Idle, user} \<and> snd t < 8 \<and> (\<forall>p. q = Waiters p \<longrightarrow> p = fst t) \<and> (t = idle \<longrightarrow> q = Ready)"
    if "(t, q) \<in> set ((c, Ready) # asg)" for t q
    using assms that unfolding demo_wf_def by blast
  have th: "demo_threads c asg t = demo_thread t (held_state q)" if "(t, q) \<in> set asg" for t q
  proof -
    have "t \<noteq> c" using that d(2) by force
    then show ?thesis using map_of_is_SomeI [OF d(1) that] by (simp add: demo_threads_def)
  qed
  have dom: "demo_procs st p \<noteq> None" if "p \<in> {Idle, user}" for p using that by auto
  have ok: "thread_ok (demo_threads c asg) (demo_procs st) t" if "(t, q) \<in> set asg" for t q
    using w [of t q] that dom by (simp add: thread_ok_def th [OF that] demo_thread_def)
  have okc: "thread_ok (demo_threads c asg) (demo_procs st) c"
    using w [of c Ready] dom by (simp add: thread_ok_def demo_threads_def demo_thread_def)
  have nc: "takeWhile (\<lambda>x. x \<noteq> c) (members asg Ready) = members asg Ready"
    by (rule takeWhile_absent) (use d(2) in \<open>force simp: set_members\<close>)
  have "sched_ok {} (demo_threads c asg) (demo_procs st) c (members asg)"
  proof (rule sched_okI)
    show "thread_ok (demo_threads c asg) (demo_procs st) c" by (rule okc)
    show "thread_ok (demo_threads c asg) (demo_procs st) idle"
      using okc ok [of idle Ready] assms by (auto simp: demo_wf_def)
    show "normal (demo_procs st) idle" by (simp add: normal_def zero_process_def)
    show "thread_ok (demo_threads c asg) (demo_procs st) t \<and> may_hold q (t_state (demo_threads c asg t)) t"
      if "t \<in> set (members asg q)" for q t
      using that ok [of t q] w [of t q] by (cases q) (auto simp: set_members th demo_thread_def may_hold_def)
    show "q = Ready" if "idle \<in> set (members asg q)" for q using that w [of idle q] by (simp add: set_members)
    show "t_state (demo_threads c asg c) = THREAD_RUNNING" by (simp add: demo_threads_def demo_thread_def)
    show "idle \<in> set (takeWhile (\<lambda>x. x \<noteq> c) (members asg Ready))" if "c \<noteq> idle"
      unfolding nc using assms that by (simp add: demo_wf_def set_members)
    show "t = c \<and> t_state (demo_threads c asg t) = THREAD_RUNNING \<or> (\<exists>q. t \<in> set (members asg q))"
      if t: "thread_ok (demo_threads c asg) (demo_procs st) t" for t
    proof (cases "t = c")
      case True
      then show ?thesis by (simp add: demo_threads_def demo_thread_def)
    next
      case False
      then obtain q where "map_of asg t = Some q"
        using t by (cases "map_of asg t") (auto simp: thread_ok_def demo_threads_def zero_thread_def)
      then have "(t, q) \<in> set asg" by (rule map_of_SomeD)
      then show ?thesis by (auto simp: set_members)
    qed
  qed
  moreover have "demo_procs st (fst c) \<noteq> None" using w [of c Ready] by auto
  ultimately show ?thesis using demo_queues_ok [OF d(1)] by (auto simp: sched_inv_def)
qed

lemma demo_ring_ok: "mail_inv demo_ring" "mail_of demo_ring = []"
  by (simp_all add: mail_inv_def rb_sized_def rb_inv_def demo_ring_def mail_of_def rb_list_def)

lemma demo_table: "table_inv (demo c st asg) [user, Idle]"
proof -
  have "dom (demo_procs st) = {user, Idle}" by (auto simp: demo_procs_def)
  then have "plist (demo_procs st) (Some user) [user, Idle]" by (simp add: plist_def zero_process_def)
  moreover have "mailbox_ok p (p_ring r)" if "demo_procs st p = Some r" for p r
    using that demo_ring_ok(1) by (auto simp: demo_procs_def mailbox_ok_iff zero_process_def split: if_splits)
  ultimately show ?thesis by (simp add: table_inv_def)
qed

text \<open>The kernel right after its initialisation.\<close>

definition demo_kernel :: kernel where
  "demo_kernel = syscall_init (snd (the (sched_init plain_device 100 demo_boot)))"

lemma demo_kernel_reachable: "reachable plain_device demo_kernel"
proof -
  obtain s where "sched_init plain_device 100 demo_boot = Some (0, s)" by (rule sched_init_ok [OF demo_boot_ok])
  then show ?thesis using reachable.boot [OF demo_boot_ok] by (simp add: demo_kernel_def)
qed

end
