(* ===== verification/Sched_Props.thy ===== *)
theory Sched_Props
  imports Kernel_Demo
begin

text \<open>
  The properties of the scheduler: it is round robin over the ready queue, so a ready thread runs
  within as many timer interrupts as there are threads before it; the timer wakes exactly the sleepers
  that are due; a thread that exits never runs again, and stops the processor when the next ready
  thread belongs to a dying process.
\<close>

section \<open>No faults\<close>

text \<open>\<^verbatim>\<open>schedule\<close> has read the process of the thread it switches to before \<^verbatim>\<open>switch_context\<close> tests for it.\<close>

lemma switch_context_halts:
  assumes "switch_context (Some n) s = Some (Halted, s')" and "thread_at n s = Some th"
  shows "t_process th = None"
  using assms
  by (cases "current_thread s"; cases "t_process th")
    (auto simp: switch_context_def restore_context_def Let_def bind_eq_Some_conv)

lemma schedule_not_halted:
  assumes "schedule ctx s = Some (r, s')"
  shows "r \<noteq> Halted"
proof
  assume h: "r = Halted"
  then have "\<not> queue_empty (Some Ready) (queues s)" using assms by (auto simp: schedule_def)
  then show False
    using assms h unfolding schedule_def Let_def
    by (simp only: if_False bind_eq_Some_conv split_beta)
      (elim exE conjE, auto simp: bind_eq_Some_conv split: if_splits dest!: switch_context_halts)
qed

lemma timer_handler_not_halted: "timer_handler ctx s = Some (r, s') \<Longrightarrow> r \<noteq> Halted"
  by (auto simp: timer_handler_def Let_def bind_eq_Some_conv dest: schedule_not_halted)

lemma sys_yield_not_halted: "sys_yield frame s = Some (r, s') \<Longrightarrow> r \<noteq> Halted"
  by (auto simp: sys_yield_def Let_def bind_eq_Some_conv dest: schedule_not_halted)

lemma sched_thread_sleep_not_halted: "sched_thread_sleep ctx w s = Some (r, s') \<Longrightarrow> r \<noteq> Halted"
  by (auto simp: sched_thread_sleep_def Let_def bind_eq_Some_conv dest: schedule_not_halted
      split: option.splits if_splits)

text \<open>
  C6. In every state in which the invariants of the scheduler and of the process table hold, the timer
  interrupt, yielding, sleeping and \<open>schedule\<close> neither fault nor loop for ever nor stop the system,
  whatever their arguments: in particular, they never get to the \<^verbatim>\<open>PANIC\<close> of \<open>switch_context\<close>.  The exit of a
  thread and the search for a process neither fault nor loop for ever in \<open>schedule\<close> or in the list (that an
  exit may end in its loop around \<^verbatim>\<open>hlt\<close> is property C12).
\<close>

theorem scheduler_never_faults:
  assumes "kernel_ok s"
  shows "(\<exists>r s'. timer_handler ctx s = Some (r, s') \<and> r \<noteq> Halted) \<and>
    (\<exists>r s'. sys_yield frame s = Some (r, s') \<and> r \<noteq> Halted) \<and>
    (\<exists>r s'. sched_thread_sleep ctx w s = Some (r, s') \<and> r \<noteq> Halted) \<and>
    (\<exists>r s'. schedule ctx s = Some (r, s') \<and> r \<noteq> Halted) \<and>
    sched_exit_current_thread ctx v s \<noteq> None \<and> sched_get_process pid s \<noteq> None"
proof -
  obtain Q ps where i: "sched_inv {} s Q" and t: "table_inv s ps" using assms by (auto simp: kernel_ok_def)
  obtain c where c: "current_thread s = Some c" using i by (auto simp: sched_inv_def)
  have "sched_get_process pid s \<noteq> None"
    using t find_process_seg [of s None ps "{}" pid] by (simp add: table_inv_def plist_def sched_get_process_def)
  moreover have "\<exists>r s'. timer_handler ctx s = Some (r, s') \<and> r \<noteq> Halted"
    using timer_handler_inv [OF i, of ctx] timer_handler_not_halted by blast
  moreover have "\<exists>r s'. sys_yield frame s = Some (r, s') \<and> r \<noteq> Halted"
    using sys_yield_inv [OF i, of frame] sys_yield_not_halted by blast
  moreover have "\<exists>r s'. sched_thread_sleep ctx w s = Some (r, s') \<and> r \<noteq> Halted"
    using sched_thread_sleep_inv [OF i, of ctx w] sched_thread_sleep_not_halted by blast
  moreover have "\<exists>r s'. schedule ctx s = Some (r, s') \<and> r \<noteq> Halted"
    using schedule_inv [OF i, of ctx] schedule_not_halted by blast
  ultimately show ?thesis using sched_exit_inv [OF i, of ctx v] by blast
qed

text \<open>Two threads ready, one asleep, one waiting for a message.\<close>

definition demo_line :: "(tref \<times> qref) list" where
  "demo_line = [((user, 0), Ready), ((Idle, 1), Ready), ((Idle, 2), Sleep), ((user, 1), Waiters user)]"

lemma demo_line_wf: "demo_wf idle demo_line"
  by (simp add: demo_wf_def demo_line_def)

lemma demo_line_members:
  "members demo_line Ready = [(user, 0), (Idle, 1)]" "members demo_line Sleep = [(Idle, 2)]"
  "members demo_line (Waiters user) = [(user, 1)]"
  by (simp_all add: members_def demo_line_def)

lemmas demo_line_inv = demo_inv [OF demo_line_wf, of PROCESS_NORMAL]

theorem scheduler_never_faults_witness:
  "(\<exists>r s'. timer_handler 0xE0001F00 (demo idle PROCESS_NORMAL demo_line) = Some (r, s') \<and> r \<noteq> Halted) \<and>
   (\<exists>r s'. sys_yield (0xE0001F00, demo_context) (demo idle PROCESS_NORMAL demo_line) = Some (r, s') \<and> r \<noteq> Halted) \<and>
   sched_exit_current_thread 0xE0001F00 3 (demo idle PROCESS_NORMAL demo_line) \<noteq> None \<and>
   sched_get_process 1 (demo idle PROCESS_NORMAL demo_line) \<noteq> None"
proof -
  have "kernel_ok (demo idle PROCESS_NORMAL demo_line)" using demo_line_inv demo_table [of idle] unfolding kernel_ok_def by blast
  from scheduler_never_faults [OF this] show ?thesis by blast
qed

section \<open>Round robin\<close>

text \<open>The scheduler on lists: the running thread goes to the end of the line, and the first of the line
  gets the processor unless its process is dying.\<close>

definition pick :: "bool \<Rightarrow> (tref \<Rightarrow> bool) \<Rightarrow> tref \<Rightarrow> tref list \<Rightarrow> tref \<times> tref list" where
  "pick running doomed c ready =
     (if ready = [] then (c, [])
      else let line = (if running then removeAll c ready @ [c] else ready)
           in (if hd line = c \<or> doomed (hd line) then c else hd line, tl line))"

lemma offered_other:
  assumes "sched_ok X T P c Q" and "q \<noteq> Ready"
  shows "offered T c Q q = Q q"
proof (cases "t_state (T c) = THREAD_RUNNING")
  case True
  have "c \<notin> set (Q q)"
  proof
    assume "c \<in> set (Q q)"
    then have "may_hold q (t_state (T c)) c" using sched_okD(4) [OF assms(1)] by blast
    then show False using True assms(2) by (cases q) (auto simp: may_hold_def)
  qed
  then show ?thesis using assms(2) True by (simp add: offered_def moved_def)
qed (simp add: offered_def)

lemma offered_ready:
  "offered T c Q Ready = (if t_state (T c) = THREAD_RUNNING then removeAll c (Q Ready) @ [c] else Q Ready)"
  by (simp add: offered_def moved_def)

lemma run_thread_sel [simp]:
  "fst (run_thread n s) = Restored (contexts s (t_sp0 (threads s n)))"
  "current_thread (snd (run_thread n s)) = Some n" "procs (snd (run_thread n s)) = procs s"
  "t_sp0 (threads (snd (run_thread n s)) t) = t_sp0 (threads s t)"
  by (simp_all add: run_thread_def Let_def)

text \<open>
  C4. \<open>schedule\<close> refines the scheduler on lists: the current thread and the ready queue afterwards are
  those \<open>pick\<close> gives, the other queues and the invariant stay; when another thread is chosen its
  saved context is restored and the current one's is saved, otherwise \<open>schedule\<close> returns to its caller.
\<close>

theorem schedule_refines_pick:
  assumes "sched_inv {} s Q" and "current_thread s = Some c"
  shows "\<exists>r s' Q' n. schedule ctx s = Some (r, s') \<and> sched_inv {} s' Q' \<and> current_thread s' = Some n \<and>
    (n, Q' Ready) = pick (t_state (threads s c) = THREAD_RUNNING) (\<lambda>t. dying t s) c (Q Ready) \<and>
    (\<forall>q. q \<noteq> Ready \<longrightarrow> Q' q = Q q) \<and>
    r = (if n = c then Returned else Restored (contexts s (t_sp0 (threads s n)))) \<and>
    (n \<noteq> c \<and> ctx \<noteq> 0 \<longrightarrow> t_sp0 (threads s' c) = ctx)"
proof -
  have o: "sched_ok {} (threads s) (procs s) c Q" "queues_ok (queues s) Q" using assms by (auto simp: sched_inv_def)
  note same = offered_other [OF o(1)]
  show ?thesis
  proof (cases "Q Ready = []")
    case True
    then show ?thesis using assms schedule_empty [OF o(2)]
      by (intro exI [of _ s] exI [of _ Q] exI [of _ c] exI [of _ Returned]) (simp add: pick_def)
  next
    case ne: False
    show ?thesis
    proof (rule schedule_ok [OF assms, of ctx])
      fix n xs qs
      let ?s = "s\<lparr>threads := saved ctx c (threads s), queues := qs\<rparr>"
      assume n: "offered (threads s) c Q Ready = n # xs" "n = c \<or> dying n s" "schedule ctx s = Some (Returned, ?s)"
        "sched_inv {} ?s ((offered (threads s) c Q)(Ready := xs))"
      have "(c, xs) = pick (t_state (threads s c) = THREAD_RUNNING) (\<lambda>t. dying t s) c (Q Ready)"
        using n(1,2) ne by (auto simp: pick_def offered_ready)
      then show ?thesis using n assms same
        by (intro exI [of _ "(offered (threads s) c Q)(Ready := xs)"] exI [of _ c] exI [of _ Returned] exI [of _ ?s]) auto
    next
      fix n xs qs
      let ?s = "s\<lparr>threads := saved ctx c (threads s), queues := qs\<rparr>"
      assume n: "offered (threads s) c Q Ready = n # xs" "n \<noteq> c" "\<not> dying n s" "schedule ctx s = Some (run_thread n ?s)"
        "sched_inv {} (snd (run_thread n ?s)) ((offered (threads s) c Q)(Ready := xs))"
      have "(n, xs) = pick (t_state (threads s c) = THREAD_RUNNING) (\<lambda>t. dying t s) c (Q Ready)"
        using n(1,2,3) ne by (auto simp: pick_def offered_ready)
      moreover have "run_thread n ?s = (Restored (contexts s (t_sp0 (threads s n))), snd (run_thread n ?s))"
        by (rule prod_eqI) (use n(2) in simp_all)
      ultimately show ?thesis using n assms same
        by (intro exI [of _ "(offered (threads s) c Q)(Ready := xs)"] exI [of _ n]
            exI [of _ "Restored (contexts s (t_sp0 (threads s n)))"]
            exI [of _ "snd (run_thread n ?s)"]) auto
    qed (use ne in blast)
  qed
qed

text \<open>Two threads wait behind the running one, which goes to the end of the line.\<close>

theorem schedule_refines_pick_witness:
  "\<exists>s' Q'. schedule 0xE0001F00 (demo idle PROCESS_NORMAL demo_line) = Some (Restored demo_context, s') \<and>
     sched_inv {} s' Q' \<and> current_thread s' = Some (user, 0) \<and> Q' Ready = [(Idle, 1), idle]"
proof -
  let ?s = "demo idle PROCESS_NORMAL demo_line"
  have st: "t_state (threads ?s idle) = THREAD_RUNNING" by (simp add: demo_threads_def demo_thread_def)
  have pk: "pick (t_state (threads ?s idle) = THREAD_RUNNING) (\<lambda>t. dying t ?s) idle (members demo_line Ready) =
      ((user, 0), [(Idle, 1), idle])"
    unfolding st by (simp add: pick_def demo_line_members dying_def)
  obtain r s' Q' n where w: "schedule 0xE0001F00 ?s = Some (r, s')" "sched_inv {} s' Q'" "current_thread s' = Some n"
    "(n, Q' Ready) = ((user, 0), [(Idle, 1), idle])"
    "r = (if n = idle then Returned else Restored (contexts ?s (t_sp0 (threads ?s n))))"
    using schedule_refines_pick [OF demo_line_inv demo_fields(5), where ctx = "0xE0001F00"]
    unfolding pk by blast
  then show ?thesis by (intro exI [of _ s'] exI [of _ Q']) simp
qed

section \<open>Waiting time\<close>

text \<open>The processor interrupted by the timer again and again; \<open>as\<close> are the addresses of the contexts.\<close>

fun timer_run :: "u32 list \<Rightarrow> kernel \<Rightarrow> kernel option" where
  "timer_run [] s = Some s"
| "timer_run (a # as) s = do { (r, s) \<leftarrow> timer_handler a s; timer_run as s }"

lemma timer_handler_front:
  assumes inv: "sched_inv X s Q" and q: "Q Ready = ws @ t # xs" and t: "normal (procs s) t"
    and c: "current_thread s \<noteq> Some t"
  obtains r s' Q' ws' xs' where "timer_handler ctx s = Some (r, s')" "sched_inv X s' Q'" "procs s' = procs s"
    "current_thread s' = Some t \<or> (Q' Ready = ws' @ t # xs' \<and> length ws' < length ws)"
proof -
  obtain d where d: "current_thread s = Some d" using inv by (auto simp: sched_inv_def)
  define W where "W = {t \<in> set (Q Sleep). t_wake_tick (threads s t) \<le> ticks s + 1}"
  obtain s1 Q1 us where s1: "timer_handler ctx s = schedule ctx s1" "sched_inv X s1 Q1" "procs s1 = procs s"
    "current_thread s1 = Some d" "Q1 Ready = Q Ready @ us"
    by (rule timer_handler_ok [OF inv, of ctx]) (use d in auto)
  have q1: "Q1 Ready = ws @ t # (xs @ us)" using s1(5) q by simp
  have dt: "d \<noteq> t" using c d by auto
  have line: "\<exists>vs ys. offered (threads s1) d Q1 Ready = vs @ t # ys \<and> length vs \<le> length ws"
  proof (cases "t_state (threads s1 d) = THREAD_RUNNING")
    case True
    then have "offered (threads s1) d Q1 Ready = removeAll d ws @ t # (removeAll d (xs @ us) @ [d])"
      using q1 dt by (simp add: offered_ready)
    moreover have "length (removeAll d ws) \<le> length ws" by (rule length_removeAll_less_eq)
    ultimately show ?thesis by blast
  next
    case False
    then show ?thesis using q1 by (auto simp: offered_ready)
  qed
  then obtain vs ys where v: "offered (threads s1) d Q1 Ready = vs @ t # ys" "length vs \<le> length ws" by blast
  have nd: "\<not> dying t s1" using t s1(3) by (auto simp: dying_def normal_def)
  show thesis
  proof (rule schedule_ok [OF s1(2,4), of ctx])
    assume "Q1 Ready = []"
    then show thesis using q1 by simp
  next
    fix n zs qs
    let ?s = "s1\<lparr>threads := saved ctx d (threads s1), queues := qs\<rparr>"
    assume n: "offered (threads s1) d Q1 Ready = n # zs" "n = d \<or> dying n s1" "schedule ctx s1 = Some (Returned, ?s)"
      "sched_inv X ?s ((offered (threads s1) d Q1)(Ready := zs))"
    then obtain vs' where "vs = n # vs'" using v(1) nd dt by (cases vs) auto
    then have zs: "zs = vs' @ t # ys" "length vs' < length ws" using v n(1) by auto
    show thesis by (rule that [of Returned ?s _ vs' ys]) (use n(3,4) s1 zs in auto)
  next
    fix n zs qs
    let ?s = "snd (run_thread n (s1\<lparr>threads := saved ctx d (threads s1), queues := qs\<rparr>))"
    assume n: "offered (threads s1) d Q1 Ready = n # zs"
      "schedule ctx s1 = Some (run_thread n (s1\<lparr>threads := saved ctx d (threads s1), queues := qs\<rparr>))"
      "sched_inv X ?s ((offered (threads s1) d Q1)(Ready := zs))"
    have "n = t \<or> (\<exists>vs'. zs = vs' @ t # ys \<and> length vs' < length ws)"
      using v n(1) by (cases vs) auto
    then obtain vs' where a: "n = t \<or> zs = vs' @ t # ys \<and> length vs' < length ws" by blast
    have e: "timer_handler ctx s = Some (fst (run_thread n (s1\<lparr>threads := saved ctx d (threads s1), queues := qs\<rparr>)), ?s)"
      using n(2) s1(1) by (simp only: prod.collapse)
    show thesis by (rule that [OF e n(3), of vs' ys]) (use a s1(3) in auto)
  qed
qed

lemma timer_run_reaches:
  assumes "sched_inv X s Q" and "Q Ready = ws @ t # xs" and "normal (procs s) t" and "length as = Suc (length ws)"
  shows "\<exists>k \<le> length as. \<exists>s'. timer_run (take k as) s = Some s' \<and> current_thread s' = Some t"
  using assms
proof (induction "length ws" arbitrary: s Q ws xs as rule: less_induct)
  case less
  show ?case
  proof (cases "current_thread s = Some t")
    case True
    then show ?thesis by (intro exI [of _ 0]) simp
  next
    case False
    obtain a bs where as: "as = a # bs" using less.prems(4) by (cases as) auto
    obtain r s' Q' ws' xs' where st: "timer_handler a s = Some (r, s')" "sched_inv X s' Q'" "procs s' = procs s"
      "current_thread s' = Some t \<or> (Q' Ready = ws' @ t # xs' \<and> length ws' < length ws)"
      by (rule timer_handler_front [OF less.prems(1-3) False, of a])
    show ?thesis
    proof (cases "current_thread s' = Some t")
      case True
      then show ?thesis using st(1) as by (intro exI [of _ 1]) simp
    next
      case no: False
      then have w: "Q' Ready = ws' @ t # xs'" "length ws' < length ws" using st(4) by simp_all
      define cs where "cs = take (Suc (length ws')) bs"
      have cs: "length cs = Suc (length ws')" using w(2) less.prems(4) as by (simp add: cs_def)
      have "normal (procs s') t" using less.prems(3) st(3) by simp
      from less.hyps [OF w(2) st(2) w(1) this cs] obtain k s2 where
        k: "k \<le> length cs" "timer_run (take k cs) s' = Some s2" "current_thread s2 = Some t" by blast
      have "take k cs = take k bs" using k(1) cs by (simp add: cs_def min_def)
      then have "timer_run (take (Suc k) as) s = Some s2" using k(2) st(1) as by simp
      moreover have "Suc k \<le> length as" using k(1) cs w(2) less.prems(4) by simp
      ultimately show ?thesis using k(3) by blast
    qed
  qed
qed

text \<open>
  C5. No thread starves: a thread of a process that is not dying, with \<open>k\<close> threads before it in the
  ready queue, runs after at most \<open>k + 1\<close> timer interrupts, whichever threads wake up meanwhile and
  whatever dying threads the queue holds.
\<close>

theorem ready_thread_runs:
  assumes "sched_inv {} s Q" and "Q Ready = ws @ t # xs" and "normal (procs s) t" and "length as = length ws + 1"
  shows "\<exists>k \<le> length as. \<exists>s'. timer_run (take k as) s = Some s' \<and> current_thread s' = Some t"
  using timer_run_reaches [OF assms(1-3)] assms(4) by simp

theorem ready_thread_runs_witness:
  "\<exists>k \<le> 2. \<exists>s'. timer_run (take k [0xE0001F00, 0xE0002F00]) (demo idle PROCESS_NORMAL demo_line) = Some s' \<and>
     current_thread s' = Some (Idle, 1)"
proof -
  have "members demo_line Ready = [(user, 0)] @ (Idle, 1) # []" by (simp add: demo_line_members)
  moreover have "normal (procs (demo idle PROCESS_NORMAL demo_line)) (Idle, 1)" by (simp add: normal_def zero_process_def)
  ultimately show ?thesis
    using ready_thread_runs [OF demo_line_inv, of "[(user, 0)]" "(Idle, 1)" "[]" "[0xE0001F00, 0xE0002F00]"]
    by (simp add: numeral_2_eq_2)
qed

section \<open>Sleeping\<close>

text \<open>
  C9. A timer interrupt counts one tick and wakes exactly the sleepers whose tick has come: they move
  to the end of the ready queue in the order of the sleep queue and become ready; the other sleepers,
  the other queues and all other threads stay as they are; then \<open>schedule\<close> runs.
\<close>

theorem timer_wakes_due_sleepers:
  assumes "sched_inv {} s Q"
  shows "\<exists>s1. timer_handler ctx s = schedule ctx s1 \<and> ticks s1 = ticks s + 1 \<and>
    sched_inv {} s1 (Q(Sleep := filter (\<lambda>t. \<not> t_wake_tick (threads s t) \<le> ticks s + 1) (Q Sleep),
      Ready := Q Ready @ filter (\<lambda>t. t_wake_tick (threads s t) \<le> ticks s + 1) (Q Sleep))) \<and>
    (\<forall>t. threads s1 t = (if t \<in> set (Q Sleep) \<and> t_wake_tick (threads s t) \<le> ticks s + 1
                         then (threads s t)\<lparr>t_state := THREAD_READY\<rparr> else threads s t)) \<and>
    ports s1 = pic_send_eoi 0 (ports s)"
  by (rule timer_handler_ok [OF assms, of ctx]) (auto simp: woken_def)

theorem timer_wakes_due_sleepers_witness:
  "\<exists>s1. timer_handler 0xE0001F00 (demo idle PROCESS_NORMAL demo_line) = schedule 0xE0001F00 s1 \<and> ticks s1 = 7 \<and>
     t_state (threads s1 (Idle, 2)) = THREAD_READY \<and>
     (\<exists>Q'. sched_inv {} s1 Q' \<and> Q' Ready = [(user, 0), (Idle, 1), (Idle, 2)] \<and> Q' Sleep = [])"
proof -
  let ?s = "demo idle PROCESS_NORMAL demo_line"
  have w: "t_wake_tick (threads ?s (Idle, 2)) = 7" by (simp add: demo_threads_def demo_line_def demo_thread_def)
  obtain s1 where s1: "timer_handler 0xE0001F00 ?s = schedule 0xE0001F00 s1" "ticks s1 = ticks ?s + 1"
    "sched_inv {} s1 ((members demo_line)
       (Sleep := filter (\<lambda>t. \<not> t_wake_tick (threads ?s t) \<le> ticks ?s + 1) (members demo_line Sleep),
        Ready := members demo_line Ready @ filter (\<lambda>t. t_wake_tick (threads ?s t) \<le> ticks ?s + 1) (members demo_line Sleep)))"
    "\<forall>t. threads s1 t = (if t \<in> set (members demo_line Sleep) \<and> t_wake_tick (threads ?s t) \<le> ticks ?s + 1
                         then (threads ?s t)\<lparr>t_state := THREAD_READY\<rparr> else threads ?s t)"
    using timer_wakes_due_sleepers [OF demo_line_inv, where ctx = "0xE0001F00"] by blast
  have "threads s1 (Idle, 2) = (threads ?s (Idle, 2))\<lparr>t_state := THREAD_READY\<rparr>"
    using s1(4) [rule_format, of "(Idle, 2)"] w by (simp add: demo_line_members)
  moreover have "sched_inv {} s1 ((members demo_line)(Sleep := [], Ready := [(user, 0), (Idle, 1), (Idle, 2)]))"
    using s1(3) w by (simp add: demo_line_members)
  ultimately show ?thesis using s1(1,2) by (intro exI [of _ s1]) auto
qed

section \<open>Leaving\<close>

lemma sched_exit_ok:
  assumes inv: "sched_inv X s Q" and c: "current_thread s = Some c" "fst c \<noteq> Idle"
  obtains s1 where "sched_inv X s1 (moved Zombie c Q)" "current_thread s1 = Some c" "procs s1 = procs s"
    "contexts s1 = contexts s" "threads s1 = (threads s)(c := (threads s c)\<lparr>t_exit_code := v, t_state := THREAD_ZOMBIE\<rparr>)"
    "sched_exit_current_thread ctx v s = do {
       (r, s2) \<leftarrow> schedule ctx s1;
       Some (if r = Returned then (Halted, write_flags (cpu_flags s) s2) else (r, s2)) }"
proof -
  note cur = sched_inv_current [OF inv c(1)]
  have ci: "c \<noteq> idle" using c(2) by auto
  let ?s = "disable_interrupts s"
  let ?s1 = "?s\<lparr>threads := (threads s)(c := (threads s c)\<lparr>t_exit_code := v\<rparr>)\<rparr>"
  have st: "set_thread c (\<lambda>th. th\<lparr>t_exit_code := v\<rparr>) ?s = Some ?s1"
    using cur(1) by (simp add: set_thread_ok)
  have i1: "sched_inv X ?s1 Q" using sched_inv_threads [of X ?s Q "\<lambda>th. th\<lparr>t_exit_code := v\<rparr>" c] inv by simp
  have tok: "thread_ok (threads ?s1) (procs ?s1) c" using cur(1) by (simp add: thread_ok_def)
  have mh: "may_hold Zombie THREAD_ZOMBIE c" by (simp add: may_hold_def)
  obtain qs where q: "enqueue Zombie THREAD_ZOMBIE (Some c) ?s1 =
      Some (?s1\<lparr>queues := qs, threads := (threads ?s1)(c := (threads ?s1 c)\<lparr>t_state := THREAD_ZOMBIE\<rparr>)\<rparr>)"
    "sched_inv (X - {c}) (?s1\<lparr>queues := qs, threads := (threads ?s1)(c := (threads ?s1 c)\<lparr>t_state := THREAD_ZOMBIE\<rparr>)\<rparr>)
      (moved Zombie c Q)"
    by (rule enqueue_ok [OF i1 tok ci mh])
  let ?s2 = "?s1\<lparr>queues := qs, threads := (threads ?s1)(c := (threads ?s1 c)\<lparr>t_state := THREAD_ZOMBIE\<rparr>)\<rparr>"
  have e: "sched_exit_current_thread ctx v s = do {
       (r, s2) \<leftarrow> schedule ctx ?s2;
       Some (if r = Returned then (Halted, write_flags (cpu_flags s) s2) else (r, s2)) }"
    using c cur(2,3) st q(1) by (simp add: sched_exit_current_thread_def sched_zombie_def Let_def)
  show thesis
  proof (rule that [OF _ _ _ _ _ e])
    show "sched_inv X ?s2 (moved Zombie c Q)" by (rule sched_inv_mono [OF q(2)]) auto
    show "threads ?s2 = (threads s)(c := (threads s c)\<lparr>t_exit_code := v, t_state := THREAD_ZOMBIE\<rparr>)" by simp
  qed (use c in \<open>simp_all add: disable_interrupts_def\<close>)
qed

lemma moved_current_ready:
  assumes "sched_inv X s Q" and "current_thread s = Some c" and "c \<notin> set (Q Ready)" and "q \<noteq> Ready"
  shows "moved q c Q Ready = Q Ready"
  using assms by (simp add: moved_def)

text \<open>
  C11. A thread that exits becomes a zombie with its exit code and gives the processor to the first
  thread of the ready queue, whose process is not dying; control does not come back to it.
\<close>

theorem exit_gives_way:
  assumes "sched_inv {} s Q" and "current_thread s = Some c" and "fst c \<noteq> Idle" and "c \<notin> set (Q Ready)"
    and "Q Ready = n # xs" and "\<not> dying n s"
  shows "\<exists>s'. sched_exit_current_thread ctx v s = Some (Restored (contexts s (t_sp0 (threads s n))), s') \<and>
    current_thread s' = Some n \<and> sched_inv {} s' ((moved Zombie c Q)(Ready := xs)) \<and>
    t_state (threads s' c) = THREAD_ZOMBIE \<and> t_exit_code (threads s' c) = v"
proof -
  obtain s1 where s1: "sched_inv {} s1 (moved Zombie c Q)" "current_thread s1 = Some c" "procs s1 = procs s"
    "contexts s1 = contexts s" "threads s1 = (threads s)(c := (threads s c)\<lparr>t_exit_code := v, t_state := THREAD_ZOMBIE\<rparr>)"
    "sched_exit_current_thread ctx v s = do {
       (r, s2) \<leftarrow> schedule ctx s1;
       Some (if r = Returned then (Halted, write_flags (cpu_flags s) s2) else (r, s2)) }"
    by (rule sched_exit_ok [OF assms(1-3), of v ctx])
  have off: "offered (threads s1) c (moved Zombie c Q) = moved Zombie c Q" by (simp add: offered_def s1(5))
  have rd: "moved Zombie c Q Ready = n # xs" using moved_current_ready [OF assms(1,2,4)] assms(5) by simp
  have nc: "n \<noteq> c" using assms(4,5) by auto
  have nd: "\<not> dying n s1" using assms(6) s1(3) by (simp add: dying_def)
  show ?thesis
  proof (rule schedule_ok [OF s1(1,2), of ctx])
    fix m ys qs
    let ?s = "s1\<lparr>threads := saved ctx c (threads s1), queues := qs\<rparr>"
    assume m: "offered (threads s1) c (moved Zombie c Q) Ready = m # ys" "schedule ctx s1 = Some (run_thread m ?s)"
      "sched_inv {} (snd (run_thread m ?s)) ((offered (threads s1) c (moved Zombie c Q))(Ready := ys))"
    then have e: "m = n" "ys = xs" using rd unfolding off by simp_all
    have r: "run_thread n ?s = (Restored (contexts s (t_sp0 (threads s n))), snd (run_thread n ?s))"
      by (rule prod_eqI) (use nc in \<open>simp_all add: s1(4,5)\<close>)
    have "sched_exit_current_thread ctx v s = Some (Restored (contexts s (t_sp0 (threads s n))), snd (run_thread n ?s))"
      using s1(6) m(2) unfolding e by (subst (asm) r) simp
    moreover have "t_state (threads (snd (run_thread n ?s)) c) = THREAD_ZOMBIE"
      "t_exit_code (threads (snd (run_thread n ?s)) c) = v"
      using nc by (simp_all add: run_thread_def Let_def s1(5) saved_def)
    ultimately show ?thesis using m(3) unfolding e off by auto
  qed (use rd nc nd off in auto)
qed

lemma exit_behind_dying:
  assumes "sched_inv {} s Q" and "current_thread s = Some c" and "fst c \<noteq> Idle" and "c \<notin> set (Q Ready)"
    and "Q Ready = n # xs" and "dying n s"
  shows "\<exists>s'. sched_exit_current_thread ctx v s = Some (Halted, s') \<and> cpu_flags s' = cpu_flags s \<and>
    sched_inv {} s' ((moved Zombie c Q)(Ready := xs))"
proof -
  obtain s1 where s1: "sched_inv {} s1 (moved Zombie c Q)" "current_thread s1 = Some c" "procs s1 = procs s"
    "contexts s1 = contexts s" "threads s1 = (threads s)(c := (threads s c)\<lparr>t_exit_code := v, t_state := THREAD_ZOMBIE\<rparr>)"
    "sched_exit_current_thread ctx v s = do {
       (r, s2) \<leftarrow> schedule ctx s1;
       Some (if r = Returned then (Halted, write_flags (cpu_flags s) s2) else (r, s2)) }"
    by (rule sched_exit_ok [OF assms(1-3), of v ctx])
  have off: "offered (threads s1) c (moved Zombie c Q) = moved Zombie c Q" by (simp add: offered_def s1(5))
  have rd: "moved Zombie c Q Ready = n # xs" using moved_current_ready [OF assms(1,2,4)] assms(5) by simp
  have nd: "dying n s1" using assms(6) s1(3) by (simp add: dying_def)
  show ?thesis
  proof (rule schedule_ok [OF s1(1,2), of ctx])
    fix m ys qs
    let ?s = "s1\<lparr>threads := saved ctx c (threads s1), queues := qs\<rparr>"
    assume m: "offered (threads s1) c (moved Zombie c Q) Ready = m # ys" "schedule ctx s1 = Some (Returned, ?s)"
      "sched_inv {} ?s ((offered (threads s1) c (moved Zombie c Q))(Ready := ys))"
    then have e: "m = n" "ys = xs" using rd unfolding off by simp_all
    have "sched_exit_current_thread ctx v s = Some (Halted, write_flags (cpu_flags s) ?s)" using s1(6) m(2) by simp
    moreover have "sched_inv {} (write_flags (cpu_flags s) ?s) ((moved Zombie c Q)(Ready := xs))"
      using m(3) unfolding e off by simp
    ultimately show ?thesis by (auto simp: write_flags_def)
  qed (use rd nd off in auto)
qed

text \<open>
  C12. A thread that exits while the first ready thread belongs to a dying process stops the whole
  processor.  The system call \<^verbatim>\<open>SYS_EXIT\<close> comes through the interrupt gate of vector \<^verbatim>\<open>0x80\<close>, which clears the interrupt
  flag; \<open>schedule\<close> drops the dying thread and returns although other threads are ready; the exit restores the flags
  it found and loops around \<^verbatim>\<open>hlt\<close> with interrupts disabled, so neither the timer nor any other device
  interrupts the halt.
\<close>

theorem exit_behind_dying_halts:
  assumes "sched_inv {} s Q" and "current_thread s = Some c" and "fst c \<noteq> Idle" and "c \<notin> set (Q Ready)"
    and "Q Ready = n # xs" and "dying n s"
    and "c_int_num e = 0x80" and "c_eax e = 0" and "handlers (kidt s) ! 0x80 = Some Syscall_Handler"
    and "i_attributes (idt (kidt s) ! 0x80) AND 0xF \<noteq> 0xF"
  shows "\<exists>s'. interrupt junk frame ctx e s = Some (Halted, s') \<and> cpu_flags s' AND 0x200 = 0 \<and>
    sched_inv {} s' ((moved Zombie c Q)(Ready := xs)) \<and>
    (\<forall>d. irq_allowed d s' \<longrightarrow> c_int_num d < 32 \<or> 48 \<le> c_int_num d)"
proof -
  define s1 where "s1 = enter_interrupt ctx e s"
  have e1: "s1 = push_context ctx e s" using assms(7,10) by (simp add: s1_def enter_interrupt_def Let_def)
  have i1: "sched_inv {} s1 Q" using assms(1) by (simp add: e1)
  have f: "current_thread s1 = Some c" "procs s1 = procs s" "kidt s1 = kidt s" "contexts s1 ctx = e\<lparr>c_eflags := cpu_flags s\<rparr>"
    "cpu_flags s1 = cpu_flags s AND NOT 0x200"
    using assms(2) by (simp_all add: e1 push_context_def disable_interrupts_def)
  have d1: "dying n s1" using assms(6) f(2) by (simp add: dying_def)
  obtain s2 where s2: "sched_exit_current_thread ctx (c_ebx e) s1 = Some (Halted, s2)" "cpu_flags s2 = cpu_flags s1"
    "sched_inv {} s2 ((moved Zombie c Q)(Ready := xs))"
    using exit_behind_dying [OF i1 f(1) assms(3,4,5) d1] by blast
  have "sys_exit_impl ctx s1 = Some (Inr Halted, s2)" using s2(1) by (simp add: sys_exit_impl_def f(4))
  then have "syscall_handler junk frame ctx s1 = Some (Halted, s2)"
    using assms(8) by (simp add: syscall_handler_def run_syscall_def f(4))
  moreover have "interrupt_handler (contexts s1 ctx) (kidt s1) = Some Syscall_Handler"
    using assms(7,9) by (simp add: interrupt_handler_def f(3,4))
  ultimately have "interrupt junk frame ctx e s = Some (Halted, s2)"
    by (simp add: interrupt_def s1_def [symmetric] run_handler_def)
  moreover have "(cpu_flags s AND NOT 0x200) AND 0x200 = 0" by (simp add: and.assoc)
  then have "cpu_flags s2 AND 0x200 = 0" using s2(2) f(5) by simp
  ultimately show ?thesis using s2(3) by (intro exI [of _ s2]) (auto simp: irq_allowed_def not_less)
qed

text \<open>A kernel thread runs while a thread of the user process is first in line.\<close>

definition demo_exit :: "(tref \<times> qref) list" where
  "demo_exit = [((user, 1), Ready), (idle, Ready)]"

lemma demo_exit_wf: "demo_wf (user, 0) demo_exit"
  by (simp add: demo_wf_def demo_exit_def)

lemma demo_exit_members: "members demo_exit Ready = [(user, 1), idle]" "members demo_exit Zombie = []"
  by (simp_all add: members_def demo_exit_def)

theorem exit_gives_way_witness:
  "\<exists>s'. sched_exit_current_thread 0xE0001F00 3 (demo (user, 0) PROCESS_NORMAL demo_exit) = Some (Restored demo_context, s') \<and>
     current_thread s' = Some (user, 1) \<and> t_state (threads s' (user, 0)) = THREAD_ZOMBIE"
proof -
  have nd: "\<not> dying (user, 1) (demo (user, 0) PROCESS_NORMAL demo_exit)" by (simp add: dying_def)
  have a: "fst (user, 0 :: nat) \<noteq> Idle" "(user, 0) \<notin> set (members demo_exit Ready)" by (simp_all add: demo_exit_members)
  from exit_gives_way [OF demo_inv [OF demo_exit_wf] demo_fields(5) a demo_exit_members(1) nd, where ctx = "0xE0001F00" and v = 3]
  show ?thesis by auto
qed

text \<open>The same threads, the user process is dying, and the system call gate is set up; interrupts are enabled when
  the thread makes the call.\<close>

definition demo_exits :: kernel where
  "demo_exits = (let s = demo (user, 0) PROCESS_DYING demo_exit
     in s\<lparr>kidt := (kidt s)\<lparr>handlers := (handlers (kidt s))[0x80 := Some Syscall_Handler]\<rparr>\<rparr>)"

theorem exit_behind_dying_halts_witness:
  "\<exists>s'. interrupt [] (0, demo_context) 0xE0001F00 (demo_context\<lparr>c_int_num := 0x80, c_eax := 0\<rparr>) demo_exits = Some (Halted, s') \<and>
     cpu_flags demo_exits = 0x202 \<and> cpu_flags s' AND 0x200 = 0 \<and> (\<exists>Q'. sched_inv {} s' Q' \<and> Q' Ready = [idle])"
proof -
  let ?s = "demo (user, 0) PROCESS_DYING demo_exit" and ?e = "demo_context\<lparr>c_int_num := 0x80, c_eax := 0\<rparr>"
  have k: "handlers (kidt demo_exits) ! 0x80 = Some Syscall_Handler" "idt (kidt demo_exits) ! 0x80 = make_gate 0 0x8E"
    "current_thread demo_exits = Some (user, 0)" "cpu_flags demo_exits = 0x202"
    by (simp_all add: demo_exits_def Let_def) (simp_all add: demo_def heap_state.extend_def)
  have g: "i_attributes (idt (kidt demo_exits) ! 0x80) AND 0xF \<noteq> 0xF" by (simp add: k(2) make_gate_def)
  have inv: "sched_inv {} demo_exits (members demo_exit)"
    using demo_inv [OF demo_exit_wf, of PROCESS_DYING] by (simp add: demo_exits_def Let_def sched_inv_def)
  have nd: "dying (user, 1) demo_exits" by (simp add: dying_def demo_exits_def Let_def)
  have a: "fst (user, 0 :: nat) \<noteq> Idle" "(user, 0) \<notin> set (members demo_exit Ready)" by (simp_all add: demo_exit_members)
  have e: "c_int_num ?e = 0x80" "c_eax ?e = 0" by simp_all
  obtain s' where s': "interrupt [] (0, demo_context) 0xE0001F00 ?e demo_exits = Some (Halted, s')" "cpu_flags s' AND 0x200 = 0"
    "sched_inv {} s' ((moved Zombie (user, 0) (members demo_exit))(Ready := [idle]))"
    using exit_behind_dying_halts [OF inv k(3) a demo_exit_members(1) nd e k(1) g] by blast
  then show ?thesis using k(4) by (intro exI [of _ s']) auto
qed

end
