(* ===== verification/Proc_Props.thy ===== *)
theory Proc_Props
  imports Kernel_Demo
begin

text \<open>
  The properties of processes, messages and threads: looking up a process, sending and receiving,
  destroying a process, the life of a thread's slot, and exceptions.
\<close>

section \<open>Looking up a process\<close>

lemma sched_get_process_list:
  "table_inv s ps \<Longrightarrow> sched_get_process pid s = Some (List.find (\<lambda>p. p_pid (the (procs s p)) = pid) ps)"
  using find_process_seg [of s None ps "{}" pid] by (simp add: table_inv_def plist_def sched_get_process_def)

text \<open>
  C10. \<open>sched_get_process\<close> is a search of the list of processes: it returns the newest process with the
  number, or \<^verbatim>\<open>NULL\<close> when there is none.
\<close>

theorem sched_get_process_finds:
  assumes "table_inv s ps"
  shows "sched_get_process pid s = Some (List.find (\<lambda>p. p_pid (the (procs s p)) = pid) ps)"
  by (rule sched_get_process_list [OF assms])

theorem sched_get_process_finds_witness:
  "sched_get_process 1 (demo idle PROCESS_NORMAL []) = Some (Some user) \<and>
   sched_get_process 0 (demo idle PROCESS_NORMAL []) = Some (Some Idle) \<and>
   sched_get_process 7 (demo idle PROCESS_NORMAL []) = Some None"
  using sched_get_process_finds [OF demo_table] by (simp add: zero_process_def)

section \<open>Messages\<close>

text \<open>
  C8. Sending to a living process: when its mailbox holds fewer than 16 messages, \<open>ipc_send\<close> returns 0,
  the message (the number of the sender, the type, the size and the bytes) is the last one of the
  mailbox, and the thread that has waited longest for one, if any, becomes the last of the ready queue;
  when the mailbox is full it returns 1 and nothing changes.
\<close>

theorem ipc_send_delivers:
  assumes "sched_inv {} s Q" and "table_inv s ps"
    and "data \<noteq> 0" and "0 < sz" and "sz \<le> 64" and "vload data (unat sz) s = Some bytes" and "length junk = 64"
    and "sched_get_process pid s = Some (Some p)" and "procs s p = Some pr" and "p_state pr = PROCESS_NORMAL" and "p \<noteq> Idle"
  shows "if length (mailbox s p) < 16
    then \<exists>s'. ipc_send junk pid ty data sz s = Some (0, s') \<and>
      mailbox s' p = mailbox s p @ [sent_message s junk ty sz bytes] \<and> (\<forall>q. q \<noteq> p \<longrightarrow> procs s' q = procs s q) \<and>
      sched_inv {} s' (case Q (Waiters p) of [] \<Rightarrow> Q | t # ts \<Rightarrow> Q(Waiters p := ts, Ready := Q Ready @ [t]))
    else ipc_send junk pid ty data sz s = Some (1, s)"
proof (rule ipc_send_ok [OF assms(1-10), of ty])
  fix rb qs
  let ?s = "s\<lparr>procs := (procs s)(p \<mapsto> pr\<lparr>p_ring := rb\<rparr>), queues := qs, threads := woken (set (take 1 (Q (Waiters p)))) (threads s)\<rparr>"
  assume "length (mailbox s p) < 16" "ipc_send junk pid ty data sz s = Some (0, ?s)"
    "mail_of rb = mailbox s p @ [sent_message s junk ty sz bytes]" "sched_inv {} ?s (wakes p Q)"
  then show ?thesis by (auto simp: wakes_def intro!: exI [of _ ?s])
qed (use assms(11) in auto)

definition demo_waiting :: "(tref \<times> qref) list" where
  "demo_waiting = [((Idle, 1), Ready), ((user, 0), Waiters user), ((user, 1), Waiters user)]"

lemma demo_waiting_wf: "demo_wf idle demo_waiting"
  by (simp add: demo_wf_def demo_waiting_def)

lemma demo_waiting_members:
  "members demo_waiting (Waiters user) = [(user, 0), (user, 1)]" "members demo_waiting Ready = [(Idle, 1)]"
  by (simp_all add: members_def demo_waiting_def)

lemma demo_bytes:
  "vread8 0x400000 (demo idle st asg) = Some 0x47" "vread8 0x400001 (demo idle st asg) = Some 0x75"
  "vread8 0x400002 (demo idle st asg) = Some 0x6D" "vread8 0x400003 (demo idle st asg) = Some 0x6D"
  "vread8 0x400004 (demo idle st asg) = Some 0x79"
  by (simp_all add: vread8_def translate_def demo_memory_def frame_of_def present_def byte_of_def)

lemma demo_page: "vload 0x400000 5 (demo idle st asg) = Some [0x47, 0x75, 0x6D, 0x6D, 0x79]"
proof -
  have f: "vload a (Suc n) s = do { b \<leftarrow> vread8 a s; bs \<leftarrow> vload (a + 1) n s; Some (b # bs) }" for a n s by simp
  have e: "(5 :: nat) = Suc (Suc (Suc (Suc (Suc 0))))" by simp
  show ?thesis unfolding e f by (simp add: demo_bytes)
qed

lemma demo_find: "sched_get_process 1 (demo c st asg) = Some (Some user)"
  by (simp add: sched_get_process_list [OF demo_table])

abbreviation demo_message :: ipc_message where
  "demo_message \<equiv> \<lparr>m_sender = 0, m_type = 4, m_size = 5, m_data = [0x47, 0x75, 0x6D, 0x6D, 0x79] @ replicate 59 0\<rparr>"

lemma demo_sent: "sent_message (demo idle st asg) (replicate 64 0) 4 5 [0x47, 0x75, 0x6D, 0x6D, 0x79] = demo_message"
  by (simp add: sent_message_def zero_process_def)

theorem ipc_send_delivers_witness:
  "\<exists>s'. ipc_send (replicate 64 0) 1 4 0x400000 5 (demo idle PROCESS_NORMAL demo_waiting) = Some (0, s') \<and>
     mailbox s' user = [demo_message] \<and>
     (\<exists>Q'. sched_inv {} s' Q' \<and> Q' Ready = [(Idle, 1), (user, 0)] \<and> Q' (Waiters user) = [(user, 1)])"
proof -
  let ?s = "demo idle PROCESS_NORMAL demo_waiting"
  have mb: "mailbox ?s user = []" by (simp add: demo_ring_ok)
  have arg: "(0x400000 :: u32) \<noteq> 0" "0 < (5 :: u32)" "(5 :: u32) \<le> 64" by simp_all
  have page: "vload 0x400000 (unat (5 :: u32)) ?s = Some [0x47, 0x75, 0x6D, 0x6D, 0x79]" using demo_page by simp
  define pr where "pr = the (procs ?s user)"
  have pr: "procs ?s user = Some pr" and st: "p_state pr = PROCESS_NORMAL" by (simp_all add: pr_def)
  obtain s' where "ipc_send (replicate 64 0) 1 4 0x400000 5 ?s = Some (0, s')" "mailbox s' user = [demo_message]"
    "sched_inv {} s' ((members demo_waiting)(Waiters user := [(user, 1)], Ready := [(Idle, 1)] @ [(user, 0)]))"
    using ipc_send_delivers [OF demo_inv [OF demo_waiting_wf] demo_table arg page _ demo_find pr st, of "replicate 64 0" 4] mb
    by (auto simp: demo_waiting_members demo_sent)
  then show ?thesis by (intro exI [of _ s']) auto
qed

text \<open>
  C7. What is sent is received: after \<open>ipc_send\<close> into an empty mailbox, the receiver's half of
  \<open>ipc_receive\<close> empties the mailbox again and stores, first, the four bytes of the sender's number and,
  second, the bytes that were sent, cut to the size the receiver asked for; nothing else is written.
\<close>

theorem ipc_round_trip:
  assumes "sched_inv {} s Q" and "table_inv s ps" and "current_thread s = Some c"
    and "data \<noteq> 0" and "0 < sz" and "sz \<le> 64" and "vload data (unat sz) s = Some bytes" and "length junk = 64"
    and "sched_get_process pid s = Some (Some p)" and "procs s p = Some pr" and "p_state pr = PROCESS_NORMAL" and "p \<noteq> Idle"
    and "mailbox s p = []"
  shows "\<exists>s' s''. ipc_send junk pid ty data sz s = Some (0, s') \<and> pmem s'' = pmem s \<and> mailbox s'' p = [] \<and>
    receive_message p a b n s' = do {
      u \<leftarrow> vstore a (bytes_of_u32 (p_pid (the (procs s (fst c))))) s'';
      u \<leftarrow> vstore b (take (unat n) bytes) u;
      Some (0, u) }"
proof (rule ipc_send_ok [OF assms(1,2,4-11), of ty])
  fix rb qs
  define s' where "s' = s\<lparr>procs := (procs s)(p \<mapsto> pr\<lparr>p_ring := rb\<rparr>), queues := qs,
    threads := woken (set (take 1 (Q (Waiters p)))) (threads s)\<rparr>"
  define m where "m = sent_message s junk ty sz bytes"
  assume "ipc_send junk pid ty data sz s = Some (0, s\<lparr>procs := (procs s)(p \<mapsto> pr\<lparr>p_ring := rb\<rparr>), queues := qs,
      threads := woken (set (take 1 (Q (Waiters p)))) (threads s)\<rparr>)"
    and mb: "mailbox_ok p rb" and "mail_of rb = mailbox s p @ [sent_message s junk ty sz bytes]"
  then have snd: "ipc_send junk pid ty data sz s = Some (0, s')" and ml: "mail_of rb = [m]"
    using assms(13) by (simp_all add: s'_def m_def)
  have pr': "procs s' p = Some (pr\<lparr>p_ring := rb\<rparr>)" by (simp add: s'_def)
  have "table_inv s' ps" by (rule table_inv_ring [OF assms(2,10) mb]) (simp_all add: s'_def)
  moreover have "mailbox s' p = [m]" using pr' ml by simp
  ultimately obtain rb' where rb': "mailbox_ok p rb'" "mail_of rb' = []" "receive_message p a b n s' = do {
       s \<leftarrow> vstore a (bytes_of_u32 (m_sender m)) (s'\<lparr>procs := (procs s')(p \<mapsto> pr\<lparr>p_ring := rb\<rparr>\<lparr>p_ring := rb'\<rparr>)\<rparr>);
       s \<leftarrow> vstore b (take (unat (min n (m_size m))) (m_data m)) s;
       Some (0, s) }"
    using receive_message_ok [OF _ pr', of ps m "[]" a b n] by blast
  have len: "length bytes = unat sz" by (rule vload_length [OF assms(7)])
  have ms: "m_sender m = p_pid (the (procs s (fst c)))" "m_size m = sz" "m_data m = bytes @ drop (unat sz) junk"
    using assms(3) by (simp_all add: m_def sent_message_def)
  have tk: "take (unat (min n (m_size m))) (m_data m) = take (unat n) bytes"
    unfolding ms using len by (cases "n \<le> sz") (auto simp: min_def word_le_nat_alt)
  show ?thesis
    by (rule exI [of _ s'], rule exI [of _ "s'\<lparr>procs := (procs s')(p \<mapsto> pr\<lparr>p_ring := rb\<rparr>\<lparr>p_ring := rb'\<rparr>)\<rparr>"])
      (use snd rb'(2,3) in \<open>simp add: tk ms(1) s'_def\<close>)
qed (use assms(12,13) in auto)

theorem ipc_round_trip_witness:
  "\<exists>s' s''. ipc_send (replicate 64 0) 1 4 0x400000 5 (demo idle PROCESS_NORMAL demo_waiting) = Some (0, s') \<and>
     mailbox s'' user = [] \<and>
     receive_message user 0x400100 0x400200 3 s' = do {
       u \<leftarrow> vstore 0x400100 [0, 0, 0, 0] s''; u \<leftarrow> vstore 0x400200 [0x47, 0x75, 0x6D] u; Some (0, u) }"
proof -
  let ?s = "demo idle PROCESS_NORMAL demo_waiting"
  have mb: "mailbox ?s user = []" by (simp add: demo_ring_ok)
  have arg: "(0x400000 :: u32) \<noteq> 0" "0 < (5 :: u32)" "(5 :: u32) \<le> 64" by simp_all
  have page: "vload 0x400000 (unat (5 :: u32)) ?s = Some [0x47, 0x75, 0x6D, 0x6D, 0x79]" using demo_page by simp
  define pr where "pr = the (procs ?s user)"
  have pr: "procs ?s user = Some pr" and st: "p_state pr = PROCESS_NORMAL" by (simp_all add: pr_def)
  have ct: "current_thread ?s = Some idle" by simp
  have id: "p_pid (the (procs ?s (fst idle))) = 0" "bytes_of_u32 0 = [0, 0, 0, 0]"
    by (simp_all add: zero_process_def bytes_of_u32_def)
  have tk: "take (unat (3 :: u32)) [0x47, 0x75, 0x6D, 0x6D, 0x79] = ([0x47, 0x75, 0x6D] :: u8 list)" by simp
  have j: "length (replicate 64 (0 :: u8)) = 64" by simp
  note w = ipc_round_trip [OF demo_inv [OF demo_waiting_wf] demo_table ct arg page j demo_find pr st _ mb,
      of 4 "0x400100" "0x400200" 3, unfolded id tk]
  show ?thesis using w by blast
qed

text \<open>
  Nobody can send to the kernel's own process: its mailbox is never initialised, so in every
  reachable state a message to it is refused as if the mailbox were full.
\<close>

theorem idle_mailbox_refuses:
  assumes "reachable dev s" and "sched_get_process pid s = Some (Some Idle)"
    and "vload data (unat sz) s = Some bytes" and "length junk = 64"
  shows "ipc_send junk pid ty data sz s = Some (1, s)"
proof (cases "data = 0 \<or> sz = 0 \<or> sz > 64")
  case True
  then show ?thesis by (auto simp: ipc_send_def)
next
  case False
  then have arg: "data \<noteq> 0" "0 < sz" "sz \<le> 64" by (auto simp: word_neq_0_conv)
  obtain Q ps where inv: "sched_inv {} s Q" and tab: "table_inv s ps"
    using reachable_ok [OF assms(1)] by (auto simp: kernel_ok_def)
  obtain c where "sched_ok {} (threads s) (procs s) c Q" using inv by (auto simp: sched_inv_def)
  note i = sched_okD(2,3) [OF this]
  then obtain pr where pr: "procs s Idle = Some pr" by (auto simp: thread_ok_def)
  have st: "p_state pr = PROCESS_NORMAL" using i(2) pr by (simp add: normal_def)
  show ?thesis by (rule ipc_send_ok [OF inv tab arg assms(3,4,2) pr st, of ty]) simp_all
qed

theorem idle_mailbox_refuses_witness:
  "ipc_send (replicate 64 0) 0 4 0xFFFFFFFC 1 demo_kernel = Some (1, demo_kernel)"
proof -
  obtain s where s: "sched_init plain_device 100 demo_boot = Some (0, s)" "table_inv s [Idle]"
    by (rule sched_init_ok [OF demo_boot_ok])
  have k: "demo_kernel = syscall_init s" by (simp add: demo_kernel_def s(1))
  have mem: "pmem s = pmem boot_machine" "cr3 s = 0x1000" "p_pid (the (procs s Idle)) = 0"
    using s(1) pit_irq0
    by (auto simp: sched_init_def with_idt_def Let_def set_process_def set_thread_def bind_eq_Some_conv
        demo_boot_def heap_state.extend_def boot_machine_def split: if_splits)
  have "vread8 0xFFFFFFFC demo_kernel = Some 3"
    by (simp add: k syscall_init_def with_idt_def Let_def vread8_def translate_def mem boot_machine_def
        frame_of_def present_def byte_of_def)
  then have v: "vload 0xFFFFFFFC (unat (1 :: u32)) demo_kernel = Some [3]" by simp
  have "table_inv demo_kernel [Idle]" using s(2) by (simp add: k syscall_init_def)
  then have f: "sched_get_process 0 demo_kernel = Some (Some Idle)"
    by (subst sched_get_process_list) (auto simp: k syscall_init_def with_idt_def Let_def mem)
  show ?thesis by (rule idle_mailbox_refuses [OF demo_kernel_reachable f v]) simp
qed

end
