(* ===== verification/Kernel_After.thy ===== *)
theory Kernel_After
  imports Kernel_Demo
begin

text \<open>
  Rules for what holds after a program of the option monad, if it does not fault: one for every way the
  kernel's code is put together, so that a proof follows the code.  A predicate that does not read the
  memory survives the operations of the memory managers; that is the interface of the locale.
\<close>

section \<open>After a program\<close>

definition after1 :: "(kernel \<Rightarrow> bool) \<Rightarrow> kernel option \<Rightarrow> bool" where
  "after1 I m \<longleftrightarrow> (\<forall>s. m = Some s \<longrightarrow> I s)"

definition after :: "(kernel \<Rightarrow> bool) \<Rightarrow> ('a \<times> kernel) option \<Rightarrow> bool" where
  "after I m \<longleftrightarrow> (\<forall>r s. m = Some (r, s) \<longrightarrow> I s)"

lemma after_simps [simp]: "after1 I (Some s) = I s" "after I (Some x) = I (snd x)" "after1 I None" "after I None"
  by (auto simp: after1_def after_def) (metis surj_pair snd_conv)

lemma after_map [simp]:
  "after1 I (map_option snd m) = after I m" "after I (map_option (\<lambda>(r, s). (h r s, s)) m) = after I m"
  by (auto simp: after1_def after_def)

lemma after_value: "I s \<Longrightarrow> after I (map_option (\<lambda>r. (h r, s)) m)"
  by (auto simp: after_def)

lemma after_bind1:
  assumes "after1 I m" and "\<And>s. I s \<Longrightarrow> after1 I (f s)"
  shows "after1 I (m \<bind> f)"
  using assms by (cases m) (auto simp: after1_def)

lemma after_bind2:
  assumes "after1 I m" and "\<And>s. I s \<Longrightarrow> after I (f s)"
  shows "after I (m \<bind> f)"
  using assms by (cases m) (auto simp: after1_def after_def)

lemma after_bind3:
  assumes "after I m" and "\<And>r s. I s \<Longrightarrow> after1 I (f r s)"
  shows "after1 I (m \<bind> (\<lambda>(r, s). f r s))"
  using assms by (cases m) (auto simp: after1_def after_def)

lemma after_bind4:
  assumes "after I m" and "\<And>r s. I s \<Longrightarrow> after I (f r s)"
  shows "after I (m \<bind> (\<lambda>(r, s). f r s))"
  using assms by (cases m) (auto simp: after_def)

lemma after_read1: "(\<And>x. m = Some x \<Longrightarrow> after1 I (f x)) \<Longrightarrow> after1 I (m \<bind> f)"
  by (cases m) simp_all

lemma after_read2: "(\<And>x. m = Some x \<Longrightarrow> after I (f x)) \<Longrightarrow> after I (m \<bind> f)"
  by (cases m) simp_all

lemmas after_binds = after_value after_bind1 after_bind2 after_bind3 after_bind4
  after_read1 [where 'a = process] after_read1 [where 'a = thread] after_read1 [where 'a = pref]
  after_read1 [where 'a = tref] after_read1 [where 'a = "pref option"] after_read1 [where 'a = "(tref, qref) qstore"]
  after_read1 [where 'a = ring_buffer] after_read1 [where 'a = receive_frame]
  after_read2 [where 'a = process] after_read2 [where 'a = thread] after_read2 [where 'a = pref]
  after_read2 [where 'a = tref] after_read2 [where 'a = "pref option"] after_read2 [where 'a = "(tref, qref) qstore"]
  after_read2 [where 'a = "int \<times> ring_buffer option"] after_read2 [where 'a = "int \<times> u8 list option \<times> ring_buffer option"]
  after_read2 [where 'a = ring_buffer] after_read2 [where 'a = u32] after_read2 [where 'a = "u8 list"]

section \<open>Predicates that do not read the memory\<close>

locale sched_only =
  fixes I :: "kernel \<Rightarrow> bool"
  assumes frame: "\<lbrakk> same_sched s s'; I s \<rbrakk> \<Longrightarrow> I s'"
begin

lemma after_memory:
  assumes "I s"
  shows "after I (heap_alloc n s)" "after1 I (heap_free a s)"
    "after I (vmm_alloc_pages_region_in c m fl lo hi s)" "after I (vmm_free_pages_in c m a s)"
    "after I (vmm_clone s)" "after1 I (vmm_destroy c s)" "after1 I (pmm_free_page f s)"
    "after1 I (vstore a bs s)" "after1 I (vmemcpy a b n s)"
  using assms frame memory_same unfolding after_def after1_def by metis+

lemmas after_rules = after_binds after_memory

end

end
