(* ===== verification/Destroy_Frame.thy ===== *)
theory Destroy_Frame
  imports Kernel_After
begin

text \<open>
  What destroying a process leaves alone: the loaded address space, the records of the threads of every
  other process, and of the other processes everything but their places in the list and their fathers.
\<close>

section \<open>The other processes\<close>

definition kept :: "process \<Rightarrow> ring_buffer \<times> u32 \<times> process_state \<times> u32" where
  "kept r = (p_ring r, p_pid r, p_state r, p_cr3 r)"

text \<open>The used slots of a process belong to it; the threads of other processes are then not miscounted.\<close>

definition slots_own :: "pref \<Rightarrow> kernel \<Rightarrow> bool" where
  "slots_own p s \<longleftrightarrow> (\<forall>i. t_process (threads s (p, i)) \<in> {None, Some p})"

definition others_kept :: "pref \<Rightarrow> kernel \<Rightarrow> kernel \<Rightarrow> bool" where
  "others_kept p s s' \<longleftrightarrow> cr3 s' = cr3 s \<and>
     (\<forall>x. x \<noteq> p \<longrightarrow> map_option kept (procs s' x) = map_option kept (procs s x)) \<and>
     (\<forall>t. fst t \<noteq> p \<longrightarrow> threads s' t = threads s t) \<and>
     (slots_own p s \<longrightarrow> slots_own p s' \<and>
        (\<forall>x. x \<noteq> p \<longrightarrow> map_option p_num_threads (procs s' x) = map_option p_num_threads (procs s x)))"

lemma others_kept_refl: "others_kept p s s"
  by (simp add: others_kept_def)

interpretation kept: sched_only "others_kept p s" for p s
  by unfold_locales (simp add: others_kept_def slots_own_def same_sched_def)

lemma kept_fields [simp]:
  "others_kept p s (disable_interrupts u) = others_kept p s u" "others_kept p s (write_flags f u) = others_kept p s u"
  "others_kept p s (u\<lparr>queues := qs\<rparr>) = others_kept p s u" "others_kept p s (u\<lparr>first_process := q\<rparr>) = others_kept p s u"
  "others_kept p s (u\<lparr>procs := (procs u)(p := v)\<rparr>) = others_kept p s u"
  by (auto simp: others_kept_def slots_own_def disable_interrupts_def write_flags_def)

lemma kept_process:
  assumes u: "others_kept p s u" and f: "\<And>pr. kept (f pr) = kept pr"
    and n: "slots_own p s \<Longrightarrow> q = p \<or> (\<forall>pr. p_num_threads (f pr) = p_num_threads pr)"
  shows "after1 (others_kept p s) (set_process q f u)"
  unfolding after1_def
proof (intro allI impI)
  fix u' assume "set_process q f u = Some u'"
  then have u': "u' = u\<lparr>procs := (procs u)(q := map_option f (procs u q))\<rparr>" by (auto simp: set_process_def)
  have k: "map_option kept (procs u' x) = map_option kept (procs u x)" for x
    unfolding u' using f by (cases "procs u q") auto
  have "map_option p_num_threads (procs u' x) = map_option p_num_threads (procs u x)" if "slots_own p s" "x \<noteq> p" for x
    unfolding u' using n [OF that(1)] that(2) by (cases "procs u q") auto
  moreover have "threads u' = threads u" "cr3 u' = cr3 u" by (simp_all add: u')
  ultimately show "others_kept p s u'" using u k by (simp add: others_kept_def slots_own_def)
qed

lemma kept_thread:
  assumes "others_kept p s u" and "\<And>th. t_process (f th) = t_process th"
  shows "after1 (others_kept p s) (set_thread (p, i) f u)"
  using assms by (auto simp: set_thread_def thread_at_def others_kept_def slots_own_def after1_def split: if_splits)

lemma kept_destroy_thread:
  assumes u: "others_kept p s u"
  shows "after1 (others_kept p s) (sched_destroy_thread (Some (p, i)) u)"
proof (cases "thread_at (p, i) u")
  case None
  then show ?thesis by (simp add: sched_destroy_thread_def)
next
  case (Some th)
  have own: "q = p" if q: "t_process th = Some q" and o: "slots_own p s" for q
  proof -
    have "slots_own p u" using u o by (simp add: others_kept_def)
    then have "t_process (threads u (p, i)) \<in> {None, Some p}" by (simp add: slots_own_def)
    moreover have "th = threads u (p, i)" using Some by (simp add: thread_at_def split: if_splits)
    ultimately show ?thesis using q by simp
  qed
  show ?thesis
  proof (cases "t_process th")
    case None
    then show ?thesis using u Some by (simp add: sched_destroy_thread_def)
  next
    case q: (Some q)
    show ?thesis
      unfolding sched_destroy_thread_def Let_def
      using u own [OF q] Some q
      by (auto intro!: kept.after_rules kept_process kept_thread simp: kept_def split: option.split)
  qed
qed

lemma kept_reparent:
  assumes "reparent p' q u = Some u'" and "others_kept p s u"
  shows "others_kept p s u'"
proof -
  have "others_kept p s u \<longrightarrow> others_kept p s u'"
  proof (rule reparent.raw_induct [where P = "\<lambda>p' q u u'. others_kept p s u \<longrightarrow> others_kept p s u'", OF _ assms(1)], intro impI)
    fix f :: "pref \<Rightarrow> pref option \<Rightarrow> kernel \<Rightarrow> kernel option" and proc q u u'
    assume ih: "\<And>proc q u u'. f proc q u = Some u' \<Longrightarrow> others_kept p s u \<longrightarrow> others_kept p s u'"
      and body: "(case q of None \<Rightarrow> Some u
      | Some x \<Rightarrow> do {
          pr \<leftarrow> procs u x;
          u \<leftarrow> (if p_dad pr = Some proc
               then do { d \<leftarrow> procs u proc; set_process x (\<lambda>pr. pr\<lparr>p_dad := p_dad d\<rparr>) u }
               else Some u);
          pr \<leftarrow> procs u x;
          f proc (p_next pr) u }) = Some u'" and k: "others_kept p s u"
    have f: "after1 (others_kept p s) (f proc q u)" if "others_kept p s u" for q u
      using ih [of proc q u] that by (auto simp: after1_def)
    have "after1 (others_kept p s) (Some u')"
      unfolding body [symmetric]
      by (auto intro!: kept.after_rules kept_process f k simp: kept_def split: option.split)
    then show "others_kept p s u'" by simp
  qed
  then show ?thesis using assms(2) by blast
qed

lemma kept_each:
  assumes "\<And>i u. others_kept p s u \<Longrightarrow> after1 (others_kept p s) (f i u)"
  shows "others_kept p s u \<Longrightarrow> after1 (others_kept p s) (for_each f is u)"
  by (induction "is" arbitrary: u) (auto intro!: after_binds assms)

lemma kept_destroy: "sched_destroy_process (Some p) s = Some s' \<Longrightarrow> others_kept p s s'"
proof -
  assume r: "sched_destroy_process (Some p) s = Some s'"
  have re: "after1 (others_kept p s) (reparent p' q u)" if "others_kept p s u" for p' q u
    using kept_reparent that by (auto simp: after1_def)
  have "after1 (others_kept p s) (sched_destroy_process (Some p) s)"
    unfolding sched_destroy_process_def free_process_def Let_def
    by (auto intro!: kept.after_rules kept_process re kept_each kept_destroy_thread
        simp: kept_def others_kept_refl split: option.split pref.split)
  then show ?thesis using r by (simp add: after1_def)
qed

text \<open>One process and its threads afterwards.\<close>

lemma kept_processD:
  assumes "others_kept p s s'" and "x \<noteq> p" and "procs s x = Some r"
  obtains r' where "procs s' x = Some r'" "p_ring r' = p_ring r" "p_pid r' = p_pid r" "p_state r' = p_state r" "p_cr3 r' = p_cr3 r"
    "slots_own p s \<Longrightarrow> p_num_threads r' = p_num_threads r"
proof -
  have k: "map_option kept (procs s' x) = Some (kept r)"
    "slots_own p s \<Longrightarrow> map_option p_num_threads (procs s' x) = Some (p_num_threads r)"
    using assms by (simp_all add: others_kept_def)
  then obtain r' where "procs s' x = Some r'" by (cases "procs s' x") auto
  then show thesis using that k by (simp add: kept_def)
qed

end
