(* ===== verification/Life_Props.thy ===== *)
theory Life_Props
  imports Proc_Props Destroy_Frame
begin

text \<open>
  The properties of the ends of things: destroying a process, and exceptions in user mode.
\<close>

section \<open>Destroying a process\<close>

lemma unlink_father:
  assumes "x \<noteq> p"
  shows "map_option p_dad (unlink p pr P x) = map_option p_dad (P x)"
  using assms by (auto simp: unlink_def Let_def option.map_comp comp_def split: option.splits)

text \<open>
  C13. Destroying a process.  When its address space is loaded nothing happens.  Otherwise the loop over
  the processes ends, and if the memory managers do not fault the process is gone from the list and its
  threads from every queue; its children are children of its own father.  Every other process keeps
  its number, mailbox, state, address space, number of threads and all their records, the loaded address space stays, and
  both invariants hold.  (The used slots of a process belong to it in every reachable state, property C15.)
\<close>

theorem destroy_process_reparents:
  assumes "sched_inv {} s Q" and "table_inv s ps" and "p \<noteq> Idle" and "procs s p = Some pr" and "slots_own p s"
  shows "if cr3 s = p_cr3 pr then sched_destroy_process (Some p) s = Some s
    else reparent p (first_process s) s \<noteq> None \<and>
     (\<forall>s'. sched_destroy_process (Some p) s = Some s' \<longrightarrow>
        procs s' p = None \<and> table_inv s' (remove1 p ps) \<and> sched_inv {} s' (\<lambda>q. filter (\<lambda>t. fst t \<noteq> p) (Q q)) \<and>
        cr3 s' = cr3 s \<and> (\<forall>t. fst t \<noteq> p \<longrightarrow> threads s' t = threads s t) \<and>
        (\<forall>x r. procs s x = Some r \<and> x \<noteq> p \<longrightarrow> (\<exists>r'. procs s' x = Some r' \<and>
           p_pid r' = p_pid r \<and> p_ring r' = p_ring r \<and> p_state r' = p_state r \<and> p_cr3 r' = p_cr3 r \<and>
           p_num_threads r' = p_num_threads r \<and> p_dad r' = (if p_dad r = Some p then p_dad pr else p_dad r))))"
proof (cases "cr3 s = p_cr3 pr")
  case True
  then show ?thesis using assms(4) by (simp add: sched_destroy_process_def)
next
  case nc: False
  have pl: "plist (procs s) (first_process s) ps" using assms(2) by (simp add: table_inv_def)
  have re: "reparent p (first_process s) s \<noteq> None"
    using reparent_listed [OF pl assms(4)] by simp
  have d: "dom (procs s) = set ps" using pl by (simp add: plist_def)
  have main: "procs s' p = None \<and> table_inv s' (remove1 p ps) \<and> sched_inv {} s' (\<lambda>q. filter (\<lambda>t. fst t \<noteq> p) (Q q)) \<and>
        cr3 s' = cr3 s \<and> (\<forall>t. fst t \<noteq> p \<longrightarrow> threads s' t = threads s t) \<and>
        (\<forall>x r. procs s x = Some r \<and> x \<noteq> p \<longrightarrow> (\<exists>r'. procs s' x = Some r' \<and>
           p_pid r' = p_pid r \<and> p_ring r' = p_ring r \<and> p_state r' = p_state r \<and> p_cr3 r' = p_cr3 r \<and>
           p_num_threads r' = p_num_threads r \<and> p_dad r' = (if p_dad r = Some p then p_dad pr else p_dad r)))"
    if r: "sched_destroy_process (Some p) s = Some s'" for s'
  proof (rule destroy_process_result [OF assms(1-4) nc r])
    fix P pr'
    assume e: "\<And>x. map_option entry (P x) = map_option entry (adopt p (p_dad pr) (set ps) (procs s) x)"
      and u: "procs s' = unlink p pr' P" and t: "table_inv s' (remove1 p ps)"
    note k = kept_destroy [OF r]
    have pn: "procs s' p = None" by (simp add: u unlink_def Let_def)
    then have i: "sched_inv {} s' (\<lambda>q. filter (\<lambda>t. fst t \<noteq> p) (Q q))"
      using sched_destroy_process_inv [OF assms(1) r assms(3)] assms(4) by auto
    have "\<exists>r'. procs s' x = Some r' \<and> p_pid r' = p_pid r \<and> p_ring r' = p_ring r \<and> p_state r' = p_state r \<and>
        p_cr3 r' = p_cr3 r \<and> p_num_threads r' = p_num_threads r \<and> p_dad r' = (if p_dad r = Some p then p_dad pr else p_dad r)"
      if x: "procs s x = Some r" "x \<noteq> p" for x r
    proof -
      obtain r' where r': "procs s' x = Some r'" "p_ring r' = p_ring r" "p_pid r' = p_pid r" "p_state r' = p_state r"
        "p_cr3 r' = p_cr3 r" "p_num_threads r' = p_num_threads r"
        using kept_processD [OF k x(2,1)] assms(5) by metis
      have "x \<in> set ps" using d x(1) by auto
      then have "adopt p (p_dad pr) (set ps) (procs s) x = Some (if p_dad r = Some p then r\<lparr>p_dad := p_dad pr\<rparr> else r)"
        using x(1) by (simp add: adopt_def)
      then obtain r1 where r1: "P x = Some r1" "entry r1 = entry (if p_dad r = Some p then r\<lparr>p_dad := p_dad pr\<rparr> else r)"
        using e [of x] by auto
      then have "p_dad r' = (if p_dad r = Some p then p_dad pr else p_dad r)"
        using unlink_father [OF x(2), of pr' P] r'(1) by (auto simp: u entry_def links_def split: if_splits)
      with r' show ?thesis by blast
    qed
    then show ?thesis using pn t i k by (simp add: others_kept_def)
  qed
  then show ?thesis using nc re by simp
qed

text \<open>Threads without stacks of their own are destroyed without a change to memory.\<close>

abbreviation machine :: "kernel \<Rightarrow> heap_state" where "machine s \<equiv> heap_state.truncate s"

definition stackless :: "pref \<Rightarrow> kernel \<Rightarrow> bool" where
  "stackless p s \<longleftrightarrow> procs s p \<noteq> None \<and> current_process s \<noteq> Some p \<and>
     (\<forall>i. t_stack (threads s (p, i)) = 0 \<and> t_stack0 (threads s (p, i)) = 0 \<and> t_process (threads s (p, i)) \<in> {None, Some p})"

lemma destroy_thread_stackless:
  assumes "sched_inv X s Q" and "stackless p s" and "i < 8"
  obtains s' where "sched_destroy_thread (Some (p, i)) s = Some s'" "machine s' = machine s" "stackless p s'"
proof -
  obtain qs where q: "queue_remove (Some (p, i)) (queues s) = Some qs"
    using assms(1) queue_remove_refines unfolding sched_inv_def by metis
  obtain c where c: "current_thread s = Some c" "current_process s = Some (fst c)" using assms(1) by (auto simp: sched_inv_def)
  obtain pr where pr: "procs s p = Some pr" using assms(2) by (auto simp: stackless_def)
  note st = assms(2) [unfolded stackless_def]
  have at: "thread_at (p, i) s = Some (threads s (p, i))" using pr assms(3) by (simp add: thread_at_def)
  have nc: "c \<noteq> (p, i)" using st c by auto
  show thesis
  proof (cases "t_process (threads s (p, i)) = None \<or> t_state (threads s (p, i)) = THREAD_FREE")
    case True
    then have "sched_destroy_thread (Some (p, i)) s = Some s"
      using at by (cases "t_process (threads s (p, i))") (auto simp: sched_destroy_thread_def)
    then show thesis using that assms(2) by blast
  next
    case False
    have "t_process (threads s (p, i)) = None \<or> t_process (threads s (p, i)) = Some p" using st by blast
    then have tp: "t_process (threads s (p, i)) = Some p" using False by (elim disjE) simp_all
    define P where "P = (procs s)(p \<mapsto> pr\<lparr>p_num_threads := p_num_threads pr - 1\<rparr>)"
    define T where "T = (threads s)((p, i) := (threads s (p, i))\<lparr>t_state := THREAD_FREE\<rparr>)"
    have "sched_destroy_thread (Some (p, i)) s = Some (s\<lparr>queues := qs, procs := P, threads := T\<rparr>)"
      using at tp False nc c(1) st pr q assms(3)
      by (simp add: sched_destroy_thread_def Let_def disable_interrupts_def write_flags_def set_process_def set_thread_def
          thread_at_def P_def T_def)
    moreover have "stackless p (s\<lparr>queues := qs, procs := P, threads := T\<rparr>)"
      using st by (simp add: stackless_def P_def T_def)
    moreover have "machine (s\<lparr>queues := qs, procs := P, threads := T\<rparr>) = machine s" by (simp add: heap_state.truncate_def)
    ultimately show thesis using that by blast
  qed
qed

lemma destroy_threads_stackless:
  assumes "sched_inv X s Q" and "stackless p s" and "p \<noteq> Idle" and "\<forall>i \<in> set is. i < 8"
  shows "\<exists>s'. for_each (\<lambda>i. sched_destroy_thread (Some (p, i))) is s = Some s' \<and> machine s' = machine s \<and> stackless p s'"
  using assms
proof (induction "is" arbitrary: s Q)
  case (Cons i "is")
  obtain s1 where s1: "sched_destroy_thread (Some (p, i)) s = Some s1" "machine s1 = machine s" "stackless p s1"
    by (rule destroy_thread_stackless [OF Cons.prems(1,2), of i]) (use Cons.prems(4) in auto)
  have "sched_inv X s1 (\<lambda>q. removeAll (p, i) (Q q))"
    using sched_destroy_thread_inv [OF Cons.prems(1) s1(1)] Cons.prems(2,3) by (simp add: stackless_def)
  from Cons.IH [OF this s1(3) Cons.prems(3)] Cons.prems(4) s1 show ?case by auto
qed simp

text \<open>An address space whose lower part is empty is destroyed without a change.\<close>

lemma for_each_same: "\<forall>i \<in> set is. f i s = Some s \<Longrightarrow> for_each f is s = Some s"
  by (induction "is") simp_all

lemma vmm_destroy_empty:
  assumes "self_mapped (s\<lparr>cr3 := c\<rparr>)" and "\<forall>i < 768. \<not> present (pd (s\<lparr>cr3 := c\<rparr>) i)"
  shows "vmm_destroy c s = Some s"
proof -
  let ?s = "s\<lparr>cpu_flags := cpu_flags s AND NOT 0x200, cr3 := c\<rparr>"
  have pd: "pd ?s i = pd (s\<lparr>cr3 := c\<rparr>) i" for i by (simp add: pd_def dir_def)
  have m: "self_mapped ?s" using assms(1) by (simp add: self_mapped_def pd_def dir_def)
  have "destroy_table i ?s = Some ?s" if "i < 768" for i
  proof -
    have "unat (of_nat i * 0x400000 :: u32) = i * 0x400000"
      using that by (simp add: unat_word_ariths unat_of_nat)
    then have "dix (of_nat i * 0x400000) = i" by simp
    then show ?thesis using assms(2) that vread_pde [OF m, of "of_nat i * 0x400000"] pd
      by (simp add: destroy_table_def Let_def)
  qed
  then show ?thesis by (simp add: vmm_destroy_def Let_def for_each_same)
qed

lemma uncounted_fields:
  "r'\<lparr>p_num_threads := 0\<rparr> = r\<lparr>p_num_threads := 0\<rparr> \<Longrightarrow>
     p_prev r' = p_prev r \<and> p_next r' = p_next r \<and> p_cr3 r' = p_cr3 r" for r r' :: process
  by (cases r; cases r') simp

definition demo_doomed :: "(tref \<times> qref) list" where
  "demo_doomed = [((Idle, 1), Ready), ((user, 0), Ready), ((user, 1), Waiters user)]"

lemma demo_doomed_wf: "demo_wf idle demo_doomed"
  by (simp add: demo_wf_def demo_doomed_def)

lemma demo_doomed_destroyed:
  "\<exists>s'. sched_destroy_process (Some user) (demo idle PROCESS_DYING demo_doomed) = Some s'"
proof -
  let ?s = "demo idle PROCESS_DYING demo_doomed"
  have rp: "reparent user (Some user) ?s = Some ?s"
    by (simp add: reparent.simps [of user "Some user"] reparent.simps [of user "Some Idle"] reparent.simps [of user None]
        zero_process_def)
  have "stackless user ?s"
    by (auto simp: stackless_def demo_threads_def demo_thread_def zero_thread_def split: option.splits)
  then obtain s1 where s1: "for_each (\<lambda>i. sched_destroy_thread (Some (user, i))) [0..<8] ?s = Some s1" "machine s1 = machine ?s"
    using destroy_threads_stackless [OF demo_inv [OF demo_doomed_wf], of user PROCESS_DYING "[0..<8]"] by auto
  then have fr: "destroy_frame ?s s1"
    using destroy_threads_inv [OF demo_inv [OF demo_doomed_wf] s1(1)] by simp
  then have same: "same_but_count (demo_procs PROCESS_DYING) (procs s1)" "first_process s1 = Some user" "cr3 s1 = 0x1000"
    by (simp_all add: destroy_frame_def zero_process_def)
  obtain r where r: "procs s1 user = Some r" "p_prev r = None" "p_next r = Some Idle" "p_cr3 r = 0x5000"
  proof -
    obtain r where "procs s1 user = Some r" and e: "r\<lparr>p_num_threads := 0\<rparr> = the (demo_procs PROCESS_DYING user)\<lparr>p_num_threads := 0\<rparr>"
      using same_but_countD [OF same(1) demo_procs_simps(2)] by auto
    then show thesis using that uncounted_fields [OF e] by (simp add: zero_process_def)
  qed
  obtain r0 where r0: "procs s1 Idle = Some r0" using same_but_countD [OF same(1) demo_procs_simps(1)] by blast
  have mem: "pmem s1 = demo_memory" "bitmap s1 = Some [3, 0, 0, 0, 0, 0, 0, 0]" "bitmap_bits s1 = 64" "heap_start s1 = 0"
    using s1(2) by (auto simp: heap_state.truncate_def demo_def heap_state.extend_def boot_machine_def)
  have v: "vmm_destroy 0x5000 s1 = Some s1"
    by (rule vmm_destroy_empty)
      (simp_all add: self_mapped_def pd_def dir_def mem demo_memory_def frame_of_def present_def)
  have f: "pmm_free_page 0x5000 s1 = Some (s1\<lparr>bitmap := Some [3, 0, 0, 0, 0, 0, 0, 0]\<rparr>)"
    by (simp add: pmm_free_page_def mem bitmap_clear_bit_def obj_get_def obj_set_def bit_mask_def)
  show ?thesis
    using rp s1(1) r r0 v f same mem(4)
    by (simp add: sched_destroy_process_def set_process_def free_process_def heap_free_def heap_block_of.simps
        heap_merge_free_blocks_def is_free_def Let_def zero_process_def)
qed

theorem destroy_process_reparents_witness:
  "\<exists>s'. sched_destroy_process (Some user) (demo idle PROCESS_DYING demo_doomed) = Some s' \<and>
     procs s' user = None \<and> table_inv s' [Idle] \<and> p_num_threads (the (procs s' Idle)) = 3 \<and>
     t_state (threads s' (Idle, 1)) = THREAD_READY \<and>
     (\<exists>Q'. sched_inv {} s' Q' \<and> Q' Ready = [(Idle, 1)] \<and> Q' (Waiters user) = [])"
proof -
  let ?s = "demo idle PROCESS_DYING demo_doomed"
  obtain s' where s': "sched_destroy_process (Some user) ?s = Some s'" using demo_doomed_destroyed by blast
  have nc: "cr3 ?s \<noteq> p_cr3 (the (procs ?s user))" by (simp add: zero_process_def)
  have pr: "procs ?s user = Some (the (procs ?s user))" by simp
  have own: "slots_own user ?s"
    by (auto simp: slots_own_def demo_threads_def demo_thread_def zero_thread_def split: option.splits)
  from destroy_process_reparents [OF demo_inv [OF demo_doomed_wf] demo_table _ pr own] nc s' have
    k: "procs s' user = None \<and> table_inv s' (remove1 user [user, Idle]) \<and>
      sched_inv {} s' (\<lambda>q. filter (\<lambda>t. fst t \<noteq> user) (members demo_doomed q))"
    "threads s' (Idle, 1) = threads ?s (Idle, 1)"
    "\<forall>x r. procs ?s x = Some r \<and> x \<noteq> user \<longrightarrow> (\<exists>r'. procs s' x = Some r' \<and> p_num_threads r' = p_num_threads r)"
    by (simp_all split: if_splits) blast+
  have "t_state (threads s' (Idle, 1)) = THREAD_READY"
    unfolding k(2) by (simp add: demo_threads_def demo_thread_def demo_doomed_def)
  moreover have "p_num_threads (the (procs s' Idle)) = 3" using k(3) [rule_format, of Idle] by auto
  ultimately show ?thesis using s' k(1) by (intro exI [of _ s']) (auto simp: members_def demo_doomed_def)
qed

section \<open>Exceptions\<close>

text \<open>
  C16. An exception in user mode: when the code at \<^verbatim>\<open>eip\<close> can be read, the process of the running thread
  becomes dying and nothing else changes in the table, all its threads leave the queues (the running
  one alone may still be in the ready queue, where it is never chosen again), and the system goes on; when
  the code cannot be read, the dump faults in the kernel and the whole system stops with interrupts
  disabled.
\<close>

theorem user_exception:
  assumes "sched_inv {} s Q" and "current_thread s = Some c" and "fst c \<noteq> Idle" and "procs s (fst c) = Some pr"
    and "c_int_num (contexts s ctx) < 32" and "c_cs (contexts s ctx) AND 3 = 3"
  shows "case vload (c_eip (contexts s ctx)) 16 s of
      None \<Rightarrow> exception_handler frame ctx s = Some (Halted, disable_interrupts s)
    | Some code \<Rightarrow> \<exists>r s' Q'. exception_handler frame ctx s = Some (r, s') \<and> r \<noteq> Halted \<and> sched_inv {} s' Q' \<and>
        procs s' = (procs s)(fst c \<mapsto> pr\<lparr>p_state := PROCESS_DYING\<rparr>) \<and>
        (\<forall>q. \<forall>t \<in> set (Q' q). fst t = fst c \<longrightarrow> t = c \<and> q = Ready)"
proof (cases "vload (c_eip (contexts s ctx)) 16 s")
  case None
  then show ?thesis using assms(5) by (simp add: exception_handler_def Let_def)
next
  case (Some code)
  obtain s2 pr' where s2: "sched_inv {} s2 (\<lambda>q. filter (\<lambda>t. fst t \<noteq> fst c) (Q q))" "current_thread s2 = Some c"
    "procs s (fst c) = Some pr'" "procs s2 = (procs s)(fst c \<mapsto> pr'\<lparr>p_state := PROCESS_DYING\<rparr>)"
    "sched_destroy_current_process frame s = sys_yield frame s2"
    by (rule sched_destroy_current_yields [OF assms(1-3), of frame])
  define s3 where "s3 = push_context (fst frame) (snd frame) s2"
  have s3: "sched_inv {} s3 (\<lambda>q. filter (\<lambda>t. fst t \<noteq> fst c) (Q q))" "current_thread s3 = Some c" "procs s3 = procs s2"
  proof -
    show "sched_inv {} s3 (\<lambda>q. filter (\<lambda>t. fst t \<noteq> fst c) (Q q))" using s2(1) by (simp add: s3_def)
    show "current_thread s3 = Some c" "procs s3 = procs s2"
      using s2(2) by (simp_all add: s3_def push_context_def disable_interrupts_def)
  qed
  let ?Q = "\<lambda>q. filter (\<lambda>t. fst t \<noteq> fst c) (Q q)"
  have off: "t = c \<and> q = Ready" if "t \<in> set (offered (threads s3) c ?Q q)" "fst t = fst c" for t q
    using that by (auto simp: offered_def set_moved split: if_splits)
  obtain r s4 Q' where r: "schedule (fst frame) s3 = Some (r, s4)" "r \<noteq> Halted" "sched_inv {} s4 Q'" "procs s4 = procs s3"
    "\<And>q t. t \<in> set (Q' q) \<Longrightarrow> fst t = fst c \<Longrightarrow> t = c \<and> q = Ready"
  proof (rule schedule_ok [OF s3(1,2), of "fst frame"])
    assume "?Q Ready = []" "schedule (fst frame) s3 = Some (Returned, s3)"
    then show thesis using that [of Returned s3 ?Q] s3(1) by simp
  next
    fix n xs qs
    let ?s = "s3\<lparr>threads := saved (fst frame) c (threads s3), queues := qs\<rparr>"
    assume n: "offered (threads s3) c ?Q Ready = n # xs" "schedule (fst frame) s3 = Some (Returned, ?s)"
      "sched_inv {} ?s ((offered (threads s3) c ?Q)(Ready := xs))"
    show thesis by (rule that [OF n(2) _ n(3) _ off]) (use n(1) in \<open>auto split: if_splits\<close>)
  next
    fix n xs qs
    let ?s = "s3\<lparr>threads := saved (fst frame) c (threads s3), queues := qs\<rparr>"
    assume n: "offered (threads s3) c ?Q Ready = n # xs" "schedule (fst frame) s3 = Some (run_thread n ?s)"
      "sched_inv {} (snd (run_thread n ?s)) ((offered (threads s3) c ?Q)(Ready := xs))"
    have e: "schedule (fst frame) s3 = Some (fst (run_thread n ?s), snd (run_thread n ?s))" using n(2) by simp
    show thesis by (rule that [OF e _ n(3) _ off]) (use n(1) in \<open>auto simp: run_thread_def Let_def split: if_splits\<close>)
  qed
  define s5 where "s5 = (if r = Returned then write_flags (cpu_flags s2) s4 else s4)"
  have e: "exception_handler frame ctx s = Some (r, s5)"
    using r(1) Some assms(5,6) by (simp add: exception_handler_def Let_def s2(5) sys_yield_def s3_def s5_def)
  have "sched_inv {} s5 Q'" "procs s5 = (procs s)(fst c \<mapsto> pr\<lparr>p_state := PROCESS_DYING\<rparr>)"
    using r(3,4) s2(3,4) s3(3) assms(4) by (simp_all add: s5_def)
  then show ?thesis using e r(2,5) Some by auto
qed

text \<open>The running thread of the user process; \<open>eip\<close> is an address where its space has a page, or has none.\<close>

definition demo_fault :: "u32 \<Rightarrow> kernel" where
  "demo_fault eip = (demo (user, 0) PROCESS_NORMAL [(idle, Ready), ((user, 1), Sleep)])
     \<lparr>contexts := (\<lambda>_. demo_context\<lparr>c_eip := eip, c_int_num := 13\<rparr>)\<rparr>"

lemma vload_total: "\<forall>i < n. vread8 (a + of_nat i) s \<noteq> None \<Longrightarrow> vload a n s \<noteq> None"
proof (induction n arbitrary: a)
  case (Suc n)
  have "vread8 (a + 1 + of_nat i) s \<noteq> None" if "i < n" for i
    using Suc.prems [rule_format, of "Suc i"] that by (simp add: add.assoc)
  then have "vload (a + 1) n s \<noteq> None" by (intro Suc.IH) simp
  then show ?case using Suc.prems [rule_format, of 0] by auto
qed simp

lemma demo_fault_code: "vload 0xFFFFF000 16 (demo_fault eip) \<noteq> None"
proof (rule vload_total)
  have l: "[0, 1, 2, 3, 4, 5, 6, 7, 8, 9, 10, 11, 12, 13, 14, 15] = [0..<16]" by code_simp
  have "\<forall>i \<in> set [0, 1, 2, 3, 4, 5, 6, 7, 8, 9, 10, 11, 12, 13, 14, 15]. vread8 (0xFFFFF000 + of_nat i) (demo_fault eip) \<noteq> None"
    by (simp add: demo_fault_def vread8_def translate_def demo_memory_def frame_of_def present_def)
  then have "\<forall>i \<in> set [0..<16]. vread8 (0xFFFFF000 + of_nat i) (demo_fault eip) \<noteq> None" unfolding l .
  then show "\<forall>i<16. vread8 (0xFFFFF000 + of_nat i) (demo_fault eip) \<noteq> None" by simp
qed

lemma demo_fault_unmapped: "vload 0x400000 16 (demo_fault eip) = None"
proof -
  have "vread8 0x400000 (demo_fault eip) = None"
    by (simp add: demo_fault_def vread8_def translate_def demo_memory_def frame_of_def present_def)
  then show ?thesis by (simp add: numeral_eq_Suc)
qed

theorem user_exception_witness:
  "exception_handler (0xE0001F00, demo_context) 0 (demo_fault 0x400000) = Some (Halted, disable_interrupts (demo_fault 0x400000)) \<and>
   (\<exists>r s'. exception_handler (0xE0001F00, demo_context) 0 (demo_fault 0xFFFFF000) = Some (r, s') \<and> r \<noteq> Halted \<and>
      p_state (the (procs s' user)) = PROCESS_DYING)"
proof -
  have wf: "demo_wf (user, 0) [(idle, Ready), ((user, 1), Sleep)]" by (simp add: demo_wf_def)
  have inv: "sched_inv {} (demo_fault e) (members [(idle, Ready), ((user, 1), Sleep)])" for e
    using demo_inv [OF wf, of PROCESS_NORMAL] by (simp add: demo_fault_def sched_inv_def)
  have f: "current_thread (demo_fault e) = Some (user, 0)" "procs (demo_fault e) = demo_procs PROCESS_NORMAL"
    "c_int_num (contexts (demo_fault e) 0) = 13" "c_cs (contexts (demo_fault e) 0) AND 3 = 3"
    "c_eip (contexts (demo_fault e) 0) = e" for e
    by (simp_all add: demo_fault_def demo_context_def first_context_def)
  note w = user_exception [OF inv f(1), where ctx = 0 and frame = "(0xE0001F00, demo_context)", unfolded f(2,5)]
  have n: "fst (user, 0 :: nat) \<noteq> Idle" by simp
  have p: "demo_procs PROCESS_NORMAL (fst (user, 0 :: nat)) = Some (the (demo_procs PROCESS_NORMAL user))" by simp
  have i: "c_int_num (contexts (demo_fault e) 0) < 32" for e by (simp add: f(3))
  have a: "exception_handler (0xE0001F00, demo_context) 0 (demo_fault 0x400000) = Some (Halted, disable_interrupts (demo_fault 0x400000))"
    using w [OF n p i f(4), of "0x400000"] by (simp add: demo_fault_unmapped)
  obtain code where "vload 0xFFFFF000 16 (demo_fault 0xFFFFF000) = Some code" using demo_fault_code by blast
  then obtain r s' where "exception_handler (0xE0001F00, demo_context) 0 (demo_fault 0xFFFFF000) = Some (r, s')" "r \<noteq> Halted"
    "p_state (the (procs s' user)) = PROCESS_DYING"
    using w [OF n p i f(4), of "0xFFFFF000"] by auto
  with a show ?thesis by blast
qed

end
