(* ===== verification/Thread_Law.thy ===== *)
theory Thread_Law
  imports Kernel_After
begin

text \<open>
  What holds of every thread record.  A property of the records that survives the writes the kernel makes
  to their fields (\<open>thread_writes\<close>) and the creation of threads (\<open>thread_creates\<close>) survives every step that
  creates no process; one that also holds of a cleared and of a new record (\<open>thread_law\<close>) holds of every
  record in every reachable state.  The locales state those writes once; a client proves a property by
  checking them.
\<close>

section \<open>The interface\<close>

definition all_threads :: "(tref \<Rightarrow> thread \<Rightarrow> bool) \<Rightarrow> kernel \<Rightarrow> bool" where
  "all_threads P s \<longleftrightarrow> (\<forall>t. P t (threads s t))"

lemma all_threadsD: "all_threads P s \<Longrightarrow> P t (threads s t)"
  unfolding all_threads_def by (rule spec)

definition keeps :: "(tref \<Rightarrow> thread \<Rightarrow> bool) \<Rightarrow> kernel \<Rightarrow> kernel \<Rightarrow> bool" where
  "keeps P s s' \<longleftrightarrow> (all_threads P s \<longrightarrow> all_threads P s')"

lemma keeps_refl [simp]: "keeps P s s"
  by (simp add: keeps_def)

lemma keeps_trans [trans]: "\<lbrakk> keeps P s t; keeps P t u \<rbrakk> \<Longrightarrow> keeps P s u"
  by (simp add: keeps_def)

lemma keeps_same: "same_sched s s' \<Longrightarrow> keeps P s s'"
  by (simp add: keeps_def all_threads_def same_sched_def)

lemma keeps_threads [simp]:
  "threads s1 = threads s \<Longrightarrow> keeps P s s1"
  by (simp add: keeps_def all_threads_def)

lemma all_threads_fields [simp]:
  "all_threads P (disable_interrupts s) = all_threads P s" "all_threads P (write_flags f s) = all_threads P s"
  "all_threads P (push_context a c s) = all_threads P s" "all_threads P (set_eax a v s) = all_threads P s"
  "all_threads P (s\<lparr>receiving := rc\<rparr>) = all_threads P s" "all_threads P (s\<lparr>queues := qs\<rparr>) = all_threads P s"
  "all_threads P (s\<lparr>procs := ps\<rparr>) = all_threads P s" "all_threads P (s\<lparr>first_process := p\<rparr>) = all_threads P s"
  "all_threads P (s\<lparr>current_pid := n\<rparr>) = all_threads P s" "all_threads P (s\<lparr>contexts := cs\<rparr>) = all_threads P s"
  "all_threads P (s\<lparr>cr3 := a\<rparr>) = all_threads P s" "all_threads P (s\<lparr>cpu_flags := fl\<rparr>) = all_threads P s"
  by (simp_all add: all_threads_def disable_interrupts_def write_flags_def push_context_def set_eax_def)

lemma set_process_keeps: "set_process p f s = Some s' \<Longrightarrow> keeps P s s'"
  by (auto simp: set_process_def keeps_def)

lemma set_thread_keeps:
  assumes "set_thread t f s = Some s'" and "\<And>th. P t th \<Longrightarrow> P t (f th)"
  shows "keeps P s s'"
proof -
  have "P u (((threads s)(t := f (threads s t))) u)" if "all_threads P s" for u
    using assms(2) all_threadsD [OF that] by (cases "u = t") simp_all
  moreover have "s' = s\<lparr>threads := (threads s)(t := f (threads s t))\<rparr>"
    using assms(1) by (auto simp: set_thread_def thread_at_def split: if_splits)
  ultimately show ?thesis by (simp add: keeps_def all_threads_def)
qed

lemma after_keeps:
  "(\<And>s'. m = Some s' \<Longrightarrow> keeps P s s') \<Longrightarrow> all_threads P s \<Longrightarrow> after1 (all_threads P) m"
  "(\<And>r s'. n = Some (r, s') \<Longrightarrow> keeps P s s') \<Longrightarrow> all_threads P s \<Longrightarrow> after (all_threads P) n"
  by (auto simp: after1_def after_def keeps_def)

lemma after_set_process: "all_threads P s \<Longrightarrow> after1 (all_threads P) (set_process p f s)"
  by (rule after_keeps) (rule set_process_keeps)

locale thread_writes =
  fixes P :: "tref \<Rightarrow> thread \<Rightarrow> bool"
  assumes law_state: "P t th \<Longrightarrow> P t (th\<lparr>t_state := st\<rparr>)"
    and law_sp0: "P t th \<Longrightarrow> P t (th\<lparr>t_sp0 := a\<rparr>)"
    and law_exit: "P t th \<Longrightarrow> P t (th\<lparr>t_exit_code := v\<rparr>)"
    and law_wake: "P t th \<Longrightarrow> P t (th\<lparr>t_wake_tick := w\<rparr>)"

sublocale thread_writes \<subseteq> sched_only "all_threads P"
  by unfold_locales (simp add: all_threads_def same_sched_def)

context thread_writes
begin

lemma enqueue_keeps:
  assumes "enqueue q st t s = Some s'"
  shows "keeps P s s'"
proof (cases t)
  case None
  then show ?thesis using assms by (simp add: enqueue_def)
next
  case (Some u)
  obtain qs s1 where o: "set_thread u (\<lambda>th. th\<lparr>t_state := st\<rparr>) ((disable_interrupts s)\<lparr>queues := qs\<rparr>) = Some s1"
    "s' = write_flags (cpu_flags s) s1"
    using assms Some by (auto simp: enqueue_def bind_eq_Some_conv Let_def)
  show ?thesis using set_thread_keeps [OF o(1), of P] law_state by (simp add: keeps_def o(2))
qed

lemma switch_context_keeps:
  assumes "switch_context t s = Some (r, s')"
  shows "keeps P s s'"
proof (cases "t = None \<or> current_thread s = None")
  case True
  then have "switch_context t s = Some (Returned, s)" by (cases "current_thread s") (auto simp: switch_context_def)
  then show ?thesis using assms by simp
next
  case False
  then obtain n c where n: "t = Some n" "current_thread s = Some c" by auto
  obtain th where th: "thread_at n s = Some th" using assms n by (auto simp: switch_context_def bind_eq_Some_conv)
  show ?thesis
  proof (cases "t_process th")
    case None
    then show ?thesis using assms n th by (auto simp: switch_context_def keeps_def)
  next
    case (Some p)
    obtain s1 s2 where o: "threads s1 = threads s" "set_thread n (\<lambda>th. th\<lparr>t_state := THREAD_RUNNING\<rparr>) s1 = Some s2"
      "s' = snd (restore_context (t_sp0 th) s2)"
    proof -
      have "\<exists>s1 s2. threads s1 = threads s \<and> set_thread n (\<lambda>th. th\<lparr>t_state := THREAD_RUNNING\<rparr>) s1 = Some s2 \<and>
          Some (restore_context (t_sp0 th) s2) = Some (r, s')"
        using assms n th Some unfolding switch_context_def Let_def
        by (simp add: bind_eq_Some_conv del: option.inject) (elim exE conjE, intro exI conjI, simp_all)
      then show thesis using that by (metis option.inject snd_conv)
    qed
    have "keeps P s s1" using o(1) by (simp add: keeps_def all_threads_def)
    moreover have "keeps P s1 s2" by (rule set_thread_keeps [OF o(2)], rule law_state)
    moreover have "keeps P s2 s'" by (simp add: o(3) restore_context_def keeps_def)
    ultimately show ?thesis using keeps_trans by blast
  qed
qed


lemma schedule_keeps:
  assumes "schedule ctx s = Some (r, s')"
  shows "keeps P s s'"
proof (cases "queue_empty (Some Ready) (queues s)")
  case True
  then show ?thesis using assms by (simp add: schedule_def)
next
  case False
  obtain c s1 th qs0 where o: "(if ctx \<noteq> 0 then set_thread c (\<lambda>th. th\<lparr>t_sp0 := ctx\<rparr>) s else Some s) = Some s1"
    and rest: "(let (n, qs) = queue_pop (Some Ready) qs0; s = s1\<lparr>queues := qs\<rparr>
        in do { new_thread \<leftarrow> n;
          if new_thread = c then Some (Returned, s)
          else do {
            th' \<leftarrow> thread_at new_thread s;
            p \<leftarrow> t_process th';
            pr \<leftarrow> procs s p;
            if p_state pr = PROCESS_DYING then Some (Returned, s) else switch_context (Some new_thread) s } }) = Some (r, s')"
    using assms False unfolding schedule_def by (simp add: bind_eq_Some_conv) blast
  obtain n qs where q: "queue_pop (Some Ready) qs0 = (n, qs)" by (metis surj_pair)
  have o2: "(r, s') = (Returned, s1\<lparr>queues := qs\<rparr>) \<or> (\<exists>n. switch_context (Some n) (s1\<lparr>queues := qs\<rparr>) = Some (r, s'))"
    using rest unfolding q by (auto simp: bind_eq_Some_conv Let_def split: if_splits)
  have "keeps P s s1"
  proof (cases "ctx = 0")
    case False
    then have "set_thread c (\<lambda>th. th\<lparr>t_sp0 := ctx\<rparr>) s = Some s1" using o by simp
    then show ?thesis by (rule set_thread_keeps) (rule law_sp0)
  qed (use o in simp)
  moreover have "keeps P (s1\<lparr>queues := qs\<rparr>) s'" using o2 switch_context_keeps by auto
  then have "keeps P s1 s'" by (simp add: keeps_def)
  ultimately show ?thesis by (rule keeps_trans)
qed

lemma wake_sleepers_keeps:
  assumes "wake_sleepers n s = Some s'"
  shows "keeps P s s'"
proof (rule wake_sleepers.raw_induct [where P = "\<lambda>n s s'. keeps P s s'", OF _ assms])
  fix f :: "tref option \<Rightarrow> kernel \<Rightarrow> kernel option" and n s s'
  assume ih: "\<And>n s s'. f n s = Some s' \<Longrightarrow> keeps P s s'"
    and body: "(case n of None \<Rightarrow> Some s
      | Some t \<Rightarrow> do {
          let nxt = nd_next (qnode (queues s) t);
          th \<leftarrow> thread_at t s;
          s \<leftarrow> (if ticks s \<ge> t_wake_tick th then sched_ready (Some t) s else Some s);
          f nxt s }) = Some s'"
  show "keeps P s s'"
  proof (cases n)
    case None
    then show ?thesis using body by simp
  next
    case (Some t)
    obtain th :: thread and s1 nxt where o: "(if ticks s \<ge> t_wake_tick th then sched_ready (Some t) s else Some s) = Some s1"
      "f nxt s1 = Some s'" using body unfolding Some option.case Let_def bind_eq_Some_conv
      by (elim exE conjE) (rule that, assumption, assumption)
    have "keeps P s s1" using o(1) enqueue_keeps by (auto simp: sched_ready_def split: if_splits)
    then show ?thesis using ih [OF o(2)] by (rule keeps_trans)
  qed
qed

lemma timer_handler_keeps:
  assumes "timer_handler ctx s = Some (r, s')"
  shows "keeps P s s'"
proof -
  define s0 where "s0 = s\<lparr>ticks := ticks s + 1, ports := pic_send_eoi 0 (ports s)\<rparr>"
  obtain s1 n where o: "wake_sleepers n s0 = Some s1" "schedule ctx s1 = Some (r, s')"
    using assms by (auto simp: timer_handler_def bind_eq_Some_conv s0_def Let_def)
  have "keeps P s s0" by (simp add: s0_def)
  also note wake_sleepers_keeps [OF o(1)]
  also note schedule_keeps [OF o(2)]
  finally show ?thesis .
qed

lemma sys_yield_keeps:
  assumes "sys_yield f s = Some (r, s')"
  shows "keeps P s s'"
proof -
  have "keeps P s (push_context (fst f) (snd f) (disable_interrupts s))" for f by (simp add: keeps_def)
  then show ?thesis using assms schedule_keeps unfolding keeps_def
    by (fastforce simp: sys_yield_def bind_eq_Some_conv Let_def split: if_splits)
qed

lemma after_sched:
  assumes "all_threads P s"
  shows "after1 (all_threads P) (enqueue q st t s)" "after (all_threads P) (schedule ctx s)"
    "after (all_threads P) (sys_yield frame s)" "after (all_threads P) (timer_handler ctx s)"
  by (rule after_keeps [OF _ assms], (rule enqueue_keeps schedule_keeps sys_yield_keeps timer_handler_keeps), assumption)+

lemma after_set_thread:
  assumes "all_threads P s"
  shows "after1 (all_threads P) (set_thread t (\<lambda>th. th\<lparr>t_state := st\<rparr>) s)"
    "after1 (all_threads P) (set_thread t (\<lambda>th. th\<lparr>t_exit_code := v\<rparr>) s)"
    "after1 (all_threads P) (set_thread t (\<lambda>th. th\<lparr>t_wake_tick := w\<rparr>) s)"
  by (rule after_keeps [OF _ assms], erule set_thread_keeps, (rule law_state law_exit law_wake), assumption)+

lemmas law_rules = after_rules after_set_process after_sched after_set_thread

lemma after_exit: "all_threads P s \<Longrightarrow> after (all_threads P) (sched_exit_current_thread ctx v s)"
  unfolding sched_exit_current_thread_def sched_zombie_def Let_def by (auto intro!: law_rules)

lemma after_sleep: "all_threads P s \<Longrightarrow> after (all_threads P) (sched_thread_sleep ctx w s)"
  unfolding sched_thread_sleep_def sched_sleep_def Let_def by (auto intro!: law_rules split: option.split)

lemma after_for_each:
  assumes "\<And>i s. all_threads P s \<Longrightarrow> after1 (all_threads P) (f i s)"
  shows "all_threads P s \<Longrightarrow> after1 (all_threads P) (for_each f is s)"
  by (induction "is" arbitrary: s) (auto intro!: after_binds assms)

lemma after_unqueue: "all_threads P s \<Longrightarrow> after1 (all_threads P) (unqueue t s)"
  unfolding unqueue_def by (auto intro!: law_rules)

lemma after_destroy_current: "all_threads P s \<Longrightarrow> after (all_threads P) (sched_destroy_current_process frame s)"
  unfolding sched_destroy_current_process_def Let_def
  by (auto intro!: law_rules after_for_each after_unqueue split: option.split)

lemma after_destroy_thread: "all_threads P s \<Longrightarrow> after1 (all_threads P) (sched_destroy_thread t s)"
  unfolding sched_destroy_thread_def Let_def by (auto intro!: law_rules split: option.split)

lemma after_reparent: "all_threads P s \<Longrightarrow> after1 (all_threads P) (reparent p q s)"
  by (rule after_keeps) (auto dest: reparent_frame)

lemma after_destroy_process: "all_threads P s \<Longrightarrow> after1 (all_threads P) (sched_destroy_process p s)"
  unfolding sched_destroy_process_def free_process_def Let_def
  by (auto intro!: law_rules after_reparent after_for_each after_destroy_thread split: option.split pref.split)

end

section \<open>System calls\<close>

locale thread_creates = thread_writes +
  assumes creates: "all_threads P s \<Longrightarrow> after (all_threads P) (sched_create_thread loc proc s)"

context thread_creates
begin

lemma after_nthread: "all_threads P s \<Longrightarrow> after (all_threads P) (sys_nthread_impl ctx s)"
  unfolding sys_nthread_impl_def sched_ready_def Let_def by (auto intro!: law_rules creates split: option.split)

lemma after_receive_message: "all_threads P s \<Longrightarrow> after (all_threads P) (receive_message p a b n s)"
  unfolding receive_message_def Let_def by (auto intro!: law_rules split: option.split prod.split)

lemma after_messages:
  assumes "all_threads P s"
  shows "after (all_threads P) (ipc_send junk pid ty a n s)" "after (all_threads P) (ipc_receive frame ctx a b n s)"
  using assms unfolding ipc_send_def wake_waiter_def sched_ready_def ipc_receive_def Let_def
  by (auto intro!: law_rules after_receive_message split: option.split prod.split)

lemma after_start_process: "all_threads P s \<Longrightarrow> after (all_threads P) (start_process p data n s)"
  unfolding start_process_def copy_image_def sched_ready_def Let_def
  by (auto intro!: law_rules creates after_destroy_process split: option.split)

text \<open>The system call that creates a process is left to the client.\<close>

lemma after_run_syscall:
  "\<lbrakk> all_threads P s; c_eax (contexts s ctx) = 3 \<Longrightarrow> after (all_threads P) (sys_nprocess_impl ctx s) \<rbrakk>
    \<Longrightarrow> after (all_threads P) (run_syscall junk frame ctx s)"
  unfolding run_syscall_def sys_exit_impl_def sys_getpid_impl_def sys_getppid_impl_def sys_sleep_impl_def
    sys_send_impl_def sys_receive_impl_def Let_def
  by (auto intro!: law_rules after_exit after_sleep after_nthread after_messages)

lemma after_syscall:
  "\<lbrakk> all_threads P s; c_eax (contexts s ctx) = 3 \<Longrightarrow> after (all_threads P) (sys_nprocess_impl ctx s) \<rbrakk>
    \<Longrightarrow> after (all_threads P) (syscall_handler junk frame ctx s)"
  unfolding syscall_handler_def by (auto intro!: law_rules after_run_syscall split: sum.split)

lemma after_resume: "all_threads P s \<Longrightarrow> after1 (all_threads P) (syscall_resume s)"
  unfolding syscall_resume_def Let_def by (auto intro!: law_rules after_receive_message)

section \<open>Every step\<close>

lemma after_interrupt:
  assumes "all_threads P s" and "\<lbrakk> interrupt_handler c (kidt s) = Some Syscall_Handler; c_eax c = 3 \<rbrakk> \<Longrightarrow>
      after (all_threads P) (sys_nprocess_impl ctx (enter_interrupt ctx c s))"
  shows "after (all_threads P) (interrupt junk frame ctx c s)"
proof -
  define u where "u = enter_interrupt ctx c s"
  have u: "all_threads P u" "contexts u ctx = c\<lparr>c_eflags := cpu_flags s\<rparr>" "kidt u = kidt s"
    using assms(1)
    by (simp_all add: u_def enter_interrupt_def push_context_def disable_interrupts_def write_flags_def all_threads_def Let_def)
  have h: "interrupt_handler (contexts u ctx) (kidt u) = interrupt_handler c (kidt s)"
    by (simp add: u interrupt_handler_def)
  have sys: "after (all_threads P) (syscall_handler junk frame ctx u)" if "interrupt_handler c (kidt s) = Some Syscall_Handler"
    by (rule after_syscall [OF u(1)]) (use assms(2) [OF that] u(2) in \<open>simp add: u_def\<close>)
  have "after (all_threads P) (case interrupt_handler (contexts u ctx) (kidt u) of None \<Rightarrow> Some (Returned, u)
      | Some h \<Rightarrow> run_handler junk frame h ctx u)"
    unfolding run_handler_def exception_handler_def Let_def
    using u(1) sys unfolding h by (auto intro!: law_rules after_destroy_current split: option.split handler.split)
  then show ?thesis
    unfolding interrupt_def u_def [symmetric] Let_def
    by (rule after_bind4) (simp add: restore_context_def)
qed

lemma kernel_step_keeps:
  assumes "kernel_step s s'" and "all_threads P s"
    and "\<And>ctx u. \<lbrakk> all_threads P u; procs u = procs s; heap_intact (c_ecx (contexts u ctx)) u \<rbrakk> \<Longrightarrow>
      after (all_threads P) (sys_nprocess_impl ctx u)"
  shows "all_threads P s'"
  using assms(1)
proof cases
  case (interrupt_step t c ctx junk frame ctl)
  define u where "u = enter_interrupt ctx c s"
  have u: "all_threads P u" "procs u = procs s" "contexts u ctx = c\<lparr>c_eflags := cpu_flags s\<rparr>"
    using assms(2)
    by (simp_all add: u_def enter_interrupt_def push_context_def disable_interrupts_def write_flags_def all_threads_def Let_def)
  have "after (all_threads P) (interrupt junk frame ctx c s)"
  proof (rule after_interrupt [OF assms(2)])
    assume "interrupt_handler c (kidt s) = Some Syscall_Handler" "c_eax c = 3"
    then have "heap_intact (c_ecx c) u" using interrupt_step(1,4) by (simp add: admissible_def u_def)
    then have "heap_intact (c_ecx (contexts u ctx)) u" by (simp add: u(3))
    from assms(3) [OF u(1,2) this] show "after (all_threads P) (sys_nprocess_impl ctx (enter_interrupt ctx c s))"
      by (simp add: u_def)
  qed
  then show ?thesis using interrupt_step by (simp add: after_def)
next
  case (resume_step t)
  then show ?thesis using after_resume [OF assms(2)] by (simp add: after1_def)
next
  case (reaper_step p)
  then show ?thesis using after_destroy_process [OF assms(2), of "Some p"] assms(2)
    by (auto simp: reaper_visit_def after1_def bind_eq_Some_conv split: if_splits)
next
  case (store_step a bs)
  then show ?thesis using after_memory(8) [OF assms(2), of a bs] by (simp add: after1_def)
next
  case enable_step
  then show ?thesis using assms(2) by simp
qed

end

section \<open>Every reachable state\<close>

locale thread_law = thread_writes +
  assumes law_zero: "P t zero_thread"
    and law_idle: "P idle (zero_thread\<lparr>t_process := Some Idle\<rparr>)"
    and law_new: "\<lbrakk> snd t < 8; stack0 \<noteq> 0 \<rbrakk> \<Longrightarrow> P t (new_thread_state t (user_sp (snd t)) stack0)"
begin

lemma after_create_thread:
  assumes "all_threads P s"
  shows "after (all_threads P) (sched_create_thread loc proc s)"
proof (rule after_keeps(2) [OF _ assms])
  fix r s' assume "sched_create_thread loc proc s = Some (r, s')"
  then show "keeps P s s'"
  proof (cases rule: create_thread_cases)
    case (failed p idx)
    have "keeps P s (clear_thread (p, idx) s)" by (auto simp: keeps_def all_threads_def clear_thread_def law_zero)
    then show ?thesis using keeps_same [OF failed(4)] by (rule keeps_trans)
  next
    case (created p pr idx s1 stack0)
    have idx: "snd (p, idx) < 8" using thread_slot_free(1) [OF created(5)] by simp
    have "keeps P s (clear_thread (p, idx) s)" by (auto simp: keeps_def all_threads_def clear_thread_def law_zero)
    also have "keeps P (clear_thread (p, idx) s) s1" by (rule keeps_same [OF created(8)])
    also have "keeps P s1 s'"
      using law_new [OF idx created(7)] unfolding created(9) by (simp add: keeps_def all_threads_def)
    finally show ?thesis .
  qed simp
qed

end

sublocale thread_law \<subseteq> thread_creates P
  by unfold_locales (rule after_create_thread)

context thread_law
begin

lemma after_create_process: "all_threads P s \<Longrightarrow> after (all_threads P) (sched_create_process s)"
proof -
  have "all_threads P (clear_process p u)" if "all_threads P u" for p u
    using that by (simp add: all_threads_def clear_process_def law_zero)
  then show "all_threads P s \<Longrightarrow> after (all_threads P) (sched_create_process s)"
    unfolding sched_create_process_def setup_process_def Let_def
    by (auto intro!: law_rules split: option.split)
qed

lemma after_nprocess: "all_threads P s \<Longrightarrow> after (all_threads P) (sys_nprocess_impl ctx s)"
  unfolding sys_nprocess_impl_def Let_def
  by (auto intro!: law_rules after_create_process after_start_process split: option.split)

lemma reachable_law:
  assumes "reachable dev s"
  shows "all_threads P s"
  using assms
proof (induction rule: reachable.induct)
  case (boot s f r s')
  then have "threads (syscall_init s') = (\<lambda>_. zero_thread)(idle := zero_thread\<lparr>t_process := Some Idle\<rparr>)"
    by (auto simp: boot_kernel_def sched_init_def set_process_def set_thread_def thread_at_def with_idt_def
        syscall_init_def Let_def bind_eq_Some_conv)
  then show ?case using law_zero law_idle by (simp add: all_threads_def)
next
  case (step s s')
  show ?case by (rule kernel_step_keeps [OF step(2,3)]) (rule after_nprocess)
qed

end

end
