(* ===== verification/Slot_Props.thy ===== *)
theory Slot_Props
  imports Life_Props Thread_Law
begin

text \<open>
  The thread slots of a process over its life: a slot that was given out keeps its process in every
  later state, so it is never given out again while the process exists.
\<close>

section \<open>A slot keeps its process\<close>

definition slot_is :: "tref \<Rightarrow> pref \<Rightarrow> tref \<Rightarrow> thread \<Rightarrow> bool" where
  "slot_is x v t th \<longleftrightarrow> (t = x \<longrightarrow> t_process th = Some v)"

interpretation slot_writes: thread_writes "slot_is x v" for x v
  by unfold_locales (simp_all add: slot_is_def)

lemma slot_all: "all_threads (slot_is x v) s \<longleftrightarrow> t_process (threads s x) = Some v"
  by (auto simp: all_threads_def slot_is_def)

text \<open>A new thread gets a slot without a process.\<close>

lemma slot_create_thread:
  assumes "all_threads (slot_is x v) s"
  shows "after (all_threads (slot_is x v)) (sched_create_thread loc proc s)"
  unfolding after_def
proof (intro allI impI)
  fix r s' assume "sched_create_thread loc proc s = Some (r, s')"
  then show "all_threads (slot_is x v) s'"
  proof (cases rule: create_thread_cases)
    case none
    then show ?thesis using assms by simp
  next
    case (failed p idx)
    have "(p, idx) \<noteq> x" using thread_slot_free(2) [OF failed(2)] assms by (auto simp: slot_all)
    then show ?thesis using failed(4) assms by (auto simp: slot_all same_sched_def clear_thread_def)
  next
    case (created p pr idx s1 stack0)
    have "(p, idx) \<noteq> x" using thread_slot_free(2) [OF created(5)] assms by (auto simp: slot_all)
    then show ?thesis using created(8,9) assms by (auto simp: slot_all same_sched_def clear_thread_def)
  qed
qed

interpretation slots: thread_creates "slot_is x v" for x v
  by unfold_locales (rule slot_create_thread)

text \<open>A new process gets a block that is not a process's, and clears the slots in it.\<close>

lemma slot_create_process:
  assumes "all_threads (slot_is x v) s" and "procs s (fst x) \<noteq> None" and "heap_fresh s"
  shows "after (all_threads (slot_is x v)) (sched_create_process s)"
proof (cases "heap_alloc 1636 s")
  case None
  then show ?thesis by (simp add: sched_create_process_def)
next
  case (Some as)
  obtain a s1 where a: "heap_alloc 1636 s = Some (a, s1)" using Some by (cases as) simp
  have k: "all_threads (slot_is x v) s1" using assms(1) memory_same(1) [OF a] by (simp add: slot_all same_sched_def)
  have "Proc a \<noteq> fst x" using assms(2,3) a by (auto simp: heap_fresh_def)
  then have c: "all_threads (slot_is x v) (clear_process (Proc a) s1)" using k by (simp add: slot_all clear_process_def)
  show ?thesis
    unfolding sched_create_process_def setup_process_def a Let_def
    by (auto intro!: slot_writes.law_rules k c split: option.split)
qed

lemma slot_nprocess:
  assumes "all_threads (slot_is x v) u" and "procs u (fst x) \<noteq> None" and "heap_intact (c_ecx (contexts u ctx)) u"
  shows "after (all_threads (slot_is x v)) (sys_nprocess_impl ctx u)"
  unfolding after_def
proof (intro allI impI)
  fix res s' assume r: "sys_nprocess_impl ctx u = Some (res, s')"
  define entry n where "entry = c_ebx (contexts u ctx)" and "n = c_ecx (contexts u ctx)"
  note defs = sys_nprocess_impl_def Let_def entry_def [symmetric] n_def [symmetric]
  show "all_threads (slot_is x v) s'"
  proof (cases "entry = 0 \<or> n = 0")
    case True
    then show ?thesis using r assms(1) unfolding defs by auto
  next
    case nz: False
    obtain data s1 where d: "heap_alloc n u = Some (data, s1)" using r nz unfolding defs by (auto simp: bind_eq_Some_conv)
    note k1 = memory_same(1) [OF d]
    show ?thesis
    proof (cases "data = 0")
      case True
      then have "s' = s1" using r nz d unfolding defs by auto
      then show ?thesis using assms(1) k1 by (simp add: slot_all same_sched_def)
    next
      case dz: False
      obtain s2 p s3 where s2: "vmemcpy data entry n s1 = Some s2" "sched_create_process s2 = Some (p, s3)"
        using r nz d dz unfolding defs by (auto simp: bind_eq_Some_conv)
      have pr: "procs s1 = procs u" "procs s2 = procs s1" and th: "threads s2 = threads u"
        using k1 memory_same(9) [OF s2(1)] by (simp_all add: same_sched_def)
      have "heap_fresh s2" by (rule heap_intact_fresh [OF assms(3) [folded n_def] d dz s2(1) pr])
      then have k3: "all_threads (slot_is x v) s3"
        using slot_create_process [of x v s2] s2(2) assms(1,2) pr th by (auto simp: slot_all after_def)
      show ?thesis
      proof (cases p)
        case None
        then have "heap_free data s3 = Some s'" using r nz d dz s2 unfolding defs by (auto simp: bind_eq_Some_conv)
        then show ?thesis using slot_writes.after_memory(2) [OF k3] by (auto simp: after1_def)
      next
        case (Some p')
        then have "start_process p' data n s3 = Some (res, s')" using r nz d dz s2 unfolding defs by simp
        then show ?thesis using slots.after_start_process [OF k3] by (auto simp: after_def)
      qed
    qed
  qed
qed

section \<open>Over the life of the process\<close>

text \<open>What may happen while process \<open>p\<close> exists: the steps of the kernel, and the destruction of single threads,
  for which the kernel has a function but which it uses only to destroy a whole process.\<close>

inductive lives_on :: "pref \<Rightarrow> kernel \<Rightarrow> kernel \<Rightarrow> bool" for p where
  step: "\<lbrakk> kernel_step u u'; procs u' p \<noteq> None \<rbrakk> \<Longrightarrow> lives_on p u u'"
| destroy: "\<lbrakk> sched_destroy_thread t u = Some u'; procs u' p \<noteq> None \<rbrakk> \<Longrightarrow> lives_on p u u'"

lemma slot_stays:
  assumes "(lives_on p)\<^sup>*\<^sup>* s s'" and "procs s p \<noteq> None" and "t_process (threads s (p, i)) = Some v"
  shows "procs s' p \<noteq> None \<and> t_process (threads s' (p, i)) = Some v"
  using assms
proof (induction rule: rtranclp_induct)
  case (step u u')
  then have u: "procs u p \<noteq> None" "all_threads (slot_is (p, i) v) u" by (simp_all add: slot_all)
  from step(2) show ?case
  proof cases
    case step
    have "all_threads (slot_is (p, i) v) u'"
      by (rule slots.kernel_step_keeps [OF step(1) u(2)]) (rule slot_nprocess, use u(1) in simp_all)
    then show ?thesis using step(2) by (simp add: slot_all)
  next
    case (destroy t)
    then have "all_threads (slot_is (p, i) v) u'" using slot_writes.after_destroy_thread [OF u(2), of t] by (simp add: after1_def)
    then show ?thesis using destroy(2) by (simp add: slot_all)
  qed
qed simp

text \<open>
  C17. A thread slot is given out once.  In every history of kernel steps and destructions of threads in which
  a process goes on existing, a slot that belongs to the process at the start belongs to it at the end,
  whatever became of its thread, and \<open>sched_create_thread\<close> does not give it out again (as for property C1, a \<^verbatim>\<open>SYS_NPROCESS\<close>
  is among the steps only while the heap is intact).  So a process that
  has had eight threads gets no other one for the rest of its life: \<open>sched_create_thread\<close> returns \<^verbatim>\<open>NULL\<close>
  and does nothing.
\<close>

theorem slots_given_once:
  assumes "(lives_on p)\<^sup>*\<^sup>* s s'" and "procs s p \<noteq> None"
  shows "(\<forall>i. t_process (threads s (p, i)) = Some p \<longrightarrow> t_process (threads s' (p, i)) = Some p \<and>
      (\<forall>loc r u. sched_create_thread loc (Some p) s' = Some (r, u) \<longrightarrow> r \<noteq> Some (p, i))) \<and>
    ((\<forall>i < 8. t_process (threads s (p, i)) = Some p) \<longrightarrow> (\<forall>loc. sched_create_thread loc (Some p) s' = Some (None, s')))"
proof (intro conjI allI impI)
  fix i assume i: "t_process (threads s (p, i)) = Some p"
  then show k: "t_process (threads s' (p, i)) = Some p" using slot_stays [OF assms] by blast
  fix loc r u assume "sched_create_thread loc (Some p) s' = Some (r, u)"
  then show "r \<noteq> Some (p, i)"
    by (cases rule: create_thread_cases) (use k in \<open>auto dest: thread_slot_free(2)\<close>)
next
  fix loc assume all: "\<forall>i < 8. t_process (threads s (p, i)) = Some p"
  obtain pr where pr: "procs s' p = Some pr" using slot_stays [OF assms, of 0] all by auto
  have "t_process (threads s' (p, i)) \<noteq> None" if "i < 8" for i using slot_stays [OF assms, of i] all that by simp
  then have "thread_slot p s' = None" by (simp add: thread_slot_def find_None_iff)
  then show "sched_create_thread loc (Some p) s' = Some (None, s')" using pr by (simp add: sched_create_thread_def)
qed

definition demo_full :: "(tref \<times> qref) list" where
  "demo_full = map (\<lambda>i. ((user, i), Blocked)) [0..<8]"

lemma demo_full_wf: "demo_wf idle demo_full"
  by (auto simp: demo_wf_def demo_full_def distinct_map inj_on_def comp_def)

lemma destroyed_thread_free:
  assumes "sched_destroy_thread (Some t) s = Some s'" and "t_process (threads s t) \<noteq> None" and "current_thread s \<noteq> Some t"
  shows "t_state (threads s' t) = THREAD_FREE"
proof -
  have th: "thread_at t s = Some (threads s t)"
    using assms(1) by (auto simp: sched_destroy_thread_def thread_at_def split: if_splits)
  show ?thesis
  proof (cases "t_state (threads s t) = THREAD_FREE")
    case True
    then have "s' = s" using assms(1,2) th by (auto simp: sched_destroy_thread_def split: option.splits)
    then show ?thesis using True by simp
  next
    case False
    obtain s3 s4 where "set_thread t (\<lambda>th. th\<lparr>t_state := THREAD_FREE\<rparr>) s3 = Some s4" "threads s' = threads s4"
      using assms th False unfolding sched_destroy_thread_def Let_def
      by (auto simp: bind_eq_Some_conv write_flags_def split: option.splits)
    then show ?thesis by (auto simp: set_thread_def)
  qed
qed

text \<open>All eight threads of the user process wait; one is destroyed, and then interrupts are enabled.\<close>

theorem slots_given_once_witness:
  "\<exists>s' s''. sched_destroy_thread (Some (user, 3)) (demo idle PROCESS_NORMAL demo_full) = Some s' \<and>
     t_state (threads s' (user, 3)) = THREAD_FREE \<and> kernel_step s' s'' \<and>
     sched_create_thread 0x400000 (Some user) s'' = Some (None, s'')"
proof -
  let ?s = "demo idle PROCESS_NORMAL demo_full"
  have m: "map_of demo_full (user, i) = Some Blocked" if "i < 8" for i
    using that by (intro map_of_is_SomeI) (auto simp: demo_full_def distinct_map inj_on_def comp_def)
  then have all: "\<forall>i < 8. t_process (threads ?s (user, i)) = Some user"
    by (simp add: demo_threads_def demo_thread_def)
  have "stackless user ?s"
    by (auto simp: stackless_def demo_threads_def demo_thread_def zero_thread_def split: option.splits)
  then obtain s' where s': "sched_destroy_thread (Some (user, 3)) ?s = Some s'" "stackless user s'"
    using destroy_thread_stackless [OF demo_inv [OF demo_full_wf], of user PROCESS_NORMAL 3] by auto
  have th: "threads ?s (user, 3) = demo_thread (user, 3) THREAD_BLOCKED" using m [of 3] by (simp add: demo_threads_def)
  have free: "t_state (threads s' (user, 3)) = THREAD_FREE"
    using destroyed_thread_free [OF s'(1)] th by (simp add: demo_thread_def)
  have "current_process s' = Some Idle"
    using sched_destroy_thread_inv [OF demo_inv [OF demo_full_wf] s'(1)] by (simp add: destroy_frame_def)
  then have step: "kernel_step s' (write_flags (cpu_flags s' OR 0x200) s')" by (rule kernel_step.enable_step)
  have alive: "procs s' user \<noteq> None" using s'(2) by (simp add: stackless_def)
  have "lives_on user ?s s'" by (rule lives_on.destroy [OF s'(1) alive])
  moreover have "lives_on user s' (write_flags (cpu_flags s' OR 0x200) s')"
    by (rule lives_on.step [OF step]) (use alive in \<open>simp add: write_flags_def\<close>)
  ultimately have "(lives_on user)\<^sup>*\<^sup>* ?s (write_flags (cpu_flags s' OR 0x200) s')" by simp
  from slots_given_once [OF this] all have
    "sched_create_thread 0x400000 (Some user) (write_flags (cpu_flags s' OR 0x200) s') =
      Some (None, write_flags (cpu_flags s' OR 0x200) s')" by simp
  with s'(1) free step show ?thesis by blast
qed

end
