(* ===== verification/User_Calls.thy ===== *)
theory User_Calls
  imports Kernel_Demo
begin

text \<open>
  The system calls as programs make them, \<^verbatim>\<open>include/arch/i686/syscall.h\<close>: what a wrapper puts into the
  registers before \<^verbatim>\<open>int $0x80\<close>.  A wrapper is a function on the context that the interrupt pushes; the
  registers it does not name keep what the program has in them.
\<close>

section \<open>Numbers\<close>

datatype syscall_number = SYS_EXIT | SYS_GETPID | SYS_GETPPID | SYS_NPROCESS | SYS_NTHREAD | SYS_SLEEP | SYS_SEND | SYS_RECEIVE

fun number_of :: "syscall_number \<Rightarrow> u32" where
  "number_of SYS_EXIT = 0"
| "number_of SYS_GETPID = 1"
| "number_of SYS_GETPPID = 2"
| "number_of SYS_NPROCESS = 3"
| "number_of SYS_NTHREAD = 4"
| "number_of SYS_SLEEP = 5"
| "number_of SYS_SEND = 6"
| "number_of SYS_RECEIVE = 7"

definition int80 :: "syscall_number \<Rightarrow> interrupt_context \<Rightarrow> interrupt_context" where
  "int80 n c = c\<lparr>c_eax := number_of n, c_int_num := 0x80\<rparr>"

section \<open>Wrappers\<close>

definition sys_exit :: "u32 \<Rightarrow> interrupt_context \<Rightarrow> interrupt_context" where
  "sys_exit status c = int80 SYS_EXIT (c\<lparr>c_ebx := status\<rparr>)"

definition sys_getpid :: "interrupt_context \<Rightarrow> interrupt_context" where
  "sys_getpid c = int80 SYS_GETPID c"

definition sys_getppid :: "interrupt_context \<Rightarrow> interrupt_context" where
  "sys_getppid c = int80 SYS_GETPPID c"

definition sys_sleep :: "u32 \<Rightarrow> interrupt_context \<Rightarrow> interrupt_context" where
  "sys_sleep ms c = int80 SYS_SLEEP (c\<lparr>c_ebx := ms\<rparr>)"

definition sys_nthread :: "u32 \<Rightarrow> interrupt_context \<Rightarrow> interrupt_context" where
  "sys_nthread func c = int80 SYS_NTHREAD (c\<lparr>c_ebx := func\<rparr>)"

definition sys_nprocess :: "u32 \<Rightarrow> u32 \<Rightarrow> interrupt_context \<Rightarrow> interrupt_context" where
  "sys_nprocess func n c = int80 SYS_NPROCESS (c\<lparr>c_ebx := func, c_ecx := n\<rparr>)"

definition sys_send :: "u32 \<Rightarrow> u32 \<Rightarrow> u32 \<Rightarrow> u32 \<Rightarrow> interrupt_context \<Rightarrow> interrupt_context" where
  "sys_send pid ty data sz c = int80 SYS_SEND (c\<lparr>c_ebx := pid, c_ecx := ty, c_esi := data, c_edx := sz\<rparr>)"

definition sys_receive :: "u32 \<Rightarrow> u32 \<Rightarrow> u32 \<Rightarrow> interrupt_context \<Rightarrow> interrupt_context" where
  "sys_receive sender_pid buffer sz c = int80 SYS_RECEIVE (c\<lparr>c_ebx := sz, c_esi := sender_pid, c_edi := buffer\<rparr>)"

lemmas wrapper_defs = sys_exit_def sys_getpid_def sys_getppid_def sys_sleep_def sys_nthread_def sys_nprocess_def
  sys_send_def sys_receive_def int80_def

section \<open>From a wrapper to the kernel\<close>

definition with_context :: "u32 \<Rightarrow> interrupt_context \<Rightarrow> kernel \<Rightarrow> kernel" where
  "with_context ctx c s = s\<lparr>contexts := (contexts s)(ctx := c)\<rparr>"

lemma with_context_sel [simp]:
  "contexts (with_context ctx c s) ctx = c" "ms_per_tick (with_context ctx c s) = ms_per_tick s"
  "ticks (with_context ctx c s) = ticks s"
  by (simp_all add: with_context_def)

lemma wrapper_sel [simp]:
  "c_eax (sys_exit st c) = 0" "c_ebx (sys_exit st c) = st" "c_eax (sys_getpid c) = 1" "c_eax (sys_getppid c) = 2"
  "c_eax (sys_nprocess a n c) = 3" "c_ebx (sys_nprocess a n c) = a" "c_ecx (sys_nprocess a n c) = n"
  "c_eax (sys_nthread a c) = 4" "c_ebx (sys_nthread a c) = a" "c_eax (sys_sleep ms c) = 5" "c_ebx (sys_sleep ms c) = ms"
  "c_eax (sys_send p t d n c) = 6" "c_ebx (sys_send p t d n c) = p" "c_ecx (sys_send p t d n c) = t"
  "c_esi (sys_send p t d n c) = d" "c_edx (sys_send p t d n c) = n"
  "c_eax (sys_receive p b n c) = 7" "c_esi (sys_receive p b n c) = p" "c_edi (sys_receive p b n c) = b"
  "c_ebx (sys_receive p b n c) = n"
  by (simp_all add: wrapper_defs)

lemma number_of_range: "range number_of = {0, 1, 2, 3, 4, 5, 6, 7}"
proof -
  have u: "UNIV = {SYS_EXIT, SYS_GETPID, SYS_GETPPID, SYS_NPROCESS, SYS_NTHREAD, SYS_SLEEP, SYS_SEND, SYS_RECEIVE}"
    using syscall_number.exhaust by blast
  show ?thesis unfolding u by simp
qed

text \<open>
  C14. The wrappers and the dispatch in the kernel agree on numbers and registers: the context that a
  wrapper prepares makes \<open>syscall_handler\<close> call the function of its name with the arguments of the
  program in their places, for all eight calls.
\<close>

theorem user_calls_reach_kernel:
  "(let s1 = with_context ctx (sys_exit status c) s in run_syscall junk frame ctx s1 =
      map_option (\<lambda>(r, s). (if r = Returned then Inl 0 else Inr r, s)) (sched_exit_current_thread ctx status s1)) \<and>
   (let s1 = with_context ctx (sys_getpid c) s in run_syscall junk frame ctx s1 =
      map_option (\<lambda>r. (Inl r, s1)) (sched_get_current_pid s1)) \<and>
   (let s1 = with_context ctx (sys_getppid c) s in run_syscall junk frame ctx s1 =
      map_option (\<lambda>r. (Inl r, s1)) (sched_get_current_ppid s1)) \<and>
   (let s1 = with_context ctx (sys_sleep ms c) s in run_syscall junk frame ctx s1 =
      (if ms_per_tick s = 0 then None
       else map_option (\<lambda>(r, s). (if r = Returned then Inl 0 else Inr r, s))
              (sched_thread_sleep ctx (ticks s + ms div ms_per_tick s) s1))) \<and>
   (let s1 = with_context ctx (sys_send pid ty data sz c) s in run_syscall junk frame ctx s1 =
      map_option (\<lambda>(r, s). (Inl (of_int r), s)) (ipc_send junk pid ty data sz s1)) \<and>
   (let s1 = with_context ctx (sys_receive sender buffer sz c) s in run_syscall junk frame ctx s1 =
      map_option (\<lambda>(r, s). (map_sum of_int id r, s)) (ipc_receive frame ctx sender buffer sz s1)) \<and>
   (let s1 = with_context ctx (sys_nthread func c) s in run_syscall junk frame ctx s1 = do {
      p \<leftarrow> sched_get_current_process s1;
      if p = None then Some (Inl (- 1), s1)
      else do {
        (t, s2) \<leftarrow> sched_create_thread func p s1;
        if t = None then Some (Inl (- 1), s2) else do { s3 \<leftarrow> sched_ready t s2; Some (Inl 0, s3) } } }) \<and>
   (let s1 = with_context ctx (sys_nprocess func n c) s in run_syscall junk frame ctx s1 =
      (if func = 0 \<or> n = 0 then Some (Inl 0, s1)
       else do {
         (data, s2) \<leftarrow> heap_alloc n s1;
         if data = 0 then Some (Inl 0, s2)
         else do {
           s3 \<leftarrow> vmemcpy data func n s2;
           (p, s4) \<leftarrow> sched_create_process s3;
           case p of None \<Rightarrow> do { s5 \<leftarrow> heap_free data s4; Some (Inl 0, s5) }
           | Some p \<Rightarrow> start_process p data n s4 } }))"
  unfolding Let_def
  by (intro conjI)
    (auto simp: run_syscall_def sys_exit_impl_def sys_getpid_impl_def sys_getppid_impl_def sys_sleep_impl_def sys_send_impl_def
      sys_receive_impl_def sys_nthread_impl_def sys_nprocess_impl_def sched_get_ticks_def sched_get_ms_per_tick_def Let_def
      map_option_case split: option.splits cong: if_cong)

lemma unknown_call:
  assumes "c_eax c \<notin> range number_of"
  shows "run_syscall junk frame ctx (with_context ctx c s) = Some (Inl (- 1), with_context ctx c s)"
  using assms unfolding number_of_range by (simp add: run_syscall_def)

section \<open>There and back\<close>

lemma sched_get_current_pid_same:
  assumes "current_thread s' = current_thread s" and "procs s' = procs s" and "threads s' = threads s"
  shows "sched_get_current_pid s' = sched_get_current_pid s"
  unfolding sched_get_current_pid_def sched_get_current_process_def thread_at_def assms ..

text \<open>
  A system call from a program to the kernel and back: \<open>sys_getpid\<close> returns the number of the
  caller's process in \<^verbatim>\<open>eax\<close>, all other registers of the program and its flags are as before, and the
  kernel has changed nothing but the context it saved.
\<close>

theorem getpid_there_and_back:
  assumes "sched_inv {} s Q" and "current_thread s = Some t"
    and "handlers (kidt s) ! 0x80 = Some Syscall_Handler" and "length (handlers (kidt s)) = 256"
  shows "interrupt junk frame ctx (sys_getpid c) s =
    (let c' = (sys_getpid c)\<lparr>c_eflags := cpu_flags s, c_eax := p_pid (the (procs s (fst t)))\<rparr>
     in Some (Restored c', with_context ctx c' s))"
proof -
  note cur = sched_inv_current [OF assms(1,2)]
  obtain pr where pr: "procs s (fst t) = Some pr" using cur(6) by blast
  define s1 where "s1 = enter_interrupt ctx (sys_getpid c) s"
  have k: "contexts s1 ctx = (sys_getpid c)\<lparr>c_eflags := cpu_flags s\<rparr>" "kidt s1 = kidt s"
    "current_thread s1 = current_thread s" "procs s1 = procs s" "threads s1 = threads s"
    by (simp_all add: s1_def enter_interrupt_def push_context_def disable_interrupts_def write_flags_def Let_def)
  have "sched_get_current_pid s = Some (p_pid pr)"
    using cur(1) pr assms(2) thread_at_ok [of s t]
    by (simp add: sched_get_current_pid_def sched_get_current_process_def thread_ok_def)
  then have "sched_get_current_pid s1 = Some (p_pid pr)" using sched_get_current_pid_same [OF k(3-5)] by simp
  then have h: "syscall_handler junk frame ctx s1 = Some (Returned, set_eax ctx (p_pid pr) s1)"
    by (simp add: syscall_handler_def run_syscall_def k sys_getpid_impl_def Let_def)
  have "interrupt_handler (contexts s1 ctx) (kidt s1) = Some Syscall_Handler"
    using assms(3,4) by (simp add: interrupt_handler_def k wrapper_defs)
  then have "interrupt junk frame ctx (sys_getpid c) s = Some (restore_context ctx (set_eax ctx (p_pid pr) s1))"
    by (simp add: interrupt_def s1_def [symmetric] Let_def run_handler_def h)
  also have "restore_context ctx (set_eax ctx (p_pid pr) s1) =
      (let c' = (sys_getpid c)\<lparr>c_eflags := cpu_flags s, c_eax := p_pid pr\<rparr> in (Restored c', with_context ctx c' s))"
    by (simp add: restore_context_def set_eax_def k s1_def enter_interrupt_def push_context_def disable_interrupts_def
        write_flags_def with_context_def Let_def)
  finally show ?thesis by (simp add: pr Let_def)
qed

theorem getpid_there_and_back_witness:
  "\<exists>c' s'. interrupt [] (0xE0001E00, demo_context) 0xE0001F00 (sys_getpid demo_context) demo_kernel = Some (Restored c', s') \<and>
     c_eax c' = p_pid (the (procs demo_kernel Idle)) \<and> c_eip c' = 0x400000 \<and> procs s' = procs demo_kernel"
proof -
  obtain Q s where s: "sched_init plain_device 100 demo_boot = Some (0, s)" "sched_inv {} s Q"
    by (rule sched_init_ok [OF demo_boot_ok])
  have k: "demo_kernel = syscall_init s" by (simp add: demo_kernel_def s(1))
  have inv: "sched_inv {} demo_kernel Q" using s(2) by (simp add: k syscall_init_def)
  have f: "current_thread s = Some idle" "length (handlers (kidt s)) = 256"
    using s(1) by (auto simp: sched_init_def with_idt_def Let_def set_process_def set_thread_def bind_eq_Some_conv
        demo_boot_def heap_state.extend_def idt_set_handler_def idt_set_dpl_def split: if_splits)
  have c: "current_thread demo_kernel = Some idle" "length (handlers (kidt demo_kernel)) = 256"
    "handlers (kidt demo_kernel) ! 0x80 = Some Syscall_Handler"
    using f by (simp_all add: k syscall_init_def with_idt_def Let_def idt_set_handler_def idt_set_dpl_def)
  show ?thesis
    unfolding getpid_there_and_back [OF inv c(1,3,2)] Let_def
    by (simp add: with_context_def wrapper_defs demo_context_def first_context_def)
qed

end
