(* ===== verification/Debug.thy ===== *)
theory Debug
  imports Vsnprintf Terminal Ports Spinlock Pmm
begin

text \<open>
  \<^verbatim>\<open>kernel/src/debug.c\<close>: the kernel's log, which goes to the text screen and to the first serial port, and
  \<^verbatim>\<open>e820.c\<close>, the listing of the memory map.  The state is the terminal, whose trace takes the accesses to
  the serial port too, the lock word and the flags.  Nobody else runs while the lock is tried, since
  interrupts are disabled and there is one processor: a lock that is held makes \<open>spinlock\<close> loop for ever,
  the value \<^term>\<open>None\<close>.  The buffer of \<open>printk\<close> is not initialised; its content is the parameter \<open>junk\<close>.
\<close>

section \<open>debug.c\<close>

record debug =
  d_term :: terminal
  d_lock :: u32
  d_flags :: u32

text \<open>\<open>spinlock\<close> and its inner loop on one processor.\<close>

partial_function (option) spin_wait :: "u32 \<Rightarrow> u32 option" where
  "spin_wait l = (if l \<noteq> 0 then spin_wait l else Some l)"

partial_function (option) spin_acquire :: "u32 \<Rightarrow> u32 option" where
  "spin_acquire l =
     (let (old, l') = test_and_set l
      in if old \<noteq> 0 then do { l'' \<leftarrow> spin_wait l'; spin_acquire l'' } else Some l')"

definition serial_string :: "device \<Rightarrow> u8 list \<Rightarrow> io_trace \<Rightarrow> io_trace option" where
  "serial_string dev s = for_each (write_serial dev 0x3F8) s"

definition debug_print_string :: "device \<Rightarrow> u8 list \<Rightarrow> debug \<Rightarrow> debug option" where
  "debug_print_string dev s d = do {
     let flags = d_flags d;
     let d = d\<lparr>d_flags := d_flags d AND NOT 0x200\<rparr>;
     l \<leftarrow> spin_acquire (d_lock d);
     let d = d\<lparr>d_lock := l\<rparr>;
     t \<leftarrow> terminal_print_string s (d_term d);
     tr \<leftarrow> serial_string dev s (t_ports t);
     let d = d\<lparr>d_term := t\<lparr>t_ports := tr\<rparr>\<rparr>;
     let d = d\<lparr>d_lock := 0\<rparr>;
     Some (d\<lparr>d_flags := flags\<rparr>) }"

definition c_bytes :: "string \<Rightarrow> u8 list" where
  "c_bytes cs = map of_char (takeWhile (\<lambda>c. c \<noteq> NUL) cs)"

definition printk :: "mem \<Rightarrow> string \<Rightarrow> device \<Rightarrow> string \<Rightarrow> u32 list \<Rightarrow> debug \<Rightarrow> (int \<times> debug) option" where
  "printk m junk dev format arg d = do {
     (buffer, ret) \<leftarrow> vsnprintf m (Some junk) 256 (Some format) arg;
     buffer \<leftarrow> buffer;
     d \<leftarrow> debug_print_string dev (c_bytes buffer) d;
     Some (ret, d) }"

text \<open>A call of \<open>printk\<close> whose result is not used.\<close>

definition say :: "mem \<Rightarrow> string \<Rightarrow> device \<Rightarrow> string \<Rightarrow> u32 list \<Rightarrow> debug \<Rightarrow> debug option" where
  "say m junk dev format args d = map_option snd (printk m junk dev format args d)"

definition debug_init :: "device \<Rightarrow> debug \<Rightarrow> debug option" where
  "debug_init dev d =
     (let (r, tr) = serial_init dev 0x3F8 9600 (t_ports (d_term d));
          d = d\<lparr>d_term := (d_term d)\<lparr>t_ports := tr\<rparr>\<rparr>
      in if r \<noteq> 0
         then do {
           t \<leftarrow> terminal_print_string
             (c_bytes (''Falha ao inicializar a porta serial de debug'' @ [CHR 0x0D, CHR 0x0A])) (d_term d);
           Some (d\<lparr>d_term := t\<rparr>) }
         else Some d)"

text \<open>\<open>code\<close> is the code at \<open>eip\<close>; a \<^verbatim>\<open>uint64_t\<close> takes two words of the arguments.\<close>

abbreviation newline :: string where
  "newline \<equiv> [CHR 0x0D, CHR 0x0A]"

definition debug_dump_code :: "mem \<Rightarrow> string \<Rightarrow> device \<Rightarrow> u32 \<Rightarrow> u8 list \<Rightarrow> debug \<Rightarrow> debug option" where
  "debug_dump_code m junk dev eip code d = do {
     (r, d) \<leftarrow> printk m junk dev ''Bytes em 0x%016llX: '' [eip, 0] d;
     d \<leftarrow> for_each (\<lambda>b d. map_option snd (printk m junk dev ''%02hhX '' [ucast b] d)) code d;
     (r, d) \<leftarrow> printk m junk dev newline [] d;
     Some d }"

section \<open>e820.c\<close>

definition lo32 :: "u64 \<Rightarrow> u32" where "lo32 w = ucast w"
definition hi32 :: "u64 \<Rightarrow> u32" where "hi32 w = ucast (drop_bit 32 w)"

definition print_entry :: "mem \<Rightarrow> string \<Rightarrow> device \<Rightarrow> nat \<Rightarrow> e820_entry \<Rightarrow> debug \<Rightarrow> debug option" where
  "print_entry m junk dev i e d =
     (let end_addr = e_base e + e_length e
      in map_option snd (printk m junk dev (''e820[%hu]: 0x%016llX-0x%016llX: %u'' @ newline)
           [of_nat i, lo32 (e_base e), hi32 (e_base e), lo32 end_addr, hi32 end_addr, e_type e] d))"

definition E820_init :: "mem \<Rightarrow> string \<Rightarrow> device \<Rightarrow> e820_entry list \<Rightarrow> debug \<Rightarrow> debug option" where
  "E820_init m junk dev entries =
     for_each (\<lambda>(i, e). print_entry m junk dev i e) (zip [0 ..< length entries] entries)"

section \<open>The lock on one processor\<close>

lemma spin_wait_free: "spin_wait l = Some l' \<Longrightarrow> l = 0"
  by (rule spin_wait.raw_induct [of "\<lambda>l _. l = 0"]) (auto split: if_splits)

lemma spin_wait_held: "l \<noteq> 0 \<Longrightarrow> spin_wait l = None"
  using spin_wait_free by (cases "spin_wait l") auto

lemma spin_acquire_result: "spin_acquire l = (if l = 0 then Some 1 else None)"
  by (subst spin_acquire.simps) (simp add: test_and_set_def spin_wait_held)

section \<open>What reaches the serial port\<close>

lemma terminal_not_serial:
  assumes "terminal_putchar c t = Some t'"
  shows "writes_to 0x3F8 (t_ports t') = writes_to 0x3F8 (t_ports t)"
  using assms
  by (auto simp: terminal_putchar_def terminal_scroll_up_def vga_update_cursor_def Let_def bind_eq_Some_conv
      split: if_splits)

lemma terminal_string_not_serial:
  "for_each terminal_putchar s t = Some t' \<Longrightarrow> writes_to 0x3F8 (t_ports t') = writes_to 0x3F8 (t_ports t)"
  by (induction s arbitrary: t) (auto simp: bind_eq_Some_conv dest!: terminal_not_serial)

text \<open>A port that always has room.\<close>

definition serial_ready :: "device \<Rightarrow> bool" where
  "serial_ready dev \<longleftrightarrow> (\<forall>tr. dev tr 0x3FD AND 0x20 \<noteq> 0)"

lemma write_serial_ready:
  "serial_ready dev \<Longrightarrow> write_serial dev 0x3F8 c tr = Some (outb 0x3F8 c (tr @ [In 0x3FD]))"
  by (simp add: write_serial_def wait_transmit.simps is_transmit_fifo_empty_def inb_def serial_ready_def)

lemma serial_string_ready:
  assumes "serial_ready dev"
  shows "\<exists>tr'. serial_string dev s tr = Some tr' \<and> writes_to 0x3F8 tr' = writes_to 0x3F8 tr @ s"
proof (induction s arbitrary: tr)
  case (Cons c s)
  obtain tr' where "serial_string dev s (outb 0x3F8 c (tr @ [In 0x3FD])) = Some tr'"
    "writes_to 0x3F8 tr' = writes_to 0x3F8 (outb 0x3F8 c (tr @ [In 0x3FD])) @ s" using Cons.IH by blast
  then show ?case by (simp add: serial_string_def write_serial_ready [OF assms])
qed (simp add: serial_string_def)

definition log_ready :: "device \<Rightarrow> debug \<Rightarrow> bool" where
  "log_ready dev d \<longleftrightarrow> serial_ready dev \<and> d_lock d = 0 \<and> term_inv (d_term d) \<and> initialized (d_term d)"

text \<open>What a string does to the log.\<close>

definition logged :: "u8 list \<Rightarrow> debug \<Rightarrow> debug \<Rightarrow> bool" where
  "logged s d d' \<longleftrightarrow> view (d_term d') = fold (show_char (current_color (d_term d))) s (view (d_term d)) \<and>
     writes_to 0x3F8 (t_ports (d_term d')) = writes_to 0x3F8 (t_ports (d_term d)) @ s \<and>
     current_color (d_term d') = current_color (d_term d) \<and> d_flags d' = d_flags d"

lemma logged_nil: "logged [] d d"
  by (simp add: logged_def)

lemma logged_append: "\<lbrakk> logged s d d1; logged s' d1 d2 \<rbrakk> \<Longrightarrow> logged (s @ s') d d2"
  by (simp add: logged_def)

lemma debug_print_string_ok:
  assumes "log_ready dev d"
  shows "\<exists>d'. debug_print_string dev s d = Some d' \<and> log_ready dev d' \<and> logged s d d'"
proof -
  note r = assms [unfolded log_ready_def]
  obtain t where t: "for_each terminal_putchar s (d_term d) = Some t" "term_inv t"
    "view t = fold (show_char (current_color (d_term d))) s (view (d_term d))"
    "current_color t = current_color (d_term d)" "initialized t = initialized (d_term d)"
    using terminal_print_ok r by blast
  obtain tr where tr: "serial_string dev s (t_ports t) = Some tr" "writes_to 0x3F8 tr = writes_to 0x3F8 (t_ports t) @ s"
    using serial_string_ready r by blast
  have "term_inv (t\<lparr>t_ports := tr\<rparr>)" "view (t\<lparr>t_ports := tr\<rparr>) = view t" using t(2) by (simp_all add: term_inv_def view_def)
  then show ?thesis using t tr r terminal_string_not_serial [OF t(1)]
    by (simp add: debug_print_string_def spin_acquire_result terminal_print_string_def log_ready_def logged_def Let_def)
qed

lemma c_bytes_terminated: "c_bytes (u @ NUL # v) = c_bytes u"
  by (induction u) (auto simp: c_bytes_def)

lemma printk_ok:
  assumes "log_ready dev d" and "render m fmt args = Some t" and "length t < 2 ^ 31" and "length junk = 256"
  shows "\<exists>d'. printk m junk dev fmt args d = Some (int (length t), d') \<and> log_ready dev d' \<and>
    logged (c_bytes (take 255 t)) d d'"
proof -
  have "vsnprintf m (Some junk) 256 (Some fmt) args =
      Some (Some (take 255 t @ NUL # drop (Suc (min (length t) 255)) junk), int (length t))"
    using vsnprintf_result [OF assms(2,3), of 256 junk] assms(4) by simp
  moreover have "c_bytes (take 255 t @ NUL # drop (Suc (min (length t) 255)) junk) = c_bytes (take 255 t)"
    by (rule c_bytes_terminated)
  ultimately show ?thesis using debug_print_string_ok [OF assms(1), of "c_bytes (take 255 t)"]
    by (auto simp: printk_def)
qed

lemma c_bytes_plain: "NUL \<notin> set cs \<Longrightarrow> c_bytes cs = map of_char cs"
  by (induction cs) (auto simp: c_bytes_def)

text \<open>A short text without zero bytes.\<close>

lemma printk_plain:
  assumes "log_ready dev d" and "render m fmt args = Some t" and "length t \<le> 255" and "NUL \<notin> set t" and "length junk = 256"
  obtains d' where "printk m junk dev fmt args d = Some (int (length t), d')" "log_ready dev d'" "logged (map of_char t) d d'"
  using printk_ok [OF assms(1,2) _ assms(5)] assms(3,4) by (auto simp: c_bytes_plain)

section \<open>printk\<close>

text \<open>
  C18. \<open>printk\<close> writes the same characters to the text screen and to the serial port: the rendered text
  cut to 255 characters, and to its first zero byte if it has one; it returns the length of the whole
  text, frees the lock and restores the flags.
\<close>

theorem printk_logs_everywhere:
  assumes "log_ready dev d" and "render m fmt args = Some t" and "length t < 2 ^ 31" and "length junk = 256"
  shows "\<exists>d'. printk m junk dev fmt args d = Some (int (length t), d') \<and> d_lock d' = 0 \<and> d_flags d' = d_flags d \<and>
    view (d_term d') = fold (show_char (current_color (d_term d))) (c_bytes (take 255 t)) (view (d_term d)) \<and>
    writes_to 0x3F8 (t_ports (d_term d')) = writes_to 0x3F8 (t_ports (d_term d)) @ c_bytes (take 255 t)"
  using printk_ok [OF assms] by (auto simp: logged_def log_ready_def)

definition quiet_device :: device where "quiet_device tr p = 0x20"

definition demo_log :: debug where
  "demo_log = \<lparr>d_term = blank_terminal, d_lock = 0, d_flags = 0x202\<rparr>"

lemma demo_log_ready: "log_ready quiet_device demo_log"
  by (simp add: log_ready_def serial_ready_def quiet_device_def demo_log_def blank_terminal_inv)
    (simp add: blank_terminal_def)

theorem printk_logs_everywhere_witness:
  "\<exists>d'. printk (\<lambda>_. 0) (replicate 256 NUL) quiet_device ''x=%u%%'' [1234] demo_log = Some (7, d') \<and>
     writes_to 0x3F8 (t_ports (d_term d')) = [120, 61, 49, 50, 51, 52, 37] \<and> d_lock d' = 0"
proof -
  have r: "render (\<lambda>_. 0) ''x=%u%%'' [1234] = Some ''x=1234%''" by (simp add: format_eval)
  have b: "c_bytes (take 255 ''x=1234%'') = [120, 61, 49, 50, 51, 52, 37]" by (simp add: c_bytes_def)
  have w: "writes_to 0x3F8 (t_ports (d_term demo_log)) = []" by (simp add: demo_log_def blank_terminal_def)
  show ?thesis using printk_logs_everywhere [OF demo_log_ready r, of "replicate 256 NUL"] unfolding b w by auto
qed

text \<open>
  The log is not reentrant: while the lock is held, as in an exception raised inside \<open>printk\<close>, a
  call of \<open>printk\<close> never returns.
\<close>

theorem printk_locked_hangs:
  assumes "d_lock d \<noteq> 0"
  shows "printk m junk dev fmt args d = None"
  using assms by (auto simp: printk_def debug_print_string_def spin_acquire_result Let_def bind_eq_None_conv split: prod.splits)

theorem printk_locked_hangs_witness: "printk (\<lambda>_. 0) [] quiet_device ''E'' [] (demo_log\<lparr>d_lock := 1\<rparr>) = None"
  by (rule printk_locked_hangs) simp

section \<open>Dumps\<close>

definition hex_byte :: "u8 \<Rightarrow> string" where
  "hex_byte b = [digit_char True (unat b div 16), digit_char True (unat b mod 16)]"

definition dump_text :: "u32 \<Rightarrow> u8 list \<Rightarrow> string" where
  "dump_text eip code = ''Bytes em 0x'' @ itoa_text 16 (ucast eip) False True 16 @ '': '' @
     concat (map (\<lambda>b. hex_byte b @ '' '') code) @ newline"

lemma hex_digits:
  assumes "n < 256"
  shows "replicate (2 - length (digits 16 n)) (CHR ''0'') @ map (digit_char True) (digits 16 n) =
    [digit_char True (n div 16), digit_char True (n mod 16)]"
proof -
  have z: "digit_char True 0 = CHR ''0''" by (simp add: digit_char_def CHARS_def)
  have n: "n div 16 < 16" using assms by simp
  then have q: "n div 16 div 16 = 0" by simp
  consider "n = 0" | "n \<noteq> 0" "n div 16 = 0" | "n div 16 \<noteq> 0" by linarith
  then show ?thesis
  proof cases
    case 1
    then show ?thesis by (simp add: digits_def rev_digits.simps z numeral_2_eq_2)
  next
    case 2
    then show ?thesis using z by (simp add: digits_def rev_digits.simps)
  next
    case 3
    then show ?thesis using q n by (simp add: digits_def rev_digits.simps [of 16 n] rev_digits.simps [of 16 "n div 16"] rev_digits.simps [of 16 0])
  qed
qed

lemma itoa_hex_byte: "itoa_text 16 (ucast (b :: u8)) False True 2 = hex_byte b"
proof -
  have b: "unat b < 256" using unsigned_less [of b] by simp
  have "unat (ucast b :: u64) = unat b" by (rule unat_ucast_small) (use b in simp)
  with b show ?thesis using hex_digits [of "unat b"] by (simp add: itoa_text_def hex_byte_def Let_def)
qed

lemma render_byte: "render m ''%02hhX '' [ucast b] = Some (hex_byte b @ '' '')"
proof -
  have "ucast (ucast b :: u32) = b" by (rule bit_word_eqI) (simp add: bit_ucast_iff bit_imp_le_length)
  moreover have "length (hex_byte b) = 2" by (simp add: hex_byte_def)
  ultimately show ?thesis by (simp add: format_eval(1-10) itoa_hex_byte Let_def)
qed

lemma render_address:
  "render m ''Bytes em 0x%016llX: '' [eip, 0] = Some (''Bytes em 0x'' @ itoa_text 16 (ucast eip) False True 16 @ '': '')"
proof -
  have "length (itoa_text 16 (ucast eip) False True 16) < 66"
    using digits_chars_length [of 16 "ucast eip"] by (simp add: itoa_text_length)
  then show ?thesis by (simp add: format_eval(1-10) va_arg64_def Let_def)
qed

lemma render_newline: "render m newline [] = Some newline"
  by (simp add: format_eval(1))

lemma digit_char_nonzero: "d < 16 \<Longrightarrow> digit_char upper d \<noteq> NUL"
proof -
  assume "d < 16"
  then have "d < length (if upper then CHARS else chars)" by (simp add: CHARS_def chars_def)
  then have "digit_char upper d \<in> set (if upper then CHARS else chars)" unfolding digit_char_def by (rule nth_mem)
  then show ?thesis by (auto simp: CHARS_def chars_def split: if_splits)
qed

lemma itoa_nonzero:
  assumes "base = 10 \<or> base = 16"
  shows "NUL \<notin> set (itoa_text base num False upper w)"
proof
  assume "NUL \<in> set (itoa_text base num False upper w)"
  then obtain d where d: "d \<in> set (digits (unat base) (unat num))" "digit_char upper d = NUL"
    by (auto simp: itoa_text_def Let_def)
  have "d < 16" using digits_less [OF _ d(1)] assms by auto
  then show False using d(2) digit_char_nonzero by blast
qed

lemma hex_byte_plain: "NUL \<notin> set (hex_byte b)"
proof -
  have "unat b < 256" using unsigned_less [of b] by simp
  then have "unat b div 16 < 16" "unat b mod 16 < 16" by simp_all
  then show ?thesis using digit_char_nonzero by (auto simp: hex_byte_def dest!: sym [of NUL])
qed

lemma dump_bytes_ok:
  assumes "log_ready dev d" and "length junk = 256"
  shows "\<exists>d'. for_each (\<lambda>b d. map_option snd (printk m junk dev ''%02hhX '' [ucast b] d)) code d = Some d' \<and>
    log_ready dev d' \<and> logged (map of_char (concat (map (\<lambda>b. hex_byte b @ '' '') code))) d d'"
  using assms(1)
proof (induction code arbitrary: d)
  case (Cons b code)
  obtain r d1 where d1: "printk m junk dev ''%02hhX '' [ucast b] d = Some (r, d1)" "log_ready dev d1"
    "logged (map of_char (hex_byte b @ '' '')) d d1"
    by (rule printk_plain [OF Cons.prems render_byte _ _ assms(2)]) (use hex_byte_plain [of b] in \<open>auto simp: hex_byte_def\<close>)
  obtain d' where "for_each (\<lambda>b d. map_option snd (printk m junk dev ''%02hhX '' [ucast b] d)) code d1 = Some d'"
    "log_ready dev d'" "logged (map of_char (concat (map (\<lambda>b. hex_byte b @ '' '') code))) d1 d'"
    using Cons.IH [OF d1(2)] by blast
  then show ?case using d1 logged_append [OF d1(3)] by simp
qed (simp add: logged_nil)

text \<open>
  \<open>debug_dump_code\<close> logs the address with sixteen hexadecimal digits and every byte of the code with
  two, and nothing else.
\<close>

theorem debug_dump_code_logs:
  assumes "log_ready dev d" and "length junk = 256"
  shows "\<exists>d'. debug_dump_code m junk dev eip code d = Some d' \<and> log_ready dev d' \<and>
    logged (map of_char (dump_text eip code)) d d'"
proof -
  let ?a = "''Bytes em 0x'' @ itoa_text 16 (ucast eip) False True 16 @ '': ''"
  have l: "length ?a \<le> 77" using digits_chars_length [of 16 "ucast eip"] by (simp add: itoa_text_length)
  have nz: "NUL \<notin> set ?a" using itoa_nonzero [of 16] by simp
  obtain r d1 where d1: "printk m junk dev ''Bytes em 0x%016llX: '' [eip, 0] d = Some (r, d1)"
    "log_ready dev d1" "logged (map of_char ?a) d d1"
    by (rule printk_plain [OF assms(1) render_address _ _ assms(2)]) (use l nz in auto)
  obtain d2 where d2: "for_each (\<lambda>b d. map_option snd (printk m junk dev ''%02hhX '' [ucast b] d)) code d1 = Some d2"
    "log_ready dev d2" "logged (map of_char (concat (map (\<lambda>b. hex_byte b @ '' '') code))) d1 d2"
    using dump_bytes_ok [OF d1(2) assms(2)] by blast
  obtain q d3 where d3: "printk m junk dev newline [] d2 = Some (q, d3)" "log_ready dev d3" "logged (map of_char newline) d2 d3"
    by (rule printk_plain [OF d2(2) render_newline _ _ assms(2)]) simp_all
  have "logged (map of_char ?a @ map of_char (concat (map (\<lambda>b. hex_byte b @ '' '') code)) @ map of_char newline) d d3"
    by (rule logged_append [OF d1(3) logged_append [OF d2(3) d3(3)]])
  then have "logged (map of_char (dump_text eip code)) d d3" by (simp add: dump_text_def)
  moreover have "debug_dump_code m junk dev eip code d = Some d3" by (simp add: debug_dump_code_def d1(1) d2(1) d3(1))
  ultimately show ?thesis using d3(2) by blast
qed

lemma demo_dump: "dump_text 0x400000 [0x47, 0x0A] = ''Bytes em 0x0000000000400000: 47 0A '' @ newline"
proof -
  have "itoa_text 16 (ucast (0x400000 :: u32)) False True 16 = ''0000000000400000''"
  proof -
    have d: "digits 16 0x400000 = [4, 0, 0, 0, 0, 0]" by (simp add: digits_def rev_digits.simps)
    have z: "replicate 10 (CHR ''0'') = ''0000000000''" by (simp add: numeral_eq_Suc)
    show ?thesis by (simp add: itoa_text_def d z digit_char_def CHARS_def Let_def)
  qed
  then show ?thesis by (simp add: dump_text_def hex_byte_def digit_char_def CHARS_def)
qed

theorem debug_dump_code_logs_witness:
  "\<exists>d'. debug_dump_code (\<lambda>_. 0) (replicate 256 NUL) quiet_device 0x400000 [0x47, 0x0A] demo_log = Some d' \<and>
     writes_to 0x3F8 (t_ports (d_term d')) = map of_char (''Bytes em 0x0000000000400000: 47 0A '' @ newline)"
proof -
  have w: "writes_to 0x3F8 (t_ports (d_term demo_log)) = []" by (simp add: demo_log_def blank_terminal_def)
  obtain d' where "debug_dump_code (\<lambda>_. 0) (replicate 256 NUL) quiet_device 0x400000 [0x47, 0x0A] demo_log = Some d'"
    "logged (map of_char (''Bytes em 0x0000000000400000: 47 0A '' @ newline)) demo_log d'"
    using debug_dump_code_logs [OF demo_log_ready, of "replicate 256 NUL" "\<lambda>_. 0" "0x400000" "[0x47, 0x0A]"]
    unfolding demo_dump by auto
  then show ?thesis by (auto simp: logged_def w)
qed

section \<open>The listing of the memory map\<close>

definition entry_text :: "nat \<Rightarrow> e820_entry \<Rightarrow> string" where
  "entry_text i e =
     ''e820['' @ itoa_text 10 (ucast (of_nat i :: u16)) False False 0 @ '']: 0x'' @
     itoa_text 16 (e_base e) False True 16 @ ''-0x'' @ itoa_text 16 (e_base e + e_length e) False True 16 @ '': '' @
     itoa_text 10 (ucast (e_type e)) False False 0 @ newline"

lemma halves: "push_bit 32 (ucast (hi32 w)) OR ucast (lo32 w) = w"
  by (rule bit_word_eqI) (auto simp: hi32_def lo32_def bit_simps)

lemma decimal_length:
  assumes "unat num < 2 ^ k"
  shows "length (itoa_text 10 num False False 0) \<le> max 1 k"
proof -
  have "length (digits 10 (unat num)) \<le> max 1 k"
    using rev_digits_length [of 10 "unat num" k] assms by (auto simp: digits_def)
  then show ?thesis by (simp add: itoa_text_length)
qed

lemma entry_lengths:
  "length (itoa_text 10 (ucast (a :: u16)) False False 0) \<le> 16" "length (itoa_text 10 (ucast (b :: u32)) False False 0) \<le> 32"
  "length (itoa_text 16 num False True 16) \<le> 64"
proof -
  have a: "unat (ucast a :: u64) < 2 ^ 16" using unsigned_less [of a] by (subst unat_ucast_small) simp_all
  have b: "unat (ucast b :: u64) < 2 ^ 32" using unsigned_less [of b] by simp
  show "length (itoa_text 10 (ucast a) False False 0) \<le> 16" using decimal_length [OF a] by simp
  show "length (itoa_text 10 (ucast b) False False 0) \<le> 32" using decimal_length [OF b] by simp
  show "length (itoa_text 16 num False True 16) \<le> 64"
    using digits_chars_length [of 16 num] by (simp add: itoa_text_length)
qed

lemma render_entry:
  "render m (''e820[%hu]: 0x%016llX-0x%016llX: %u'' @ newline)
     [of_nat i, lo32 b, hi32 b, lo32 x, hi32 x, ty] =
   Some (''e820['' @ itoa_text 10 (ucast (of_nat i :: u16)) False False 0 @ '']: 0x'' @ itoa_text 16 b False True 16 @
     ''-0x'' @ itoa_text 16 x False True 16 @ '': '' @ itoa_text 10 (ucast ty) False False 0 @ newline)"
proof -
  have h: "ucast (of_nat i :: u32) = (of_nat i :: u16)"
    by (rule bit_word_eqI) (simp add: bit_simps)
  have l: "length (itoa_text 10 (ucast (of_nat i :: u16)) False False 0) < 66"
    "length (itoa_text 16 b False True 16) < 66" "length (itoa_text 16 x False True 16) < 66"
    "length (itoa_text 10 (ucast ty) False False 0) < 66"
    using entry_lengths(1) [of "of_nat i"] entry_lengths(2) [of ty] entry_lengths(3) [of b] entry_lengths(3) [of x] by simp_all
  show ?thesis using l by (simp add: format_eval(1-10) va_arg64_def halves h Let_def)
qed

lemma print_entry_ok:
  assumes "log_ready dev d" and "length junk = 256"
  obtains d' where "print_entry m junk dev i e d = Some d'" "log_ready dev d'" "logged (map of_char (entry_text i e)) d d'"
proof -
  let ?t = "entry_text i e"
  have t: "render m (''e820[%hu]: 0x%016llX-0x%016llX: %u'' @ newline) [of_nat i, lo32 (e_base e), hi32 (e_base e),
      lo32 (e_base e + e_length e), hi32 (e_base e + e_length e), e_type e] = Some ?t"
    unfolding entry_text_def by (rule render_entry)
  have l: "length ?t \<le> 255"
    using entry_lengths(1) [of "of_nat i"] entry_lengths(2) [of "e_type e"] entry_lengths(3) [of "e_base e"]
      entry_lengths(3) [of "e_base e + e_length e"] by (simp add: entry_text_def)
  have z: "NUL \<notin> set ?t" by (simp add: entry_text_def itoa_nonzero)
  show thesis by (rule printk_plain [OF assms(1) t l z assms(2)]) (auto simp: print_entry_def Let_def intro: that)
qed

text \<open>
  \<open>E820_init\<close> logs the memory map: one line for every entry in order, with its number, its first
  address, the address behind it (modulo 2 to the 64th) and its type.
\<close>

theorem E820_init_lists_entries:
  assumes "log_ready dev d" and "length junk = 256"
  shows "\<exists>d'. E820_init m junk dev entries d = Some d' \<and> log_ready dev d' \<and>
    logged (map of_char (concat (map (\<lambda>(i, e). entry_text i e) (zip [0 ..< length entries] entries)))) d d'"
proof -
  have "\<exists>d'. for_each (\<lambda>(i, e). print_entry m junk dev i e) ies d = Some d' \<and> log_ready dev d' \<and>
      logged (map of_char (concat (map (\<lambda>(i, e). entry_text i e) ies))) d d'" if "log_ready dev d" for ies d
    using that
  proof (induction ies arbitrary: d)
    case (Cons ie ies)
    obtain i e where ie: "ie = (i, e)" by (cases ie)
    obtain d1 where d1: "print_entry m junk dev i e d = Some d1" "log_ready dev d1" "logged (map of_char (entry_text i e)) d d1"
      by (rule print_entry_ok [OF Cons.prems assms(2)])
    obtain d' where "for_each (\<lambda>(i, e). print_entry m junk dev i e) ies d1 = Some d'" "log_ready dev d'"
      "logged (map of_char (concat (map (\<lambda>(i, e). entry_text i e) ies))) d1 d'"
      using Cons.IH [OF d1(2)] by blast
    then show ?case using d1 logged_append [OF d1(3)] by (simp add: ie)
  qed (simp add: logged_nil)
  from this [OF assms(1)] show ?thesis by (simp add: E820_init_def)
qed

theorem E820_init_lists_entries_witness:
  "\<exists>d'. E820_init (\<lambda>_. 0) (replicate 256 NUL) quiet_device
       [\<lparr>e_base = 0x10, e_length = 8, e_type = 1, e_acpi_extended = 0\<rparr>] demo_log = Some d' \<and>
     writes_to 0x3F8 (t_ports (d_term d')) =
       map of_char (''e820[0]: 0x0000000000000010-0x0000000000000018: 1'' @ newline)"
proof -
  let ?e = "\<lparr>e_base = 0x10, e_length = 8, e_type = 1, e_acpi_extended = 0\<rparr>"
  have w: "writes_to 0x3F8 (t_ports (d_term demo_log)) = []" by (simp add: demo_log_def blank_terminal_def)
  have d: "digits 16 0x10 = [1, 0]" "digits 16 0x18 = [1, 8]" "digits 10 (Suc 0) = [1]" "digits 10 0 = [0]"
    by (simp_all add: digits_def rev_digits.simps)
  have z: "replicate 14 (CHR ''0'') = ''00000000000000''" by (simp add: numeral_eq_Suc)
  have t: "concat (map (\<lambda>(i, e). entry_text i e) (zip [0 ..< length [?e]] [?e])) =
      ''e820[0]: 0x0000000000000010-0x0000000000000018: 1'' @ newline"
    by (simp add: entry_text_def itoa_text_def d z digit_char_def CHARS_def chars_def Let_def)
  obtain d' where "E820_init (\<lambda>_. 0) (replicate 256 NUL) quiet_device [?e] demo_log = Some d'"
    "logged (map of_char (''e820[0]: 0x0000000000000010-0x0000000000000018: 1'' @ newline)) demo_log d'"
    using E820_init_lists_entries [OF demo_log_ready, of "replicate 256 NUL" "\<lambda>_. 0" "[?e]"] unfolding t by auto
  then show ?thesis by (auto simp: logged_def w)
qed

end
