(* ===== verification/Kmain.thy ===== *)
theory Kmain
  imports Kernel_Demo Debug
begin

text \<open>
  \<^verbatim>\<open>kernel/src/kmain.c\<close>: the kernel's initialisation up to the point where interrupts are enabled, after
  which the kernel is the transition system of Kernel\_Reach.  The state joins the kernel, the global
  descriptor table and the log.  The accesses to ports by the log and by the rest of the kernel are
  recorded apart, and the messages of the components other than \<^verbatim>\<open>E820_init\<close> are left out.
\<close>

section \<open>kmain\<close>

record machine =
  m_kernel :: kernel
  m_gdt :: "gdt_entry list"
  m_log :: debug

text \<open>What the boot loader and the linker provide: the memory map, the ends of the kernel image, the
  stubs of the vectors and the addresses of the tables.\<close>

record boot_info =
  b_entries :: "e820_entry list"
  b_kstart :: u32
  b_kend :: u32
  b_isr_table :: "u32 list"
  b_gdt :: u32
  b_tss :: u32
  b_idt :: u32

text \<open>\<^term>\<open>True\<close>: the kernel goes on to its idle loop; \<^term>\<open>False\<close>: it halts for good.\<close>

definition kmain :: "mem \<Rightarrow> string \<Rightarrow> device \<Rightarrow> boot_info \<Rightarrow> machine \<Rightarrow> (bool \<times> machine) option" where
  "kmain m junk dev b s = do {
     let k = disable_interrupts (m_kernel s);
     log \<leftarrow> debug_init dev ((m_log s)\<lparr>d_flags := cpu_flags k\<rparr>);
     let (gdtr, gdt) = gdt_init (b_gdt b) (m_gdt s);
     let (ts, gdt, sel) = tss_init (b_tss b) gdt;
     let k = k\<lparr>tss := ts\<rparr>;
     t \<leftarrow> terminal_init (d_term log);
     let log = log\<lparr>d_term := t\<rparr>;
     let k = with_idt (\<lambda>i. snd (idt_init (b_idt b) (b_isr_table b) i)) k;
     let k = k\<lparr>ports := pic_remap (ports k)\<rparr>;
     let k = exception_init k;
     log \<leftarrow> E820_init m junk dev (b_entries b) log;
     k \<leftarrow> pmm_init (b_entries b) (b_kstart b) (b_kend b) k;
     k \<leftarrow> vmm_init k;
     k \<leftarrow> heap_init k;
     (r, k) \<leftarrow> sched_init dev 100 k;
     if r \<noteq> 0 then do {
       log \<leftarrow> say m junk dev (''Falha ao inicializar o escalonador!'' @ newline) [] log;
       log \<leftarrow> say m junk dev (''Sistema parado'' @ newline) [] log;
       Some (False, \<lparr>m_kernel = disable_interrupts k, m_gdt = gdt, m_log = log\<rparr>) }
     else do {
       let k = syscall_init k;
       let k = write_flags (cpu_flags k OR 0x200) k;
       Some (True, \<lparr>m_kernel = k, m_gdt = gdt, m_log = log\<rparr>) } }"

section \<open>What the parts leave alone\<close>

lemma pmm_init_more: "pmm_init es a b s = Some s' \<Longrightarrow> pmm_state.more s' = pmm_state.more s"
  by (auto simp: pmm_init_def bind_eq_Some_conv Let_def split: prod.splits)

lemma heap_init_more:
  "heap_init s = Some s' \<Longrightarrow>
     cr3 s' = cr3 s \<and> cpu_flags s' = cpu_flags s \<and> kernel_cr3 s' = kernel_cr3 s \<and> heap_state.more s' = heap_state.more s"
  for s s' :: "'z heap_state_scheme"
proof -
  assume "heap_init s = Some s'"
  then obtain c s1 where c: "vmm_alloc_pages_region 24 (2 OR 1) 0xE0000000 (0xE0000000 + 24 * PAGE_SIZE) s = Some (c, s1)"
    "(let s = s1\<lparr>heap_start := c\<rparr> in if c = 0 then Some s else init_block c (24 * PAGE_SIZE - 16) 0 0 s) = Some s'"
    by (auto simp: heap_init_def Let_def bind_eq_Some_conv)
  have a: "same_cpu s s1" by (rule region_same_cpu [OF c(1)])
  have more: "vmm_state.more u = vmm_state.more v \<Longrightarrow> heap_state.more u = heap_state.more v" for u v :: "'z heap_state_scheme"
    by (cases u; cases v) simp
  have b: "same_cpu (s1\<lparr>heap_start := c\<rparr>) s'"
    using c(2) by (auto simp: Let_def split: if_splits dest!: init_block_cpu)
  show ?thesis using a b more [of s1 s] more [of s' "s1\<lparr>heap_start := c\<rparr>"] by simp
qed

lemma set_handler_at: "i < 256 \<Longrightarrow> idt_set_handler (of_nat i) h t = t\<lparr>handlers := (handlers t)[i := h]\<rparr>"
  using small_index [of i] by (simp only: idt_set_handler_def) (simp add: not_le [symmetric])

lemma exception_handlers:
  assumes "n \<le> 256" and "length (handlers t) = 256"
  shows "fold (\<lambda>i. idt_set_handler (of_nat i) (Some h)) [0 ..< n] t = t\<lparr>handlers := replicate n (Some h) @ drop n (handlers t)\<rparr>"
  using assms(1)
proof (induction n)
  case (Suc n)
  then have "(replicate n (Some h) @ drop n (handlers t))[n := Some h] = replicate (Suc n) (Some h) @ drop (Suc n) (handlers t)"
    using assms(2) by (simp add: list_update_append Cons_nth_drop_Suc [symmetric] replicate_append_same)
  then show ?case using Suc by (simp add: set_handler_at)
qed simp

lemma sched_init_idt:
  assumes "sched_init dev f s = Some (r, s')"
  shows "kidt s' = idt_set_dpl 0x81 3 ((kidt s)
      \<lparr>handlers := (handlers (kidt s))[32 := Some Timer_Handler, 0x81 := Some Schedule], eflags := cpu_flags s\<rparr>)"
  using assms
  by (auto simp: sched_init_def with_idt_def Let_def bind_eq_Some_conv set_process_def set_thread_def
      idt_set_handler_def split: if_splits)

section \<open>The log\<close>

lemma boot_log:
  assumes "serial_ready dev" and "d_lock d = 0" and "\<not> initialized (d_term d)" and "length (vga (d_term d)) = 2000"
    and "length junk = 256"
  shows "\<exists>d1 t d2. debug_init dev d = Some d1 \<and> terminal_init (d_term d1) = Some t \<and>
    E820_init m junk dev entries (d1\<lparr>d_term := t\<rparr>) = Some d2 \<and> log_ready dev d2"
proof -
  obtain r tr where r: "serial_init dev 0x3F8 9600 (t_ports (d_term d)) = (r, tr)" by (cases "serial_init dev 0x3F8 9600 (t_ports (d_term d))")
  have d1: "debug_init dev d = Some (d\<lparr>d_term := (d_term d)\<lparr>t_ports := tr\<rparr>\<rparr>)"
    using assms(3) by (simp add: debug_init_def r terminal_print_string_def Let_def)
  obtain t where t: "terminal_init ((d_term d)\<lparr>t_ports := tr\<rparr>) = Some t" "term_inv t" "initialized t"
    using terminal_init_blank [of "(d_term d)\<lparr>t_ports := tr\<rparr>"] assms(4) by auto
  have "log_ready dev (d\<lparr>d_term := t\<rparr>)" using assms(1,2) t(2,3) by (simp add: log_ready_def)
  then obtain d2 where "E820_init m junk dev entries (d\<lparr>d_term := t\<rparr>) = Some d2" "log_ready dev d2"
    using E820_init_lists_entries [OF _ assms(5)] by blast
  then show ?thesis using d1 t(1) by auto
qed

section \<open>Memory\<close>

text \<open>The pages that the memory map offers and that are neither low nor the kernel's.\<close>

definition offered_pages :: "boot_info \<Rightarrow> nat \<Rightarrow> nat set" where
  "offered_pages b ptop = {p. p < ptop div 4096 \<and> 16 \<le> p \<and> (\<exists>e \<in> set (b_entries b). offers e p) \<and>
     \<not> kernel_page (b_kstart b) (b_kend b) ((ptop div 4096 + 7) div 8) p}"

text \<open>
  The page directory the boot loader leaves: it maps itself, its first entry at most maps low memory,
  and no table of the kernel lies in a page that is offered.
\<close>

definition boot_tables :: "nat set \<Rightarrow> 'z vmm_state_scheme \<Rightarrow> bool" where
  "boot_tables F s \<longleftrightarrow> self_mapped s \<and> (\<forall>d < 768. 0 < d \<longrightarrow> \<not> present (pd s d)) \<and>
     (\<forall>d < 1024. present (pd s d) \<longrightarrow> fnum (frame_of (pd s d)) \<notin> F) \<and>
     (\<forall>d < 1023. d \<noteq> 0 \<and> present (pd s d) \<longrightarrow> frame_of (pd s d) \<noteq> dir s) \<and>
     (\<forall>d < 1023. \<forall>d' < 1023. d \<noteq> 0 \<and> d' \<noteq> 0 \<and> present (pd s d) \<and> present (pd s d') \<and>
        frame_of (pd s d) = frame_of (pd s d') \<longrightarrow> d = d')"

lemma vmm_init_inv:
  assumes "boot_tables F s" and "pmm_inv s" and "free_pages s = F"
  shows "\<exists>s'. vmm_init s = Some s' \<and> vm_inv s' \<and> cr3 s' = cr3 s \<and> kernel_cr3 s' = cr3 s \<and> cpu_flags s' = cpu_flags s \<and>
    vmm_state.more s' = vmm_state.more s \<and> free_pages s' = F \<and> pd s' = (pd s)(0 := 0)"
proof -
  let ?k = "s\<lparr>kernel_cr3 := cr3 s\<rparr>"
  let ?s = "set_word (dir s) 0 0 ?k"
  note b = assms(1) [unfolded boot_tables_def]
  have k: "dir ?k = dir s" "pd ?k d = pd s d" for d by (simp_all add: dir_def pd_def)
  have "self_mapped ?k" using b unfolding self_mapped_def k by blast
  then have e: "vmm_init s = Some ?s" using vwrite_pde [of ?k 0 0] by (simp add: vmm_init_def k)
  have d: "dir ?s = dir s" "pd ?s d = (if d = 0 then 0 else pd s d)" for d
    by (simp_all add: dir_def pd_def set_word_def)
  have f: "pmm_inv ?s" "free_pages ?s = F"
    using assms(2,3) by (simp_all add: set_word_def pmm_inv_def free_pages_def page_free_def split: option.splits)
  have "vm_inv ?s"
    unfolding vm_inv_def self_mapped_def d f(2)
  proof (intro conjI f(1) allI impI)
    show "present (if (1023 :: nat) = 0 then 0 else pd s 1023)" "frame_of (if (1023 :: nat) = 0 then 0 else pd s 1023) = dir s"
      using b by (simp_all add: self_mapped_def)
  qed (use b in \<open>auto split: if_splits\<close>)
  moreover have "pd ?s = (pd s)(0 := 0)" by (simp add: fun_eq_iff d)
  ultimately show ?thesis using e f(2) by (intro exI [of _ ?s]) (simp add: set_word_def)
qed

text \<open>There is room for the heap: its table is not there, and enough pages are on offer.\<close>

definition heap_room :: "nat set \<Rightarrow> 'z vmm_state_scheme \<Rightarrow> bool" where
  "heap_room F s \<longleftrightarrow> \<not> present (pd s 896) \<and> 48 \<le> card F"

lemma heap_room_run:
  assumes "\<not> present (pd s 896)"
  shows "is_run s 24 0xE0000"
proof -
  have "(0xE0000 + i) div 1024 = 896" if "i < 24" for i :: nat using that by simp
  then show ?thesis using assms by (simp add: is_run_def lookup_def Let_def)
qed

section \<open>From the boot loader to the running kernel\<close>

lemma sched_init_process: "sched_init dev f s = Some (r, s') \<Longrightarrow> current_process s' = Some Idle"
  by (auto simp: sched_init_def with_idt_def Let_def bind_eq_Some_conv)

lemma boot_kernel_more:
  assumes "heap_state.more s' = heap_state.more s" and "boot_kernel (s\<lparr>kernel_cr3 := cr3 s\<rparr>)" and "kernel_cr3 s' = cr3 s'"
  shows "boot_kernel s' \<and> kidt s' = kidt s"
  using assms by (cases s; cases s') (simp add: boot_kernel_def)

lemma boot_kernel_prepared:
  "boot_kernel (k\<lparr>kernel_cr3 := cr3 k\<rparr>) \<Longrightarrow> k' = k\<lparr>cpu_flags := f, tss := t, ports := p, kidt := i\<rparr> \<Longrightarrow>
     boot_kernel (k'\<lparr>kernel_cr3 := cr3 k'\<rparr>)"
  by (simp add: boot_kernel_def)

text \<open>What must hold before \<open>kmain\<close>: static data is zero, the tables have their sizes, the serial port
  answers, there is memory above 64 KB below the kernel's limit, and the boot loader's page directory.\<close>

definition boot_ready :: "device \<Rightarrow> boot_info \<Rightarrow> string \<Rightarrow> machine \<Rightarrow> bool" where
  "boot_ready dev b junk s \<longleftrightarrow>
     (let k = m_kernel s; log = m_log s; ptop = fst (fold scan_entry (b_entries b) (phys_top k, usable_mem k))
      in boot_kernel (k\<lparr>kernel_cr3 := cr3 k\<rparr>) \<and> length (idt (kidt k)) = 256 \<and> handlers (kidt k) = replicate 256 None \<and>
         length (b_isr_table b) = 256 \<and> length (m_gdt s) = 8 \<and> length junk = 256 \<and>
         serial_ready dev \<and> d_lock log = 0 \<and> \<not> initialized (d_term log) \<and> length (vga (d_term log)) = 2000 \<and>
         0x10000 \<le> unat ptop \<and> 0xC0000000 \<le> unat (b_kstart b) \<and> 0xC0000000 \<le> unat (b_kend b) \<and>
         unat (b_kend b) < 0xF0000000 \<and> boot_tables (offered_pages b (unat ptop)) k)"

text \<open>The memory managers and the scheduler after one another.\<close>

lemma boot_memory:
  assumes "boot_ready dev b junk s" and k: "k = (m_kernel s)\<lparr>cpu_flags := f, tss := t, ports := p, kidt := i\<rparr>"
  obtains k2 k3 k4 k5 where "pmm_init (b_entries b) (b_kstart b) (b_kend b) k = Some k2" "vmm_init k2 = Some k3"
    "heap_init k3 = Some k4" "sched_init dev 100 k4 = Some (0, k5)" "kidt k4 = i" "cpu_flags k4 = f"
    "reachable dev (syscall_init k5)" "boot_kernel k4"
    "heap_room (offered_pages b (unat (fst (fold scan_entry (b_entries b) (phys_top (m_kernel s), usable_mem (m_kernel s))))))
       (m_kernel s) \<Longrightarrow> heap_inv k4 [(98288, False)]"
proof -
  note r = assms(1) [unfolded boot_ready_def Let_def]
  obtain ptop usable where scan: "fold scan_entry (b_entries b) (phys_top (m_kernel s), usable_mem (m_kernel s)) = (ptop, usable)"
    by (cases "fold scan_entry (b_entries b) (phys_top (m_kernel s), usable_mem (m_kernel s))")
  have scan': "fold scan_entry (b_entries b) (phys_top k, usable_mem k) = (ptop, usable)" using scan by (simp add: k)
  define F where "F = offered_pages b (unat ptop)"
  have bd: "0x10000 \<le> unat ptop" "0xC0000000 \<le> unat (b_kstart b)" "0xC0000000 \<le> unat (b_kend b)" "unat (b_kend b) < 0xF0000000"
    using r scan by simp_all
  obtain k2 where k2: "pmm_init (b_entries b) (b_kstart b) (b_kend b) k = Some k2" "pmm_inv k2" "free_pages k2 = F"
  proof (rule pmm_init_result [OF scan' bd])
    fix k2
    assume a: "pmm_init (b_entries b) (b_kstart b) (b_kend b) k = Some k2" "pmm_inv k2"
      "\<And>p. page_free k2 p \<longleftrightarrow> p < unat ptop div 4096 \<and> 16 \<le> p \<and> (\<exists>e \<in> set (b_entries b). offers e p) \<and>
         \<not> kernel_page (b_kstart b) (b_kend b) ((unat ptop div 4096 + 7) div 8) p"
    have "free_pages k2 = F" by (simp only: a(3) free_pages_def F_def offered_pages_def)
    then show thesis using that a(1,2) by blast
  qed
  have m2: "pmm_state.more k2 = pmm_state.more k" by (rule pmm_init_more [OF k2(1)])
  then have s2: "pmem k2 = pmem k" "cr3 k2 = cr3 k" "cpu_flags k2 = cpu_flags k" "heap_state.more k2 = heap_state.more k"
    by (cases k; cases k2; simp)+
  have e2: "dir k2 = dir (m_kernel s)" "pd k2 = pd (m_kernel s)"
    using s2(1,2) by (simp_all add: dir_def pd_def [abs_def] k)
  have "boot_tables F k2"
    using r scan unfolding boot_tables_def self_mapped_def e2 F_def by simp
  then obtain k3 where k3: "vmm_init k2 = Some k3" "vm_inv k3" "cr3 k3 = cr3 k2" "kernel_cr3 k3 = cr3 k2"
    "cpu_flags k3 = cpu_flags k2" "vmm_state.more k3 = vmm_state.more k2" "free_pages k3 = F" "pd k3 = (pd k2)(0 := 0)"
    using vmm_init_inv [OF _ k2(2,3)] by blast
  obtain k4 where k4: "heap_init k3 = Some k4" and
    heap: "heap_room F (m_kernel s) \<Longrightarrow> heap_inv k4 [(98288, False)]"
  proof -
    obtain k4 where k4: "heap_init k3 = Some k4" "heap_start k4 = 0 \<and> vm_inv k4 \<or> heap_inv k4 [(24 * 4096 - 16, False)]"
      "is_run k3 24 0xE0000 \<and> 48 \<le> card (free_pages k3) \<longrightarrow> heap_start k4 \<noteq> 0" using heap_init_ok [OF k3(2)] by blast
    have "heap_inv k4 [(98288, False)]" if "heap_room F (m_kernel s)"
      using k4(2,3) that heap_room_run [of k3] by (simp add: heap_room_def k3(7,8) e2)
    then show thesis using that k4(1) by blast
  qed
  note m4 = heap_init_more [OF k4]
  have "heap_state.more k3 = heap_state.more k2" using k3(6) by (cases k2; cases k3) simp
  then have more: "heap_state.more k4 = heap_state.more k" using m4 s2(4) by simp
  have "boot_kernel (k\<lparr>kernel_cr3 := cr3 k\<rparr>)" by (rule boot_kernel_prepared [OF _ k]) (use r in simp)
  then have b4: "boot_kernel k4" "kidt k4 = kidt k" using boot_kernel_more [OF more] m4 k3(3,4) by simp_all
  obtain k5 where k5: "sched_init dev 100 k4 = Some (0, k5)" by (rule sched_init_ok [OF b4(1)])
  have "reachable dev (syscall_init k5)" by (rule reachable.boot [OF b4(1) k5])
  moreover have "cpu_flags k4 = f" using m4 k3(5) s2(3) by (simp add: k)
  ultimately show thesis using that [OF k2(1) k3(1) k4 k5] b4 heap scan by (simp add: k F_def)
qed

lemma gate_after_dpl:
  assumes "length (idt t) = 256" and "n < 256" and "j < 256"
  shows "gate_dpl (idt (idt_set_dpl (of_nat n) 3 t) ! j) = (if j = n then 3 else gate_dpl (idt t ! j))"
    "length (idt (idt_set_dpl (of_nat n) 3 t)) = 256" "handlers (idt_set_dpl (of_nat n) 3 t) = handlers t"
    "eflags (idt_set_dpl (of_nat n) 3 t) = eflags t"
proof -
  have n: "\<not> (256 :: u16) \<le> of_nat n" "unat (of_nat n :: u16) = n" using small_index [OF assms(2)] by auto
  show l: "length (idt (idt_set_dpl (of_nat n) 3 t)) = 256" using assms(1) by (simp add: idt_set_dpl_def Let_def)
  show "handlers (idt_set_dpl (of_nat n) 3 t) = handlers t" "eflags (idt_set_dpl (of_nat n) 3 t) = eflags t"
    by (simp_all add: idt_set_dpl_def Let_def)
  define u where "u = t\<lparr>handlers := replicate 256 None\<rparr>"
  have "idt_ok u" using assms(1) by (simp add: idt_ok_def u_def)
  note d = idt_set_dpl_only [OF this assms(2), of 3, unfolded Let_def]
  have "idt (idt_set_dpl (of_nat n) 3 u) = idt (idt_set_dpl (of_nat n) 3 t)" "idt u = idt t"
    by (simp_all add: idt_set_dpl_def Let_def u_def)
  then show "gate_dpl (idt (idt_set_dpl (of_nat n) 3 t) ! j) = (if j = n then 3 else gate_dpl (idt t ! j))"
    using d assms(3) by auto
qed

text \<open>The interrupt table at the end.\<close>

lemma final_idt:
  assumes "length (idt t0) = 256" and "\<And>n. n < 256 \<Longrightarrow> gate_dpl (idt t0 ! n) = 0"
    and "kidt k = idt_set_dpl 0x81 3 ((t0\<lparr>handlers := replicate 32 (Some Exception_Handler) @ replicate 224 None\<rparr>)
      \<lparr>handlers := (handlers (t0\<lparr>handlers := replicate 32 (Some Exception_Handler) @ replicate 224 None\<rparr>))
         [32 := Some Timer_Handler, 0x81 := Some Schedule], eflags := f\<rparr>)"
    and "n < 256"
  shows "handlers (kidt (syscall_init k)) ! n = (if n < 32 then Some Exception_Handler else if n = 32 then Some Timer_Handler
        else if n = 0x80 then Some Syscall_Handler else if n = 0x81 then Some Schedule else None)"
    "gate_dpl (idt (kidt (syscall_init k)) ! n) = (if n = 0x80 \<or> n = 0x81 then 3 else 0)"
proof -
  let ?h = "(replicate 32 (Some Exception_Handler) @ replicate 224 None)[32 := Some Timer_Handler, 0x81 := Some Schedule]"
  define t1 where "t1 = t0\<lparr>handlers := ?h, eflags := f\<rparr>"
  define t2 where "t2 = (idt_set_dpl 0x81 3 t1)\<lparr>handlers := ?h[0x80 := Some Syscall_Handler], eflags := cpu_flags k\<rparr>"
  have t1: "length (idt t1) = 256" "idt t1 = idt t0" using assms(1) by (simp_all add: t1_def)
  note d1 = gate_after_dpl [OF t1(1), of 129 n, simplified]
  have "kidt k = idt_set_dpl 0x81 3 t1" using assms(3) by (simp add: t1_def)
  then have e: "kidt (syscall_init k) = idt_set_dpl 0x80 3 t2"
    using d1 by (simp add: syscall_init_def with_idt_def Let_def t2_def idt_set_handler_def t1_def assms(4))
  have t2: "length (idt t2) = 256" "idt t2 = idt (idt_set_dpl 0x81 3 t1)" using d1 assms(4) by (simp_all add: t2_def)
  note d2 = gate_after_dpl [OF t2(1), of 128 n, simplified]
  show "gate_dpl (idt (kidt (syscall_init k)) ! n) = (if n = 0x80 \<or> n = 0x81 then 3 else 0)"
    unfolding e d2(1) [OF assms(4)] t2(2) d1(1) [OF assms(4)] t1(2) using assms(2) [OF assms(4)] by simp
  show "handlers (kidt (syscall_init k)) ! n = (if n < 32 then Some Exception_Handler else if n = 32 then Some Timer_Handler
        else if n = 0x80 then Some Syscall_Handler else if n = 0x81 then Some Schedule else None)"
    using d2(3) assms(4) by (simp add: e t2_def nth_list_update nth_append)
qed

text \<open>What the memory map offers.\<close>

definition on_offer :: "boot_info \<Rightarrow> machine \<Rightarrow> nat set" where
  "on_offer b s =
     offered_pages b (unat (fst (fold scan_entry (b_entries b) (phys_top (m_kernel s), usable_mem (m_kernel s)))))"

text \<open>The kernel that runs, from the one that \<open>sched_init\<close> leaves.\<close>

definition running :: "kernel \<Rightarrow> kernel" where
  "running k = (let k = syscall_init k in write_flags (cpu_flags k OR 0x200) k)"

definition final_handlers :: "kernel \<Rightarrow> bool" where
  "final_handlers k \<longleftrightarrow> (\<forall>n < 256. handlers (kidt k) ! n =
       (if n < 32 then Some Exception_Handler else if n = 32 then Some Timer_Handler
        else if n = 0x80 then Some Syscall_Handler else if n = 0x81 then Some Schedule else None)) \<and>
    (\<forall>n < 256. gate_dpl (idt (kidt k) ! n) = (if n = 0x80 \<or> n = 0x81 then 3 else 0))"

lemma kmain_runs:
  assumes "boot_ready dev b junk s"
  obtains g log k k' where
    "kmain m junk dev b s = Some (True, \<lparr>m_kernel = running k', m_gdt = g, m_log = log\<rparr>)"
    "boot_kernel k" "sched_init dev 100 k = Some (0, k')" "heap_room (on_offer b s) (m_kernel s) \<longrightarrow> heap_inv k [(98288, False)]"
    "reachable dev (running k')" "cpu_flags (running k') AND 0x200 \<noteq> 0" "final_handlers (running k')" "log_ready dev log"
proof -
  note r = assms [unfolded boot_ready_def Let_def]
  define k0 where "k0 = disable_interrupts (m_kernel s)"
  define log0 where "log0 = (m_log s)\<lparr>d_flags := cpu_flags k0\<rparr>"
  obtain d1 t d2 where log: "debug_init dev log0 = Some d1" "terminal_init (d_term d1) = Some t"
    "E820_init m junk dev (b_entries b) (d1\<lparr>d_term := t\<rparr>) = Some d2" "log_ready dev d2"
    using boot_log [of dev log0 junk m "b_entries b"] r by (auto simp: log0_def)
  obtain gr g where g: "gdt_init (b_gdt b) (m_gdt s) = (gr, g)" by (cases "gdt_init (b_gdt b) (m_gdt s)")
  obtain ts g' sel where ts: "tss_init (b_tss b) g = (ts, g', sel)" by (cases "tss_init (b_tss b) g")
  define t0 where "t0 = snd (idt_init (b_idt b) (b_isr_table b) ((kidt k0)\<lparr>eflags := cpu_flags k0\<rparr>))"
  have "idt_ok ((kidt k0)\<lparr>eflags := cpu_flags k0\<rparr>)" using r by (simp add: idt_ok_def k0_def disable_interrupts_def)
  note gates = idt_init_gates [OF this, of "b_isr_table b" _ "b_idt b", folded t0_def, unfolded Let_def]
  have t0: "length (idt t0) = 256" "handlers t0 = replicate 256 None" "eflags t0 = cpu_flags k0"
    "n < 256 \<Longrightarrow> gate_dpl (idt t0 ! n) = 0" for n
    using gates [of 0] gates [of n] r by (simp_all add: idt_ok_def k0_def disable_interrupts_def)
  define t1 where "t1 = t0\<lparr>handlers := replicate 32 (Some Exception_Handler) @ replicate 224 None\<rparr>"
  define k where "k = k0\<lparr>tss := ts, kidt := t1, ports := pic_remap (ports k0)\<rparr>"
  have ex: "exception_init ((with_idt (\<lambda>i. snd (idt_init (b_idt b) (b_isr_table b) i)) (k0\<lparr>tss := ts\<rparr>))
      \<lparr>ports := pic_remap (ports k0)\<rparr>) = k"
    using exception_handlers [of 32 "t0\<lparr>eflags := cpu_flags k0\<rparr>" Exception_Handler] t0(2,3)
    by (simp add: exception_init_def with_idt_def Let_def t0_def [symmetric] k_def t1_def)
  have k: "k = (m_kernel s)\<lparr>cpu_flags := cpu_flags k0, tss := ts, ports := pic_remap (ports k0), kidt := t1\<rparr>"
    by (simp add: k_def k0_def disable_interrupts_def)
  obtain k2 k3 k4 k5 where b: "pmm_init (b_entries b) (b_kstart b) (b_kend b) k = Some k2" "vmm_init k2 = Some k3"
    "heap_init k3 = Some k4" "sched_init dev 100 k4 = Some (0, k5)" "kidt k4 = t1" "cpu_flags k4 = cpu_flags k0"
    "reachable dev (syscall_init k5)" "boot_kernel k4" "heap_room (on_offer b s) (m_kernel s) \<Longrightarrow> heap_inv k4 [(98288, False)]"
    using boot_memory [OF assms k] unfolding on_offer_def by blast
  define k6 where "k6 = syscall_init k5"
  define k7 where "k7 = write_flags (cpu_flags k6 OR 0x200) k6"
  have run: "kmain m junk dev b s = Some (True, \<lparr>m_kernel = k7, m_gdt = g', m_log = d2\<rparr>)"
  proof -
    have pk: "ports (with_idt (\<lambda>i. snd (idt_init (b_idt b) (b_isr_table b) i)) (k0\<lparr>tss := ts\<rparr>)) = ports k0"
      by (simp add: with_idt_def Let_def)
    show ?thesis
      using log(1-3) b(1-4)
      unfolding kmain_def Let_def k0_def [symmetric] log0_def [symmetric] g ts prod.case pk ex
      by (simp add: pk ex k6_def k7_def)
  qed
  have "current_process k6 = Some Idle" using sched_init_process [OF b(4)] by (simp add: k6_def syscall_init_def with_idt_def Let_def)
  then have rk: "reachable dev k7" using reachable.step [OF b(7) [folded k6_def] kernel_step.enable_step] by (simp add: k7_def)
  have fl: "cpu_flags k7 AND 0x200 \<noteq> 0"
  proof -
    have "bit (cpu_flags k7 AND 0x200) 9" by (simp add: k7_def write_flags_def bit_simps)
    then show ?thesis by auto
  qed
  have h: "final_handlers k7"
    unfolding final_handlers_def
    using final_idt [OF t0(1) t0(4) sched_init_idt [OF b(4), unfolded b(5) t1_def]]
    by (simp add: k7_def k6_def write_flags_def)
  have k7: "running k5 = k7" by (simp add: running_def k7_def k6_def Let_def)
  show thesis by (rule that [of k5 g' d2 k4]) (use run b(4,8,9) rk fl h log(4) in \<open>simp_all add: k7\<close>)
qed

text \<open>
  C3. From the boot loader to the running kernel: when static data is zero and the boot loader's page
  directory keeps clear of the memory on offer, \<open>kmain\<close> initialises everything without a fault and ends
  in a reachable state of the kernel with interrupts enabled; exceptions, the timer, system calls and
  yielding have their handlers and no other vector has one; and only the vectors of system calls and of
  yielding may be used by programs.
\<close>

theorem kmain_boots:
  assumes "boot_ready dev b junk s"
  shows "\<exists>s'. kmain m junk dev b s = Some (True, s') \<and> reachable dev (m_kernel s') \<and>
    cpu_flags (m_kernel s') AND 0x200 \<noteq> 0 \<and> log_ready dev (m_log s') \<and>
    (\<forall>n < 256. handlers (kidt (m_kernel s')) ! n =
       (if n < 32 then Some Exception_Handler else if n = 32 then Some Timer_Handler
        else if n = 0x80 then Some Syscall_Handler else if n = 0x81 then Some Schedule else None)) \<and>
    (\<forall>n < 256. gate_dpl (idt (kidt (m_kernel s')) ! n) = (if n = 0x80 \<or> n = 0x81 then 3 else 0))"
  by (rule kmain_runs [OF assms, of m]) (auto simp: final_handlers_def)

section \<open>A machine to boot\<close>

definition demo_info :: boot_info where
  "demo_info = \<lparr>b_entries = pc_entries, b_kstart = 0xC0100000, b_kend = 0xC0120000,
     b_isr_table = map (\<lambda>i. 0xC0100000 + of_nat i * 16) [0..<256], b_gdt = 0xC0107000, b_tss = 0xC0108000, b_idt = 0xC0109000\<rparr>"

definition demo_machine :: machine where
  "demo_machine = \<lparr>m_kernel = demo_boot\<lparr>phys_top := 0, usable_mem := 0,
       kidt := \<lparr>idt = replicate 256 (make_gate 0 0), handlers = replicate 256 None, eflags = 0\<rparr>\<rparr>,
     m_gdt = replicate 8 (gdt_entry_of 0 0 0 0),
     m_log = \<lparr>d_term = blank_terminal\<lparr>initialized := False\<rparr>, d_lock = 0, d_flags = 0\<rparr>\<rparr>"

lemma demo_machine_ready: "boot_ready quiet_device demo_info (replicate 256 NUL) demo_machine"
proof -
  have f: "fold scan_entry pc_entries (0, 0) = (0x400000, 0x39FC00)" by code_simp
  have pd: "dir (m_kernel demo_machine) = 0x1000" "pd (m_kernel demo_machine) d = (if d = 1023 then 0x1003 else 0)" for d
    by (simp_all add: dir_def pd_def frame_of_def demo_machine_def demo_boot_def heap_state.extend_def boot_machine_def)
  have t: "boot_tables (offered_pages demo_info 0x400000) (m_kernel demo_machine)"
    unfolding boot_tables_def self_mapped_def pd
    by (simp add: present_def frame_of_def offered_pages_def)
  have s: "serial_ready quiet_device" by (simp add: serial_ready_def quiet_device_def)
  have k: "phys_top (m_kernel demo_machine) = 0" "usable_mem (m_kernel demo_machine) = 0" by (simp_all add: demo_machine_def)
  have b: "boot_kernel ((m_kernel demo_machine)\<lparr>kernel_cr3 := cr3 (m_kernel demo_machine)\<rparr>)"
    by (simp add: demo_machine_def boot_kernel_def demo_boot_def heap_state.extend_def boot_machine_def)
  show ?thesis
    unfolding boot_ready_def Let_def k
    using t s b by (simp add: f demo_info_def demo_machine_def blank_terminal_def)
qed

theorem kmain_boots_witness:
  "\<exists>s'. kmain (\<lambda>_. 0) (replicate 256 NUL) quiet_device demo_info demo_machine = Some (True, s') \<and>
     reachable quiet_device (m_kernel s') \<and> handlers (kidt (m_kernel s')) ! 0x80 = Some Syscall_Handler \<and>
     gate_dpl (idt (kidt (m_kernel s')) ! 14) = 0"
proof -
  obtain s' where s': "kmain (\<lambda>_. 0) (replicate 256 NUL) quiet_device demo_info demo_machine = Some (True, s')"
    "reachable quiet_device (m_kernel s')"
    "\<forall>n < 256. handlers (kidt (m_kernel s')) ! n =
       (if n < 32 then Some Exception_Handler else if n = 32 then Some Timer_Handler
        else if n = 0x80 then Some Syscall_Handler else if n = 0x81 then Some Schedule else None)"
    "\<forall>n < 256. gate_dpl (idt (kidt (m_kernel s')) ! n) = (if n = 0x80 \<or> n = 0x81 then 3 else 0)"
    using kmain_boots [OF demo_machine_ready, of "\<lambda>_. 0"] by blast
  have "handlers (kidt (m_kernel s')) ! 0x80 = Some Syscall_Handler" using s'(3) [rule_format, of "0x80"] by simp
  moreover have "gate_dpl (idt (kidt (m_kernel s')) ! 14) = 0" using s'(4) [rule_format, of 14] by simp
  ultimately show ?thesis using s'(1,2) by blast
qed

end
