(* ===== verification/Thread_Create.thy ===== *)
theory Thread_Create
  imports Kmain
begin

text \<open>
  What \<^verbatim>\<open>sched_create_thread\<close> of \<^verbatim>\<open>kernel/src/thread.c\<close> does for a thread of the kernel, the heap included:
  the kernel's own threads are made this way by \<^verbatim>\<open>kmain\<close>.
\<close>

section \<open>Clearing a block of the heap\<close>

definition zeroed :: "nat \<Rightarrow> nat \<Rightarrow> (nat \<Rightarrow> u32) \<Rightarrow> nat \<Rightarrow> u32" where
  "zeroed a k M c = (if \<exists>i < k. c = a + 4 * i then 0 else M c)"

lemma zero_words:
  assumes "heap_view n s M" and "\<And>i. i < k \<Longrightarrow> in_heap n (a + 4 * i)"
  shows "\<exists>s'. for_each (\<lambda>i. vwrite (of_nat a + 4 * of_nat i) 0) [0 ..< k] s = Some s' \<and> hstep n s s' (zeroed a k M)"
  using assms(2)
proof (induction k)
  case 0
  then show ?case using hstep_refl [OF assms(1)] by (simp add: zeroed_def [abs_def])
next
  case (Suc k)
  obtain s1 where s1: "for_each (\<lambda>i. vwrite (of_nat a + 4 * of_nat i) 0) [0 ..< k] s = Some s1" "hstep n s s1 (zeroed a k M)"
    using Suc.IH Suc.prems by auto
  have h: "in_heap n (a + 4 * k)" by (rule Suc.prems) simp
  have "vwrite (of_nat (a + 4 * k)) 0 s1 = Some (hput (a + 4 * k) 0 s1)" by (rule vwrite_heap [OF hstep_view [OF s1(2)] h])
  moreover have "hstep n s (hput (a + 4 * k) 0 s1) ((zeroed a k M)(a + 4 * k := 0))" by (rule hstep_put [OF s1(2) h])
  moreover have "(zeroed a k M)(a + 4 * k := 0) = zeroed a (Suc k) M"
    by (auto simp: zeroed_def fun_eq_iff less_Suc_eq)
  ultimately show ?case using s1(1) by (auto simp: for_each_append)
qed

lemma zero_block:
  assumes inv: "heap_inv s (L1 @ (m, True) # L2)" and m: "4096 \<le> m"
  shows "\<exists>s'. zero_pt (of_nat (heap_base + extent L1 + 16)) s = Some s' \<and> heap_inv s' (L1 @ (m, True) # L2)"
proof -
  obtain M n where n: "heap_rep n s M (L1 @ (m, True) # L2)" "heap_start s = of_nat heap_base"
    by (rule heap_invE [OF inv])
  let ?b = "heap_base + extent L1"
  define N where "N = zeroed (?b + 16) 1024 M"
  note b = rep_block [OF n(1) refl refl]
  have v: "heap_view n s M" using n(1) by (simp add: heap_rep_def)
  have "in_heap n (?b + 16 + 4 * i)" if "i < 1024" for i
  proof -
    have "?b + 16 + 4 * i = ?b + 4 * (4 + i)" by simp
    then have "4 dvd ?b + 16 + 4 * i" using b(8) by (metis dvd_add dvd_triv_left)
    then show ?thesis using that b(6) m by (simp add: in_heap_def)
  qed
  from zero_words [OF v this] obtain s' where s': "zero_pt (of_nat (?b + 16)) s = Some s'" "hstep n s s' N"
    by (auto simp: zero_pt_def N_def)
  have out: "N c = M c" if "c < ?b + 16 \<or> ?b + 16 + m \<le> c" for c
    using that m by (auto simp: zeroed_def N_def)
  have "seg 0 heap_base (L1 @ (m, True) # L2) 0 M" using n(1) by (simp add: heap_rep_def)
  then have seg: "seg 0 heap_base (L1 @ [(m, True)] @ L2) 0 M" by simp
  have "seg 0 heap_base (L1 @ [(m, True)] @ L2) 0 N"
  proof (rule seg_replace [OF seg])
    show "seg (last_addr 0 heap_base L1) ?b [(m, True)] (if L2 = [] then 0 else ?b + extent [(m, True)]) N"
      using seg by (simp add: seg_append out)
    show "L2 \<noteq> [] \<Longrightarrow> N (?b + extent [(m, True)] + 8) = of_nat (last_addr (last_addr 0 heap_base L1) ?b [(m, True)])"
      using seg by (cases L2) (simp_all add: seg_append out)
  qed (simp_all add: out)
  then have "heap_rep n s' N (L1 @ (m, True) # L2)"
    using n(1) hstep_view [OF s'(2)] by (simp add: heap_rep_def)
  moreover have "heap_start s' = heap_start s" using s'(2) by (intro more_heap_start) (simp add: hstep_def same_machine_def)
  ultimately show ?thesis using s'(1) n(2) heap_invI by auto
qed


section \<open>Threads of the kernel\<close>

text \<open>The heap does not depend on the tables of the kernel.\<close>

lemma vm_agree:
  fixes s :: "'y vmm_state_scheme" and s' :: "'z vmm_state_scheme"
  assumes "pmem s' = pmem s" "cr3 s' = cr3 s" "bitmap s' = bitmap s" "bitmap_bits s' = bitmap_bits s"
  shows "lookup s' = lookup s" "free_pages s' = free_pages s" "vm_inv s' = vm_inv s" "dir s' = dir s" "pd s' = pd s"
proof -
  show d: "dir s' = dir s" "pd s' = pd s" using assms by (simp_all add: dir_def pd_def [abs_def])
  show g: "free_pages s' = free_pages s"
    using assms by (simp add: free_pages_def page_free_def cong: option.case_cong)
  show "lookup s' = lookup s" unfolding lookup_def [abs_def] d assms(1) by (rule refl)
  have "managed_pages s' = managed_pages s" "pmm_inv s' = pmm_inv s"
    using assms by (simp_all add: managed_pages_def pmm_inv_def cong: option.case_cong)
  then show "vm_inv s' = vm_inv s" unfolding vm_inv_def self_mapped_def d g by simp
qed

lemma heap_inv_agree:
  fixes s s' :: "'z heap_state_scheme"
  assumes "pmem s' = pmem s" "cr3 s' = cr3 s" "bitmap s' = bitmap s" "bitmap_bits s' = bitmap_bits s" "heap_start s' = heap_start s"
  shows "heap_inv s' L = heap_inv s L"
proof -
  note v = vm_agree [OF assms(1-4)]
  have h: "heap_frame s' = heap_frame s" "data_frame s' = data_frame s"
    unfolding heap_frame_def [abs_def] data_frame_def [abs_def] v by (rule refl)+
  have w: "hword s' = hword s" unfolding hword_def [abs_def] h assms(1) by (rule refl)
  have "heap_view n s' M = heap_view n s M" for n M
    unfolding heap_view_def heap_mapped_def v h w by (rule refl)
  then show ?thesis by (simp add: heap_inv_def heap_rep_def assms(5))
qed

lemma heap_inv_kernel [simp]:
  "heap_inv (s\<lparr>threads := T\<rparr>) L = heap_inv s L" "heap_inv (s\<lparr>queues := q\<rparr>) L = heap_inv s L"
  "heap_inv (s\<lparr>procs := P\<rparr>) L = heap_inv s L" "heap_inv (s\<lparr>contexts := C\<rparr>) L = heap_inv s L" for s :: kernel
  by (rule heap_inv_agree; simp)+

text \<open>What the new thread's slot holds.\<close>

definition kernel_thread :: "u32 \<Rightarrow> thread" where
  "kernel_thread stack0 = zero_thread\<lparr>t_process := Some Idle, t_stack0 := stack0, t_sp0 := stack0 + 0x1000 - 72\<rparr>"

text \<open>
  Starting a thread of the kernel succeeds when the idle process has less than eight threads, the
  entry point is not \<^verbatim>\<open>NULL\<close> and the heap has a free block of a page: the first free slot gets the thread,
  with the first such block as its cleared stack, the first context at the top of it, no place in any
  queue, and the process one thread more; no other thread, process or context changes and the other
  blocks of the heap stay as they were.
\<close>

theorem kernel_thread_created:
  assumes heap: "heap_inv s (L1 @ (m, False) # L2)" "no_sliver 4096 (L1 @ (m, False) # L2)"
    and fit: "4096 \<le> m" "\<forall>x \<in> set L1. snd x \<or> fst x < 4096"
    and pr: "procs s Idle = Some pr" "p_num_threads pr < 8" and idx: "thread_slot Idle s = Some idx" and loc: "loc \<noteq> 0"
  shows "\<exists>s'. sched_create_thread loc (Some Idle) s = Some (Some (Idle, idx), s') \<and>
    (let stack0 = of_nat (heap_base + extent L1 + 16)
     in heap_inv s' (L1 @ split_blk 4096 m True @ L2) \<and>
        threads s' = (threads s)((Idle, idx) := kernel_thread stack0) \<and>
        procs s' = (procs s)(Idle \<mapsto> pr\<lparr>p_num_threads := p_num_threads pr + 1\<rparr>) \<and>
        contexts s' = (contexts s)(stack0 + 0x1000 - 72 := first_context Idle loc (user_sp idx)) \<and>
        queues s' = upd_node (Idle, idx) (\<lambda>_. zero_node) (queues s) \<and>
        current_thread s' = current_thread s \<and> cpu_flags s' = cpu_flags s \<and> kidt s' = kidt s \<and>
        receiving s' = receiving s)"
proof -
  let ?t = "(Idle, idx)"
  let ?L = "L1 @ (m, False) # L2"
  define c where "c = clear_thread ?t s"
  define stack0 where "stack0 = (of_nat (heap_base + extent L1 + 16) :: u32)"
  have c: "heap_inv c ?L" "threads c = (threads s)(?t := zero_thread)" "procs c = procs s" "contexts c = contexts s"
    "queues c = upd_node ?t (\<lambda>_. zero_node) (queues s)" "current_thread c = current_thread s" "cpu_flags c = cpu_flags s"
    "kidt c = kidt s" "receiving c = receiving s"
    using heap(1) by (simp_all add: c_def clear_thread_def)
  have r: "rounded 0x1000 = 4096" "unat (align_up (0x1000 :: u32) 4) = 4096" using align4 [of "0x1000"] by simp_all
  obtain s1 where s1: "heap_alloc 0x1000 c = Some (stack0, s1)" "heap_inv s1 (L1 @ split_blk 4096 m True @ L2)"
  proof -
    have "\<forall>x \<in> set L1. \<not> Heap_Ops.fits 4096 x" using fit(2) by (auto simp: Heap_Ops.fits_def)
    then show thesis using heap_alloc_fit [OF c(1) _ r(2) _ heap(2) refl fit(1)] that by (auto simp: stack0_def)
  qed
  obtain m' L where L: "split_blk 4096 m True @ L2 = (m', True) # L" "4096 \<le> m'"
    using fit(1) by (cases "4096 + 48 \<le> m") (auto simp: split_blk_def)
  have nz: "stack0 \<noteq> 0"
  proof -
    obtain M n where "heap_rep n s1 M (L1 @ (m', True) # L)" by (rule heap_invE [OF s1(2) [unfolded L(1)]])
    from rep_block(9) [OF this refl refl] have "heap_base + extent L1 + 16 < 2 ^ 32" by simp
    then have "unat stack0 = heap_base + extent L1 + 16" unfolding stack0_def by (intro unat_of_nat_small) simp
    then show ?thesis by auto
  qed
  obtain s2 where s2: "zero_pt stack0 s1 = Some s2" "heap_inv s2 (L1 @ split_blk 4096 m True @ L2)"
    using zero_block [OF s1(2) [unfolded L(1)] L(2)] unfolding L(1) stack0_def by blast
  have k: "same_sched c s2" using memory_same(1) [OF s1(1)] zero_pt_cpu [OF s2(1)] by (auto intro: same_sched_trans same_schedI)
  then have f: "threads s2 = threads c" "procs s2 = procs c" "contexts s2 = contexts c" "queues s2 = queues c"
    "current_thread s2 = current_thread c" "cpu_flags s2 = cpu_flags c" "kidt s2 = kidt c" "receiving s2 = receiving c" by (simp_all add: same_sched_def)
  have i: "idx < 8" by (rule thread_slot_free(1) [OF idx])
  obtain s' where s': "prepare_thread ?t loc stack0 s1 = Some s'" "s' = s2\<lparr>
      contexts := (contexts s)(stack0 + 0x1000 - 72 := first_context Idle loc (user_sp idx)),
      threads := (threads s)(?t := kernel_thread stack0),
      procs := (procs s)(Idle \<mapsto> pr\<lparr>p_num_threads := p_num_threads pr + 1\<rparr>)\<rparr>"
    using i pr(1) c(2-4) f
    by (simp add: prepare_thread_def s2(1) set_thread_def set_process_def thread_at_def disable_interrupts_def
        write_flags_def kernel_thread_def zero_thread_def Let_def)
  have "sched_create_thread loc (Some Idle) s = Some (Some ?t, s')"
    using loc pr idx s1(1) nz s'(1)
    by (simp add: sched_create_thread_def c_def [symmetric] map_user_stack_def not_le)
  moreover have "heap_inv s' (L1 @ split_blk 4096 m True @ L2)" using s2(2) s'(2) by simp
  ultimately show ?thesis using s'(2) c f by (auto simp: stack0_def Let_def)
qed


lemma demo_boot_facts:
  "free_pages demo_boot = free_pages boot_machine" "lookup demo_boot = lookup boot_machine" "vm_inv demo_boot"
proof -
  have "pmem demo_boot = pmem boot_machine" "cr3 demo_boot = cr3 boot_machine" "bitmap demo_boot = bitmap boot_machine"
    "bitmap_bits demo_boot = bitmap_bits boot_machine"
    by (simp_all add: demo_boot_def heap_state.extend_def boot_machine_def)
  from vm_agree [OF this] show "free_pages demo_boot = free_pages boot_machine" "lookup demo_boot = lookup boot_machine"
    "vm_inv demo_boot" using boot_machine_inv by simp_all
qed

theorem kernel_thread_created_witness:
  "\<exists>s s'. heap_init demo_boot = Some s \<and>
     sched_create_thread 0xC0101000 (Some Idle) s = Some (Some (Idle, 0), s') \<and>
     threads s' = (threads s)((Idle, 0) := kernel_thread 0xE0000010) \<and>
     heap_inv s' [(4096, True), (94176, False)]"
proof -
  have "is_run demo_boot 24 0xE0000" using boot_machine_unmapped by (simp add: is_run_def demo_boot_facts)
  moreover have "48 \<le> card (free_pages demo_boot)" by (simp add: demo_boot_facts boot_machine_facts)
  ultimately obtain s where s: "heap_init demo_boot = Some s" "heap_inv s ([] @ (98288, False) # [])"
    using heap_init_ok [OF demo_boot_facts(3)] by auto
  have k: "heap_state.more s = heap_state.more demo_boot" using heap_init_more [OF s(1)] by simp
  then have p: "procs s Idle = Some zero_process" "threads s = (\<lambda>_. zero_thread)"
    by (cases s; simp add: demo_boot_def heap_state.extend_def boot_machine_def)+
  have "thread_slot Idle s = Some 0" by (simp add: thread_slot_def p(2) zero_thread_def upt_rec)
  moreover have "no_sliver 4096 ([] @ (98288, False) # [])" by (simp add: no_sliver_def)
  moreover have "p_num_threads zero_process < 8" by (simp add: zero_process_def)
  ultimately show ?thesis
    using kernel_thread_created [OF s(2) _ _ _ p(1), of 0 "0xC0101000"] s(1)
    by (auto simp: split_blk_def Let_def)
qed

end
