(* ===== verification/Reports.thy ===== *)
theory Reports
  imports Debug Initrd Heap_Alloc
begin

text \<open>
  What the kernel prints of its own state: the report on the initial ramdisk at the end of \<^verbatim>\<open>kmain\<close>
  (\<^verbatim>\<open>kernel/src/kmain.c\<close>), the report on an exception (\<^verbatim>\<open>arch/i686/exception.c\<close>) and the dump of the
  heap (\<^verbatim>\<open>heap.c\<close>), over the log of theory Debug.  The strings of the program and the archive lie in the
  flat memory \<open>m\<close>, which logging does not touch; pointers to strings are parameters.
\<close>

section \<open>The report on the initial ramdisk\<close>

definition header_version :: "mem \<Rightarrow> u32 \<Rightarrow> u32" where "header_version m h = read32 m (h + 4)"

definition print_archive_entry ::
  "mem \<Rightarrow> string \<Rightarrow> device \<Rightarrow> initrd option \<Rightarrow> nat \<Rightarrow> debug \<Rightarrow> debug option" where
  "print_archive_entry m junk dev ird i d =
     (let entry = initrd_get_entry m ird (of_nat i)
      in if entry = 0 then Some d else say m junk dev (''entry %u: %s'' @ newline) [of_nat i, entry + 20] d)"

definition initrd_print :: "mem \<Rightarrow> string \<Rightarrow> device \<Rightarrow> initrd option \<Rightarrow> debug \<Rightarrow> debug option" where
  "initrd_print m junk dev ird d =
     (if initrd_check m ird then Some d
      else case ird of None \<Rightarrow> None
        | Some i \<Rightarrow> for_each (print_archive_entry m junk dev ird) [0 ..< unat (header_entry_count m (ird_header i))] d)"

text \<open>\<open>kmain\<close> after it has started its threads; \<open>ird\<close> is the uninitialised local \<^verbatim>\<open>initrd\<close> and \<open>initpath\<close> the
  address of the path.\<close>

definition ramdisk_report :: "mem \<Rightarrow> string \<Rightarrow> device \<Rightarrow> initrd \<Rightarrow> u32 \<Rightarrow> debug \<Rightarrow> debug option" where
  "ramdisk_report m junk dev ird initpath d = do {
     ird \<leftarrow> initrd_create m (Some ird) 0xC0050000;
     let header = ird_header ird;
     d \<leftarrow> say m junk dev (''Header: %p'' @ newline) [header] d;
     d \<leftarrow> say m junk dev (''Magic: %08x'' @ newline) [header_magic m header] d;
     d \<leftarrow> say m junk dev (''Expected: %08x'' @ newline) [0x47554D4D] d;
     d \<leftarrow> say m junk dev (''Version: %u'' @ newline) [header_version m header] d;
     if initrd_check m (Some ird) then Some d
     else do {
       d \<leftarrow> say m junk dev (''Initrd detectado'' @ newline) [] d;
       d \<leftarrow> say m junk dev (''Quantidade de entradas: %u'' @ newline) [header_entry_count m header] d;
       d \<leftarrow> say m junk dev (''Data offset: %u'' @ newline) [header_data_offset m header] d;
       d \<leftarrow> initrd_print m junk dev (Some ird) d;
       init \<leftarrow> initrd_find_entry m (Some ird) initpath;
       if init = 0 then Some d
       else do {
         let len = initrd_get_len m init;
         d \<leftarrow> say m junk dev (''Encontrado '' @ [CHR 0x27] @ ''%s'' @ [CHR 0x27] @ newline) [initpath] d;
         d \<leftarrow> say m junk dev (''Tamanho: %u b'' @ newline) [len] d;
         let data = initrd_get_data m (Some ird) init;
         debug_dump_code m junk dev data (bytes_at m data (unat len)) d } } }"

section \<open>The report on an exception\<close>

definition exception_names :: "string list" where
  "exception_names =
     [''Division Error'', ''Debug'', ''Non-Maskable Interrupt'', ''Breakpoint'', ''Overflow'', ''BOUND Range Exceeded'',
      ''Invalid Opcode'', ''Device Not Available'', ''Double Fault'', ''Coprocessor Segment Overrun'', ''Invalid TSS'',
      ''Segment Not Present'', ''Stack-Segment Fault'', ''General Protection Fault'', ''Page Fault'', ''Reserved'',
      ''x87 Floating-Point Exception'', ''Alignment Check'', ''Machine Check'', ''SIMD Floating-Point Exception'',
      ''Virtualization Exception'', ''Control Protection Exception'', ''Reserved'', ''Reserved'', ''Reserved'', ''Reserved'',
      ''Reserved'', ''Reserved'', ''Hypervisor Injection Exception'', ''VMM Communication Exception'',
      ''Security Exception'', ''Reserved'']"

text \<open>\<open>names\<close> are the pointers of the table, \<open>code\<close> the sixteen bytes at \<open>eip\<close>; an index behind the table is
  undefined.\<close>

definition exception_report ::
  "mem \<Rightarrow> string \<Rightarrow> device \<Rightarrow> u32 list \<Rightarrow> u32 \<Rightarrow> u32 \<Rightarrow> u32 \<Rightarrow> u8 list \<Rightarrow> debug \<Rightarrow> debug option" where
  "exception_report m junk dev names int_num eip cr2 code d =
     (if unat int_num \<ge> length names then None
      else do {
        d \<leftarrow> say m junk dev (''%s!'' @ newline) [names ! unat int_num] d;
        d \<leftarrow> say m junk dev (''    INT: %u'' @ newline) [int_num] d;
        d \<leftarrow> say m junk dev (''    EIP: 0x%08X'' @ newline) [eip] d;
        d \<leftarrow> (if int_num = 14 then say m junk dev (''    CR2: 0x%08X'' @ newline) [cr2] d else Some d);
        debug_dump_code m junk dev eip code d })"

section \<open>The dump of the heap\<close>

definition heap_report :: "mem \<Rightarrow> string \<Rightarrow> device \<Rightarrow> 'z heap_state_scheme \<Rightarrow> debug \<Rightarrow> debug option" where
  "heap_report m junk dev s d = do {
     totals \<leftarrow> heap_print s;
     case totals of
       None \<Rightarrow> say m junk dev (''Heap nao inicializado'' @ newline) [] d
     | Some (blocks, used, free) \<Rightarrow>
         say m junk dev (''blocos=%u usado=%u b livre=%u b'' @ newline) [blocks, used, free] d }"

section \<open>Composing what is printed\<close>

text \<open>\<open>f\<close> prints \<open>t\<close> whatever the log holds, and leaves it ready.\<close>

definition prints :: "device \<Rightarrow> (debug \<Rightarrow> debug option) \<Rightarrow> string \<Rightarrow> bool" where
  "prints dev f t \<longleftrightarrow> (\<forall>d. log_ready dev d \<longrightarrow> (\<exists>d'. f d = Some d' \<and> log_ready dev d' \<and> logged (map of_char t) d d'))"

lemma prints_skip: "prints dev Some []"
  by (simp add: prints_def logged_nil)

lemma prints_bind:
  assumes "prints dev f s" and "prints dev g t"
  shows "prints dev (\<lambda>d. Option.bind (f d) g) (s @ t)"
  unfolding prints_def
proof (intro allI impI)
  fix d assume "log_ready dev d"
  then obtain d1 where d1: "f d = Some d1" "log_ready dev d1" "logged (map of_char s) d d1"
    using assms(1) unfolding prints_def by blast
  then obtain d2 where "g d1 = Some d2" "log_ready dev d2" "logged (map of_char t) d1 d2"
    using assms(2) unfolding prints_def by blast
  then show "\<exists>d'. Option.bind (f d) g = Some d' \<and> log_ready dev d' \<and> logged (map of_char (s @ t)) d d'"
    using d1 logged_append [OF d1(3)] by simp
qed

lemma prints_each:
  assumes "\<And>x. x \<in> set xs \<Longrightarrow> prints dev (f x) (t x)"
  shows "prints dev (for_each f xs) (concat (map t xs))"
  using assms
proof (induction xs)
  case (Cons x xs)
  have "prints dev (\<lambda>d. Option.bind (f x d) (for_each f xs)) (t x @ concat (map t xs))"
    by (rule prints_bind) (use Cons in auto)
  then show ?case by (simp add: prints_def)
qed (simp add: prints_def logged_nil)

lemma say_prints_cut:
  assumes "render m fmt args = Some t" and "length t < 2 ^ 31" and "NUL \<notin> set t" and "length junk = 256"
  shows "prints dev (say m junk dev fmt args) (take 255 t)"
  unfolding prints_def
proof (intro allI impI)
  fix d assume d: "log_ready dev d"
  have "c_bytes (take 255 t) = map of_char (take 255 t)" by (rule c_bytes_plain) (use assms(3) in \<open>auto dest: in_set_takeD\<close>)
  then show "\<exists>d'. say m junk dev fmt args d = Some d' \<and> log_ready dev d' \<and> logged (map of_char (take 255 t)) d d'"
    using printk_ok [OF d assms(1,2,4)] by (auto simp: say_def)
qed

lemma say_prints:
  assumes "render m fmt args = Some t" and "length t \<le> 255" and "NUL \<notin> set t" and "length junk = 256"
  shows "prints dev (say m junk dev fmt args) t"
  using say_prints_cut [OF assms(1) _ assms(3,4)] assms(2) by simp

text \<open>Numbers.\<close>

definition decimal :: "u32 \<Rightarrow> string" where "decimal w = itoa_text 10 (ucast w) False False 0"
definition hex8 :: "bool \<Rightarrow> u32 \<Rightarrow> string" where "hex8 upper w = itoa_text 16 (ucast w) False upper 8"

lemma number_lengths: "length (decimal w) \<le> 32" "length (hex8 upper w) \<le> 64"
  using entry_lengths(2) [of w] digits_chars_length [of 16 "ucast w"]
  by (simp_all add: decimal_def hex8_def itoa_text_length)

lemma number_plain: "NUL \<notin> set (decimal w)" "NUL \<notin> set (hex8 upper w)"
  by (simp_all add: decimal_def hex8_def itoa_nonzero)

lemma dump_prints: "length junk = 256 \<Longrightarrow> prints dev (debug_dump_code m junk dev eip code) (dump_text eip code)"
  unfolding prints_def by (intro allI impI) (rule debug_dump_code_logs)


section \<open>What the messages render to\<close>

lemma literal_render: "render m (c # cs) args = map_option ((#) c) (render m cs args)" if "c \<noteq> CHR ''%''"
  using that by (simp add: render.simps(2))

lemma of_char_of_byte [simp]: "of_char (char_of_byte b) = (b :: u8)"
proof -
  have "of_char (char_of_byte b) = (of_nat (of_char (char_of_byte b) :: nat) :: u8)" by (rule of_nat_of_char [symmetric])
  also have "(of_char (char_of_byte b) :: nat) = unat b mod 256" unfolding char_of_byte_def of_char_of ..
  moreover have "unat b < 256" using unsigned_less [of b] by simp
  ultimately show ?thesis by simp
qed

lemma render_report:
  "render m (''Header: %p'' @ newline) [0xC0050000] = Some (''Header: 0xc0050000'' @ newline)"
  "render m (''Magic: %08x'' @ newline) [0x47554D4D] = Some (''Magic: 47554d4d'' @ newline)"
  "render m (''Expected: %08x'' @ newline) [0x47554D4D] = Some (''Expected: 47554d4d'' @ newline)"
  "render m (''Initrd detectado'' @ newline) [] = Some (''Initrd detectado'' @ newline)"
  by (simp_all add: format_eval)

lemma render_numbers:
  "render m (''Version: %u'' @ newline) [w] = Some (''Version: '' @ decimal w @ newline)"
  "render m (''Quantidade de entradas: %u'' @ newline) [w] = Some (''Quantidade de entradas: '' @ decimal w @ newline)"
  "render m (''Data offset: %u'' @ newline) [w] = Some (''Data offset: '' @ decimal w @ newline)"
  "render m (''Tamanho: %u b'' @ newline) [w] = Some (''Tamanho: '' @ decimal w @ '' b'' @ newline)"
  "render m (''    INT: %u'' @ newline) [w] = Some (''    INT: '' @ decimal w @ newline)"
  using number_lengths(1) [of w] by (simp_all add: format_eval(1-10) decimal_def Let_def)

lemma render_hex:
  "render m (''    EIP: 0x%08X'' @ newline) [w] = Some (''    EIP: 0x'' @ hex8 True w @ newline)"
  "render m (''    CR2: 0x%08X'' @ newline) [w] = Some (''    CR2: 0x'' @ hex8 True w @ newline)"
  using number_lengths(2) [of True w] by (simp_all add: format_eval(1-10) hex8_def Let_def)

lemma says:
  assumes "length junk = 256"
  shows "prints dev (say m junk dev (''Header: %p'' @ newline) [0xC0050000]) (''Header: 0xc0050000'' @ newline)"
    "prints dev (say m junk dev (''Magic: %08x'' @ newline) [0x47554D4D]) (''Magic: 47554d4d'' @ newline)"
    "prints dev (say m junk dev (''Expected: %08x'' @ newline) [0x47554D4D]) (''Expected: 47554d4d'' @ newline)"
    "prints dev (say m junk dev (''Initrd detectado'' @ newline) []) (''Initrd detectado'' @ newline)"
  by (rule say_prints [OF render_report(1) _ _ assms] say_prints [OF render_report(2) _ _ assms]
      say_prints [OF render_report(3) _ _ assms] say_prints [OF render_report(4) _ _ assms]; simp)+

lemma says_number:
  assumes "length junk = 256"
  shows "prints dev (say m junk dev (''Version: %u'' @ newline) [w]) (''Version: '' @ decimal w @ newline)"
    "prints dev (say m junk dev (''Quantidade de entradas: %u'' @ newline) [w]) (''Quantidade de entradas: '' @ decimal w @ newline)"
    "prints dev (say m junk dev (''Data offset: %u'' @ newline) [w]) (''Data offset: '' @ decimal w @ newline)"
    "prints dev (say m junk dev (''Tamanho: %u b'' @ newline) [w]) (''Tamanho: '' @ decimal w @ '' b'' @ newline)"
    "prints dev (say m junk dev (''    INT: %u'' @ newline) [w]) (''    INT: '' @ decimal w @ newline)"
  using number_lengths(1) [of w] number_plain(1) [of w]
  by (auto intro: say_prints [OF render_numbers(1) _ _ assms, simplified] say_prints [OF render_numbers(2) _ _ assms, simplified]
      say_prints [OF render_numbers(3) _ _ assms, simplified] say_prints [OF render_numbers(4) _ _ assms, simplified]
      say_prints [OF render_numbers(5) _ _ assms, simplified])

text \<open>A C string in memory.\<close>

definition c_string :: "mem \<Rightarrow> u32 \<Rightarrow> u8 list \<Rightarrow> bool" where
  "c_string m p bs \<longleftrightarrow> p \<noteq> 0 \<and> holds m p (bs @ [0]) \<and> 0 \<notin> set bs \<and> length bs < 2 ^ 31 - 100"

abbreviation chars_of :: "u8 list \<Rightarrow> string" where "chars_of bs \<equiv> map char_of_byte bs"

lemma c_string_text:
  assumes "c_string m p bs"
  shows "strlen m p = Some (of_nat (length bs))" "bytes_at m p (unat (of_nat (length bs) :: u32)) = bs" "p \<noteq> 0"
    "NUL \<notin> set (chars_of bs)"
proof -
  note a = assms [unfolded c_string_def]
  show "strlen m p = Some (of_nat (length bs))" "p \<noteq> 0" using a holds_strlen by blast+
  have "unat (of_nat (length bs) :: u32) = length bs" using a by (simp add: unat_of_nat_small)
  then show "bytes_at m p (unat (of_nat (length bs) :: u32)) = bs" using a by (simp add: holds_append) (simp add: holds_def)
  have "b = 0" if "char_of_byte b = NUL" for b
    using arg_cong [OF that, of "of_char :: char \<Rightarrow> u8"] by simp
  then show "NUL \<notin> set (chars_of bs)" using a by (auto dest!: sym [of NUL])
qed

lemma render_strings:
  assumes "c_string m p bs"
  shows "render m (''entry %u: %s'' @ newline) [w, p] = Some (''entry '' @ decimal w @ '': '' @ chars_of bs @ newline)"
    "render m (''Encontrado '' @ [CHR 0x27] @ ''%s'' @ [CHR 0x27] @ newline) [p] =
       Some (''Encontrado '' @ [CHR 0x27] @ chars_of bs @ [CHR 0x27] @ newline)"
    "render m (''%s!'' @ newline) [p] = Some (chars_of bs @ ''!'' @ newline)"
  using number_lengths(1) [of w] c_string_text [OF assms] by (simp_all add: format_eval(1-10) decimal_def Let_def)


section \<open>The text of the ramdisk report\<close>

definition init_path :: "u8 list" where "init_path = map of_char ''/init.sys''"

definition entry_line :: "nat \<Rightarrow> archive_file \<Rightarrow> string" where
  "entry_line i f = take 255 (''entry '' @ decimal (of_nat i) @ '': '' @ chars_of (f_name f) @ newline)"

definition listing :: "archive_file list \<Rightarrow> string" where
  "listing fs = concat (map (\<lambda>i. entry_line i (fs ! i)) [0 ..< length fs])"

definition init_index :: "archive_file list \<Rightarrow> nat" where
  "init_index fs = length (takeWhile (\<lambda>f. f_name f \<noteq> init_path) fs)"

definition init_text :: "u32 \<Rightarrow> archive_file list \<Rightarrow> string" where
  "init_text base fs =
     (let i = init_index fs
      in if i \<ge> length fs then []
         else ''Encontrado '' @ [CHR 0x27] @ chars_of init_path @ [CHR 0x27] @ newline @
           ''Tamanho: '' @ decimal (of_nat (length (f_contents (fs ! i)))) @ '' b'' @ newline @
           dump_text (base + recorded_offset (16 + table_size fs) (take i fs) (fs ! i)) (f_contents (fs ! i)))"

definition ramdisk_text :: "archive_file list \<Rightarrow> string" where
  "ramdisk_text fs =
     ''Header: 0xc0050000'' @ newline @ ''Magic: 47554d4d'' @ newline @ ''Expected: 47554d4d'' @ newline @
     ''Version: '' @ decimal 1 @ newline @ ''Initrd detectado'' @ newline @
     ''Quantidade de entradas: '' @ decimal (of_nat (length fs)) @ newline @
     ''Data offset: '' @ decimal (of_nat (16 + table_size fs)) @ newline @ listing fs @ init_text 0xC0050000 fs"

lemma init_index_first:
  assumes "first_named fs init_path i"
  shows "init_index fs = i"
proof -
  have "length (takeWhile (\<lambda>f. f_name f \<noteq> name) fs) = i" if "first_named fs name i" for name
  proof -
    have "takeWhile (\<lambda>f. f_name f \<noteq> name) fs = take i fs"
      using that by (intro takeWhile_eq_take_P_nth) (auto simp: first_named_def)
    then show ?thesis using that by (simp add: first_named_def)
  qed
  then show ?thesis using assms by (simp add: init_index_def)
qed

lemma init_index_none: "init_path \<notin> f_name ` set fs \<Longrightarrow> init_index fs = length fs"
  
  unfolding init_index_def by (subst takeWhile_eq_all_conv [THEN iffD2]) (auto simp: image_iff)

lemma loaded_fields:
  assumes "loaded m base fs"
  shows "header_magic m base = 0x47554D4D" "header_version m base = 1" "header_entry_count m base = of_nat (length fs)"
    "header_data_offset m base = of_nat (16 + table_size fs)"
  using assms
  by (auto simp: loaded_def archive_def holds_append add.assoc header_magic_def header_version_def
      header_entry_count_def header_data_offset_def dest!: holds_read32)

lemma entry_prints:
  assumes "loaded m 0xC0050000 fs" and "initrd_create m (Some out) 0xC0050000 = Some ird" and "i < length fs"
    and "length junk = 256"
  shows "prints dev (print_archive_entry m junk dev (Some ird) i) (entry_line i (fs ! i))"
proof -
  note le = loaded_entry [OF assms(1,3)]
  have f: "fs ! i \<in> set fs" using assms(3) by simp
  have len: "length (f_name (fs ! i)) < 2 ^ 31 - 100"
    using member_le_table [OF f] assms(1) by (simp add: loaded_def archive_length)
  have big: "unat (entry_addr 0xC0050000 fs i) + 20 < 2 ^ 32"
    using assms(1,3) le(7) table_size_take [of "Suc i" fs]
    by (simp add: loaded_def archive_length take_Suc_conv_app_nth table_size_def)
  then have "entry_addr 0xC0050000 fs i + 20 \<noteq> 0"
    using unat_add_nowrap [of "entry_addr 0xC0050000 fs i" 20] by auto
  then have c: "c_string m (entry_addr 0xC0050000 fs i + 20) (f_name (fs ! i))"
    using le(8) len f assms(1) by (auto simp: c_string_def loaded_def file_ok_def)
  have "prints dev (say m junk dev (''entry %u: %s'' @ newline) [of_nat i, entry_addr 0xC0050000 fs i + 20])
      (entry_line i (fs ! i))"
    unfolding entry_line_def
    by (rule say_prints_cut [OF render_strings(1) [OF c] _ _ assms(4)])
      (use number_lengths(1) [of "of_nat i"] number_plain(1) [of "of_nat i"] len c_string_text(4) [OF c] in auto)
  then show ?thesis
    using loaded_get_entry [OF assms(1,2,3)] le(6) by (simp add: prints_def print_archive_entry_def)
qed

lemma initrd_print_prints:
  assumes "loaded m 0xC0050000 fs" and "initrd_create m (Some out) 0xC0050000 = Some ird" and "length junk = 256"
  shows "prints dev (initrd_print m junk dev (Some ird)) (listing fs)"
proof -
  note h = loaded_header [OF assms(1,2)]
  have "prints dev (for_each (print_archive_entry m junk dev (Some ird)) [0 ..< length fs]) (listing fs)"
    unfolding listing_def by (rule prints_each) (use entry_prints [OF assms(1,2) _ assms(3)] in simp)
  then show ?thesis using h by (simp add: initrd_print_def prints_def)
qed


lemma init_prints:
  assumes ld: "loaded m 0xC0050000 fs" and cr: "initrd_create m (Some out) 0xC0050000 = Some ird"
    and path: "c_string m p init_path" and junk: "length junk = 256" and e: "first_named fs init_path i"
  shows "prints dev (\<lambda>d. do {
      d \<leftarrow> say m junk dev (''Encontrado '' @ [CHR 0x27] @ ''%s'' @ [CHR 0x27] @ newline) [p] d;
      d \<leftarrow> say m junk dev (''Tamanho: %u b'' @ newline) [initrd_get_len m (entry_addr 0xC0050000 fs i)] d;
      debug_dump_code m junk dev (initrd_get_data m (Some ird) (entry_addr 0xC0050000 fs i))
        (bytes_at m (initrd_get_data m (Some ird) (entry_addr 0xC0050000 fs i))
          (unat (initrd_get_len m (entry_addr 0xC0050000 fs i)))) d })
    (init_text 0xC0050000 fs)"
proof -
  have i: "i < length fs" using e by (simp add: first_named_def)
  note pc = packed_contents [OF ld cr i]
  have len: "initrd_get_len m (entry_addr 0xC0050000 fs i) = of_nat (length (f_contents (fs ! i)))"
    using arg_cong [OF pc(1), of "of_nat :: nat \<Rightarrow> u32"] by simp
  have data: "bytes_at m (initrd_get_data m (Some ird) (entry_addr 0xC0050000 fs i))
      (unat (initrd_get_len m (entry_addr 0xC0050000 fs i))) = f_contents (fs ! i)"
    unfolding pc(1) by (rule pc(2))
  have l: "length init_path = 9" by (simp add: init_path_def)
  have "prints dev (\<lambda>d. do {
      d \<leftarrow> say m junk dev (''Encontrado '' @ [CHR 0x27] @ ''%s'' @ [CHR 0x27] @ newline) [p] d;
      d \<leftarrow> say m junk dev (''Tamanho: %u b'' @ newline) [of_nat (length (f_contents (fs ! i)))] d;
      debug_dump_code m junk dev (0xC0050000 + recorded_offset (16 + table_size fs) (take i fs) (fs ! i))
        (f_contents (fs ! i)) d })
    ((''Encontrado '' @ [CHR 0x27] @ chars_of init_path @ [CHR 0x27] @ newline) @
     (''Tamanho: '' @ decimal (of_nat (length (f_contents (fs ! i)))) @ '' b'' @ newline) @
     dump_text (0xC0050000 + recorded_offset (16 + table_size fs) (take i fs) (fs ! i)) (f_contents (fs ! i)))"
    by (intro prints_bind dump_prints junk says_number say_prints [OF render_strings(2) [OF path] _ _ junk])
      (use l c_string_text(4) [OF path] in auto)
  then show ?thesis
    unfolding data unfolding pc(3) len using i by (simp add: init_text_def init_index_first [OF e] Let_def)
qed


lemma ramdisk_prints:
  assumes ld: "loaded m 0xC0050000 fs" and path: "c_string m p init_path" and junk: "length junk = 256"
  shows "prints dev (ramdisk_report m junk dev out p) (ramdisk_text fs)"
proof -
  obtain ird where cr: "initrd_create m (Some out) 0xC0050000 = Some ird" by (simp add: initrd_create_def)
  note h = loaded_header [OF ld cr] and f = loaded_fields [OF ld] and pa = path [unfolded c_string_def]
  define R where "R d = do {
       init \<leftarrow> initrd_find_entry m (Some ird) p;
       if init = 0 then Some d
       else do {
         d \<leftarrow> say m junk dev (''Encontrado '' @ [CHR 0x27] @ ''%s'' @ [CHR 0x27] @ newline) [p] d;
         d \<leftarrow> say m junk dev (''Tamanho: %u b'' @ newline) [initrd_get_len m init] d;
         debug_dump_code m junk dev (initrd_get_data m (Some ird) init)
           (bytes_at m (initrd_get_data m (Some ird) init) (unat (initrd_get_len m init))) d } }" for d
  have l: "length init_path = 9" "init_path \<noteq> []" by (simp_all add: init_path_def)
  have find: "initrd_find_entry m (Some ird) p =
      Some (find_loop m (Some ird) p (of_nat (length init_path)) (of_nat 0) (length fs))"
    by (rule initrd_find_entry_loop [OF ld cr]) (use pa l in auto)
  have R: "prints dev R (init_text 0xC0050000 fs)"
  proof -
    consider (found) i where "first_named fs init_path i" "initrd_find_entry m (Some ird) p = Some (entry_addr 0xC0050000 fs i)"
      | (none) "init_path \<notin> f_name ` set fs" "initrd_find_entry m (Some ird) p = Some 0"
      using find_loop_result [OF ld cr, of p init_path 0 "length fs"] pa l unfolding find by auto
    then show ?thesis
    proof cases
      case found
      then have "entry_addr 0xC0050000 fs i \<noteq> 0" using loaded_entry(6) [OF ld] by (simp add: first_named_def)
      then show ?thesis using init_prints [OF ld cr path junk found(1)] by (simp add: R_def [abs_def] found(2))
    next
      case none
      then show ?thesis using prints_skip by (simp add: R_def [abs_def] init_text_def init_index_none)
    qed
  qed
  have "prints dev (\<lambda>d. do {
     d \<leftarrow> say m junk dev (''Header: %p'' @ newline) [0xC0050000] d;
     d \<leftarrow> say m junk dev (''Magic: %08x'' @ newline) [0x47554D4D] d;
     d \<leftarrow> say m junk dev (''Expected: %08x'' @ newline) [0x47554D4D] d;
     d \<leftarrow> say m junk dev (''Version: %u'' @ newline) [1] d;
     d \<leftarrow> say m junk dev (''Initrd detectado'' @ newline) [] d;
     d \<leftarrow> say m junk dev (''Quantidade de entradas: %u'' @ newline) [of_nat (length fs)] d;
     d \<leftarrow> say m junk dev (''Data offset: %u'' @ newline) [of_nat (16 + table_size fs)] d;
     d \<leftarrow> initrd_print m junk dev (Some ird) d;
     R d })
   ((''Header: 0xc0050000'' @ newline) @ (''Magic: 47554d4d'' @ newline) @ (''Expected: 47554d4d'' @ newline) @
     (''Version: '' @ decimal 1 @ newline) @ (''Initrd detectado'' @ newline) @
     (''Quantidade de entradas: '' @ decimal (of_nat (length fs)) @ newline) @
     (''Data offset: '' @ decimal (of_nat (16 + table_size fs)) @ newline) @ listing fs @ init_text 0xC0050000 fs)" (is "prints dev ?F ?t")
    by (intro prints_bind says says_number initrd_print_prints [OF ld cr] R junk)
  moreover have "ramdisk_report m junk dev out p d = ?F d" for d
    unfolding ramdisk_report_def R_def Let_def by (simp add: cr h f)
  ultimately show ?thesis unfolding ramdisk_text_def append_assoc prints_def by simp
qed


lemma char_of_byte_of_char [simp]: "char_of_byte (of_char c) = c"
proof -
  have "(of_char c :: u8) = of_nat (of_char c :: nat)" by (rule of_nat_of_char [symmetric])
  then have "unat (of_char c :: u8) = (of_char c :: nat) mod 256" by (simp only: unat_of_nat) simp
  then show ?thesis by (simp add: char_of_byte_def)
qed

section \<open>Properties\<close>

text \<open>
  C27. When an archive in the format of \<^verbatim>\<open>make-initrd\<close> is loaded at 0xC0050000, the report at the end of
  \<open>kmain\<close> ends and logs exactly this: the header, one line for every entry in order (cut to 255
  characters), and, when there is an entry \<^verbatim>\<open>/init.sys\<close>, the size and a dump of the contents that were
  packed for the first one.
\<close>

theorem ramdisk_report_logs:
  assumes "log_ready dev d" and "length junk = 256" and "loaded m 0xC0050000 fs" and "c_string m initpath init_path"
  shows "\<exists>d'. ramdisk_report m junk dev ird initpath d = Some d' \<and> log_ready dev d' \<and>
    logged (map of_char (ramdisk_text fs)) d d'"
  using ramdisk_prints [OF assms(3,4,2), of dev ird] assms(1) by (simp add: prints_def)

text \<open>A directory and the file, with the path at 0x2000.\<close>

definition ramdisk_files :: "archive_file list" where
  "ramdisk_files = [\<lparr>f_name = [47], f_type = 1, f_permissions = 493, f_contents = []\<rparr>,
     \<lparr>f_name = init_path, f_type = 2, f_permissions = 420, f_contents = [0x90, 0xC3]\<rparr>]"

definition ramdisk_mem :: mem where
  "ramdisk_mem a = (if 0x2000 \<le> a \<and> a < 0x2009 then init_path ! unat (a - 0x2000)
     else if 0xC0050000 \<le> a \<and> unat (a - 0xC0050000) < length (archive ramdisk_files)
     then archive ramdisk_files ! unat (a - 0xC0050000) else 0)"

lemma ramdisk_loaded: "loaded ramdisk_mem 0xC0050000 ramdisk_files" "c_string ramdisk_mem 0x2000 init_path"
proof -
  have "holds ramdisk_mem 0xC0050000 (archive ramdisk_files)" by code_simp
  moreover have "length (archive ramdisk_files) = 70" by code_simp
  moreover have i: "init_path \<noteq> []" "0 \<notin> set init_path" "length init_path = 9" by code_simp+
  ultimately show "loaded ramdisk_mem 0xC0050000 ramdisk_files"
    by (simp add: loaded_def ramdisk_files_def file_ok_def)
  have "holds ramdisk_mem 0x2000 (init_path @ [0])" by code_simp
  then show "c_string ramdisk_mem 0x2000 init_path" using i by (simp add: c_string_def)
qed


lemma ramdisk_files_text:
  "ramdisk_text ramdisk_files =
     ''Header: 0xc0050000'' @ newline @ ''Magic: 47554d4d'' @ newline @ ''Expected: 47554d4d'' @ newline @
     ''Version: 1'' @ newline @ ''Initrd detectado'' @ newline @ ''Quantidade de entradas: 2'' @ newline @
     ''Data offset: 68'' @ newline @ ''entry 0: /'' @ newline @ ''entry 1: /init.sys'' @ newline @
     ''Encontrado '' @ [CHR 0x27] @ ''/init.sys'' @ [CHR 0x27] @ newline @ ''Tamanho: 2 b'' @ newline @
     ''Bytes em 0x00000000C0050044: 90 C3 '' @ newline"
proof -
  have d: "decimal 0 = ''0''" "decimal 1 = ''1''" "decimal 2 = ''2''" "decimal 68 = ''68''"
    by (simp_all add: decimal_def itoa_text_def digits_def rev_digits.simps digit_char_def chars_def)
  have z: "replicate 8 (CHR ''0'') = ''00000000''" by (simp add: numeral_eq_Suc)
  have i: "chars_of init_path = ''/init.sys''" "length init_path = 9"
    by (simp_all only: init_path_def map_map comp_def char_of_byte_of_char length_map) simp_all
  have ne: "[47] \<noteq> init_path" by (simp add: init_path_def)
  have t: "table_size ramdisk_files = 52" by (simp add: table_size_def ramdisk_files_def i)
  have x: "init_index ramdisk_files = 1" using ne by (simp add: init_index_def ramdisk_files_def)
  have c: "chars_of [47] = ''/''" using char_of_byte_of_char [of "CHR ''/''"] by simp
  have l: "listing ramdisk_files = ''entry 0: /'' @ newline @ ''entry 1: /init.sys'' @ newline"
    using c by (simp add: listing_def entry_line_def ramdisk_files_def d i upt_rec)
  have a: "itoa_text 16 (ucast (0xC0050044 :: u32)) False True 16 = ''00000000C0050044''"
    by (simp add: itoa_text_def digits_def rev_digits.simps digit_char_def CHARS_def z)
  have u: "dump_text 0xC0050044 [0x90, 0xC3] = ''Bytes em 0x00000000C0050044: 90 C3 '' @ newline"
    unfolding dump_text_def a by (simp add: hex_byte_def digit_char_def CHARS_def)
  have "init_text 0xC0050000 ramdisk_files = ''Encontrado '' @ [CHR 0x27] @ ''/init.sys'' @ [CHR 0x27] @ newline @
      ''Tamanho: 2 b'' @ newline @ ''Bytes em 0x00000000C0050044: 90 C3 '' @ newline"
    unfolding init_text_def x t using u
    by (simp add: ramdisk_files_def recorded_offset_def contents_size_def d i)
  then show ?thesis unfolding ramdisk_text_def l t by (simp add: d ramdisk_files_def)
qed

theorem ramdisk_report_logs_witness:
  "\<exists>d'. ramdisk_report ramdisk_mem (replicate 256 NUL) quiet_device \<lparr>ird_base = 0, ird_header = 0, ird_entries = 0, ird_data = 0\<rparr>
       0x2000 demo_log = Some d' \<and>
     (\<exists>cs. writes_to 0x3F8 (t_ports (d_term d')) = map of_char (cs @ ''Bytes em 0x00000000C0050044: 90 C3 '' @ newline))"
proof -
  have w: "writes_to 0x3F8 (t_ports (d_term demo_log)) = []" by (simp add: demo_log_def blank_terminal_def)
  obtain cs where cs: "ramdisk_text ramdisk_files = cs @ ''Bytes em 0x00000000C0050044: 90 C3 '' @ newline"
    unfolding ramdisk_files_text by (metis append_assoc)
  show ?thesis
    using ramdisk_report_logs [OF demo_log_ready _ ramdisk_loaded, of "replicate 256 NUL"
        "\<lparr>ird_base = 0, ird_header = 0, ird_entries = 0, ird_data = 0\<rparr>"] w
    unfolding cs by (auto simp: logged_def)
qed

section \<open>Exceptions and the heap\<close>

text \<open>The names of the exceptions are strings of the program.\<close>

definition names_loaded :: "mem \<Rightarrow> u32 list \<Rightarrow> bool" where
  "names_loaded m names \<longleftrightarrow> length names = 32 \<and> (\<forall>i < 32. c_string m (names ! i) (map of_char (exception_names ! i)))"

definition exception_text :: "u32 \<Rightarrow> u32 \<Rightarrow> u32 \<Rightarrow> u8 list \<Rightarrow> string" where
  "exception_text int_num eip cr2 code =
     exception_names ! unat int_num @ ''!'' @ newline @ ''    INT: '' @ decimal int_num @ newline @
     ''    EIP: 0x'' @ hex8 True eip @ newline @
     (if int_num = 14 then ''    CR2: 0x'' @ hex8 True cr2 @ newline else []) @ dump_text eip code"

lemma exception_names_ok:
  "length exception_names = 32" "i < 32 \<Longrightarrow> length (exception_names ! i) \<le> 30"
proof -
  show n: "length exception_names = 32" by (simp add: exception_names_def)
  have "\<forall>e \<in> set exception_names. length e \<le> 30" by (simp add: exception_names_def)
  then show "i < 32 \<Longrightarrow> length (exception_names ! i) \<le> 30" by (simp add: n)
qed

text \<open>
  The report on an exception: its name, number and address, the faulting address for a page fault, and the
  dump of the code.
\<close>

theorem exception_report_logs:
  assumes "log_ready dev d" and "length junk = 256" and "names_loaded m names" and "int_num < 32"
  shows "\<exists>d'. exception_report m junk dev names int_num eip cr2 code d = Some d' \<and> log_ready dev d' \<and>
    logged (map of_char (exception_text int_num eip cr2 code)) d d'"
proof -
  have n: "unat int_num < 32" using assms(4) by (simp add: word_less_nat_alt)
  define e where "e = exception_names ! unat int_num"
  have c: "c_string m (names ! unat int_num) (map of_char e)" "length names = 32" "length e \<le> 30"
    using assms(3) n exception_names_ok(2) [OF n] by (simp_all add: names_loaded_def e_def)
  have t: "chars_of (map of_char e) = e" by (simp add: comp_def)
  note p = c_string_text(4) [OF c(1), unfolded t]
  have "prints dev (\<lambda>d. do {
      d \<leftarrow> say m junk dev (''%s!'' @ newline) [names ! unat int_num] d;
      d \<leftarrow> say m junk dev (''    INT: %u'' @ newline) [int_num] d;
      d \<leftarrow> say m junk dev (''    EIP: 0x%08X'' @ newline) [eip] d;
      d \<leftarrow> (if int_num = 14 then say m junk dev (''    CR2: 0x%08X'' @ newline) [cr2] d else Some d);
      debug_dump_code m junk dev eip code d })
    ((e @ ''!'' @ newline) @ (''    INT: '' @ decimal int_num @ newline) @ (''    EIP: 0x'' @ hex8 True eip @ newline) @
      (if int_num = 14 then ''    CR2: 0x'' @ hex8 True cr2 @ newline else []) @ dump_text eip code)"
  proof (intro prints_bind says_number dump_prints assms(2))
    show "prints dev (say m junk dev (''%s!'' @ newline) [names ! unat int_num]) (e @ ''!'' @ newline)"
      by (rule say_prints [OF render_strings(3) [OF c(1), unfolded t] _ _ assms(2)]) (use c(3) p in auto)
    show "prints dev (say m junk dev (''    EIP: 0x%08X'' @ newline) [eip]) (''    EIP: 0x'' @ hex8 True eip @ newline)"
      by (rule say_prints [OF render_hex(1) _ _ assms(2)]) (use number_lengths(2) [of True eip] number_plain(2) [of True eip] in auto)
    show "prints dev (\<lambda>d. if int_num = 14 then say m junk dev (''    CR2: 0x%08X'' @ newline) [cr2] d else Some d)
        (if int_num = 14 then ''    CR2: 0x'' @ hex8 True cr2 @ newline else [])"
    proof (cases "int_num = 14")
      case True
      have "prints dev (say m junk dev (''    CR2: 0x%08X'' @ newline) [cr2]) (''    CR2: 0x'' @ hex8 True cr2 @ newline)"
        by (rule say_prints [OF render_hex(2) _ _ assms(2)]) (use number_lengths(2) [of True cr2] number_plain(2) [of True cr2] in auto)
      then show ?thesis using True by simp
    qed (simp add: prints_def logged_nil)
  qed
  then show ?thesis using assms(1) n c(2)
    by (simp add: prints_def exception_report_def exception_text_def e_def)
qed


text \<open>The dump of the heap counts its blocks and adds up the bytes in use and the free bytes.\<close>

theorem heap_report_logs:
  assumes "log_ready dev d" and "length junk = 256" and "heap_inv s L"
  shows "\<exists>d'. heap_report m junk dev s d = Some d' \<and> log_ready dev d' \<and>
    logged (map of_char (''blocos='' @ decimal (of_nat (length L)) @ '' usado='' @ decimal (of_nat (used_bytes L)) @
      '' b livre='' @ decimal (of_nat (free_bytes L)) @ '' b'' @ newline)) d d'"
proof -
  obtain M n where r: "heap_rep n s M L" "heap_start s = of_nat heap_base" by (rule heap_invE [OF assms(3)])
  then have ne: "L \<noteq> []" by (simp add: heap_rep_def)
  have t: "heap_print s = Some (Some (of_nat (length L), of_nat (used_bytes L), of_nat (free_bytes L)))"
    using heap_totals_ok [of n s M "[]" L 0 0 0] r ne by (simp add: heap_print_def)
  have "render m (''blocos=%u usado=%u b livre=%u b'' @ newline) [x, y, z] =
      Some (''blocos='' @ decimal x @ '' usado='' @ decimal y @ '' b livre='' @ decimal z @ '' b'' @ newline)" for x y z
    using number_lengths(1) [of x] number_lengths(1) [of y] number_lengths(1) [of z]
    by (simp add: format_eval(1-10) decimal_def Let_def)
  then have "prints dev (say m junk dev (''blocos=%u usado=%u b livre=%u b'' @ newline) [x, y, z])
      (''blocos='' @ decimal x @ '' usado='' @ decimal y @ '' b livre='' @ decimal z @ '' b'' @ newline)" for x y z
    using number_lengths(1) [of x] number_lengths(1) [of y] number_lengths(1) [of z] number_plain(1)
    by (intro say_prints assms(2)) auto
  then show ?thesis using assms(1) unfolding prints_def heap_report_def t by simp
qed

end
