(* ===== verification/Sleep_Props.thy ===== *)
theory Sleep_Props
  imports Sched_Props User_Calls
begin

text \<open>
  How long a thread sleeps: \<open>sys_sleep\<close> of \<^verbatim>\<open>arch/i686/syscall.c\<close>, \<open>sched_thread_sleep\<close> of \<^verbatim>\<open>thread.c\<close> and
  the timer of \<^verbatim>\<open>sched.c\<close> together.
\<close>

section \<open>What the scheduler leaves to a sleeper\<close>

text \<open>\<open>schedule\<close> changes no queue but the ready one, wakes nobody and counts no tick.\<close>

definition same_sleep :: "kernel \<Rightarrow> (qref \<Rightarrow> tref list) \<Rightarrow> kernel \<Rightarrow> (qref \<Rightarrow> tref list) \<Rightarrow> bool" where
  "same_sleep s Q s' Q' \<longleftrightarrow> Q' Sleep = Q Sleep \<and> ticks s' = ticks s \<and>
     (\<forall>t. t_wake_tick (threads s' t) = t_wake_tick (threads s t))"

lemma schedule_same_sleep:
  assumes inv: "sched_inv X s Q"
  obtains r s' Q' where "schedule ctx s = Some (r, s')" "sched_inv X s' Q'" "same_sleep s Q s' Q'"
proof -
  obtain c where c: "current_thread s = Some c" using inv by (auto simp: sched_inv_def)
  have o: "sched_ok X (threads s) (procs s) c Q" using inv c by (auto simp: sched_inv_def)
  have off: "offered (threads s) c Q Sleep = Q Sleep" by (rule offered_other [OF o]) simp
  show thesis
  proof (rule schedule_ok [OF inv c, of ctx])
    assume "schedule ctx s = Some (Returned, s)"
    then show thesis using inv by (rule that) (simp add: same_sleep_def)
  next
    fix n xs qs
    let ?s = "s\<lparr>threads := saved ctx c (threads s), queues := qs\<rparr>"
    assume "schedule ctx s = Some (Returned, ?s)" "sched_inv X ?s ((offered (threads s) c Q)(Ready := xs))"
    then show thesis by (rule that) (simp add: same_sleep_def off)
  next
    fix n xs qs
    let ?s = "s\<lparr>threads := saved ctx c (threads s), queues := qs\<rparr>"
    assume sw: "schedule ctx s = Some (run_thread n ?s)"
      "sched_inv X (snd (run_thread n ?s)) ((offered (threads s) c Q)(Ready := xs))"
    have "schedule ctx s = Some (fst (run_thread n ?s), snd (run_thread n ?s))" unfolding sw(1) prod.collapse ..
    then show thesis using sw(2) by (rule that) (simp add: same_sleep_def off run_thread_def Let_def)
  qed
qed

text \<open>A timer interrupt ends the sleep of a thread exactly when its tick has come.\<close>

lemma timer_sleeper:
  assumes inv: "sched_inv X s Q" and t: "t \<in> set (Q Sleep)"
  obtains r s' Q' where "timer_handler ctx s = Some (r, s')" "sched_inv X s' Q'" "ticks s' = ticks s + 1"
    "t_wake_tick (threads s' t) = t_wake_tick (threads s t)"
    "t \<in> set (Q' Sleep) \<longleftrightarrow> \<not> t_wake_tick (threads s t) \<le> ticks s + 1"
proof (rule timer_handler_ok [OF inv, of ctx])
  fix qs
  let ?s = "s\<lparr>ticks := ticks s + 1, ports := pic_send_eoi 0 (ports s), queues := qs,
    threads := woken {t \<in> set (Q Sleep). t_wake_tick (threads s t) \<le> ticks s + 1} (threads s)\<rparr>"
  assume h: "timer_handler ctx s = schedule ctx ?s"
    and i: "sched_inv X ?s (Q(Sleep := filter (\<lambda>t. \<not> t_wake_tick (threads s t) \<le> ticks s + 1) (Q Sleep),
        Ready := Q Ready @ filter (\<lambda>t. t_wake_tick (threads s t) \<le> ticks s + 1) (Q Sleep)))"
  show thesis
  proof (rule schedule_same_sleep [OF i, of ctx])
    fix r s' Q'
    assume o: "schedule ctx ?s = Some (r, s')" "sched_inv X s' Q'" and "same_sleep ?s (Q(Sleep := filter (\<lambda>t. \<not> t_wake_tick (threads s t) \<le> ticks s + 1) (Q Sleep),
        Ready := Q Ready @ filter (\<lambda>t. t_wake_tick (threads s t) \<le> ticks s + 1) (Q Sleep))) s' Q'"
    then have k: "Q' Sleep = filter (\<lambda>t. \<not> t_wake_tick (threads s t) \<le> ticks s + 1) (Q Sleep)" "ticks s' = ticks s + 1"
      "t_wake_tick (threads s' t) = t_wake_tick (threads s t)"
      unfolding same_sleep_def by (simp_all add: woken_def del: split_paired_All)
    show thesis by (rule that [OF _ o(2) k(2,3)]) (use t in \<open>simp_all add: h o(1) k(1)\<close>)
  qed
qed

text \<open>A run of timer interrupts.\<close>

lemma timer_run_sleeper:
  assumes "sched_inv X s Q" and "t \<in> set (Q Sleep)" and "unat (ticks s) + length as \<le> unat (t_wake_tick (threads s t))"
    and "as \<noteq> []"
  shows "\<exists>s' Q'. timer_run as s = Some s' \<and> sched_inv X s' Q' \<and>
    (t \<in> set (Q' Sleep) \<longleftrightarrow> unat (ticks s) + length as < unat (t_wake_tick (threads s t)))"
  using assms
proof (induction as arbitrary: s Q)
  case (Cons a as)
  let ?w = "t_wake_tick (threads s t)"
  have "unat (ticks s) + 1 < 2 ^ 32" using Cons.prems(3) unat_lt [of ?w] by simp
  then have tick: "unat (ticks s + 1) = unat (ticks s) + 1" by (subst unat_add_nowrap) simp_all
  obtain r s1 Q1 where s1: "timer_handler a s = Some (r, s1)" "sched_inv X s1 Q1" "ticks s1 = ticks s + 1"
    "t_wake_tick (threads s1 t) = ?w" "t \<in> set (Q1 Sleep) \<longleftrightarrow> \<not> ?w \<le> ticks s + 1"
    by (rule timer_sleeper [OF Cons.prems(1,2), of a])
  show ?case
  proof (cases "as = []")
    case True
    then show ?thesis using s1 tick by (auto simp: word_le_nat_alt not_le)
  next
    case False
    then have "\<not> ?w \<le> ticks s + 1" using Cons.prems(3) tick by (cases as) (auto simp: word_le_nat_alt)
    then have "t \<in> set (Q1 Sleep)" using s1(5) by blast
    from Cons.IH [OF s1(2) this _ False] show ?thesis using s1 tick Cons.prems(3) by simp
  qed
qed simp


section \<open>How long a thread sleeps\<close>

text \<open>The whole ticks in the milliseconds of a call.\<close>

definition sleep_ticks :: "u32 \<Rightarrow> kernel \<Rightarrow> u32" where
  "sleep_ticks ctx s = c_ebx (contexts s ctx) div ms_per_tick s"

lemma sleep_starts:
  assumes inv: "sched_inv X s Q" and c: "current_thread s = Some c" "c \<noteq> idle" and w: "\<not> w \<le> ticks s"
  obtains r s' Q' where "sched_thread_sleep ctx w s = Some (r, s')" "sched_inv X s' Q'" "c \<in> set (Q' Sleep)"
    "ticks s' = ticks s" "t_wake_tick (threads s' c) = w"
proof -
  note cur = sched_inv_current [OF inv c(1)]
  let ?s = "disable_interrupts s"
  let ?s1 = "?s\<lparr>threads := (threads s)(c := (threads s c)\<lparr>t_wake_tick := w\<rparr>)\<rparr>"
  have st: "set_thread c (\<lambda>th. th\<lparr>t_wake_tick := w\<rparr>) ?s = Some ?s1" using cur(1) by (simp add: set_thread_ok)
  have i1: "sched_inv X ?s1 Q" using sched_inv_threads [of X ?s Q "\<lambda>th. th\<lparr>t_wake_tick := w\<rparr>" c] inv by simp
  have tok: "thread_ok (threads ?s1) (procs ?s1) c" using cur(1) by (simp add: thread_ok_def)
  have mh: "may_hold Sleep THREAD_SLEEPING c" by (simp add: may_hold_def)
  obtain qs where q: "enqueue Sleep THREAD_SLEEPING (Some c) ?s1 =
      Some (?s1\<lparr>queues := qs, threads := (threads ?s1)(c := (threads ?s1 c)\<lparr>t_state := THREAD_SLEEPING\<rparr>)\<rparr>)"
    "sched_inv (X - {c}) (?s1\<lparr>queues := qs, threads := (threads ?s1)(c := (threads ?s1 c)\<lparr>t_state := THREAD_SLEEPING\<rparr>)\<rparr>)
      (moved Sleep c Q)"
    by (rule enqueue_ok [OF i1 tok c(2) mh])
  let ?s2 = "?s1\<lparr>queues := qs, threads := (threads ?s1)(c := (threads ?s1 c)\<lparr>t_state := THREAD_SLEEPING\<rparr>)\<rparr>"
  have i2: "sched_inv X ?s2 (moved Sleep c Q)" by (rule sched_inv_mono [OF q(2)]) auto
  obtain r s3 Q3 where s3: "schedule ctx ?s2 = Some (r, s3)" "sched_inv X s3 Q3" "same_sleep ?s2 (moved Sleep c Q) s3 Q3"
    by (rule schedule_same_sleep [OF i2])
  have k: "c \<in> set (Q3 Sleep)" "ticks s3 = ticks s" "t_wake_tick (threads s3 c) = w"
    using s3(3) unfolding same_sleep_def by (simp_all add: set_moved disable_interrupts_def del: split_paired_All)
  have e: "sched_thread_sleep ctx w s = Some (r, if r = Returned then write_flags (cpu_flags s) s3 else s3)"
    using c w st q(1) s3(1) by (simp add: sched_thread_sleep_def sched_get_ticks_def sched_sleep_def Let_def)
  have i: "sched_inv X (if r = Returned then write_flags (cpu_flags s) s3 else s3) Q3" using s3(2) by simp
  show thesis by (rule that [OF e i k(1)]) (use k in \<open>simp_all add: write_flags_def\<close>)
qed

text \<open>
  C20. How long \<open>sys_sleep\<close> sleeps.  A thread other than the idle one that asks for some milliseconds is in
  the sleep queue until the timer has ticked once for every whole tick in them, and not an interrupt
  longer.  It does not sleep at all, and the call changes nothing, when the time is shorter than a tick
  or when the counter of ticks would wrap around before it is over.
\<close>

theorem sleep_lasts_whole_ticks:
  assumes "sched_inv {} s Q" and "current_thread s = Some c" and "c \<noteq> idle" and "ms_per_tick s \<noteq> 0"
  shows "if sleep_ticks ctx s = 0 \<or> 2 ^ 32 \<le> unat (ticks s) + unat (sleep_ticks ctx s)
    then sys_sleep_impl ctx s = Some (Inl 0, s)
    else \<exists>r s'. sys_sleep_impl ctx s = Some (r, s') \<and>
      (\<forall>as. length as \<le> unat (sleep_ticks ctx s) \<longrightarrow>
         (\<exists>s2 Q2. timer_run as s' = Some s2 \<and> sched_inv {} s2 Q2 \<and>
            (c \<in> set (Q2 Sleep) \<longleftrightarrow> length as < unat (sleep_ticks ctx s))))"
proof -
  define n where "n = sleep_ticks ctx s"
  have e: "sys_sleep_impl ctx s = do {
      (ctl, s) \<leftarrow> sched_thread_sleep ctx (ticks s + n) s;
      Some (if ctl = Returned then Inl 0 else Inr ctl, s) }"
    using assms(4) by (simp add: sys_sleep_impl_def sched_get_ticks_def sched_get_ms_per_tick_def n_def sleep_ticks_def)
  show ?thesis
  proof (cases "n = 0 \<or> 2 ^ 32 \<le> unat (ticks s) + unat n")
    case True
    have "ticks s + n \<le> ticks s"
    proof (cases "n = 0")
      case False
      then have b: "2 ^ 32 \<le> unat (ticks s) + unat n" "unat (ticks s) < 2 ^ 32" "unat n < 2 ^ 32"
        using True unat_lt [of n] unat_lt [of "ticks s"] by simp_all
      have "unat (ticks s + n) = (unat (ticks s) + unat n) mod 2 ^ 32" by (simp add: unat_word_ariths(1))
      also have "\<dots> = unat (ticks s) + unat n - 2 ^ 32" using b by (simp add: le_mod_geq)
      finally show ?thesis using b by (simp add: word_le_nat_alt)
    qed simp
    then have "sched_thread_sleep ctx (ticks s + n) s = Some (Returned, s)"
      using assms(2) by (simp add: sched_thread_sleep_def sched_get_ticks_def)
    then show ?thesis using True by (simp add: e n_def [symmetric])
  next
    case False
    then have w: "unat (ticks s + n) = unat (ticks s) + unat n" by (subst unat_add_nowrap) simp_all
    have "0 < unat n" using False by (simp add: unat_gt_0)
    then have nw: "\<not> ticks s + n \<le> ticks s" using w by (simp add: word_le_nat_alt)
    obtain r s' Q' where s': "sched_thread_sleep ctx (ticks s + n) s = Some (r, s')" "sched_inv {} s' Q'"
      "c \<in> set (Q' Sleep)" "ticks s' = ticks s" "t_wake_tick (threads s' c) = ticks s + n"
      by (rule sleep_starts [OF assms(1-3) nw])
    have "\<exists>s2 Q2. timer_run as s' = Some s2 \<and> sched_inv {} s2 Q2 \<and> (c \<in> set (Q2 Sleep) \<longleftrightarrow> length as < unat n)"
      if as: "length as \<le> unat n" for as
    proof (cases "as = []")
      case True
      then show ?thesis using s'(2,3) \<open>0 < unat n\<close> by auto
    next
      case False
      then show ?thesis using timer_run_sleeper [OF s'(2,3), of as] as by (simp add: s'(4,5) w)
    qed
    then show ?thesis using False s'(1) by (simp add: e n_def [symmetric])
  qed
qed


text \<open>25 milliseconds at 10 milliseconds a tick: two interrupts.\<close>

definition sleeper :: kernel where
  "sleeper = with_context 0xE0001F00 (sys_sleep 25 demo_context) (demo (user, 0) PROCESS_NORMAL [(idle, Ready)])"

lemma sleeper_facts:
  "sched_inv {} sleeper (members [(idle, Ready)])" "current_thread sleeper = Some (user, 0)" "ms_per_tick sleeper = 10"
  "sleep_ticks 0xE0001F00 sleeper = 2" "ticks sleeper = 6"
proof -
  have wf: "demo_wf (user, 0) [(idle, Ready)]" by (simp add: demo_wf_def)
  show "sched_inv {} sleeper (members [(idle, Ready)])" using demo_inv [OF wf] by (simp add: sleeper_def with_context_def)
  show "ms_per_tick sleeper = 10" by (simp add: sleeper_def demo_def heap_state.extend_def boot_machine_def)
  then show "sleep_ticks 0xE0001F00 sleeper = 2" by (simp add: sleep_ticks_def) (simp add: sleeper_def)
qed (simp_all add: sleeper_def with_context_def)

theorem sleep_lasts_whole_ticks_witness:
  "\<exists>r s'. sys_sleep_impl 0xE0001F00 sleeper = Some (r, s') \<and>
     (\<exists>s2 Q2. timer_run [0xE0001E00] s' = Some s2 \<and> sched_inv {} s2 Q2 \<and> (user, 0) \<in> set (Q2 Sleep)) \<and>
     (\<exists>s2 Q2. timer_run [0xE0001E00, 0xE0001E00] s' = Some s2 \<and> sched_inv {} s2 Q2 \<and> (user, 0) \<notin> set (Q2 Sleep))"
proof -
  note f = sleeper_facts
  have c: "(user, 0) \<noteq> idle" "ms_per_tick sleeper \<noteq> 0" by (simp_all add: f)
  obtain r s' where s': "sys_sleep_impl 0xE0001F00 sleeper = Some (r, s')"
    "\<forall>as. length as \<le> 2 \<longrightarrow> (\<exists>s2 Q2. timer_run as s' = Some s2 \<and> sched_inv {} s2 Q2 \<and>
       ((user, 0) \<in> set (Q2 Sleep) \<longleftrightarrow> length as < 2))"
    using sleep_lasts_whole_ticks [OF f(1,2) c, of "0xE0001F00"] by (auto simp: f)
  show ?thesis using s'(1) s'(2) [rule_format, of "[0xE0001E00]"] s'(2) [rule_format, of "[0xE0001E00, 0xE0001E00]"]
    by (intro exI [of _ r] exI [of _ s']) auto
qed

end
