(* ===== verification/Kmain_Threads.thy ===== *)
theory Kmain_Threads
  imports Thread_Create User_Calls Reports
begin

text \<open>
  What \<^verbatim>\<open>kmain\<close> does once interrupts are enabled: it starts two threads by system calls.  Interrupts may come before,
  between and after the two calls, so the property is about one call in any reachable state.
\<close>

section \<open>A system call that starts a thread\<close>

text \<open>A thread that is new is in no queue.\<close>

lemma free_slot_unqueued:
  assumes inv: "sched_inv X s Q" and idx: "thread_slot p s = Some idx"
  shows "(p, idx) \<notin> set (Q q)" "(p, idx) \<noteq> idle"
proof -
  obtain c where "sched_ok X (threads s) (procs s) c Q" using inv by (auto simp: sched_inv_def)
  note o = sched_okD [OF this]
  have "\<not> thread_ok (threads s) (procs s) (p, idx)" using thread_slot_free(2) [OF idx] by (simp add: thread_ok_def)
  then show "(p, idx) \<notin> set (Q q)" "(p, idx) \<noteq> idle" using o by blast+
qed


definition ready_thread :: "u32 \<Rightarrow> thread" where
  "ready_thread stack0 = (kernel_thread stack0)\<lparr>t_state := THREAD_READY\<rparr>"

lemma nthread_of_kernel:
  assumes heap: "heap_inv s (L1 @ (m, False) # L2)" "no_sliver 4096 (L1 @ (m, False) # L2)"
    and fit: "4096 \<le> m" "\<forall>x \<in> set L1. snd x \<or> fst x < 4096"
    and inv: "sched_inv {} s Q" and cur: "current_thread s = Some t" "fst t = Idle"
    and pr: "procs s Idle = Some pr" "p_num_threads pr < 8" and idx: "thread_slot Idle s = Some idx"
    and func: "c_ebx (contexts s ctx) \<noteq> 0"
  shows "\<exists>s'. sys_nthread_impl ctx s = Some (Inl 0, s') \<and>
    (let stack0 = of_nat (heap_base + extent L1 + 16)
     in heap_inv s' (L1 @ split_blk 4096 m True @ L2) \<and> sched_inv {} s' (Q(Ready := Q Ready @ [(Idle, idx)])) \<and>
        threads s' = (threads s)((Idle, idx) := ready_thread stack0) \<and>
        procs s' = (procs s)(Idle \<mapsto> pr\<lparr>p_num_threads := p_num_threads pr + 1\<rparr>) \<and>
        contexts s' = (contexts s)(stack0 + 0x1000 - 72 := first_context Idle (c_ebx (contexts s ctx)) (user_sp idx)) \<and>
        current_thread s' = current_thread s \<and> cpu_flags s' = cpu_flags s \<and> kidt s' = kidt s \<and> receiving s' = receiving s)"
proof -
  let ?t = "(Idle, idx)"
  define loc where "loc = c_ebx (contexts s ctx)"
  define stack0 where "stack0 = (of_nat (heap_base + extent L1 + 16) :: u32)"
  note free = free_slot_unqueued [OF inv idx]
  obtain s1 where s1: "sched_create_thread loc (Some Idle) s = Some (Some ?t, s1)"
    "heap_inv s1 (L1 @ split_blk 4096 m True @ L2)" "threads s1 = (threads s)(?t := kernel_thread stack0)"
    "procs s1 = (procs s)(Idle \<mapsto> pr\<lparr>p_num_threads := p_num_threads pr + 1\<rparr>)"
    "contexts s1 = (contexts s)(stack0 + 0x1000 - 72 := first_context Idle loc (user_sp idx))"
    "current_thread s1 = current_thread s" "cpu_flags s1 = cpu_flags s" "kidt s1 = kidt s" "receiving s1 = receiving s"
    using kernel_thread_created [OF heap fit pr idx func] by (auto simp: stack0_def loc_def Let_def)
  have i1: "sched_inv {?t} s1 Q" and ok: "thread_ok (threads s1) (procs s1) ?t"
    using sched_create_thread_inv [OF inv s1(1)] by simp_all
  obtain qs where q: "enqueue Ready THREAD_READY (Some ?t) s1 =
      Some (s1\<lparr>queues := qs, threads := (threads s1)(?t := (threads s1 ?t)\<lparr>t_state := THREAD_READY\<rparr>)\<rparr>)"
    "sched_inv ({?t} - {?t}) (s1\<lparr>queues := qs, threads := (threads s1)(?t := (threads s1 ?t)\<lparr>t_state := THREAD_READY\<rparr>)\<rparr>)
      (moved Ready ?t Q)"
    by (rule enqueue_ok [OF i1 ok free(2), of Ready THREAD_READY]) (simp_all add: may_hold_def)
  define s' where "s' = s1\<lparr>queues := qs, threads := (threads s1)(?t := (threads s1 ?t)\<lparr>t_state := THREAD_READY\<rparr>)\<rparr>"
  have "moved Ready ?t Q = Q(Ready := Q Ready @ [?t])" using free(1) by (simp add: moved_def fun_eq_iff)
  then have "sched_inv {} s' (Q(Ready := Q Ready @ [?t]))" using q(2) by (simp add: s'_def)
  moreover have "t_process (threads s t) = Some Idle" using sched_inv_current [OF inv cur(1)] cur(2) by (simp add: thread_ok_def)
  then have "sys_nthread_impl ctx s = Some (Inl 0, s')"
    using cur sched_inv_current [OF inv cur(1)] thread_at_ok [of s t] s1(1) q(1)
    by (simp add: sys_nthread_impl_def sched_get_current_process_def sched_ready_def s'_def loc_def thread_ok_def)
  ultimately show ?thesis using s1
    by (intro exI [of _ s']) (simp add: s'_def stack0_def loc_def ready_thread_def Let_def)
qed


text \<open>What a call of \<open>sys_nthread\<close> by a thread of the kernel makes of it.\<close>

definition thread_started :: "u32 \<Rightarrow> interrupt_context \<Rightarrow> u32 \<Rightarrow> nat \<Rightarrow> u32 \<Rightarrow> kernel \<Rightarrow> kernel \<Rightarrow> bool" where
  "thread_started ctx c func idx stack0 s s' \<longleftrightarrow>
     threads s' = (threads s)((Idle, idx) := ready_thread stack0) \<and>
     procs s' = (procs s)(Idle := map_option (\<lambda>pr. pr\<lparr>p_num_threads := p_num_threads pr + 1\<rparr>) (procs s Idle)) \<and>
     contexts s' = (contexts s)(stack0 + 0x1000 - 72 := first_context Idle func (user_sp idx),
       ctx := (sys_nthread func c)\<lparr>c_eflags := cpu_flags s, c_eax := 0\<rparr>) \<and>
     current_thread s' = current_thread s \<and> cpu_flags s' = cpu_flags s \<and> kidt s' = kidt s \<and> receiving s' = receiving s"

lemma kernel_nthread_call:
  assumes heap: "heap_inv s (L1 @ (m, False) # L2)" "no_sliver 4096 (L1 @ (m, False) # L2)"
    and fit: "4096 \<le> m" "\<forall>x \<in> set L1. snd x \<or> fst x < 4096"
    and inv: "sched_inv {} s Q" and cur: "current_thread s = Some t" "fst t = Idle"
    and pr: "procs s Idle = Some pr" "p_num_threads pr < 8" and idx: "thread_slot Idle s = Some idx"
    and func: "func \<noteq> 0" and ctx: "ctx \<noteq> stk + 0x1000 - 72" "stk = of_nat (heap_base + extent L1 + 16)"
    and idt: "handlers (kidt s) ! 0x80 = Some Syscall_Handler"
  shows "\<exists>s'. interrupt junk frame ctx (sys_nthread func c) s =
      Some (Restored ((sys_nthread func c)\<lparr>c_eflags := cpu_flags s, c_eax := 0\<rparr>), s') \<and>
    thread_started ctx c func idx stk s s' \<and> heap_inv s' (L1 @ split_blk 4096 m True @ L2) \<and>
    sched_inv {} s' (Q(Ready := Q Ready @ [(Idle, idx)]))"
proof -
  define s1 where "s1 = enter_interrupt ctx (sys_nthread func c) s"
  have k: "contexts s1 = (contexts s)(ctx := (sys_nthread func c)\<lparr>c_eflags := cpu_flags s\<rparr>)" "kidt s1 = kidt s"
    "current_thread s1 = current_thread s" "procs s1 = procs s" "threads s1 = threads s" "receiving s1 = receiving s"
    by (simp_all add: s1_def enter_interrupt_def push_context_def disable_interrupts_def write_flags_def Let_def)
  have h1: "heap_inv s1 (L1 @ (m, False) # L2)"
    using heap(1) heap_inv_agree [of s1 s "L1 @ (m, False) # L2"]
    by (simp add: s1_def enter_interrupt_def push_context_def disable_interrupts_def write_flags_def Let_def)
  have i1: "sched_inv {} s1 Q" using inv by (simp add: s1_def enter_interrupt_def Let_def)
  have slot: "thread_slot Idle s1 = Some idx" using idx by (simp add: thread_slot_def k)
  have r: "c_ebx (contexts s1 ctx) = func" "c_eax (contexts s1 ctx) = 4" "c_int_num (contexts s1 ctx) = 0x80"
    "c_eflags (contexts s1 ctx) = cpu_flags s"
    by (simp_all add: k wrapper_defs)
  obtain s2 where s2: "sys_nthread_impl ctx s1 = Some (Inl 0, s2)" "heap_inv s2 (L1 @ split_blk 4096 m True @ L2)"
    "sched_inv {} s2 (Q(Ready := Q Ready @ [(Idle, idx)]))" "threads s2 = (threads s)((Idle, idx) := ready_thread stk)"
    "procs s2 = (procs s)(Idle \<mapsto> pr\<lparr>p_num_threads := p_num_threads pr + 1\<rparr>)"
    "contexts s2 = (contexts s1)(stk + 0x1000 - 72 := first_context Idle func (user_sp idx))"
    "current_thread s2 = current_thread s" "kidt s2 = kidt s" "receiving s2 = receiving s"
    using nthread_of_kernel [OF h1 heap(2) fit i1 _ cur(2) _ pr(2) slot, of ctx] cur(1) pr(1) func
    by (auto simp: k r ctx(2) Let_def)
  let ?c = "(sys_nthread func c)\<lparr>c_eflags := cpu_flags s, c_eax := 0\<rparr>"
  define s' where "s' = snd (restore_context ctx (set_eax ctx 0 s2))"
  have c2: "contexts s2 ctx = (sys_nthread func c)\<lparr>c_eflags := cpu_flags s\<rparr>" using ctx(1) by (simp add: s2(6) k(1))
  have rc: "restore_context ctx (set_eax ctx 0 s2) = (Restored ?c, s')"
    by (simp add: s'_def restore_context_def set_eax_def c2)
  have "interrupt_handler (contexts s1 ctx) (kidt s1) = Some Syscall_Handler"
    using idt by (simp add: interrupt_handler_def r k(2))
  moreover have "syscall_handler junk frame ctx s1 = Some (Returned, set_eax ctx 0 s2)"
    by (simp add: syscall_handler_def run_syscall_def r s2(1) Let_def)
  ultimately have "interrupt junk frame ctx (sys_nthread func c) s = Some (Restored ?c, s')"
    by (simp add: interrupt_def s1_def [symmetric] Let_def run_handler_def rc)
  moreover have "thread_started ctx c func idx stk s s'"
    using ctx(1) pr(1) s2(4,5,7-9)
    by (simp add: thread_started_def s'_def restore_context_def set_eax_def c2 s2(6) k(1) fun_upd_twist)
  moreover have "heap_inv s' L = heap_inv s2 L" for L
    by (rule heap_inv_agree) (simp_all add: s'_def restore_context_def set_eax_def)
  moreover have "sched_inv {} s' Q' = sched_inv {} s2 Q'" for Q'
    by (simp add: s'_def restore_context_def set_eax_def sched_inv_def)
  ultimately show ?thesis using s2(2,3) by simp
qed


section \<open>The state that kmain leaves\<close>

lemma booted:
  assumes "boot_kernel k" and "sched_init dev 100 k = Some (0, k')" and "heap_inv k L"
  obtains pr where "procs (running k') = [Idle \<mapsto> pr]" "p_num_threads pr = 1"
    "threads (running k') = (\<lambda>_. zero_thread)(idle := zero_thread\<lparr>t_process := Some Idle\<rparr>)"
    "current_thread (running k') = Some idle" "receiving (running k') = (\<lambda>_. None)" "heap_inv (running k') L"
    "sched_inv {} (running k') (\<lambda>_. [])"
proof -
  note b = assms(1) [unfolded boot_kernel_def]
  have more: "procs (running k') = procs k'" "threads (running k') = threads k'" "current_thread (running k') = current_thread k'"
    "receiving (running k') = receiving k'" "heap_inv (running k') L = heap_inv k' L"
    "sched_inv X (running k') Q = sched_inv X k' Q" for X Q
    by (simp_all add: running_def syscall_init_def with_idt_def write_flags_def Let_def sched_inv_def)
      (rule heap_inv_agree; simp)
  define pr where "pr = the (procs k' Idle)"
  have p: "procs k' = [Idle \<mapsto> pr]" "p_num_threads pr = 1"
    "threads k' = (\<lambda>_. zero_thread)(idle := zero_thread\<lparr>t_process := Some Idle\<rparr>)"
    "current_thread k' = Some idle" "receiving k' = (\<lambda>_. None)"
    using assms(2) b
    by (auto simp: sched_init_def with_idt_def Let_def set_process_def set_thread_def thread_at_def bind_eq_Some_conv pr_def
        zero_process_def)
  have "heap_inv k' L = heap_inv k L"
    using assms(2) b
    by (intro heap_inv_agree) (auto simp: sched_init_def with_idt_def Let_def set_process_def set_thread_def thread_at_def
        bind_eq_Some_conv)
  moreover have "sched_inv {} k' (\<lambda>_. [])" by (rule sched_init_ok [OF assms(1), of dev 100]) (use assms(2) in simp)
  ultimately show thesis using that [of pr] p assms(3) unfolding more by blast
qed


section \<open>Starting a thread of the kernel\<close>

text \<open>The system call is a step of the kernel.\<close>

lemma kernel_call_step:
  assumes "reachable dev s" and "current_thread s = Some t" and "receiving s t = None" and "length junk = 64"
    and "c_cs c AND 3 \<noteq> 3" and "interrupt junk frame ctx (sys_nthread f c) s = Some (ctl, s')"
  shows "reachable dev s'"
proof (rule reachable.step [OF assms(1)], rule kernel_step.interrupt_step [OF assms(2,3) _ _ assms(4,6)])
  show "irq_allowed (sys_nthread f c) s" by (simp add: irq_allowed_def wrapper_defs)
  show "admissible ctx (sys_nthread f c) s" using assms(2,5) by (simp add: admissible_def wrapper_defs)
qed

lemma kernel_thread_steps:
  assumes reach: "reachable dev s" and recv: "receiving s t = None" and ring: "c_cs c AND 3 \<noteq> 3" "length junk = 64"
    and heap: "heap_inv s (L1 @ (m, False) # L2)" "no_sliver 4096 (L1 @ (m, False) # L2)"
    and fit: "4096 \<le> m" "\<forall>x \<in> set L1. snd x \<or> fst x < 4096"
    and inv: "sched_inv {} s Q" and cur: "current_thread s = Some t" "fst t = Idle"
    and pr: "procs s Idle = Some pr" "p_num_threads pr < 8" and idx: "thread_slot Idle s = Some idx"
    and func: "func \<noteq> 0" and ctx: "ctx \<noteq> stk + 0x1000 - 72" "stk = of_nat (heap_base + extent L1 + 16)"
    and idt: "handlers (kidt s) ! 0x80 = Some Syscall_Handler"
  shows "\<exists>s'. interrupt junk frame ctx (sys_nthread func c) s =
      Some (Restored ((sys_nthread func c)\<lparr>c_eflags := cpu_flags s, c_eax := 0\<rparr>), s') \<and>
    reachable dev s' \<and> thread_started ctx c func idx stk s s' \<and> heap_inv s' (L1 @ split_blk 4096 m True @ L2) \<and>
    sched_inv {} s' (Q(Ready := Q Ready @ [(Idle, idx)]))"
  using kernel_nthread_call [OF heap fit inv cur pr idx func ctx idt, of junk frame c]
    kernel_call_step [OF reach cur(1) recv ring(2,1)] by blast

lemma slot_after:
  assumes "threads s = T" and "idx < 8" and "t_process (T (p, idx)) = None"
    and "\<And>j. j < idx \<Longrightarrow> t_process (T (p, j)) \<noteq> None"
  shows "thread_slot p s = Some idx"
proof -
  have "\<exists>i < length [0 ..< 8]. t_process (T (p, [0 ..< 8] ! i)) = None \<and> idx = [0 ..< 8] ! i \<and>
      (\<forall>j < i. \<not> t_process (T (p, [0 ..< 8] ! j)) = None)"
    using assms(2-4) by (intro exI [of _ idx]) simp
  then show ?thesis unfolding thread_slot_def assms(1) find_Some_iff by blast
qed

lemma demo_machine_room: "heap_room (on_offer demo_info demo_machine) (m_kernel demo_machine)"
proof -
  have f: "fold scan_entry pc_entries (0, 0) = (0x400000, 0x39FC00)" by code_simp
  have k: "phys_top (m_kernel demo_machine) = 0" "usable_mem (m_kernel demo_machine) = 0" "b_entries demo_info = pc_entries"
    by (simp_all add: demo_machine_def demo_info_def)
  have e: "on_offer demo_info demo_machine = offered_pages demo_info 0x400000" by (simp add: on_offer_def k f)
  have "{512 ..< 560} \<subseteq> on_offer demo_info demo_machine"
    unfolding e
    by (auto simp: offered_pages_def demo_info_def kernel_page_def pc_entries_def offers_def)
  moreover have "finite (on_offer demo_info demo_machine)"
    unfolding e offered_pages_def by (rule finite_subset [of _ "{..< 1024}"]) auto
  ultimately have "card {512 ..< 560 :: nat} \<le> card (on_offer demo_info demo_machine)" by (rule card_mono [rotated])
  moreover have "\<not> present (pd (m_kernel demo_machine) 896)"
    by (simp add: present_def pd_def dir_def frame_of_def demo_machine_def demo_boot_def heap_state.extend_def boot_machine_def)
  ultimately show ?thesis by (simp add: heap_room_def)
qed

text \<open>The machine after the initialisation, with one thread started, and with two.\<close>

definition call_context :: interrupt_context where
  "call_context = first_context Idle 0xC0101000 0"

lemma call_context_ring: "c_cs call_context AND 3 \<noteq> 3"
  by (simp add: call_context_def first_context_def)

lemma one_started:
  obtains k pr where "reachable quiet_device k" "receiving k idle = None" "current_thread k = Some idle"
    "heap_inv k [(4096, True), (94176, False)]" "sched_inv {} k ((\<lambda>_. [])(Ready := [(Idle, 1)]))"
    "procs k = [Idle \<mapsto> pr]" "p_num_threads pr = 2" "thread_slot Idle k = Some 2"
    "handlers (kidt k) ! 0x80 = Some Syscall_Handler" "threads k (Idle, 1) = ready_thread 0xE0000010"
    "cpu_flags k AND 0x200 \<noteq> 0"
proof -
  obtain g log k0 k1 where m: "kmain (\<lambda>_. 0) (replicate 256 NUL) quiet_device demo_info demo_machine =
      Some (True, \<lparr>m_kernel = running k1, m_gdt = g, m_log = log\<rparr>)"
    "boot_kernel k0" "sched_init quiet_device 100 k0 = Some (0, k1)"
    "heap_room (on_offer demo_info demo_machine) (m_kernel demo_machine) \<longrightarrow> heap_inv k0 [(98288, False)]"
    "reachable quiet_device (running k1)" "cpu_flags (running k1) AND 0x200 \<noteq> 0" "final_handlers (running k1)"
    "log_ready quiet_device log"
    by (rule kmain_runs [OF demo_machine_ready])
  define k where "k = running k1"
  have h0: "heap_inv k0 [(98288, False)]" using m(4) demo_machine_room by simp
  obtain pr where p: "procs k = [Idle \<mapsto> pr]" "p_num_threads pr = 1"
    "threads k = (\<lambda>_. zero_thread)(idle := zero_thread\<lparr>t_process := Some Idle\<rparr>)"
    "current_thread k = Some idle" "receiving k = (\<lambda>_. None)" "heap_inv k [(98288, False)]" "sched_inv {} k (\<lambda>_. [])"
    using booted [OF m(2,3) h0] unfolding k_def by auto
  have rk: "reachable quiet_device k" "handlers (kidt k) ! 0x80 = Some Syscall_Handler" "cpu_flags k AND 0x200 \<noteq> 0"
    using m(5-7) by (simp_all add: final_handlers_def k_def)
  have sl: "thread_slot Idle k = Some 1" by (rule slot_after [OF p(3)]) (auto simp: zero_thread_def)
  have rc: "receiving k idle = None" by (simp add: p(5))
  have ns: "no_sliver 4096 ([] @ (98288, False) # [])" by (simp add: no_sliver_def Heap_Ops.fits_def)
  have hp: "heap_inv k ([] @ (98288, False) # [])" using p(6) by simp
  have pi: "procs k Idle = Some pr" "p_num_threads pr < 8" by (simp_all add: p(1,2))
  have run: "\<exists>s'. interrupt (replicate 64 0) (0, demo_context) 0xC011FF00 (sys_nthread 0xC0102000 call_context) k =
      Some (Restored ((sys_nthread 0xC0102000 call_context)\<lparr>c_eflags := cpu_flags k, c_eax := 0\<rparr>), s') \<and>
    reachable quiet_device s' \<and> thread_started 0xC011FF00 call_context 0xC0102000 1 0xE0000010 k s' \<and>
    heap_inv s' ([] @ split_blk 4096 98288 True @ []) \<and> sched_inv {} s' ((\<lambda>_. [])(Ready := (\<lambda>_. []) Ready @ [(Idle, 1)]))"
    by (rule kernel_thread_steps [OF rk(1) rc call_context_ring _ hp ns _ _ p(7,4) fst_conv pi sl]) (simp_all add: rk(2))
  obtain k2 where k2: "reachable quiet_device k2"
    "thread_started 0xC011FF00 call_context 0xC0102000 1 0xE0000010 k k2"
    "heap_inv k2 [(4096, True), (94176, False)]" "sched_inv {} k2 ((\<lambda>_. [])(Ready := [(Idle, 1)]))"
    using run by (elim exE conjE) (simp add: split_blk_def)
  note t2 = k2(2) [unfolded thread_started_def]
  have "thread_slot Idle k2 = Some 2"
    by (rule slot_after [OF t2 [THEN conjunct1]])
      (auto simp: p(3) zero_thread_def ready_thread_def kernel_thread_def less_Suc_eq numeral_2_eq_2)
  then show thesis
    by (intro that [of k2 "pr\<lparr>p_num_threads := 2\<rparr>"]) (use k2 t2 p rk in simp_all)
qed

lemma two_started:
  obtains k where "reachable quiet_device k" "sched_inv {} k ((\<lambda>_. [])(Ready := [(Idle, 1), (Idle, 2)]))"
    "heap_inv k [(4096, True), (4096, True), (90064, False)]" "dom (procs k) = {Idle}"
    "threads k (Idle, 1) = ready_thread 0xE0000010" "threads k (Idle, 2) = ready_thread 0xE0001020"
    "current_thread k = Some idle" "receiving k idle = None"
proof -
  obtain k pr where k: "reachable quiet_device k" "receiving k idle = None" "current_thread k = Some idle"
    "heap_inv k [(4096, True), (94176, False)]" "sched_inv {} k ((\<lambda>_. [])(Ready := [(Idle, 1)]))"
    "procs k = [Idle \<mapsto> pr]" "p_num_threads pr = 2" "thread_slot Idle k = Some 2"
    "handlers (kidt k) ! 0x80 = Some Syscall_Handler" "threads k (Idle, 1) = ready_thread 0xE0000010"
    by (rule one_started)
  have ns: "no_sliver 4096 ([(4096, True)] @ (94176, False) # [])" by (simp add: no_sliver_def Heap_Ops.fits_def)
  have hp: "heap_inv k ([(4096, True)] @ (94176, False) # [])" using k(4) by simp
  have pi: "procs k Idle = Some pr" "p_num_threads pr < 8" by (simp_all add: k(6,7))
  have run: "\<exists>s'. interrupt (replicate 64 0) (0, demo_context) 0xC011FF00 (sys_nthread 0xC0103000 call_context) k =
      Some (Restored ((sys_nthread 0xC0103000 call_context)\<lparr>c_eflags := cpu_flags k, c_eax := 0\<rparr>), s') \<and>
    reachable quiet_device s' \<and> thread_started 0xC011FF00 call_context 0xC0103000 2 0xE0001020 k s' \<and>
    heap_inv s' ([(4096, True)] @ split_blk 4096 94176 True @ []) \<and> sched_inv {} s' (((\<lambda>_. [])(Ready := [(Idle, 1)]))(Ready := ((\<lambda>_. [])(Ready := [(Idle, 1)])) Ready @ [(Idle, 2)]))"
    by (rule kernel_thread_steps [OF k(1,2) call_context_ring _ hp ns _ _ k(5,3) fst_conv pi k(8)]) (simp_all add: k(9))
  obtain k2 where k2: "reachable quiet_device k2"
    "thread_started 0xC011FF00 call_context 0xC0103000 2 0xE0001020 k k2"
    "heap_inv k2 [(4096, True), (4096, True), (90064, False)]" "sched_inv {} k2 ((\<lambda>_. [])(Ready := [(Idle, 1), (Idle, 2)]))"
    using run by (elim exE conjE) (simp add: split_blk_def)
  note t2 = k2(2) [unfolded thread_started_def]
  show thesis by (rule that [of k2]) (use k2 t2 k in auto)
qed



end
