(* ===== verification/Thread_Props.thy ===== *)
theory Thread_Props
  imports Thread_Law Kmain_Threads
begin

text \<open>
  The records of the threads in every reachable state, from the interface of \<open>Thread_Law\<close>: which fields
  a used and an unused slot has, and where the user stacks of a process lie.
\<close>

section \<open>A well-formed record\<close>

text \<open>The user stack of slot \<open>i\<close> of a process; threads of the idle process have none.\<close>

definition user_stack :: "tref \<Rightarrow> u32 \<times> u32" where
  "user_stack t = (if fst t = Idle then (0, 0) else (user_sp (snd t) - 16 * PAGE_SIZE, user_sp (snd t)))"

definition thread_typed :: "tref \<Rightarrow> thread \<Rightarrow> bool" where
  "thread_typed t th \<longleftrightarrow>
     (if t_process th = None then (t_stack th, t_sp th) = (0, 0) \<and> t_stack0 th = 0
      else t_process th = Some (fst t) \<and> snd t < 8 \<and> (t_stack th, t_sp th) = user_stack t \<and>
        (t_stack0 th = 0 \<longrightarrow> t = idle))"

interpretation typed: thread_law thread_typed
  by unfold_locales (auto simp: thread_typed_def user_stack_def zero_thread_def new_thread_state_def)

text \<open>Eight stacks of 64 KB below the kernel's half, with a page between two.\<close>

lemma user_sp_unat:
  assumes "i < 8"
  shows "unat (user_sp i) = 0xBFFFF000 - i * 0x11000" "unat (user_sp i - 16 * PAGE_SIZE) = 0xBFFEF000 - i * 0x11000"
proof -
  from assms have "i = 0 \<or> i = 1 \<or> i = 2 \<or> i = 3 \<or> i = 4 \<or> i = 5 \<or> i = 6 \<or> i = 7" by arith
  then show "unat (user_sp i) = 0xBFFFF000 - i * 0x11000" "unat (user_sp i - 16 * PAGE_SIZE) = 0xBFFEF000 - i * 0x11000"
    by (elim disjE; simp add: user_sp_def)+
qed

definition stacks_apart :: "thread \<Rightarrow> thread \<Rightarrow> bool" where
  "stacks_apart a b \<longleftrightarrow> unat (t_sp a) + 4096 \<le> unat (t_stack b) \<or> unat (t_sp b) + 4096 \<le> unat (t_stack a)"

lemma typed_stack:
  assumes "thread_typed t th" and "t_process th \<noteq> None" and "fst t \<noteq> Idle"
  shows "unat (t_sp th) = unat (t_stack th) + 65536" "0xBFF78000 \<le> unat (t_stack th)" "unat (t_sp th) \<le> 0xBFFFF000"
    "t_stack0 th \<noteq> 0" "snd t < 8" "unat (t_stack th) = 0xBFFEF000 - snd t * 0x11000"
proof -
  have t: "snd t < 8" "t_stack th = user_sp (snd t) - 16 * PAGE_SIZE" "t_sp th = user_sp (snd t)" "t_stack0 th \<noteq> 0"
    using assms by (auto simp: thread_typed_def user_stack_def)
  note u = user_sp_unat [OF t(1)]
  show "unat (t_stack th) = 0xBFFEF000 - snd t * 0x11000" unfolding t(2) by (rule u(2))
  then show "unat (t_sp th) = unat (t_stack th) + 65536" "0xBFF78000 \<le> unat (t_stack th)" "unat (t_sp th) \<le> 0xBFFFF000"
    using u(1) t(1,3) by simp_all
qed (use assms in \<open>auto simp: thread_typed_def\<close>)

lemma typed_apart:
  assumes "thread_typed (p, i) a" "t_process a \<noteq> None" and "thread_typed (p, j) b" "t_process b \<noteq> None"
    and "p \<noteq> Idle" "i \<noteq> j"
  shows "stacks_apart a b"
proof -
  note a = typed_stack [OF assms(1,2)] and b = typed_stack [OF assms(3,4)]
  show ?thesis using a(1,5,6) b(1,5,6) assms(5,6) by (simp add: stacks_apart_def) linarith
qed

section \<open>Every reachable state\<close>

text \<open>
  C15. The records of the threads.  In every reachable state an unused slot has no stack; a used one
  belongs to the process it is a slot of, is one of its eight, and has a kernel stack unless it is the
  idle thread.  Outside the idle process its user stack is 64 KB below \<^verbatim>\<open>0xBFFFF000\<close> and above
  \<^verbatim>\<open>0xBFF78000\<close>, and a page at least lies between it and the stack of any other thread of the process.
\<close>

theorem thread_records_typed:
  assumes "reachable dev s"
  shows "let th = threads s (p, i) in
    if t_process th = None then t_stack th = 0 \<and> t_sp th = 0 \<and> t_stack0 th = 0
    else t_process th = Some p \<and> i < 8 \<and> (t_stack0 th = 0 \<longrightarrow> (p, i) = idle) \<and>
      (if p = Idle then t_stack th = 0 \<and> t_sp th = 0
       else unat (t_sp th) = unat (t_stack th) + 64 * 1024 \<and> 0xBFF78000 \<le> unat (t_stack th) \<and> unat (t_sp th) \<le> 0xBFFFF000 \<and>
         (\<forall>j. j \<noteq> i \<and> t_process (threads s (p, j)) \<noteq> None \<longrightarrow> stacks_apart th (threads s (p, j))))"
proof -
  note typed = all_threadsD [OF typed.reachable_law [OF assms]]
  show ?thesis
  proof (cases "t_process (threads s (p, i)) = None")
    case True
    then show ?thesis using typed [of "(p, i)"] by (simp add: thread_typed_def)
  next
    case False
    note u = typed_stack [OF typed False]
    have k: "t_process (threads s (p, i)) = Some p" "i < 8" "t_stack0 (threads s (p, i)) = 0 \<longrightarrow> (p, i) = idle"
      "(t_stack (threads s (p, i)), t_sp (threads s (p, i))) = user_stack (p, i)"
      using False typed [of "(p, i)"] by (auto simp: thread_typed_def)
    show ?thesis
    proof (cases "p = Idle")
      case True
      then show ?thesis using k by (simp add: user_stack_def Let_def)
    next
      case user: False
      have "stacks_apart (threads s (p, i)) (threads s (p, j))" if "j \<noteq> i" "t_process (threads s (p, j)) \<noteq> None" for j
        by (rule typed_apart [OF typed False typed that(2) user]) (use that in simp)
      then show ?thesis using user u(1-3) k by (simp add: Let_def)
    qed
  qed
qed

text \<open>At the threads that \<^verbatim>\<open>kmain\<close> has started.\<close>

theorem thread_records_typed_witness:
  "\<exists>k. reachable quiet_device k \<and> t_stack0 (threads k (Idle, 1)) = 0xE0000010 \<and>
     t_process (threads k (Idle, 1)) = Some Idle \<and> t_stack (threads k (Idle, 1)) = 0 \<and> t_sp (threads k (Idle, 1)) = 0"
proof -
  obtain k where k: "reachable quiet_device k" "threads k (Idle, 1) = ready_thread 0xE0000010" by (rule two_started)
  have t: "t_process (threads k (Idle, 1)) = Some Idle" "t_stack0 (threads k (Idle, 1)) = 0xE0000010"
    unfolding k(2) ready_thread_def kernel_thread_def by simp_all
  then have "t_stack (threads k (Idle, 1)) = 0 \<and> t_sp (threads k (Idle, 1)) = 0"
    using thread_records_typed [OF k(1), of Idle 1] by (simp add: Let_def)
  then show ?thesis using k(1) t by blast
qed

end
