(* ===== verification/Reaper.thy ===== *)
theory Reaper
  imports Destroy_Frame Life_Props User_Calls Reports
begin

text \<open>
  The two threads of \<^verbatim>\<open>kernel/src/kmain.c\<close>: a turn of each around its endless loop, and the pass of
  \<^verbatim>\<open>reaper_thread\<close> over the processes, which walks the list that it takes apart on its way.
\<close>

section \<open>The pass\<close>

text \<open>The next process is read before the current one may be freed.\<close>

partial_function (option) reaper_pass :: "pref option \<Rightarrow> kernel \<Rightarrow> kernel option" where
  "reaper_pass q s =
     (case q of None \<Rightarrow> Some s
      | Some p \<Rightarrow> do {
          pr \<leftarrow> procs s p;
          let nxt = p_next pr;
          s \<leftarrow> reaper_visit p s;
          reaper_pass nxt s })"

lemma reaper_pass_simps [simp]:
  "reaper_pass None s = Some s"
  "reaper_pass (Some p) s = do { pr \<leftarrow> procs s p; s \<leftarrow> reaper_visit p s; reaper_pass (p_next pr) s }"
  by (subst reaper_pass.simps, simp)+

text \<open>
  A turn of each thread around its loop; \<open>c\<close> holds its registers at the system call, and the next turn
  starts when the thread that sleeps is scheduled again.  \<^verbatim>\<open>sys_exit\<close> behind the loops is never reached.
\<close>

definition reaper_turn ::
  "u8 list \<Rightarrow> u32 \<times> interrupt_context \<Rightarrow> u32 \<Rightarrow> interrupt_context \<Rightarrow> kernel \<Rightarrow> (control \<times> kernel) option" where
  "reaper_turn junk frame ctx c s = do {
     s \<leftarrow> reaper_pass (first_process s) s;
     interrupt junk frame ctx (sys_sleep 5000 c) s }"

definition heap_debug_turn ::
  "mem \<Rightarrow> string \<Rightarrow> device \<Rightarrow> u8 list \<Rightarrow> u32 \<times> interrupt_context \<Rightarrow> u32 \<Rightarrow> interrupt_context \<Rightarrow> kernel \<Rightarrow> debug \<Rightarrow>
     (control \<times> kernel \<times> debug) option" where
  "heap_debug_turn m text dev junk frame ctx c s d = do {
     d \<leftarrow> heap_report m text dev s d;
     (ctl, s) \<leftarrow> interrupt junk frame ctx (sys_sleep 30000 c) s;
     Some (ctl, s, d) }"

section \<open>The walk\<close>

definition dying :: "kernel \<Rightarrow> pref \<Rightarrow> bool" where
  "dying s p \<longleftrightarrow> map_option p_state (procs s p) = Some PROCESS_DYING"

lemma dying_kept: "dying s p \<longleftrightarrow> map_option (\<lambda>(a, b, c, d). c) (map_option kept (procs s p)) = Some PROCESS_DYING"
  by (cases "procs s p") (simp_all add: dying_def kept_def)

lemma others_keptD:
  assumes "others_kept p s s'" and "x \<noteq> p"
  shows "dying s' x = dying s x" "dying s x \<Longrightarrow> p_cr3 (the (procs s' x)) = p_cr3 (the (procs s x))"
proof -
  have r: "map_option kept (procs s' x) = map_option kept (procs s x)" using assms by (simp add: others_kept_def)
  then show "dying s' x = dying s x" by (simp only: dying_kept)
  show "p_cr3 (the (procs s' x)) = p_cr3 (the (procs s x))" if "dying s x"
    using r that by (cases "procs s' x"; cases "procs s x") (simp_all add: kept_def dying_def)
qed

lemma visit_cases:
  assumes "reaper_visit p s = Some s'"
  obtains "\<not> dying s p" "s' = s" | "dying s p" "sched_destroy_process (Some p) s = Some s'"
  using assms by (auto simp: reaper_visit_def dying_def bind_eq_Some_conv split: if_splits)

lemma idle_lives: "sched_inv X s Q \<Longrightarrow> dying s p \<Longrightarrow> p \<noteq> Idle"
  by (auto simp: sched_inv_def dying_def normal_def dest: sched_okD(3))

lemma visit_invariants:
  assumes inv: "sched_inv X s Q" and tab: "table_inv s ps" and r: "reaper_visit p s = Some s'"
  obtains Q' where "sched_inv X s' Q'" "table_inv s' ps \<and> s' = s \<or> table_inv s' (remove1 p ps) \<and> dying s p \<and> others_kept p s s'"
  using r
proof (cases rule: visit_cases)
  case 1
  then show ?thesis using inv tab that by blast
next
  case 2
  have p: "p \<noteq> Idle" by (rule idle_lives [OF inv 2(1)])
  obtain pr where pr: "procs s p = Some pr" using 2(1) by (auto simp: dying_def)
  show ?thesis
  proof (cases "cr3 s = p_cr3 pr")
    case True
    then have "s' = s" using 2(2) pr by (simp add: sched_destroy_process_def)
    then show ?thesis using inv tab that by blast
  next
    case False
    have "table_inv s' (remove1 p ps)" by (rule destroy_process_result [OF inv tab p pr False 2(2)])
    moreover obtain Q' where "sched_inv X s' Q'" using sched_destroy_process_inv [OF inv 2(2) p] by blast
    ultimately show ?thesis using that 2(1) kept_destroy [OF 2(2)] by blast
  qed
qed

lemma reaper_pass_walk:
  assumes "sched_inv X s Q" and "table_inv s (seen @ rest)"
  shows "reaper_pass (first_or rest None) s = for_each reaper_visit rest s"
  using assms
proof (induction rest arbitrary: s Q "seen")
  case (Cons p rest)
  have l: "distinct (seen @ p # rest)" "pseg (procs s) None (seen @ p # rest) None {}"
    using Cons.prems(2) by (auto simp: table_inv_def plist_def)
  then obtain pr where pr: "procs s p = Some pr" "p_next pr = first_or rest None"
    unfolding pseg_append by auto
  show ?case
  proof (cases "reaper_visit p s")
    case None
    then show ?thesis using pr by (simp add: first_or_def)
  next
    case (Some s1)
    obtain Q1 where 1: "sched_inv X s1 Q1"
      "table_inv s1 (seen @ p # rest) \<and> s1 = s \<or> table_inv s1 (remove1 p (seen @ p # rest)) \<and> dying s p \<and> others_kept p s s1"
      by (rule visit_invariants [OF Cons.prems Some])
    have "remove1 p (seen @ p # rest) = seen @ rest" using l(1) by (simp add: remove1_append)
    then have "table_inv s1 ((seen @ [p]) @ rest) \<or> table_inv s1 (seen @ rest)" using 1(2) by auto
    then have "reaper_pass (first_or rest None) s1 = for_each reaper_visit rest s1"
      using Cons.IH [OF 1(1)] by blast
    then show ?thesis using Some pr by (simp add: first_or_def)
  qed
qed (simp add: first_or_def)

lemma reaper_pass_result:
  assumes "sched_inv X s Q" and "table_inv s (seen @ rest)" and "\<And>p. p \<in> set rest \<Longrightarrow> dying s p \<Longrightarrow> p_cr3 (the (procs s p)) \<noteq> cr3 s"
    and "for_each reaper_visit rest s = Some s'"
  shows "(\<exists>Q'. sched_inv X s' Q') \<and> table_inv s' (seen @ filter (\<lambda>p. \<not> dying s p) rest)"
  using assms
proof (induction rest arbitrary: s Q "seen")
  case (Cons p rest)
  obtain s1 where s1: "reaper_visit p s = Some s1" "for_each reaper_visit rest s1 = Some s'"
    using Cons.prems(4) by (auto simp: bind_eq_Some_conv)
  have d: "distinct (seen @ p # rest)" using Cons.prems(2) by (auto simp: table_inv_def plist_def)
  show ?case
  proof (cases "dying s p")
    case False
    then have "s1 = s" using s1(1) by (auto elim: visit_cases)
    then show ?thesis using Cons.IH [OF Cons.prems(1), of "seen @ [p]"] Cons.prems(2,3) s1(2) False by simp
  next
    case True
    have p: "p \<noteq> Idle" by (rule idle_lives [OF Cons.prems(1) True])
    obtain pr where pr: "procs s p = Some pr" using True by (auto simp: dying_def)
    have c: "cr3 s \<noteq> p_cr3 pr" using Cons.prems(3) [of p] True pr by auto
    have r: "sched_destroy_process (Some p) s = Some s1" using s1(1) True by (auto elim: visit_cases)
    note k = kept_destroy [OF r]
    have np: "x \<noteq> p" if "x \<in> set rest" for x using d that by auto
    have cr: "p_cr3 (the (procs s1 x)) \<noteq> cr3 s1" if "x \<in> set rest" "dying s1 x" for x
      using Cons.prems(3) [of x] others_keptD [OF k np [OF that(1)]] that k by (simp add: others_kept_def)
    have f: "filter (\<lambda>x. \<not> dying s1 x) rest = filter (\<lambda>x. \<not> dying s x) rest"
      using others_keptD(1) [OF k np] by (intro filter_cong) simp_all
    have "table_inv s1 (remove1 p (seen @ p # rest))" by (rule destroy_process_result [OF Cons.prems(1,2) p pr c r])
    then have "table_inv s1 (seen @ rest)" using d by (simp add: remove1_append)
    moreover obtain Q1 where "sched_inv X s1 Q1" using sched_destroy_process_inv [OF Cons.prems(1) r p] by blast
    ultimately show ?thesis using Cons.IH [of s1 _ "seen", OF _ _ cr s1(2)] True f by auto
  qed
qed auto


text \<open>
  C39. A pass of the reaper over the processes.  It goes through the list that it takes apart, yet it visits exactly
  the processes that were there when it started, each once and in their order, and comes to an end or
  to a fault of a destruction; in particular, following \<^verbatim>\<open>next\<close> never leads into a process that was
  freed.  When no dying process has the loaded address space, the processes that are left are those
  that were not dying, in their order, and both invariants of the kernel hold.
\<close>

theorem reaper_pass_buries_the_dead:
  assumes "sched_inv {} s Q" and "table_inv s ps"
  shows "reaper_pass (first_process s) s = for_each reaper_visit ps s \<and>
    ((\<forall>p \<in> set ps. dying s p \<longrightarrow> p_cr3 (the (procs s p)) \<noteq> cr3 s) \<longrightarrow>
     (\<forall>s'. reaper_pass (first_process s) s = Some s' \<longrightarrow>
        table_inv s' (filter (\<lambda>p. \<not> dying s p) ps) \<and> (\<exists>Q'. sched_inv {} s' Q')))"
proof -
  have f: "first_process s = first_or ps None" using assms(2) by (simp add: table_inv_def plist_def)
  have walk: "reaper_pass (first_process s) s = for_each reaper_visit ps s"
    unfolding f by (rule reaper_pass_walk [OF assms(1), of "[]"]) (use assms(2) in simp)
  have "table_inv s' (filter (\<lambda>p. \<not> dying s p) ps) \<and> (\<exists>Q'. sched_inv {} s' Q')"
    if "\<forall>p \<in> set ps. dying s p \<longrightarrow> p_cr3 (the (procs s p)) \<noteq> cr3 s" "for_each reaper_visit ps s = Some s'" for s'
    using reaper_pass_result [OF assms(1), of "[]" ps s'] assms(2) that by simp
  then show ?thesis unfolding walk by blast
qed

theorem reaper_pass_buries_the_dead_witness:
  "\<exists>s'. reaper_pass (Some user) (demo idle PROCESS_DYING demo_doomed) = Some s' \<and> table_inv s' [Idle]"
proof -
  let ?s = "demo idle PROCESS_DYING demo_doomed"
  obtain s' where s': "sched_destroy_process (Some user) ?s = Some s'" using demo_doomed_destroyed by blast
  have d: "dying ?s user" "\<not> dying ?s Idle" "procs ?s user \<noteq> None" "p_state (the (procs ?s user)) = PROCESS_DYING"
    by (simp_all add: dying_def zero_process_def)
  have v: "reaper_visit user ?s = Some s'" using d s' by (auto simp: reaper_visit_def)
  have "\<not> dying s' Idle" using others_keptD(1) [OF kept_destroy [OF s'], of Idle] d(2) by simp
  moreover have "table_inv s' [Idle]"
    using destroy_process_result [OF demo_inv [OF demo_doomed_wf] demo_table _ _ _ s', of "the (procs ?s user)"] d(3)
    by (auto simp: zero_process_def)
  then have "procs s' Idle \<noteq> None" by (auto simp: table_inv_def plist_def)
  ultimately have "reaper_visit Idle s' = Some s'" by (auto simp: reaper_visit_def dying_def)
  then have run: "for_each reaper_visit [user, Idle] ?s = Some s'" by (simp add: v)
  have "first_process ?s = Some user" by simp
  then show ?thesis
    using reaper_pass_buries_the_dead [OF demo_inv [OF demo_doomed_wf] demo_table, of PROCESS_DYING] run d(1,2)
    by (simp add: zero_process_def)
qed

end
