(* ===== verification/Reach_Props.thy ===== *)
theory Reach_Props
  imports Kmain_Threads Sched_Props Reaper
begin

text \<open>
  The two invariants of the kernel in every state it reaches.  \<open>reachable\<close> starts at \<open>sched_init\<close> and takes
  the steps of \<open>kernel_step\<close>; among them is a \<^verbatim>\<open>SYS_NPROCESS\<close> only while the heap is intact (\<open>heap_intact\<close>).
\<close>

section \<open>A heap that is intact\<close>

text \<open>The kernel with the two threads of \<^verbatim>\<open>kmain\<close> may create a process for a program of 100 bytes.\<close>

lemma two_blocks_intact:
  fixes k :: kernel
  assumes inv: "heap_inv k [(4096, True), (4096, True), (90064, False)]" and procs: "dom (procs k) = {Idle}"
  shows "heap_intact 100 k"
proof -
  let ?L = "[(4096, True), (4096, True), (90064, False)]"
  have "heap_request 100 k \<and> (\<exists>s1. heap_alloc 100 k = Some (0xE0002030, s1) \<and>
      heap_inv s1 [(4096, True), (4096, True), (100, True), (89948, False)])"
    by (rule request_step [OF inv, where k = 100 and m = 90064 and ?L1.0 = "[(4096, True), (4096, True)]" and ?L2.0 = "[]"])
      (simp_all add: split_blk_def Heap_Ops.fits_def)
  then obtain s1 where s1: "heap_request 100 k" "heap_alloc 100 k = Some (0xE0002030, s1)"
    "heap_inv s1 [(4096, True), (4096, True), (100, True), (89948, False)]" by blast
  have "heap_request 1636 s1 \<and> (\<exists>s2. heap_alloc 1636 s1 = Some (0xE00020A4, s2) \<and>
      heap_inv s2 [(4096, True), (4096, True), (100, True), (1636, True), (88296, False)])"
    by (rule request_step [OF s1(3), where k = 1636 and m = 89948 and
          ?L1.0 = "[(4096, True), (4096, True), (100, True)]" and ?L2.0 = "[]"])
      (simp_all add: split_blk_def Heap_Ops.fits_def)
  then have "serviceable heap_alloc heap_free heap_request [Request 100, Request 1636] (k, [])"
    using s1(1,2) by auto
  moreover have "process_blocks k ?L" using procs by (auto simp: process_blocks_def)
  ultimately show ?thesis using inv unfolding heap_intact_def by blast
qed

section \<open>The invariants\<close>

text \<open>
  C1. In every state the kernel reaches from \<open>sched_init\<close>, by interrupts, system calls, the reaper and
  stores of the running threads, the invariant of the scheduler holds: the five kinds of queues are
  well-formed lists, a thread is in at most one, in the one its state names, and only threads of
  existing processes are queued; the current process is the current thread's and its page directory is
  loaded; the idle thread is current or ready; and no thread is lost: every thread of a process that is
  not dying is queued, or it is the current one and running.  One condition restricts the runs: when a
  \<^verbatim>\<open>SYS_NPROCESS\<close> is made, the heap is intact, that is, its block list is sound, its used blocks hold the processes,
  and neither of the two requests meets the wrong split of property C40.  A heap that has been corrupted could put
  the new process over an existing one; that an intact heap does not is proved (\<open>heap_intact_fresh\<close>).
\<close>

theorem reachable_scheduler:
  assumes "reachable dev s"
  shows "\<exists>Q. sched_inv {} s Q"
  using reachable_ok [OF assms] by (simp add: kernel_ok_def)

text \<open>The kernel with the two threads of \<^verbatim>\<open>kmain\<close>, whose heap is intact.\<close>

theorem reachable_scheduler_witness:
  "\<exists>k. reachable quiet_device k \<and> (\<exists>Q. sched_inv {} k Q) \<and> t_state (threads k (Idle, 1)) = THREAD_READY \<and>
     t_state (threads k (Idle, 2)) = THREAD_READY \<and> heap_intact 100 k"
proof -
  obtain k where k: "reachable quiet_device k" "heap_inv k [(4096, True), (4096, True), (90064, False)]"
    "dom (procs k) = {Idle}" "threads k (Idle, 1) = ready_thread 0xE0000010" "threads k (Idle, 2) = ready_thread 0xE0001020"
    by (rule two_started)
  have "heap_intact 100 k" by (rule two_blocks_intact [OF k(2,3)])
  then show ?thesis using reachable_scheduler [OF k(1)] k(1,4,5) by (auto simp: ready_thread_def)
qed

text \<open>
  C2. In every state that the kernel reaches, from \<open>sched_init\<close> or from any state in which both invariants
  hold, the process table is consistent: \<^verbatim>\<open>first_process\<close> heads a doubly linked
  list of exactly the processes that exist, without repetition; the father of every process but the
  idle one is an older process of the list, so no pointer leads to a process that was freed; and every
  mailbox is a ring of at most 16 messages of at most 64 bytes.  As for property C1, a \<^verbatim>\<open>SYS_NPROCESS\<close> is among the
  steps only while the heap is intact.
\<close>

theorem reachable_processes:
  assumes "reachable dev s \<or> kernel_ok s" and "kernel_step\<^sup>*\<^sup>* s s'"
  shows "\<exists>ps. table_inv s' ps"
proof -
  have "kernel_ok s" using assms(1) reachable_ok by blast
  with assms(2) have "kernel_ok s'" by (induction rule: rtranclp_induct) (auto intro: kernel_step_ok)
  then show ?thesis by (simp add: kernel_ok_def)
qed

text \<open>The reaper takes the dying user process out of the table.\<close>

theorem reachable_processes_witness:
  "\<exists>s'. kernel_step (demo idle PROCESS_DYING demo_doomed) s' \<and> procs (demo idle PROCESS_DYING demo_doomed) user \<noteq> None \<and>
     (\<exists>ps. table_inv s' ps) \<and> procs s' user = None"
proof -
  let ?s = "demo idle PROCESS_DYING demo_doomed"
  obtain s' where s': "sched_destroy_process (Some user) ?s = Some s'" using demo_doomed_destroyed by blast
  have d: "procs ?s user \<noteq> None" "p_state (the (procs ?s user)) = PROCESS_DYING" "current_process ?s = Some Idle"
    by (simp_all add: zero_process_def)
  then have "reaper_visit user ?s = Some s'" using s' by (auto simp: reaper_visit_def)
  then have step: "kernel_step ?s s'" by (rule kernel_step.reaper_step [OF d(3)])
  have "table_inv s' [Idle]"
    using destroy_process_result [OF demo_inv [OF demo_doomed_wf] demo_table _ _ _ s', of "the (procs ?s user)"] d(1)
    by (auto simp: zero_process_def)
  then have "dom (procs s') = {Idle}" by (simp add: table_inv_def plist_def)
  then have "procs s' user = None" by (auto simp: dom_def)
  moreover have "kernel_ok ?s" using demo_inv [OF demo_doomed_wf] demo_table [of idle] unfolding kernel_ok_def by blast
  ultimately show ?thesis using reachable_processes [of plain_device ?s s'] step d(1) by blast
qed

end
