(* ===== verification/Init_Program.thy ===== *)
theory Init_Program
  imports User_Calls
begin

text \<open>
  \<^verbatim>\<open>initrd/init/src/main.c\<close>, the program in the initial ramdisk, by the system calls it makes.  Its start
  code, which passes the value of \<^verbatim>\<open>main\<close> to \<^verbatim>\<open>sys_exit\<close>, is assembly.
\<close>

section \<open>The program\<close>

text \<open>A turn of the endless loop of \<^verbatim>\<open>proc\<close>; the \<^verbatim>\<open>sys_exit\<close> behind it is never reached.\<close>

definition proc_turn :: "interrupt_context \<Rightarrow> interrupt_context" where
  "proc_turn c = sys_sleep 1000 c"

text \<open>\<^verbatim>\<open>main\<close>: the registers of its system call, and the value it returns.\<close>

definition init_main :: "u32 \<Rightarrow> interrupt_context \<Rightarrow> interrupt_context \<times> u32" where
  "init_main proc c = (sys_nprocess proc 512 c, 42)"

section \<open>What the kernel sees of it\<close>

text \<open>The image of the second process is a page, and its loop sleeps for 100 ticks of 10 milliseconds.\<close>

lemma init_calls:
  "c_eax (fst (init_main proc c)) = 3" "c_ebx (fst (init_main proc c)) = proc" "c_ecx (fst (init_main proc c)) = 512"
  "align_up (c_ecx (fst (init_main proc c))) PAGE_SIZE div PAGE_SIZE = 1"
  "c_eax (proc_turn c) = 5" "c_ebx (proc_turn c) div 10 = 100"
  by (simp_all add: init_main_def proc_turn_def wrapper_defs align_up_def)

end
