(* ===== verification/Spec2Isabelle.thy ===== *)
theory Spec2Isabelle
  imports Queue Cstring Ring_Buffer Itoa Vsnprintf Initrd Spinlock Bitmap Pmm Descriptors Ports
    Terminal Address_Space Kernel_Heap Sched_Props Life_Props Slot_Props User_Calls Debug
    Kmain Thread_Create Reports Sleep_Props Thread_Props Kmain_Threads Reaper Reach_Props Init_Program
begin

text \<open>
  Gummy is a small i686 kernel in C.  The boot loader hands over an E820 memory map and an initial
  ramdisk; \<^verbatim>\<open>kmain\<close> then brings up the descriptor tables, the interrupt controller, the timer,
  the serial port and the text screen, the physical and virtual memory managers, the kernel heap,
  and the scheduler with its processes, threads, mailboxes and system calls.  \<^verbatim>\<open>lib/\<close> holds the
  freestanding library the kernel and user programs share.

  \<^bold>\<open>Conventions\<close> (theory Prelude).  Machine integers are words of their C width.  A C object reached
  through a pointer is an explicit store; a state is a record and every operation returns the
  updated record.  What the C standard or the processor leaves undefined, or turns into a fault
  inside the kernel (a \<^verbatim>\<open>NULL\<close> or wild access, an index outside an array, an access to an
  unmapped page), is \<^term>\<open>None\<close>; every return of the code, its error returns included, is a
  value under \<^term>\<open>Some\<close>.  Operations take record schemes, so that the state of one component
  extends the state of the components it calls.

  \<^bold>\<open>lib/\<close>.  Queue models \<^verbatim>\<open>queue.c\<close> over a store of nodes and queues and proves that every
  operation refines a list per queue; Ring_Buffer (\<^verbatim>\<open>ring_buffer.c\<close>) refines a bounded list, through
  the locale \<open>bounded_fifo\<close>; Cstring and Itoa (\<^verbatim>\<open>string.c\<close>) work on flat memory and on byte objects;
  Vsnprintf (\<^verbatim>\<open>vsnprintf.c\<close>) runs the format automaton over the i386 argument area and is proved
  against a rendering function without buffers; Initrd (\<^verbatim>\<open>initrd.c\<close>) reads flat memory and is proved
  against the archive layout \<^verbatim>\<open>initrd/make-initrd\<close> writes; Spinlock (\<^verbatim>\<open>spinlock.c\<close>) is a step relation
  with one step per access to the lock word.

  \<^bold>\<open>Memory management\<close>.  Bitmap (\<^verbatim>\<open>include/bitmap.h\<close>) and Pmm (\<^verbatim>\<open>pmm.c\<close>): the page bitmap; the locale
  \<open>page_allocator\<close> states what a client may rely on and is interpreted on the code's operations.
  Vmm (\<^verbatim>\<open>vmm.c\<close>) holds the definitions: page directory and page tables in physical memory, reached
  through the recursive mapping, with the MMU's walk as the meaning of an address.  Vmm_Map proves
  mapping and unmapping, Vmm_Alloc the region allocator, Address_Space the properties: what the MMU
  translates afterwards, and that the \<^verbatim>\<open>_in\<close> variants restore \<^verbatim>\<open>cr3\<close> and the flags.

  \<^bold>\<open>Kernel heap\<close> (\<^verbatim>\<open>heap.c\<close>).  Heap holds the definitions: block headers in virtual memory, read and written
  through the page tables.  Heap_Memory and Heap_List relate the headers to a list of blocks, Heap_Ops,
  Heap_Grow, Heap_Alloc and Heap_Contract prove the operations on it, the locale \<open>region_allocator\<close> in
  Heap_Clients states what a client may rely on and is interpreted there on the code's operations, and
  Kernel_Heap holds the properties.

  \<^bold>\<open>Processor and devices\<close>.  Descriptors (\<^verbatim>\<open>gdt.c\<close>, \<^verbatim>\<open>tss.c\<close>, \<^verbatim>\<open>idt.c\<close>) encodes the tables and reads
  them back; Ports (\<^verbatim>\<open>pic.c\<close>, \<^verbatim>\<open>pit.c\<close>, \<^verbatim>\<open>serial.c\<close>) gives the port accesses in order, with the devices'
  answers as a parameter; Terminal (\<^verbatim>\<open>vga.c\<close>, \<^verbatim>\<open>terminal.c\<close>) refines a screen of lines and a cursor;
  Debug (\<^verbatim>\<open>debug.c\<close>, \<^verbatim>\<open>e820.c\<close>) composes formatting, screen, serial port and lock into the kernel's log, and
  Reports gives the longer texts written to it: the ramdisk at the end of \<^verbatim>\<open>kmain\<close>, an exception, the heap.

  \<^bold>\<open>Threads and processes\<close>.  Kernel_State is the state of \<^verbatim>\<open>sched.h\<close>: threads, processes and queues in
  stores keyed by references, on top of the heap and the page tables; User_Memory the accesses to the
  callers' buffers.  Scheduler (\<^verbatim>\<open>sched.c\<close> and the queue operations of \<^verbatim>\<open>thread.c\<close>), Thread (\<^verbatim>\<open>thread.c\<close>),
  Process (\<^verbatim>\<open>process.c\<close>), Ipc (\<^verbatim>\<open>ipc.c\<close>), Syscall (\<^verbatim>\<open>syscall.c\<close>, \<^verbatim>\<open>exception.c\<close>, the dispatch of interrupts)
  and User_Calls (the wrappers in \<^verbatim>\<open>include/arch/i686/syscall.h\<close>) are the code.  A piece of kernel code ends by
  returning, by restoring another thread's context, or in a loop around \<^verbatim>\<open>hlt\<close> (\<open>control\<close>; the halt is for good
  when the interrupt flag of the state left behind is clear, as after a panic and in property C12); a thread that
  waits inside \<open>ipc_receive\<close> leaves what it needs to go on in \<open>receiving\<close>.

  \<^bold>\<open>Invariants of the kernel\<close>.  \<open>sched_inv\<close> (Sched_Inv) relates the thread states to the queues and says
  that no thread is lost; Sched_Run, Kernel_Frame, Kernel_Ops, Kernel_Calls and Kernel_Procs show that
  every operation keeps it.  \<open>table_inv\<close> (Process_Table, on the doubly linked lists of Process_List)
  describes the process table and the mailboxes; a mailbox is a \<open>bounded_fifo\<close> of messages (Mailbox);
  Process_Life creates and destroys processes under it, Destroy_Frame says what a destruction leaves alone.
  Heap_Intact shows that a heap whose block list is sound and whose used blocks hold the processes gives a new
  process memory of its own.  Kernel_Step puts the interrupts together,
  Kernel_Reach is the transition system from \<open>sched_init\<close> on with both invariants by rule induction, and
  Kernel_Demo builds concrete kernels for the witnesses.  The properties are in Reach_Props (the two invariants),
  Sched_Props (round robin, waiting time, sleeping, exiting), Proc_Props (the process list, messages),
  Life_Props (the ends of processes, exceptions) and Slot_Props (the slots of threads).  Sleep_Props joins the
  system call, the sleep queue and the timer into how
  long a thread sleeps.  Kernel_After has rules for what holds after a program, one for every way the
  code is put together, in the locale \<open>sched_only\<close>; on them, the locales \<open>thread_writes\<close>, \<open>thread_creates\<close> and
  \<open>thread_law\<close> in Thread_Law, each extending the one before, show once that a
  property of thread records which survives the writes the kernel makes to them holds in every
  reachable state; Slot_Props interprets the first and Thread_Props the last, on the form of the records, and derives
  where the stacks lie.

  \<^bold>\<open>What the reachable states assume\<close>.  The steps of the transition system are the interrupts, the rest of a
  system call that waited, a visit of the reaper, stores of the running thread and the enabling of interrupts; threads of the idle process run
  kernel code, and the idle thread makes no \<^verbatim>\<open>SYS_RECEIVE\<close>.  One condition is about the code itself:
  \<^verbatim>\<open>SYS_NPROCESS\<close> is a step only in states whose heap is intact (\<open>heap_intact\<close> in Heap_Intact): the block list
  is sound, every process lies in a used block of it, and the requests for the program and for the process meet
  no block that is 4, 8 or 12 bytes too large.  That the new process then lies over no other one is proved, not
  assumed.  The condition does exclude runs of the code: property C40 and the stores through
  unchecked pointers of user code can corrupt the heap, and after that a new process may overwrite an old one.  So the
  properties over reachable states (C1, C2, C15, C17, C19) are about runs that create processes in an intact heap.

  \<^bold>\<open>Kernel main\<close> (\<^verbatim>\<open>kmain.c\<close>).  Kmain composes the initialisations and shows that they end in a state of the
  transition system; Thread_Create follows the start of a kernel thread down to the heap block of its stack;
  Kmain_Threads is the start of a thread by system call in any reachable state, since interrupts are enabled when
  \<^verbatim>\<open>kmain\<close> starts its two, and Reports what \<^verbatim>\<open>kmain\<close> logs of the archive.  Reaper has a
  turn of each kernel thread around its loop and the pass of the reaper over the process list.  Init_Program is
  the program in the initial ramdisk (\<^verbatim>\<open>initrd/init/src/main.c\<close>).

  \<^bold>\<open>Fuel\<close>.  No definition of the model runs out of fuel silently: loops that might not end (\<^verbatim>\<open>strlen\<close>, the
  polling of the serial port, the lists of sleepers, processes and heap blocks, the pass of the reaper) are
  \<^verbatim>\<open>partial_function (option)\<close>, and the properties show that they return; other loops carry the number
  of iterations of the C loop.

  \<^bold>\<open>Not modelled\<close>.  The boot loader, the interrupt stubs and the port instructions are assembly.  What is
  printed is modelled over the log alone, in Debug and Reports; the operations of the other components leave
  their calls of \<^verbatim>\<open>printk\<close> out.  After it has enabled interrupts \<^verbatim>\<open>kmain\<close> is not modelled as one program:
  its calls and its report are separate operations, and what interrupts do between them is the subject of the
  transition system.  The archive is flat memory of its own; that \<open>pmm_init\<close> does not reserve its pages is part of
  property C24.  The bytes
  of the structures of processes and threads inside the heap are not modelled, so a system call that
  overwrites them through an unchecked pointer is not either.  The reaper's visit of a process is one
  step although interrupts are enabled while it runs.
  The MMU has no 4 MB pages, its TLB is coherent, and supervisor writes ignore the write protection of a
  page, as in the configuration the kernel boots with.
\<close>

end
